(* ===== verification/Prelude.thy ===== *)
theory Prelude
  imports "HOL-Library.Word"
begin

text \<open>
  Shared vocabulary of the development: the machine integers of the Rust code, results,
  little-endian byte strings, and the generic lemmas the component theories use.

  Unsigned integers and \<open>i32\<close> bit fields are words of their width; \<open>i64\<close> amounts
  and times are integers whose range is stated where the code checks it; \<open>usize\<close> is
  \<open>nat\<close> (a 64-bit target, no collection of more than \<open>2 ^ 64\<close> elements).
\<close>

unbundle bit_operations_syntax

type_synonym u8 = "8 word"
type_synonym u16 = "16 word"
type_synonym u32 = "32 word"
type_synonym u64 = "64 word"
type_synonym i32 = "32 word"
type_synonym i64 = int
type_synonym bytes = "8 word list"
type_synonym hash32 = "8 word list"

named_theorems decode_simps \<open>evaluation rules of the decoder's reads\<close>
named_theorems size_simps \<open>lengths of encodings\<close>

section \<open>Results\<close>

text \<open>Rust's \<open>?\<close> on a \<open>Result\<close>: the error returns early, the value is bound.\<close>

definition res_bind :: "'e + 'a \<Rightarrow> ('a \<Rightarrow> 'e + 'b) \<Rightarrow> 'e + 'b" where
  "res_bind r k = (case r of Inl e \<Rightarrow> Inl e | Inr x \<Rightarrow> k x)"

lemma res_bind_simps [simp]:
  "res_bind (Inl e) k = Inl e"
  "res_bind (Inr x) k = k x"
  by (simp_all add: res_bind_def)

lemma res_bind_eq_Inr:
  "res_bind r k = Inr y \<longleftrightarrow> (\<exists>x. r = Inr x \<and> k x = Inr y)"
  by (cases r) simp_all

lemma res_bind_InrE [elim!]:
  assumes "res_bind r k = Inr y"
  obtains x where "r = Inr x" "k x = Inr y"
  using assms by (cases r) simp_all

lemma res_bind_cong [fundef_cong]:
  assumes "r = r'" and "\<And>x. r' = Inr x \<Longrightarrow> k x = k' x"
  shows "res_bind r k = res_bind r' k'"
  using assms by (cases r') simp_all

text \<open>A guard with an early \<open>return Err(e)\<close>.\<close>

definition guard :: "bool \<Rightarrow> 'e \<Rightarrow> 'e + unit" where
  "guard b e = (if b then Inr () else Inl e)"

lemma guard_eq_Inr [simp]: "guard b e = Inr u \<longleftrightarrow> b"
  by (simp add: guard_def)

lemma guard_simps [simp]:
  "guard True e = Inr ()"
  "guard False e = Inl e"
  by (simp_all add: guard_def)

fun is_ok :: "'e + 'a \<Rightarrow> bool" where
  "is_ok (Inl e) = False"
| "is_ok (Inr x) = True"

lemma is_ok_iff: "is_ok r \<longleftrightarrow> (\<exists>x. r = Inr x)"
  by (cases r) simp_all

section \<open>Checked arithmetic on 64-bit signed integers\<close>

definition i64_min :: int where "i64_min = - (2 ^ 63)"
definition i64_max :: int where "i64_max = 2 ^ 63 - 1"

definition in_i64 :: "int \<Rightarrow> bool" where
  "in_i64 x \<longleftrightarrow> i64_min \<le> x \<and> x \<le> i64_max"

definition checked_add_i64 :: "int \<Rightarrow> int \<Rightarrow> int option" where
  "checked_add_i64 a b = (if in_i64 (a + b) then Some (a + b) else None)"

lemma checked_add_i64_Some [simp]:
  "checked_add_i64 a b = Some c \<longleftrightarrow> c = a + b \<and> in_i64 c"
  by (auto simp: checked_add_i64_def)

section \<open>Little-endian byte strings\<close>

fun le_bytes :: "nat \<Rightarrow> nat \<Rightarrow> bytes" where
  "le_bytes 0 v = []"
| "le_bytes (Suc n) v = word_of_nat (v mod 256) # le_bytes n (v div 256)"

fun le_val :: "bytes \<Rightarrow> nat" where
  "le_val [] = 0"
| "le_val (b # bs) = unat b + 256 * le_val bs"

lemma length_le_bytes [simp, size_simps]: "length (le_bytes n v) = n"
  by (induction n arbitrary: v) simp_all

lemma unat_bound: "unat (w :: 'a::len word) < 2 ^ LENGTH('a)"
  by (rule unsigned_less)

lemma unat_u8_lt [simp]: "unat (b :: u8) < 256"
  using unat_bound [of b] by simp

lemma unat_u16_lt [simp]: "unat (b :: u16) < 65536"
  using unat_bound [of b] by simp

lemma unat_u32_lt [simp]: "unat (b :: u32) < 4294967296"
  using unat_bound [of b] by simp

lemma unat_u64_lt [simp]: "unat (b :: u64) < 18446744073709551616"
  using unat_bound [of b] by simp

lemma unat_of_nat_u8: "unat (word_of_nat n :: u8) = n mod 256"
  by (simp add: unat_of_nat take_bit_eq_mod)

lemma le_val_le_bytes: "le_val (le_bytes n v) = v mod 256 ^ n"
proof (induction n arbitrary: v)
  case (Suc n)
  have "v mod (256 * 256 ^ n) = v mod 256 + 256 * (v div 256 mod 256 ^ n)"
    by (simp add: mod_mult2_eq)
  then show ?case using Suc by (simp add: unat_of_nat_u8)
qed simp

lemma le_val_bound: "le_val bs < 256 ^ length bs"
proof (induction bs)
  case (Cons b bs)
  have "unat b < 256" by simp
  moreover have "256 * le_val bs + 256 \<le> 256 * 256 ^ length bs"
    using Cons by simp
  ultimately have "unat b + 256 * le_val bs < 256 * 256 ^ length bs" by linarith
  then show ?case by simp
qed simp

lemma le_bytes_le_val: "le_bytes (length bs) (le_val bs) = bs"
proof (induction bs)
  case (Cons b bs)
  have "unat b < 256" by simp
  then have "(unat b + 256 * le_val bs) mod 256 = unat b"
    and "(unat b + 256 * le_val bs) div 256 = le_val bs" by simp_all
  with Cons show ?case by simp
qed simp

lemma le_val_small: "v < 256 ^ n \<Longrightarrow> le_val (le_bytes n v) = v"
  by (simp add: le_val_le_bytes)

lemma le_bytes_inj:
  "le_bytes n v = le_bytes n w \<Longrightarrow> v < 256 ^ n \<Longrightarrow> w < 256 ^ n \<Longrightarrow> v = w"
  by (metis le_val_small)

definition u16_le :: "u16 \<Rightarrow> bytes" where "u16_le w = le_bytes 2 (unat w)"
definition u32_le :: "u32 \<Rightarrow> bytes" where "u32_le w = le_bytes 4 (unat w)"
definition u64_le :: "u64 \<Rightarrow> bytes" where "u64_le w = le_bytes 8 (unat w)"

definition u16_of_le :: "bytes \<Rightarrow> u16" where "u16_of_le bs = word_of_nat (le_val bs)"
definition u32_of_le :: "bytes \<Rightarrow> u32" where "u32_of_le bs = word_of_nat (le_val bs)"
definition u64_of_le :: "bytes \<Rightarrow> u64" where "u64_of_le bs = word_of_nat (le_val bs)"

text \<open>\<open>i64::to_le_bytes\<close> and \<open>i64::from_le_bytes\<close>: two's complement.\<close>

definition i64_le :: "int \<Rightarrow> bytes" where "i64_le v = u64_le (word_of_int v)"
definition i64_of_le :: "bytes \<Rightarrow> int" where "i64_of_le bs = sint (u64_of_le bs)"

lemma length_uN_le [simp, size_simps]:
  "length (u16_le a) = 2" "length (u32_le b) = 4" "length (u64_le c) = 8" "length (i64_le i) = 8"
  by (simp_all add: u16_le_def u32_le_def u64_le_def i64_le_def)

lemma uN_of_le_le [simp]:
  "u16_of_le (u16_le a) = a"
  "u32_of_le (u32_le b) = b"
  "u64_of_le (u64_le c) = c"
  by (simp_all add: u16_of_le_def u16_le_def u32_of_le_def u32_le_def u64_of_le_def u64_le_def
      le_val_small)

lemma uN_le_of_le:
  "length bs = 2 \<Longrightarrow> u16_le (u16_of_le bs) = bs"
  "length bs = 4 \<Longrightarrow> u32_le (u32_of_le bs) = bs"
  "length bs = 8 \<Longrightarrow> u64_le (u64_of_le bs) = bs"
  using le_bytes_le_val [of bs] le_val_bound [of bs]
  by (simp_all add: u16_of_le_def u16_le_def u32_of_le_def u32_le_def u64_of_le_def u64_le_def
      unat_of_nat take_bit_eq_mod)

lemma i64_of_le_le [simp]: "in_i64 v \<Longrightarrow> i64_of_le (i64_le v) = v"
  by (simp add: i64_of_le_def i64_le_def in_i64_def i64_min_def i64_max_def
      signed_of_int signed_take_bit_int_eq_self_iff)

lemma in_i64_of_le [simp]: "in_i64 (i64_of_le bs)"
  using sint_range_size [of "u64_of_le bs"]
  by (simp add: i64_of_le_def in_i64_def i64_min_def i64_max_def word_size)

lemma i64_le_of_le: "length bs = 8 \<Longrightarrow> i64_le (i64_of_le bs) = bs"
  by (simp add: i64_le_def i64_of_le_def uN_le_of_le)

lemma unat_ucast_up:
  "LENGTH('a) \<le> LENGTH('b) \<Longrightarrow> unat (ucast (a :: 'a::len word) :: 'b::len word) = unat a"
  by (simp add: unsigned_ucast_eq take_bit_nat_eq_self_iff)
    (meson order_less_le_trans one_le_numeral power_increasing unsigned_less)

section \<open>Lists\<close>

lemma append_eq_takeI: "xs = ys @ zs \<Longrightarrow> take (length ys) xs = ys"
  by simp

lemma length_replicate_concat:
  "(\<forall>x \<in> set xs. length (f x) = n) \<Longrightarrow> length (concat (map f xs)) = n * length xs"
  by (induction xs) auto

lemma sum_list_map_le_bound:
  "(\<forall>x \<in> set xs. f x \<le> (n :: nat)) \<Longrightarrow> sum_list (map f xs) \<le> n * length xs"
  by (induction xs) auto

section \<open>Digits\<close>

lemma digit_inj:
  fixes a b x y B :: nat
  assumes "a < B" "b < B" "a + B * x = b + B * y"
  shows "a = b" and "x = y"
proof -
  have "(a + B * x) mod B = a" "(b + B * y) mod B = b" using assms(1,2) by simp_all
  then show "a = b" using assms(3) by simp
  then show "x = y" using assms by simp
qed

lemma digit_bound:
  fixes a x B M :: nat
  assumes "a < B" "x < M"
  shows "a + B * x < B * M"
proof -
  have "B * x + B \<le> B * M" using assms(2) by (metis Suc_leI mult_Suc_right mult_le_mono2 add.commute)
  with assms(1) show ?thesis by linarith
qed

section \<open>Bits of words\<close>

lemma unat_or_disjoint:
  fixes x y :: "'a::len word"
  assumes "x AND y = 0"
  shows "unat (x OR y) = unat x + unat y"
proof -
  have "unat (x OR y) = unat x OR unat y" by (simp add: unsigned_or_eq)
  also have "\<dots> = unat x + unat y"
    using assms by (intro disjunctive_add_eq_or [symmetric]) (simp flip: unsigned_and_eq)
  finally show ?thesis .
qed

lemma nat_bit_le: "bit (m :: nat) n \<Longrightarrow> 2 ^ n \<le> m"
  by (metis bit_iff_odd div_less even_zero not_le)

lemma word_bit_less:
  assumes "unat (x :: 'a::len word) < 2 ^ k" and "bit x n"
  shows "n < k"
proof -
  have "bit (unat x) n" using assms(2) by (simp add: bit_unsigned_iff bit_imp_possible_bit)
  then have "2 ^ n \<le> unat x" by (rule nat_bit_le)
  with assms(1) have "(2 :: nat) ^ n < 2 ^ k" by linarith
  then show ?thesis by simp
qed

lemma le_val_append: "le_val (xs @ ys) = le_val xs + 256 ^ length xs * le_val ys"
  by (induction xs) (simp_all add: algebra_simps)

end
