(* ===== verification/Encode.thy ===== *)
theory Encode
  imports Prelude
begin

text \<open>
  The bounded decoding cursor and the CompactSize codec of
  \<open>src/crates/avila-consensus/src/encode.rs\<close>.

  A \<open>Decoder\<close> is the record of its bytes and its position; a read is a function from a cursor
  to its result and the cursor it leaves (\<open>&mut self\<close>), also on an error. The locale \<open>codec\<close>
  states the contract between a reader and the writer of the same format, in both directions,
  and lifts it to the counted loops the transaction and block codecs run.
\<close>

definition MAX_SIZE :: u64 where "MAX_SIZE = 0x02000000"

datatype decode_error =
    UnexpectedEnd nat nat
  | NonCanonicalCompactSize
  | CompactSizeTooLarge u64
  | TrailingBytes nat
  | InputTooLarge nat nat
  | SuperfluousWitness
  | UnknownTransactionFlags u8
  | HeaderLength nat

record decoder =
  dec_bytes :: bytes
  dec_pos :: nat

type_synonym 'a rd = "decoder \<Rightarrow> (decode_error + 'a) \<times> decoder"

definition decoder_new :: "bytes \<Rightarrow> decoder" where
  "decoder_new bs = \<lparr>dec_bytes = bs, dec_pos = 0\<rparr>"

definition remaining :: "decoder \<Rightarrow> nat" where
  "remaining d = length (dec_bytes d) - dec_pos d"

definition is_finished :: "decoder \<Rightarrow> bool" where
  "is_finished d \<longleftrightarrow> remaining d = 0"

section \<open>Sequencing of reads\<close>

text \<open>Rust's \<open>let x = decoder.read()?; ...\<close> and \<open>Ok(x)\<close> and \<open>return Err(e)\<close>.\<close>

definition rd_bind :: "'a rd \<Rightarrow> ('a \<Rightarrow> 'b rd) \<Rightarrow> 'b rd" where
  "rd_bind m k d = (case m d of (Inl e, d') \<Rightarrow> (Inl e, d') | (Inr x, d') \<Rightarrow> k x d')"

definition rd_return :: "'a \<Rightarrow> 'a rd" where
  "rd_return x d = (Inr x, d)"

definition rd_fail :: "decode_error \<Rightarrow> 'a rd" where
  "rd_fail e d = (Inl e, d)"

text \<open>\<open>.inspect_err(|_| self.position = start)\<close>.\<close>

definition rd_reset_on_err :: "'a rd \<Rightarrow> 'a rd" where
  "rd_reset_on_err m d =
     (case m d of (Inl e, d') \<Rightarrow> (Inl e, d'\<lparr>dec_pos := dec_pos d\<rparr>) | (Inr x, d') \<Rightarrow> (Inr x, d'))"

section \<open>Primitive reads\<close>

definition read_bytes :: "nat \<Rightarrow> bytes rd" where
  "read_bytes len d =
     (let r = remaining d in
      if len > r then (Inl (UnexpectedEnd len r), d)
      else (Inr (take len (drop (dec_pos d) (dec_bytes d))), d\<lparr>dec_pos := dec_pos d + len\<rparr>))"

definition read_array :: "nat \<Rightarrow> bytes rd" where
  "read_array n = rd_bind (read_bytes n) rd_return"

definition read_u8 :: "u8 rd" where
  "read_u8 = rd_bind (read_array 1) (\<lambda>a. rd_return (a ! 0))"

definition read_u16_le :: "u16 rd" where
  "read_u16_le = rd_bind (read_array 2) (\<lambda>a. rd_return (u16_of_le a))"

definition read_u32_le :: "u32 rd" where
  "read_u32_le = rd_bind (read_array 4) (\<lambda>a. rd_return (u32_of_le a))"

definition read_u64_le :: "u64 rd" where
  "read_u64_le = rd_bind (read_array 8) (\<lambda>a. rd_return (u64_of_le a))"

definition read_i32_le :: "i32 rd" where
  "read_i32_le = rd_bind (read_array 4) (\<lambda>a. rd_return (u32_of_le a))"

definition read_i64_le :: "i64 rd" where
  "read_i64_le = rd_bind (read_array 8) (\<lambda>a. rd_return (i64_of_le a))"

section \<open>CompactSize\<close>

text \<open>The value the bytes after the prefix give (the \<open>let value = if prefix < 253 ...\<close> of
  \<open>read_compact_size_inner\<close>), and the range check after it.\<close>

definition read_compact_value :: "u8 \<Rightarrow> u64 rd" where
  "read_compact_value prefix =
     (if prefix < 253 then rd_return (ucast prefix)
      else if prefix = 253 then
        rd_bind read_u16_le (\<lambda>w. let v = ucast w :: u64 in
          if v < 253 then rd_fail NonCanonicalCompactSize else rd_return v)
      else if prefix = 254 then
        rd_bind read_u32_le (\<lambda>w. let v = ucast w :: u64 in
          if v < 0x10000 then rd_fail NonCanonicalCompactSize else rd_return v)
      else
        rd_bind read_u64_le (\<lambda>v.
          if v < 0x100000000 then rd_fail NonCanonicalCompactSize else rd_return v))"

definition read_compact_size_inner :: "u64 rd" where
  "read_compact_size_inner =
     rd_bind read_u8 (\<lambda>prefix. rd_bind (read_compact_value prefix) (\<lambda>v.
       if v > MAX_SIZE then rd_fail (CompactSizeTooLarge v) else rd_return v))"

definition read_compact_size :: "u64 rd" where
  "read_compact_size = rd_reset_on_err read_compact_size_inner"

definition read_var_bytes_inner :: "bytes rd" where
  "read_var_bytes_inner = rd_bind read_compact_size (\<lambda>len. read_bytes (unat len))"

definition read_var_bytes :: "bytes rd" where
  "read_var_bytes = rd_reset_on_err read_var_bytes_inner"

definition decoder_finish :: "decoder \<Rightarrow> decode_error + unit" where
  "decoder_finish d = (if is_finished d then Inr () else Inl (TrailingBytes (remaining d)))"

text \<open>\<open>checked_div\<close> by zero is \<open>None\<close>, for which the code takes \<open>remaining\<close>.\<close>

definition bounded_capacity :: "decoder \<Rightarrow> u64 \<Rightarrow> nat \<Rightarrow> nat" where
  "bounded_capacity d declared min_element_size =
     (let r = remaining d;
          by_remaining = (if min_element_size = 0 then r else r div min_element_size)
      in min (unat declared) by_remaining)"

definition compact_size_len :: "u64 \<Rightarrow> nat" where
  "compact_size_len v =
     (if v < 253 then 1 else if v \<le> 0xffff then 3 else if v \<le> 0xffffffff then 5 else 9)"

definition write_compact_size :: "u64 \<Rightarrow> bytes" where
  "write_compact_size v =
     (if v < 253 then [ucast v]
      else if v \<le> 0xffff then 253 # u16_le (ucast v)
      else if v \<le> 0xffffffff then 254 # u32_le (ucast v)
      else 255 # u64_le v)"

text \<open>\<open>bytes.len() as u64\<close>.\<close>

definition len_u64 :: "'a list \<Rightarrow> u64" where
  "len_u64 xs = word_of_nat (length xs)"

definition write_var_bytes :: "bytes \<Rightarrow> bytes" where
  "write_var_bytes bs = write_compact_size (len_u64 bs) @ bs"

section \<open>The bytes a read consumes\<close>

text \<open>\<open>consumes d w d'\<close>: the cursor \<open>d'\<close> is \<open>d\<close> moved over exactly the bytes \<open>w\<close>, which
  are the next ones of the input.\<close>

definition avail :: "decoder \<Rightarrow> bytes" where
  "avail d = drop (dec_pos d) (dec_bytes d)"

definition advance :: "nat \<Rightarrow> decoder \<Rightarrow> decoder" where
  "advance n d = d\<lparr>dec_pos := dec_pos d + n\<rparr>"

definition consumes :: "decoder \<Rightarrow> bytes \<Rightarrow> decoder \<Rightarrow> bool" where
  "consumes d w d' \<longleftrightarrow> take (length w) (avail d) = w \<and> d' = advance (length w) d"

lemma avail_new [simp]: "avail (decoder_new bs) = bs"
  by (simp add: avail_def decoder_new_def)

lemma remaining_avail: "remaining d = length (avail d)"
  by (simp add: remaining_def avail_def)

lemma avail_advance [simp]: "avail (advance n d) = drop n (avail d)"
  by (simp add: avail_def advance_def add.commute)

lemma advance_0 [simp]: "advance 0 d = d"
  by (simp add: advance_def)

lemma advance_advance [simp]: "advance m (advance n d) = advance (n + m) d"
  by (simp add: advance_def)

lemma consumes_Nil [simp]: "consumes d [] d' \<longleftrightarrow> d' = d"
  by (simp add: consumes_def)

lemma take_split_eq:
  "take (length v + length w) xs = v @ w \<longleftrightarrow>
   take (length v) xs = v \<and> take (length w) (drop (length v) xs) = w"
proof
  assume eq: "take (length v + length w) xs = v @ w"
  then have "xs = (v @ w) @ drop (length v + length w) xs"
    by (metis append_take_drop_id)
  then show "take (length v) xs = v \<and> take (length w) (drop (length v) xs) = w"
    by (metis append_assoc append_eq_conv_conj)
qed (auto simp: take_add)

lemma consumes_append [simp]:
  "consumes d (v @ w) d' \<longleftrightarrow> (\<exists>d1. consumes d v d1 \<and> consumes d1 w d')"
  by (auto simp: consumes_def take_split_eq)

lemma consumes_Cons:
  "consumes d (b # w) d' \<longleftrightarrow> (\<exists>d1. consumes d [b] d1 \<and> consumes d1 w d')"
  using consumes_append [of d "[b]" w d'] by (simp del: consumes_append)

lemma consumes_Cons_more [simp]:
  "consumes d (a # b # w) d' \<longleftrightarrow> (\<exists>d1. consumes d [a] d1 \<and> consumes d1 (b # w) d')"
  "consumes d (a # v @ w) d' \<longleftrightarrow> (\<exists>d1. consumes d [a] d1 \<and> consumes d1 (v @ w) d')"
  by (rule consumes_Cons)+

lemma consumes_avail: "consumes d w d' \<Longrightarrow> avail d = w @ avail d'"
  by (metis append_take_drop_id avail_advance consumes_def)

lemma consumes_length_le: "consumes d w d' \<Longrightarrow> length w \<le> length (avail d)"
  by (metis consumes_def length_take min.cobounded1)

lemma consumes_det:
  "consumes d w d1 \<Longrightarrow> consumes d w d2 \<Longrightarrow> d1 = d2"
  by (simp add: consumes_def)

lemma consumes_same_length:
  "consumes d v d1 \<Longrightarrow> consumes d w d2 \<Longrightarrow> length v = length w \<Longrightarrow> v = w"
  by (metis consumes_def)

lemma consumes_all:
  assumes "consumes (decoder_new bs) w d'"
  shows "is_finished d' \<longleftrightarrow> w = bs"
  using consumes_avail [OF assms] by (auto simp: is_finished_def remaining_avail)

lemma consumes_whole: "consumes (decoder_new bs) bs (advance (length bs) (decoder_new bs))"
  by (simp add: consumes_def)

section \<open>Success of sequenced reads\<close>

lemma rd_return_iff [simp]: "rd_return x d = (Inr y, d') \<longleftrightarrow> y = x \<and> d' = d"
  by (auto simp: rd_return_def)

lemma rd_fail_iff [simp]: "rd_fail e d \<noteq> (Inr y, d')"
  by (simp add: rd_fail_def)

lemma rd_bind_iff [simp]:
  "rd_bind m k d = (Inr y, d') \<longleftrightarrow> (\<exists>x d1. m d = (Inr x, d1) \<and> k x d1 = (Inr y, d'))"
  by (auto simp: rd_bind_def split: prod.splits sum.splits)

lemma rd_reset_iff [simp]: "rd_reset_on_err m d = (Inr x, d') \<longleftrightarrow> m d = (Inr x, d')"
  by (auto simp: rd_reset_on_err_def split: prod.splits sum.splits)

lemma read_bytes_iff [simp]:
  "read_bytes n d = (Inr xs, d') \<longleftrightarrow> length xs = n \<and> consumes d xs d'"
proof -
  have "read_bytes n d = (if length (avail d) < n then (Inl (UnexpectedEnd n (length (avail d))), d)
      else (Inr (take n (avail d)), advance n d))"
    by (simp add: read_bytes_def Let_def remaining_avail advance_def avail_def)
  then show ?thesis using consumes_length_le [of d xs d']
    by (auto simp: consumes_def)
qed

lemma read_array_iff [simp]:
  "read_array n d = (Inr xs, d') \<longleftrightarrow> length xs = n \<and> consumes d xs d'"
  by (simp add: read_array_def)

lemma read_u8_iff [simp]: "read_u8 d = (Inr b, d') \<longleftrightarrow> consumes d [b] d'"
  by (auto simp: read_u8_def length_Suc_conv)

lemma read_u16_iff [simp]: "read_u16_le d = (Inr v, d') \<longleftrightarrow> consumes d (u16_le v) d'"
  by (auto simp: read_u16_le_def uN_le_of_le intro!: exI [of _ "u16_le v"])

lemma read_u32_iff [simp]: "read_u32_le d = (Inr v, d') \<longleftrightarrow> consumes d (u32_le v) d'"
  by (auto simp: read_u32_le_def uN_le_of_le intro!: exI [of _ "u32_le v"])

lemma read_u64_iff [simp]: "read_u64_le d = (Inr v, d') \<longleftrightarrow> consumes d (u64_le v) d'"
  by (auto simp: read_u64_le_def uN_le_of_le intro!: exI [of _ "u64_le v"])

lemma read_i32_iff [simp]: "read_i32_le d = (Inr v, d') \<longleftrightarrow> consumes d (u32_le v) d'"
  by (auto simp: read_i32_le_def uN_le_of_le intro!: exI [of _ "u32_le v"])

lemma read_i64_iff [simp]:
  "read_i64_le d = (Inr i, d') \<longleftrightarrow> in_i64 i \<and> consumes d (i64_le i) d'"
  by (auto simp: read_i64_le_def i64_le_of_le intro!: exI [of _ "i64_le i"])

section \<open>CompactSize, both directions\<close>

lemma unat_ucast_u64 [simp]:
  "unat (ucast (a :: u8) :: u64) = unat a"
  "unat (ucast (b :: u16) :: u64) = unat b"
  "unat (ucast (c :: u32) :: u64) = unat c"
  by (simp_all add: unat_ucast_up)

lemma ucast_down:
  fixes v :: u64
  shows "unat v < 256 \<Longrightarrow> unat (ucast v :: u8) = unat v"
    and "unat v < 65536 \<Longrightarrow> unat (ucast v :: u16) = unat v"
    and "unat v < 4294967296 \<Longrightarrow> unat (ucast v :: u32) = unat v"
  by (simp_all add: unsigned_ucast_eq take_bit_eq_mod)

lemma length_write_compact_size [simp, size_simps]:
  "length (write_compact_size v) = compact_size_len v"
  by (simp add: write_compact_size_def compact_size_len_def)

lemma compact_size_len_pos [simp]: "0 < compact_size_len v"
  by (simp add: compact_size_len_def)


lemma ucast_ucast_u64 [simp]:
  "ucast (ucast (a :: u8) :: u64) = a"
  "ucast (ucast (b :: u16) :: u64) = b"
  "ucast (ucast (c :: u32) :: u64) = c"
  by (rule word_unat_eq_iff [THEN iffD2], simp add: ucast_down)+

lemma ucast_ucast_small:
  fixes v :: u64
  shows "unat v < 256 \<Longrightarrow> ucast (ucast v :: u8) = v"
    and "unat v < 65536 \<Longrightarrow> ucast (ucast v :: u16) = v"
    and "unat v < 4294967296 \<Longrightarrow> ucast (ucast v :: u32) = v"
  by (rule word_unat_eq_iff [THEN iffD2], simp add: ucast_down)+

lemma MAX_SIZE_le: "v \<le> MAX_SIZE \<longleftrightarrow> unat v \<le> 33554432"
  by (simp add: MAX_SIZE_def word_le_nat_alt)

lemma compact_prefix_cases:
  fixes x :: u8
  obtains "unat x < 253" "x < 253" "x \<noteq> 253" "x \<noteq> 254" | "x = 253" | "x = 254" | "x = 255"
proof -
  have "unat x < 253 \<or> unat x = 253 \<or> unat x = 254 \<or> unat x = 255"
    using unat_u8_lt [of x] by linarith
  then show ?thesis
    using that by (auto simp: word_less_nat_alt word_unat_eq_iff)
qed

lemmas consumes_prefixed =
  consumes_Cons [where w = "u16_le a" for a] consumes_Cons [where w = "u32_le a" for a]
  consumes_Cons [where w = "u64_le a" for a]

lemma consumes_compact:
  "unat v < 253 \<Longrightarrow> consumes d (write_compact_size v) d' \<longleftrightarrow> consumes d [ucast v] d'"
  "253 \<le> unat v \<Longrightarrow> unat v < 0x10000 \<Longrightarrow> consumes d (write_compact_size v) d' \<longleftrightarrow>
     (\<exists>d1. consumes d [253] d1 \<and> consumes d1 (u16_le (ucast v)) d')"
  "0x10000 \<le> unat v \<Longrightarrow> unat v < 0x100000000 \<Longrightarrow> consumes d (write_compact_size v) d' \<longleftrightarrow>
     (\<exists>d1. consumes d [254] d1 \<and> consumes d1 (u32_le (ucast v)) d')"
  "0x100000000 \<le> unat v \<Longrightarrow> consumes d (write_compact_size v) d' \<longleftrightarrow>
     (\<exists>d1. consumes d [255] d1 \<and> consumes d1 (u64_le v) d')"
  by (auto simp: write_compact_size_def word_less_nat_alt word_le_nat_alt consumes_prefixed)

lemma read_compact_size_innerI:
  assumes "consumes d [x] d1" and "read_compact_value x d1 = (Inr v, d')" and "v \<le> MAX_SIZE"
  shows "read_compact_size_inner d = (Inr v, d')"
  unfolding read_compact_size_inner_def using assms
  by (intro rd_bind_iff [THEN iffD2] exI [of _ x] exI [of _ d1] exI [of _ v] exI [of _ d']) auto

lemma read_compact_size_inner_iff:
  "read_compact_size_inner d = (Inr v, d') \<longleftrightarrow>
   v \<le> MAX_SIZE \<and> consumes d (write_compact_size v) d'"
proof
  assume "read_compact_size_inner d = (Inr v, d')"
  then obtain x d1 where x: "consumes d [x] d1" and v: "read_compact_value x d1 = (Inr v, d')"
    and max: "v \<le> MAX_SIZE"
    by (auto simp: read_compact_size_inner_def split: if_splits)
  have "consumes d (write_compact_size v) d'"
    using x v
    by (cases x rule: compact_prefix_cases)
      (auto simp: read_compact_value_def Let_def word_less_nat_alt consumes_compact
        split: if_splits)
  with max show "v \<le> MAX_SIZE \<and> consumes d (write_compact_size v) d'" by simp
next
  assume asm: "v \<le> MAX_SIZE \<and> consumes d (write_compact_size v) d'"
  then consider "unat v < 253" | "253 \<le> unat v" "unat v < 0x10000"
    | "0x10000 \<le> unat v" "unat v < 0x100000000"
    by (auto simp: MAX_SIZE_le) linarith
  then show "read_compact_size_inner d = (Inr v, d')"
  proof cases
    case 1
    then have "ucast v < (253 :: u8)" by (simp add: word_less_nat_alt ucast_down)
    with 1 asm show ?thesis
      by (auto simp: read_compact_size_inner_def read_compact_value_def consumes_compact
          ucast_ucast_small intro!: exI [of _ "ucast v"])
  next
    case 2
    then obtain d1 where "consumes d [253] d1" "consumes d1 (u16_le (ucast v)) d'"
      using asm by (auto simp: consumes_compact)
    moreover from this 2 have "read_compact_value 253 d1 = (Inr v, d')"
      by (auto simp: read_compact_value_def ucast_ucast_small ucast_down Let_def word_less_nat_alt
          intro!: exI [of _ "ucast v"])
    ultimately show ?thesis using asm by (blast intro: read_compact_size_innerI)
  next
    case 3
    then obtain d1 where "consumes d [254] d1" "consumes d1 (u32_le (ucast v)) d'"
      using asm by (auto simp: consumes_compact)
    moreover from this 3 have "read_compact_value 254 d1 = (Inr v, d')"
      by (auto simp: read_compact_value_def ucast_ucast_small ucast_down Let_def word_less_nat_alt
          intro!: exI [of _ "ucast v"])
    ultimately show ?thesis using asm by (blast intro: read_compact_size_innerI)
  qed
qed

lemma read_compact_size_iff [simp]:
  "read_compact_size d = (Inr v, d') \<longleftrightarrow> v \<le> MAX_SIZE \<and> consumes d (write_compact_size v) d'"
  by (simp add: read_compact_size_def read_compact_size_inner_iff)

lemma unat_len_u64 [simp]: "length xs \<le> 33554432 \<Longrightarrow> unat (len_u64 xs) = length xs"
  by (simp add: len_u64_def unat_of_nat take_bit_nat_eq_self)

definition fits :: "'a list \<Rightarrow> bool" where
  "fits xs \<longleftrightarrow> length xs \<le> 33554432"

lemma len_u64_le_MAX_SIZE: "fits xs \<Longrightarrow> len_u64 xs \<le> MAX_SIZE"
  by (simp add: MAX_SIZE_le fits_def)

lemma len_u64_eq_iff:
  "v \<le> MAX_SIZE \<Longrightarrow> length xs = unat v \<longleftrightarrow> fits xs \<and> v = len_u64 xs"
  by (auto simp: MAX_SIZE_le fits_def word_unat_eq_iff)

lemma read_var_bytes_iff [simp]:
  "read_var_bytes d = (Inr bs, d') \<longleftrightarrow> fits bs \<and> consumes d (write_var_bytes bs) d'"
  by (auto simp: read_var_bytes_def read_var_bytes_inner_def write_var_bytes_def len_u64_eq_iff
      len_u64_le_MAX_SIZE)
    (auto simp: fits_def len_u64_le_MAX_SIZE intro!: exI [of _ "len_u64 bs"])

section \<open>The contract of a codec\<close>

locale codec =
  fixes rd :: "'a rd" and wr :: "'a \<Rightarrow> bytes" and valid :: "'a \<Rightarrow> bool"
  assumes rd_iff: "rd d = (Inr x, d') \<longleftrightarrow> valid x \<and> consumes d (wr x) d'"
begin

lemma read_write:
  assumes "valid x" and "avail d = wr x @ rest"
  shows "rd d = (Inr x, advance (length (wr x)) d)"
  using assms by (simp add: rd_iff consumes_def)

lemma write_read:
  assumes "rd d = (Inr x, d')"
  shows "avail d = wr x @ avail d'"
  using assms consumes_avail by (simp add: rd_iff)

lemma write_prefix_free:
  assumes "valid x" "valid y" and eq: "wr x @ r = wr y @ s"
  shows "x = y" and "r = s"
proof -
  let ?d = "decoder_new (wr x @ r)"
  have "rd ?d = (Inr x, advance (length (wr x)) ?d)"
    by (rule read_write [where rest = r]) (simp_all add: assms(1))
  moreover have "rd ?d = (Inr y, advance (length (wr y)) ?d)"
    by (rule read_write [where rest = s]) (simp_all add: assms)
  ultimately show "x = y" by simp
  with eq show "r = s" by simp
qed

lemma write_inj: "valid x \<Longrightarrow> valid y \<Longrightarrow> wr x = wr y \<Longrightarrow> x = y"
  using write_prefix_free(1) [of x y "[]" "[]"] by simp

end

text \<open>The loop \<open>for _ in 0..count { items.push(read(decoder)?) }\<close> the vector decoders run.\<close>

fun read_items :: "'a rd \<Rightarrow> nat \<Rightarrow> 'a list rd" where
  "read_items r 0 = rd_return []"
| "read_items r (Suc n) = rd_bind r (\<lambda>x. rd_bind (read_items r n) (\<lambda>xs. rd_return (x # xs)))"

definition read_vec :: "'a rd \<Rightarrow> 'a list rd" where
  "read_vec r = rd_bind read_compact_size (\<lambda>count. read_items r (unat count))"

definition write_vec :: "('a \<Rightarrow> bytes) \<Rightarrow> 'a list \<Rightarrow> bytes" where
  "write_vec w xs = write_compact_size (len_u64 xs) @ concat (map w xs)"

context codec
begin

lemma read_items_iff:
  "read_items rd n d = (Inr xs, d') \<longleftrightarrow>
   length xs = n \<and> (\<forall>x \<in> set xs. valid x) \<and> consumes d (concat (map wr xs)) d'"
proof (induction n arbitrary: d xs d')
  case (Suc n)
  show ?case by (cases xs) (auto simp: Suc rd_iff)
qed auto

lemma read_vec_iff:
  "read_vec rd d = (Inr xs, d') \<longleftrightarrow>
   (fits xs \<and> (\<forall>x \<in> set xs. valid x)) \<and> consumes d (write_vec wr xs) d'"
  by (auto simp: read_vec_def write_vec_def read_items_iff len_u64_eq_iff len_u64_le_MAX_SIZE)
    (auto simp: fits_def len_u64_le_MAX_SIZE intro!: exI [of _ "len_u64 xs"])

lemma vec: "codec (read_vec rd) (write_vec wr) (\<lambda>xs. fits xs \<and> (\<forall>x \<in> set xs. valid x))"
  by unfold_locales (rule read_vec_iff)

lemma items:
  "codec (read_items rd n) (\<lambda>xs. concat (map wr xs)) (\<lambda>xs. length xs = n \<and> (\<forall>x \<in> set xs. valid x))"
  by unfold_locales (simp add: read_items_iff)

end

interpretation compact_size: codec read_compact_size write_compact_size "\<lambda>v. v \<le> MAX_SIZE"
  by unfold_locales simp

interpretation var_bytes: codec read_var_bytes write_var_bytes fits
  by unfold_locales simp

section \<open>Failing reads leave the cursor where it was\<close>

definition keeps_bytes :: "'a rd \<Rightarrow> bool" where
  "keeps_bytes m \<longleftrightarrow> (\<forall>d. dec_bytes (snd (m d)) = dec_bytes d)"

lemma keeps_bytesD: "keeps_bytes m \<Longrightarrow> m d = (r, d') \<Longrightarrow> dec_bytes d' = dec_bytes d"
  by (metis keeps_bytes_def snd_conv)

lemma keeps_bytesI: "(\<And>d r d'. m d = (r, d') \<Longrightarrow> dec_bytes d' = dec_bytes d) \<Longrightarrow> keeps_bytes m"
  by (metis keeps_bytes_def surj_pair snd_conv)

lemma keeps_bytes_return: "keeps_bytes (rd_return x)"
  and keeps_bytes_fail: "keeps_bytes (rd_fail e)"
  and keeps_bytes_read_bytes: "keeps_bytes (read_bytes n)"
  by (simp_all add: keeps_bytes_def rd_return_def rd_fail_def read_bytes_def Let_def)

lemma keeps_bytes_bind:
  "keeps_bytes m \<Longrightarrow> (\<And>x. keeps_bytes (k x)) \<Longrightarrow> keeps_bytes (rd_bind m k)"
  by (rule keeps_bytesI) (auto simp: rd_bind_def split: prod.splits sum.splits, (metis keeps_bytesD)+)

lemma keeps_bytes_reset: "keeps_bytes m \<Longrightarrow> keeps_bytes (rd_reset_on_err m)"
  by (rule keeps_bytesI) (auto simp: rd_reset_on_err_def split: prod.splits sum.splits dest!: keeps_bytesD)

lemmas keeps_bytes_intros =
  keeps_bytes_return keeps_bytes_fail keeps_bytes_read_bytes keeps_bytes_bind keeps_bytes_reset

lemma keeps_bytes_reads [intro, simp]:
  "keeps_bytes read_u8" "keeps_bytes read_u16_le" "keeps_bytes read_u32_le" "keeps_bytes read_u64_le"
  by (auto simp: read_u8_def read_u16_le_def read_u32_le_def read_u64_le_def read_array_def
      intro!: keeps_bytes_intros)

lemma keeps_bytes_compact [intro, simp]:
  "keeps_bytes (read_compact_value p)"
  "keeps_bytes read_compact_size_inner"
  "keeps_bytes read_compact_size"
  "keeps_bytes read_var_bytes_inner"
  by (auto simp: read_compact_value_def read_compact_size_inner_def read_compact_size_def
      read_var_bytes_inner_def Let_def intro!: keeps_bytes_intros)

lemma reset_on_err_keeps_cursor:
  assumes "keeps_bytes m" and "fst (rd_reset_on_err m d) = Inl e"
  shows "snd (rd_reset_on_err m d) = d"
proof -
  have "dec_bytes (snd (m d)) = dec_bytes d" using assms(1) by (simp add: keeps_bytes_def)
  with assms(2) show ?thesis
    by (auto simp: rd_reset_on_err_def split: prod.splits sum.splits intro!: decoder.equality)
qed

lemma bounded_capacity_bytes:
  "bounded_capacity d declared m * m \<le> remaining d"
  by (cases "m = 0")
    (auto simp: bounded_capacity_def Let_def min_def mult.commute
      intro: order_trans [OF mult_le_mono2 times_div_less_eq_dividend])

section \<open>Properties of the codec\<close>

text \<open>a successful CompactSize read returns exactly the values up to \<open>MAX_SIZE\<close> whose
  canonical encoding is at the cursor, and moves the cursor over that encoding: every accepted
  encoding is the one \<open>write_compact_size\<close> produces.\<close>

theorem read_compact_size_canonical:
  "read_compact_size d = (Inr v, d') \<longleftrightarrow>
   v \<le> MAX_SIZE \<and> take (compact_size_len v) (avail d) = write_compact_size v \<and>
   d' = advance (compact_size_len v) d"
  by (simp add: consumes_def)

text \<open>a read that fails leaves the cursor unchanged, for the primitive reads, the
  CompactSize read and the length-prefixed read, as the documentation of \<open>Decoder\<close> promises.\<close>

theorem failed_read_keeps_cursor:
  "(fst (read_bytes n d) = Inl e \<longrightarrow> snd (read_bytes n d) = d) \<and>
   (fst (read_compact_size d) = Inl e \<longrightarrow> snd (read_compact_size d) = d) \<and>
   (fst (read_var_bytes d) = Inl e \<longrightarrow> snd (read_var_bytes d) = d)"
  by (auto simp: read_bytes_def Let_def read_compact_size_def read_var_bytes_def
      intro: reset_on_err_keeps_cursor)

text \<open>An instance: an input that ends inside the announced bytes.\<close>

lemma failed_read_keeps_cursor_witness:
  "snd (read_var_bytes (decoder_new [3, 1])) = decoder_new [3, 1]"
proof -
  have "fst (read_var_bytes (decoder_new [3, 1])) = Inl (UnexpectedEnd 3 1)"
    by code_simp
  then show ?thesis using failed_read_keeps_cursor [of 0 _ "UnexpectedEnd 3 1"] by blast
qed

end
