(* ===== verification/Hashing.thy ===== *)
theory Hashing
  imports Prelude
begin

text \<open>
  Hashes of \<open>src/crates/avila-consensus/src/hash.rs\<close> and the hexadecimal text of
  \<open>src/crates/avila-consensus/src/hex.rs\<close>. SHA-256, RIPEMD-160 and SHA-1 come from third-party
  crates: they are the fields of a \<open>hash_fns\<close> record every definition that hashes takes as its
  argument. What the code relies on about them is their output length (\<open>hash_fns_ok\<close>). The
  eight-lane double SHA-256 of the SIMD crate \<open>avila-sha256d64\<close> (\<open>None\<close> on a processor without
  AVX2) is a field too; relied on: where it answers, it answers the double hash of each pair.
  Hash newtypes (\<open>Txid\<close>, \<open>BlockHash\<close>, ...) are their 32 raw bytes, strings are their UTF-8 bytes.
\<close>

unbundle bit_operations_syntax

record hash_fns =
  sha256 :: "bytes \<Rightarrow> bytes"
  ripemd160 :: "bytes \<Rightarrow> bytes"
  sha1 :: "bytes \<Rightarrow> bytes"
  try_sha256d64_8 :: "(bytes \<times> bytes) list \<Rightarrow> bytes list option"

definition hash_fns_ok :: "hash_fns \<Rightarrow> bool" where
  "hash_fns_ok H \<longleftrightarrow> (\<forall>x. length (sha256 H x) = 32) \<and> (\<forall>x. length (ripemd160 H x) = 20) \<and>
     (\<forall>x. length (sha1 H x) = 20) \<and>
     (\<forall>g out. try_sha256d64_8 H g = Some out \<longrightarrow>
        out = map (\<lambda>(a, b). sha256 H (sha256 H (a @ b))) g)"

definition tagged_hash :: "hash_fns \<Rightarrow> bytes \<Rightarrow> bytes \<Rightarrow> bytes" where
  "tagged_hash H tag data =
     (let tag_h = sha256 H tag in sha256 H (tag_h @ tag_h @ data))"

definition sha256d :: "hash_fns \<Rightarrow> bytes \<Rightarrow> bytes" where
  "sha256d H data = sha256 H (sha256 H data)"

definition hash160 :: "hash_fns \<Rightarrow> bytes \<Rightarrow> bytes" where
  "hash160 H data = ripemd160 H (sha256 H data)"

text \<open>The incremental hasher: its state is the data fed so far.\<close>

record sha256d_state =
  fed :: bytes

definition sha256d_new :: sha256d_state where
  "sha256d_new = \<lparr>fed = []\<rparr>"

definition sha256d_update :: "sha256d_state \<Rightarrow> bytes \<Rightarrow> sha256d_state" where
  "sha256d_update s data = s\<lparr>fed := fed s @ data\<rparr>"

definition sha256d_finalize :: "hash_fns \<Rightarrow> sha256d_state \<Rightarrow> bytes" where
  "sha256d_finalize H s = sha256 H (sha256 H (fed s))"

definition hash_zero :: hash32 where
  "hash_zero = replicate 32 0"

definition hash_is_zero :: "hash32 \<Rightarrow> bool" where
  "hash_is_zero h \<longleftrightarrow> h = replicate 32 0"

text \<open>A concrete instance, for the examples: the digest is the first bytes of the input.\<close>

definition toy_digest :: "nat \<Rightarrow> bytes \<Rightarrow> bytes" where
  "toy_digest n x = take n (x @ replicate n 0)"

definition toy_hashes :: hash_fns where
  "toy_hashes = \<lparr>sha256 = toy_digest 32, ripemd160 = toy_digest 20, sha1 = toy_digest 20,
     try_sha256d64_8 = (\<lambda>_. None)\<rparr>"

section \<open>Hexadecimal text\<close>

datatype hex_error = OddLength nat | InvalidCharacter nat

definition HEX_DIGITS :: bytes where
  "HEX_DIGITS = [48,49,50,51,52,53,54,55,56,57,97,98,99,100,101,102]"

fun hex_encode :: "bytes \<Rightarrow> bytes" where
  "hex_encode [] = []"
| "hex_encode (b # bs) =
     HEX_DIGITS ! unat (drop_bit 4 b) # HEX_DIGITS ! unat (b AND 0x0f) # hex_encode bs"

definition hex_digit :: "u8 \<Rightarrow> u8 option" where
  "hex_digit b =
     (if 48 \<le> b \<and> b \<le> 57 then Some (b - 48)
      else if 97 \<le> b \<and> b \<le> 102 then Some (b - 97 + 10)
      else if 65 \<le> b \<and> b \<le> 70 then Some (b - 65 + 10)
      else None)"

text \<open>The loop over the chunks; \<open>i\<close> is the index of the chunk.\<close>

fun hex_decode_chunks :: "nat \<Rightarrow> bytes \<Rightarrow> hex_error + bytes" where
  "hex_decode_chunks i (a # b # rest) =
     (case hex_digit a of
        None \<Rightarrow> Inl (InvalidCharacter (i * 2))
      | Some hi \<Rightarrow>
          (case hex_digit b of
             None \<Rightarrow> Inl (InvalidCharacter (i * 2 + 1))
           | Some lo \<Rightarrow>
               res_bind (hex_decode_chunks (Suc i) rest)
                 (\<lambda>out. Inr ((push_bit 4 hi OR lo) # out))))"
| "hex_decode_chunks i _ = Inr []"

definition hex_decode :: "bytes \<Rightarrow> hex_error + bytes" where
  "hex_decode text =
     (if length text mod 2 \<noteq> 0 then Inl (OddLength (length text))
      else hex_decode_chunks 0 text)"

datatype hash_parse_error = HashInvalidLength nat | HashInvalidCharacter nat

definition parse_display_hex :: "bytes \<Rightarrow> hash_parse_error + hash32" where
  "parse_display_hex s =
     (if length s \<noteq> 64 then Inl (HashInvalidLength (length s))
      else case hex_decode s of
        Inl (OddLength len) \<Rightarrow> Inl (HashInvalidLength len)
      | Inl (InvalidCharacter index) \<Rightarrow> Inl (HashInvalidCharacter index)
      | Inr decoded \<Rightarrow>
          (if length decoded \<noteq> 32 then Inl (HashInvalidLength (length decoded))
           else Inr (rev decoded)))"

definition format_display_hex :: "hash32 \<Rightarrow> bytes" where
  "format_display_hex raw = hex_encode (rev raw)"

section \<open>Lemmas\<close>

lemma hash_lengths [simp]:
  assumes "hash_fns_ok H"
  shows "length (sha256 H x) = 32" "length (sha256d H x) = 32" "length (hash160 H x) = 20"
    "length (ripemd160 H x) = 20" "length (sha1 H x) = 20"
  using assms by (simp_all add: hash_fns_ok_def sha256d_def hash160_def)

lemma length_toy_digest: "length (toy_digest n x) = n"
  by (simp add: toy_digest_def)

lemma toy_hashes_ok: "hash_fns_ok toy_hashes"
  by (simp add: hash_fns_ok_def toy_hashes_def length_toy_digest)

lemma hash_fns_ok_simd:
  "hash_fns_ok H \<Longrightarrow> try_sha256d64_8 H g = Some out \<Longrightarrow>
   out = map (\<lambda>(a, b). sha256d H (a @ b)) g"
  unfolding hash_fns_ok_def sha256d_def by blast

lemma sha256d_incremental_fold:
  "sha256d_finalize H (fold (\<lambda>c s. sha256d_update s c) chunks s) =
   sha256d H (fed s @ concat chunks)"
  by (induction chunks arbitrary: s)
    (simp_all add: sha256d_finalize_def sha256d_def sha256d_update_def)

lemma sha256d_incremental:
  "sha256d_finalize H (fold (\<lambda>c s. sha256d_update s c) chunks sha256d_new) =
   sha256d H (concat chunks)"
  by (simp add: sha256d_incremental_fold sha256d_new_def)

lemma nibbles:
  fixes b :: u8
  shows "unat (drop_bit 4 b) < 16" "unat (b AND 0x0f) < 16" "push_bit 4 (drop_bit 4 b) OR (b AND 0x0f) = b"
proof -
  have 1: "unat (drop_bit 4 b) = unat b div 16"
    by (simp add: drop_bit_eq_div unat_div_distrib)
  then show "unat (drop_bit 4 b) < 16" using unat_u8_lt [of b] by presburger
  have 2: "b AND 0x0f = take_bit 4 b" by (simp add: take_bit_eq_mask mask_numeral)
  show "unat (b AND 0x0f) < 16"
    by (simp add: 2 take_bit_eq_mod unat_mod_distrib)
  show "push_bit 4 (drop_bit 4 b) OR (b AND 0x0f) = b"
    unfolding 2 by (rule bit_eqI) (auto simp: bit_simps)
qed

lemma HEX_DIGITS_digit:
  "n < 16 \<Longrightarrow> hex_digit (HEX_DIGITS ! n) = Some (word_of_nat n)"
proof -
  have "\<forall>n \<in> {..<16}. hex_digit (HEX_DIGITS ! n) = Some (word_of_nat n)" by code_simp
  then show "n < 16 \<Longrightarrow> ?thesis" by simp
qed

lemma hex_decode_encode_chunks: "hex_decode_chunks i (hex_encode bs) = Inr bs"
  by (induction bs arbitrary: i) (simp_all add: HEX_DIGITS_digit nibbles)

lemma length_hex_encode [simp]: "length (hex_encode bs) = 2 * length bs"
  by (induction bs) simp_all

lemma hex_decode_encode [simp]: "hex_decode (hex_encode bs) = Inr bs"
  by (simp add: hex_decode_def hex_decode_encode_chunks)

section \<open>Properties\<close>

text \<open>parsing the display form of a hash gives the hash back; the display form of a byte
  string that is not 32 bytes long is refused with its length.\<close>

theorem parse_format_display_hex:
  "parse_display_hex (format_display_hex h) =
   (if length h = 32 then Inr h else Inl (HashInvalidLength (2 * length h)))"
  by (auto simp: parse_display_hex_def format_display_hex_def)

end
