(* ===== verification/Transaction.thy ===== *)
theory Transaction
  imports Encode Hashing
begin

text \<open>
  Transactions and their two serializations: \<open>src/crates/avila-consensus/src/transaction.rs\<close>.

  \<open>Script\<close> and \<open>Witness\<close> are their contents, \<open>i64\<close> values are integers. Writers return the
  bytes the code appends to its output buffer. The vector decoders \<open>read_vin\<close>, \<open>read_vout\<close> and
  \<open>read_witness\<close> are \<open>read_vec\<close> of their element read, as the code loops \<open>count\<close> times over it;
  the capacity they reserve (\<open>bounded_capacity\<close>) has no effect on the result.
\<close>

type_synonym script = bytes
type_synonym witness = "bytes list"

record out_point =
  op_txid :: hash32
  op_vout :: u32

record tx_in =
  previous_output :: out_point
  script_sig :: script
  sequence :: u32
  witness :: witness

record tx_out =
  out_value :: i64
  script_pubkey :: script

record transaction =
  tx_version :: u32
  inputs :: "tx_in list"
  outputs :: "tx_out list"
  lock_time :: u32

definition NULL_OUTPOINT :: out_point where
  "NULL_OUTPOINT = \<lparr>op_txid = hash_zero, op_vout = 0xffffffff\<rparr>"

definition is_null :: "out_point \<Rightarrow> bool" where
  "is_null p \<longleftrightarrow> hash_is_zero (op_txid p) \<and> op_vout p = 0xffffffff"

definition has_witness :: "transaction \<Rightarrow> bool" where
  "has_witness tx \<longleftrightarrow> list_ex (\<lambda>i. witness i \<noteq> []) (inputs tx)"

definition is_coinbase :: "transaction \<Rightarrow> bool" where
  "is_coinbase tx \<longleftrightarrow> length (inputs tx) = 1 \<and> is_null (previous_output (inputs tx ! 0))"

section \<open>Writers\<close>

definition write_txin_no_witness :: "tx_in \<Rightarrow> bytes" where
  "write_txin_no_witness i =
     op_txid (previous_output i) @ u32_le (op_vout (previous_output i)) @
     write_var_bytes (script_sig i) @ u32_le (sequence i)"

definition write_txout :: "tx_out \<Rightarrow> bytes" where
  "write_txout out = i64_le (out_value out) @ write_var_bytes (script_pubkey out)"

definition write_without_witness :: "transaction \<Rightarrow> bytes" where
  "write_without_witness tx =
     u32_le (tx_version tx) @
     write_vec write_txin_no_witness (inputs tx) @
     write_vec write_txout (outputs tx) @
     u32_le (lock_time tx)"

definition write_witness :: "witness \<Rightarrow> bytes" where
  "write_witness w = write_vec write_var_bytes w"

definition write_with_witness :: "transaction \<Rightarrow> bytes" where
  "write_with_witness tx =
     (if \<not> has_witness tx then write_without_witness tx
      else u32_le (tx_version tx) @ [0x00] @ [0x01] @
        write_vec write_txin_no_witness (inputs tx) @
        write_vec write_txout (outputs tx) @
        concat (map (\<lambda>i. write_witness (witness i)) (inputs tx)) @
        u32_le (lock_time tx))"

definition tx_encode :: "transaction \<Rightarrow> bytes" where
  "tx_encode tx = write_with_witness tx"

section \<open>Sizes\<close>

definition size_without_witness :: "transaction \<Rightarrow> nat" where
  "size_without_witness tx =
     (let size = 4 + compact_size_len (len_u64 (inputs tx));
          size = fold (\<lambda>i size. size + (32 + 4 + compact_size_len (len_u64 (script_sig i))
            + length (script_sig i)) + 4) (inputs tx) size;
          size = size + compact_size_len (len_u64 (outputs tx));
          size = fold (\<lambda>out size. size + (8 + compact_size_len (len_u64 (script_pubkey out))
            + length (script_pubkey out))) (outputs tx) size
      in size + 4)"

definition size_with_witness :: "transaction \<Rightarrow> nat" where
  "size_with_witness tx =
     (if \<not> has_witness tx then size_without_witness tx
      else fold (\<lambda>i size.
          fold (\<lambda>item size. size + (compact_size_len (len_u64 item) + length item)) (witness i)
            (size + compact_size_len (len_u64 (witness i))))
        (inputs tx) (size_without_witness tx + 2))"

definition tx_weight :: "transaction \<Rightarrow> nat" where
  "tx_weight tx = 3 * size_without_witness tx + size_with_witness tx"

definition txid :: "hash_fns \<Rightarrow> transaction \<Rightarrow> hash32" where
  "txid H tx = sha256d H (write_without_witness tx)"

definition wtxid :: "hash_fns \<Rightarrow> transaction \<Rightarrow> hash32" where
  "wtxid H tx = sha256d H (tx_encode tx)"

section \<open>Readers\<close>

definition read_txin :: "tx_in rd" where
  "read_txin =
     rd_bind (read_array 32) (\<lambda>h.
     rd_bind read_u32_le (\<lambda>vout.
     rd_bind read_var_bytes (\<lambda>sig.
     rd_bind read_u32_le (\<lambda>seq.
       rd_return \<lparr>previous_output = \<lparr>op_txid = h, op_vout = vout\<rparr>, script_sig = sig,
         sequence = seq, witness = []\<rparr>))))"

definition read_vin :: "tx_in list rd" where
  "read_vin = read_vec read_txin"

definition read_txout :: "tx_out rd" where
  "read_txout =
     rd_bind read_i64_le (\<lambda>v.
     rd_bind read_var_bytes (\<lambda>spk.
       rd_return \<lparr>out_value = v, script_pubkey = spk\<rparr>))"

definition read_vout :: "tx_out list rd" where
  "read_vout = read_vec read_txout"

definition read_witness :: "witness rd" where
  "read_witness = read_vec read_var_bytes"

text \<open>\<open>for input in &mut inputs { input.witness = Self::read_witness(decoder)? }\<close>.\<close>

fun read_witnesses :: "tx_in list \<Rightarrow> tx_in list rd" where
  "read_witnesses [] = rd_return []"
| "read_witnesses (i # is) =
     rd_bind read_witness (\<lambda>w. rd_bind (read_witnesses is) (\<lambda>js.
       rd_return (i\<lparr>witness := w\<rparr> # js)))"

text \<open>The inputs, the outputs and the flags byte: the dummy-vin dance of \<open>Transaction::read\<close>.\<close>

definition read_ins_outs :: "(tx_in list \<times> tx_out list \<times> u8) rd" where
  "read_ins_outs =
     rd_bind read_vin (\<lambda>ins.
       if ins = [] then
         rd_bind read_u8 (\<lambda>flags.
           if flags \<noteq> 0 then
             rd_bind read_vin (\<lambda>ins'.
             rd_bind read_vout (\<lambda>outs. rd_return (ins', outs, flags)))
           else rd_return (ins, [], flags))
       else rd_bind read_vout (\<lambda>outs. rd_return (ins, outs, 0)))"

text \<open>The witness section, read when flag bit 0 is set; it clears the bit.\<close>

definition read_flagged_witnesses :: "tx_in list \<Rightarrow> u8 \<Rightarrow> (tx_in list \<times> u8) rd" where
  "read_flagged_witnesses ins flags =
     (if flags AND 1 \<noteq> 0 then
        rd_bind (read_witnesses ins) (\<lambda>ins'.
          if \<not> list_ex (\<lambda>i. witness i \<noteq> []) ins' then rd_fail SuperfluousWitness
          else rd_return (ins', flags XOR 1))
      else rd_return (ins, flags))"

definition tx_read :: "transaction rd" where
  "tx_read =
     rd_bind read_u32_le (\<lambda>ver.
     rd_bind read_ins_outs (\<lambda>(ins, outs, flags).
     rd_bind (read_flagged_witnesses ins flags) (\<lambda>(ins', flags').
       if flags' \<noteq> 0 then rd_fail (UnknownTransactionFlags flags')
       else rd_bind read_u32_le (\<lambda>lt.
         rd_return \<lparr>tx_version = ver, inputs = ins', outputs = outs, lock_time = lt\<rparr>))))"

definition tx_decode :: "bytes \<Rightarrow> decode_error + transaction" where
  "tx_decode bs =
     (case tx_read (decoder_new bs) of
        (Inl e, d) \<Rightarrow> Inl e
      | (Inr tx, d) \<Rightarrow> res_bind (decoder_finish d) (\<lambda>_. Inr tx))"

definition tx_read_no_witness :: "transaction rd" where
  "tx_read_no_witness =
     rd_bind read_u32_le (\<lambda>ver.
     rd_bind read_vin (\<lambda>ins.
     rd_bind read_vout (\<lambda>outs.
     rd_bind read_u32_le (\<lambda>lt.
       rd_return \<lparr>tx_version = ver, inputs = ins, outputs = outs, lock_time = lt\<rparr>))))"

definition tx_decode_no_witness :: "bytes \<Rightarrow> decode_error + transaction" where
  "tx_decode_no_witness bs =
     (case tx_read_no_witness (decoder_new bs) of
        (Inl e, d) \<Rightarrow> Inl e
      | (Inr tx, d) \<Rightarrow> res_bind (decoder_finish d) (\<lambda>_. Inr tx))"

section \<open>Both serializations, both directions\<close>

definition txin_valid :: "tx_in \<Rightarrow> bool" where
  "txin_valid i \<longleftrightarrow> length (op_txid (previous_output i)) = 32 \<and> fits (script_sig i)"

definition txout_valid :: "tx_out \<Rightarrow> bool" where
  "txout_valid out \<longleftrightarrow> in_i64 (out_value out) \<and> fits (script_pubkey out)"

definition witness_valid :: "witness \<Rightarrow> bool" where
  "witness_valid w \<longleftrightarrow> fits w \<and> (\<forall>item \<in> set w. fits item)"

definition no_wit :: "tx_in \<Rightarrow> tx_in" where
  "no_wit i = i\<lparr>witness := []\<rparr>"

text \<open>The transactions the format can carry: every length at most \<open>MAX_SIZE\<close>, every value an
  \<open>i64\<close>, every txid 32 bytes; one without inputs has no outputs (its empty \<open>vin\<close> reads as the
  marker of the extended format).\<close>

definition tx_valid :: "transaction \<Rightarrow> bool" where
  "tx_valid tx \<longleftrightarrow>
     fits (inputs tx) \<and> (\<forall>i \<in> set (inputs tx). txin_valid i \<and> witness_valid (witness i)) \<and>
     fits (outputs tx) \<and> (\<forall>out \<in> set (outputs tx). txout_valid out) \<and>
     (inputs tx = [] \<longrightarrow> outputs tx = [])"

lemma txin_iff:
  "read_txin d = (Inr i, d') \<longleftrightarrow>
   (txin_valid i \<and> witness i = []) \<and> consumes d (write_txin_no_witness i) d'"
  by (cases i; cases "previous_output i")
    (simp add: read_txin_def txin_valid_def write_txin_no_witness_def; blast)

interpretation txin: codec read_txin write_txin_no_witness "\<lambda>i. txin_valid i \<and> witness i = []"
  by unfold_locales (rule txin_iff)

lemma txout_iff:
  "read_txout d = (Inr out, d') \<longleftrightarrow> txout_valid out \<and> consumes d (write_txout out) d'"
  by (cases out) (simp add: read_txout_def txout_valid_def write_txout_def; blast)

interpretation txout: codec read_txout write_txout txout_valid
  by unfold_locales (rule txout_iff)

interpretation wit: codec read_witness write_witness witness_valid
  unfolding read_witness_def write_witness_def witness_valid_def by (rule var_bytes.vec)

lemma read_witnesses_iff:
  "read_witnesses is d = (Inr js, d') \<longleftrightarrow>
   map no_wit js = map no_wit is \<and> (\<forall>j \<in> set js. witness_valid (witness j)) \<and>
   consumes d (concat (map (\<lambda>j. write_witness (witness j)) js)) d'"
proof (induction "is" arbitrary: d js d')
  case (Cons i "is")
  have eq: "no_wit j = no_wit i \<longleftrightarrow> j = i\<lparr>witness := witness j\<rparr>" for j
    by (cases i; cases j) (simp add: no_wit_def)
  show ?case
  proof (cases js)
    case (Cons j ks)
    then show ?thesis
      by (auto simp: Cons.IH wit.rd_iff eq)
  qed auto
qed auto

lemma write_txin_no_wit [simp]: "write_txin_no_witness (no_wit i) = write_txin_no_witness i"
  by (simp add: write_txin_no_witness_def no_wit_def)

lemma txin_valid_no_wit [simp]: "txin_valid (no_wit i) = txin_valid i"
  by (simp add: txin_valid_def no_wit_def)

lemma witness_no_wit [simp]: "witness (no_wit i) = []"
  by (simp add: no_wit_def)

lemma no_wit_no_wit [simp]: "no_wit (no_wit i) = no_wit i"
  by (simp add: no_wit_def)

lemma no_wit_id: "witness i = [] \<Longrightarrow> no_wit i = i"
  by (simp add: no_wit_def)

lemma write_vec_no_wit [simp]:
  "write_vec write_txin_no_witness (map no_wit is) = write_vec write_txin_no_witness is"
  by (simp add: write_vec_def len_u64_def comp_def)

definition ins_valid :: "tx_in list \<Rightarrow> bool" where
  "ins_valid is \<longleftrightarrow> fits is \<and> (\<forall>i \<in> set is. txin_valid i)"

definition outs_valid :: "tx_out list \<Rightarrow> bool" where
  "outs_valid os \<longleftrightarrow> fits os \<and> (\<forall>out \<in> set os. txout_valid out)"

lemma read_vin_iff:
  "read_vin d = (Inr is, d') \<longleftrightarrow>
   ins_valid is \<and> (\<forall>i \<in> set is. witness i = []) \<and> consumes d (write_vec write_txin_no_witness is) d'"
  by (auto simp: read_vin_def txin.read_vec_iff ins_valid_def)

lemma read_vout_iff:
  "read_vout d = (Inr os, d') \<longleftrightarrow> outs_valid os \<and> consumes d (write_vec write_txout os) d'"
  by (auto simp: read_vout_def txout.read_vec_iff outs_valid_def)

lemma write_vec_Nil [simp]: "write_vec w [] = [0]"
  by (simp add: write_vec_def len_u64_def write_compact_size_def)

lemma ins_valid_Nil [simp]: "ins_valid []" and outs_valid_Nil [simp]: "outs_valid []"
  by (simp_all add: ins_valid_def outs_valid_def fits_def)

lemma read_ins_outs_iff:
  "read_ins_outs d = (Inr (is, os, flags), d') \<longleftrightarrow>
   ins_valid is \<and> (\<forall>i \<in> set is. witness i = []) \<and> outs_valid os \<and>
   (if flags \<noteq> 0 then consumes d ([0] @ [flags] @ write_vec write_txin_no_witness is @
        write_vec write_txout os) d'
    else if is = [] then os = [] \<and> consumes d ([0] @ [0]) d'
    else consumes d (write_vec write_txin_no_witness is @ write_vec write_txout os) d')"
proof -
  have nil: "read_vin d = (Inr [], d1) \<longleftrightarrow> consumes d [0] d1" for d d1
    by (simp add: read_vin_iff)
  have "read_ins_outs d = (Inr (is, os, flags), d') \<longleftrightarrow>
    (\<exists>d1 d2. consumes d [0] d1 \<and> consumes d1 [flags] d2 \<and>
      (if flags \<noteq> 0 then \<exists>d3. read_vin d2 = (Inr is, d3) \<and> read_vout d3 = (Inr os, d')
       else is = [] \<and> os = [] \<and> d' = d2)) \<or>
    (is \<noteq> [] \<and> flags = 0 \<and> (\<exists>d1. read_vin d = (Inr is, d1) \<and> read_vout d1 = (Inr os, d')))"
    (is "_ \<longleftrightarrow> ?A \<or> ?B")
    unfolding read_ins_outs_def rd_bind_iff nil [symmetric]
    by (cases "flags = 0") (auto split: if_splits)
  also have "?A \<longleftrightarrow> (if flags \<noteq> 0 then ins_valid is \<and> (\<forall>i \<in> set is. witness i = []) \<and> outs_valid os \<and>
      consumes d ([0] @ [flags] @ write_vec write_txin_no_witness is @ write_vec write_txout os) d'
    else is = [] \<and> os = [] \<and> consumes d ([0] @ [0]) d')"
    by (cases "flags = 0") (auto simp: read_vin_iff read_vout_iff; blast)+
  also have "?B \<longleftrightarrow> is \<noteq> [] \<and> flags = 0 \<and> ins_valid is \<and> (\<forall>i \<in> set is. witness i = []) \<and>
      outs_valid os \<and> consumes d (write_vec write_txin_no_witness is @ write_vec write_txout os) d'"
    by (auto simp: read_vin_iff read_vout_iff)
  finally show ?thesis by (cases "flags = 0"; cases "is = []") auto
qed

lemma has_witness_iff: "has_witness tx \<longleftrightarrow> (\<exists>i \<in> set (inputs tx). witness i \<noteq> [])"
  by (simp add: has_witness_def list_ex_iff)

lemma map_no_wit_id [simp]: "\<forall>i \<in> set is. witness i = [] \<Longrightarrow> map no_wit is = is"
  by (induction "is") (simp_all add: no_wit_id)

lemma flag_bit: "(flags :: u8) XOR 1 = 0 \<longleftrightarrow> flags = 1"
proof
  assume "flags XOR 1 = 0"
  moreover have "flags = (flags XOR 1) XOR 1" by (simp add: xor.assoc)
  ultimately show "flags = 1" by simp
qed simp

lemma read_ins_outs_no_wit:
  "read_ins_outs d = (Inr (is, os, flags), d') \<Longrightarrow> map no_wit is = is"
  by (simp add: read_ins_outs_iff)

lemma read_witnesses_no_wit:
  "read_witnesses is d = (Inr js, d') \<Longrightarrow> map no_wit js = map no_wit is"
  by (simp add: read_witnesses_iff)

lemma tx_read_cases:
  "tx_read d = (Inr tx, d') \<longleftrightarrow>
   (\<exists>d1 d2 d3. consumes d (u32_le (tx_version tx)) d1 \<and> consumes d3 (u32_le (lock_time tx)) d' \<and>
     (if has_witness tx
      then read_ins_outs d1 = (Inr (map no_wit (inputs tx), outputs tx, 1), d2) \<and>
        read_witnesses (map no_wit (inputs tx)) d2 = (Inr (inputs tx), d3)
      else read_ins_outs d1 = (Inr (inputs tx, outputs tx, 0), d2) \<and> d3 = d2))"
proof
  assume "tx_read d = (Inr tx, d')"
  then obtain d1 "is" flags d2 d3 where
    ver: "consumes d (u32_le (tx_version tx)) d1" and
    io: "read_ins_outs d1 = (Inr (is, outputs tx, flags), d2)" and
    w: "read_flagged_witnesses is flags d2 = (Inr (inputs tx, 0), d3)" and
    lt: "consumes d3 (u32_le (lock_time tx)) d'"
    by (auto simp: tx_read_def split: if_splits)
  from io have "is": "map no_wit is = is" by (rule read_ins_outs_no_wit)
  show "\<exists>d1 d2 d3. consumes d (u32_le (tx_version tx)) d1 \<and> consumes d3 (u32_le (lock_time tx)) d' \<and>
     (if has_witness tx
      then read_ins_outs d1 = (Inr (map no_wit (inputs tx), outputs tx, 1), d2) \<and>
        read_witnesses (map no_wit (inputs tx)) d2 = (Inr (inputs tx), d3)
      else read_ins_outs d1 = (Inr (inputs tx, outputs tx, 0), d2) \<and> d3 = d2)"
  proof (cases "flags AND 1 = 0")
    case True
    with w have "flags = 0" "inputs tx = is" "d3 = d2"
      by (auto simp: read_flagged_witnesses_def)
    moreover have "\<not> has_witness tx"
      using io calculation by (auto simp: has_witness_iff read_ins_outs_iff)
    ultimately show ?thesis using ver io lt by (intro exI [of _ d1] exI [of _ d2]) auto
  next
    case False
    with w have r: "read_witnesses is d2 = (Inr (inputs tx), d3)" and f: "flags XOR 1 = 0"
      and h: "has_witness tx"
      by (auto simp: read_flagged_witnesses_def has_witness_def split: if_splits)
    from False f have "flags = 1" by (simp add: flag_bit)
    moreover have "map no_wit (inputs tx) = is"
      using read_witnesses_no_wit [OF r] "is" by simp
    ultimately show ?thesis using ver io lt r h
      by (intro exI [of _ d1] exI [of _ d2] exI [of _ d3]) simp
  qed
next
  assume "\<exists>d1 d2 d3. consumes d (u32_le (tx_version tx)) d1 \<and> consumes d3 (u32_le (lock_time tx)) d' \<and>
     (if has_witness tx
      then read_ins_outs d1 = (Inr (map no_wit (inputs tx), outputs tx, 1), d2) \<and>
        read_witnesses (map no_wit (inputs tx)) d2 = (Inr (inputs tx), d3)
      else read_ins_outs d1 = (Inr (inputs tx, outputs tx, 0), d2) \<and> d3 = d2)"
  then show "tx_read d = (Inr tx, d')"
    by (cases tx) (fastforce simp: tx_read_def read_flagged_witnesses_def has_witness_def
        split: if_splits)
qed

lemma tx_valid_parts:
  "tx_valid tx \<longleftrightarrow> ins_valid (inputs tx) \<and> (\<forall>i \<in> set (inputs tx). witness_valid (witness i)) \<and>
     outs_valid (outputs tx) \<and> (inputs tx = [] \<longrightarrow> outputs tx = [])"
  by (auto simp: tx_valid_def ins_valid_def outs_valid_def)

lemma ins_valid_no_wit [simp]: "ins_valid (map no_wit is) = ins_valid is"
  by (simp add: ins_valid_def fits_def)

lemma has_witness_inputs: "has_witness tx \<Longrightarrow> inputs tx \<noteq> []"
  by (auto simp: has_witness_iff)

lemma tx_iff: "tx_read d = (Inr tx, d') \<longleftrightarrow> tx_valid tx \<and> consumes d (write_with_witness tx) d'"
proof (cases "has_witness tx")
  case True
  then show ?thesis
    by (simp add: tx_read_cases read_ins_outs_iff read_witnesses_iff write_with_witness_def
        tx_valid_parts has_witness_inputs comp_def) blast
next
  case False
  then have "\<forall>i \<in> set (inputs tx). witness i = []" by (simp add: has_witness_iff)
  with False show ?thesis
    by (cases "inputs tx = []")
      (auto simp: tx_read_cases read_ins_outs_iff write_with_witness_def
        write_without_witness_def tx_valid_parts witness_valid_def fits_def, blast+)
qed

interpretation tx: codec tx_read write_with_witness tx_valid
  by unfold_locales (rule tx_iff)

lemma tx_decode_iff: "tx_decode bs = Inr tx \<longleftrightarrow> tx_valid tx \<and> tx_encode tx = bs"
proof -
  have "tx_decode bs = Inr tx \<longleftrightarrow>
      (\<exists>d. tx_read (decoder_new bs) = (Inr tx, d) \<and> is_finished d)"
    by (auto simp: tx_decode_def decoder_finish_def res_bind_def split: prod.splits sum.splits if_splits)
  also have "\<dots> \<longleftrightarrow> tx_valid tx \<and> tx_encode tx = bs"
    using consumes_all [of bs "write_with_witness tx"] consumes_whole [of bs]
    by (auto simp: tx.rd_iff tx_encode_def)
  finally show ?thesis .
qed

section \<open>Sizes are lengths of encodings\<close>

lemma fold_add_sum_list: "fold (\<lambda>x s. s + f x) xs (n :: nat) = n + sum_list (map f xs)"
  by (induction xs arbitrary: n) simp_all

lemma length_write_vec: "length (write_vec w xs) =
  compact_size_len (len_u64 xs) + sum_list (map (\<lambda>x. length (w x)) xs)"
  by (simp add: write_vec_def length_concat comp_def)

lemma length_write_var_bytes [size_simps]:
  "length (write_var_bytes bs) = compact_size_len (len_u64 bs) + length bs"
  by (simp add: write_var_bytes_def)

lemma fold_cong_add:
  "(\<And>x s. g x s = s + f x) \<Longrightarrow> fold g xs (n :: nat) = n + sum_list (map f xs)"
  by (induction xs arbitrary: n) simp_all

lemma size_without_witness_length:
  assumes "\<forall>i \<in> set (inputs tx). length (op_txid (previous_output i)) = 32"
  shows "size_without_witness tx = length (write_without_witness tx)"
proof -
  have ins: "map (\<lambda>i. length (write_txin_no_witness i)) (inputs tx) =
      map (\<lambda>i. 40 + compact_size_len (len_u64 (script_sig i)) + length (script_sig i)) (inputs tx)"
    using assms by (simp add: write_txin_no_witness_def size_simps)
  have outs: "(\<lambda>out. length (write_txout out)) =
      (\<lambda>out. 8 + compact_size_len (len_u64 (script_pubkey out)) + length (script_pubkey out))"
    by (simp add: write_txout_def size_simps fun_eq_iff)
  have f1: "fold (\<lambda>i size. size + (32 + 4 + compact_size_len (len_u64 (script_sig i))
            + length (script_sig i)) + 4) (inputs tx) n = n +
      sum_list (map (\<lambda>i. 40 + compact_size_len (len_u64 (script_sig i)) + length (script_sig i))
        (inputs tx))" for n :: nat
    by (rule fold_cong_add) simp
  show ?thesis
    unfolding size_without_witness_def Let_def f1 fold_add_sum_list
    by (simp add: write_without_witness_def length_write_vec ins outs)
qed

lemma size_with_witness_length:
  assumes "\<forall>i \<in> set (inputs tx). length (op_txid (previous_output i)) = 32"
  shows "size_with_witness tx = length (tx_encode tx)"
proof -
  have "fold (\<lambda>i size.
          fold (\<lambda>item size. size + (compact_size_len (len_u64 item) + length item)) (witness i)
            (size + compact_size_len (len_u64 (witness i)))) (inputs tx) n =
      n + sum_list (map (\<lambda>i. length (write_witness (witness i))) (inputs tx))" for n :: nat
    by (rule fold_cong_add)
      (simp add: write_witness_def length_write_vec fold_add_sum_list size_simps)
  then show ?thesis
    using size_without_witness_length [OF assms]
    by (simp add: size_with_witness_def tx_encode_def write_with_witness_def length_concat comp_def
        write_without_witness_def)
qed

section \<open>Properties\<close>

text \<open>C36: decoding is exactly the inverse of encoding. The bytes a transaction decodes from are
  the ones it encodes to (so a transaction has one accepted serialization), and every transaction
  the format can carry decodes from its encoding.\<close>

theorem tx_decode_exact:
  "tx_decode bs = Inr tx \<longleftrightarrow> tx_valid tx \<and> tx_encode tx = bs"
  by (rule tx_decode_iff)

text \<open>for a transaction that came off the wire, the two size computations and the weight,
  which never serialize, give the lengths of its serializations.\<close>

theorem decoded_tx_sizes:
  assumes "tx_decode bs = Inr tx"
  shows "size_with_witness tx = length bs \<and>
         size_without_witness tx = length (write_without_witness tx) \<and>
         tx_weight tx = 3 * length (write_without_witness tx) + length bs"
proof -
  have "tx_valid tx" and bs: "tx_encode tx = bs" using assms by (simp_all add: tx_decode_iff)
  then have "\<forall>i \<in> set (inputs tx). length (op_txid (previous_output i)) = 32"
    by (simp add: tx_valid_def txin_valid_def)
  from size_with_witness_length [OF this] size_without_witness_length [OF this] bs
  show ?thesis by (simp add: tx_weight_def)
qed

definition segwit_sample :: transaction where
  "segwit_sample =
     \<lparr>tx_version = 2,
      inputs = [\<lparr>previous_output = \<lparr>op_txid = replicate 32 7, op_vout = 1\<rparr>, script_sig = [],
        sequence = 0xfffffffd, witness = [[1, 2, 3], []]\<rparr>],
      outputs = [\<lparr>out_value = 5000, script_pubkey = [0x6a]\<rparr>],
      lock_time = 0\<rparr>"

text \<open>An instance: a segregated-witness transaction of one input.\<close>

lemma decoded_tx_sizes_witness:
  "size_with_witness segwit_sample = 69 \<and> tx_weight segwit_sample = 252"
proof -
  have "tx_decode (tx_encode segwit_sample) = Inr segwit_sample"
    by (simp add: tx_decode_iff segwit_sample_def tx_valid_def txin_valid_def txout_valid_def
        witness_valid_def fits_def in_i64_def i64_min_def i64_max_def)
  moreover have "length (tx_encode segwit_sample) = 69"
    "length (write_without_witness segwit_sample) = 61"
    by (simp_all add: segwit_sample_def tx_encode_def write_with_witness_def has_witness_def
        write_without_witness_def write_vec_def write_txin_no_witness_def write_txout_def
        write_witness_def length_write_var_bytes size_simps compact_size_len_def len_u64_def)
  ultimately show ?thesis using decoded_tx_sizes [of "tx_encode segwit_sample" segwit_sample]
    by simp
qed

end
