(* ===== verification/Merkle.thy ===== *)
theory Merkle
  imports Encode Hashing
begin

text \<open>
  Merkle roots with CVE-2012-2459 detection and BIP37 partial merkle trees:
  \<open>src/crates/avila-consensus/src/merkle.rs\<close>.

  The levels of the root computation are lists; \<open>merkle_loop\<close> is the while loop. Positions and
  widths of the partial tree (\<open>u32\<close>) are naturals: \<open>extract\<close> refuses more than 66,666 leaves
  before it computes with them, so they stay far below \<open>2 ^ 32\<close>.
\<close>

section \<open>The merkle root\<close>

fun as_pairs :: "'a list \<Rightarrow> ('a \<times> 'a) list" where
  "as_pairs (a # b # r) = (a, b) # as_pairs r"
| "as_pairs _ = []"

definition hash_merkle_pair :: "hash_fns \<Rightarrow> hash32 \<times> hash32 \<Rightarrow> hash32" where
  "hash_merkle_pair H p = sha256d H (fst p @ snd p)"

text \<open>The groups of eight and the remainder of \<open>as_chunks::<8>\<close>.\<close>

function groups8 :: "'a list \<Rightarrow> 'a list list \<times> 'a list" where
  "groups8 xs =
     (if length xs < 8 then ([], xs)
      else let (gs, r) = groups8 (drop 8 xs) in (take 8 xs # gs, r))"
  by auto
termination by (relation "measure length") auto

declare groups8.simps [simp del]

definition hash_merkle_pairs :: "hash_fns \<Rightarrow> (hash32 \<times> hash32) list \<Rightarrow> bool \<Rightarrow> hash32 list" where
  "hash_merkle_pairs H pairs use_avx2 =
     (if use_avx2 then
        let (groups, remainder) = groups8 pairs in
        fold (\<lambda>group next.
            case try_sha256d64_8 H group of
              Some output \<Rightarrow> next @ output
            | None \<Rightarrow> next @ map (hash_merkle_pair H) group) groups []
          @ map (hash_merkle_pair H) remainder
      else map (hash_merkle_pair H) pairs)"

text \<open>The scan of a level for adjacent equal hashes, in steps of two.\<close>

fun adjacent_equal :: "'a list \<Rightarrow> bool" where
  "adjacent_equal (a # b # r) = (a = b \<or> adjacent_equal r)"
| "adjacent_equal _ = False"

definition pad_odd :: "'a list \<Rightarrow> 'a list" where
  "pad_odd hs = (if length hs mod 2 = 1 then hs @ [hs ! (length hs - 1)] else hs)"

lemma length_as_pairs [simp]: "length (as_pairs xs) = length xs div 2"
  by (induction xs rule: as_pairs.induct) simp_all

lemma fold_append_map:
  "(\<And>g acc. g \<in> set gs \<Longrightarrow> f g acc = acc @ h g) \<Longrightarrow> fold f gs acc = acc @ concat (map h gs)"
  by (induction gs arbitrary: acc) simp_all

lemma groups8_concat: "groups8 xs = (gs, r) \<Longrightarrow> concat gs @ r = xs"
proof (induction xs arbitrary: gs r rule: groups8.induct)
  case (1 xs)
  show ?case
  proof (cases "length xs < 8")
    case False
    obtain gs' r' where g: "groups8 (drop 8 xs) = (gs', r')" by fastforce
    with 1 False have "concat gs' @ r' = drop 8 xs" by simp
    with g False 1(2) show ?thesis by (auto simp: groups8.simps [of xs])
  qed (use 1 in \<open>auto simp: groups8.simps [of xs]\<close>)
qed

lemma hash_merkle_pairs_map:
  assumes "hash_fns_ok H"
  shows "hash_merkle_pairs H pairs avx = map (hash_merkle_pair H) pairs"
proof -
  obtain gs r where g: "groups8 pairs = (gs, r)" by fastforce
  have "(case try_sha256d64_8 H group of Some output \<Rightarrow> next @ output
      | None \<Rightarrow> next @ map (hash_merkle_pair H) group) = next @ map (hash_merkle_pair H) group"
    for group "next"
    using hash_fns_ok_simd [OF assms, of group]
    by (auto simp: hash_merkle_pair_def case_prod_beta split: option.splits)
  then have "hash_merkle_pairs H pairs True = map (hash_merkle_pair H) (concat gs @ r)"
    by (simp add: hash_merkle_pairs_def g fold_append_map [where h = "map (hash_merkle_pair H)"]
        map_concat)
  then show ?thesis
    using groups8_concat [OF g] by (cases avx) (simp_all add: hash_merkle_pairs_def)
qed

text \<open>The while loop. It halves the level each time, so \<open>length leaves\<close> iterations are enough
  (\<open>merkle_loop_root\<close> below); the bound is needed only because the SIMD kernel is a parameter.\<close>

fun merkle_loop :: "hash_fns \<Rightarrow> bool \<Rightarrow> nat \<Rightarrow> hash32 list \<Rightarrow> bool \<Rightarrow> hash32 list \<times> bool" where
  "merkle_loop H avx 0 hashes mutated = (hashes, mutated)"
| "merkle_loop H avx (Suc n) hashes mutated =
     (if length hashes > 1 then
        merkle_loop H avx n (hash_merkle_pairs H (as_pairs (pad_odd hashes)) avx)
          (mutated \<or> adjacent_equal hashes)
      else (hashes, mutated))"

definition merkle_root_with_avx2 :: "hash_fns \<Rightarrow> hash32 list \<Rightarrow> bool \<Rightarrow> hash32 \<times> bool" where
  "merkle_root_with_avx2 H leaves use_avx2 =
     (case merkle_loop H use_avx2 (length leaves) leaves False of
        (root # _, mutated) \<Rightarrow> (root, mutated)
      | ([], mutated) \<Rightarrow> (replicate 32 0, mutated))"

definition merkle_root :: "hash_fns \<Rightarrow> hash32 list \<Rightarrow> hash32 \<times> bool" where
  "merkle_root H leaves = merkle_root_with_avx2 H leaves True"

section \<open>The reference tree\<close>

definition next_level :: "hash_fns \<Rightarrow> hash32 list \<Rightarrow> hash32 list" where
  "next_level H hs = map (hash_merkle_pair H) (as_pairs (pad_odd hs))"

lemma length_next_level [simp]: "length (next_level H hs) = (length hs + 1) div 2"
  by (simp add: next_level_def pad_odd_def) presburger

function ref_root :: "hash_fns \<Rightarrow> hash32 list \<Rightarrow> hash32 \<times> bool" where
  "ref_root H hs =
     (if length hs > 1 then
        let (r, m) = ref_root H (next_level H hs) in (r, adjacent_equal hs \<or> m)
      else (if hs = [] then replicate 32 0 else hd hs, False))"
  by auto
termination by (relation "measure (length \<circ> snd)") auto

declare ref_root.simps [simp del]

lemma merkle_loop_ref:
  assumes "hash_fns_ok H" and "length hs \<le> n"
  shows "(case merkle_loop H avx n hs mutated of
        (root # _, m) \<Rightarrow> (root, m) | ([], m) \<Rightarrow> (replicate 32 0, m)) =
    (fst (ref_root H hs), mutated \<or> snd (ref_root H hs))"
  using assms(2)
proof (induction n arbitrary: hs mutated)
  case 0
  then show ?case by (simp add: ref_root.simps)
next
  case (Suc n)
  show ?case
  proof (cases "length hs > 1")
    case True
    with Suc.prems have "length (next_level H hs) \<le> n" by simp
    from Suc.IH [OF this] True show ?thesis
      by (simp add: hash_merkle_pairs_map [OF assms(1)] ref_root.simps [of H hs]
          case_prod_beta Let_def flip: next_level_def)
  next
    case False
    then show ?thesis
      by (cases hs) (auto simp: ref_root.simps)
  qed
qed

lemma merkle_root_ref: "hash_fns_ok H \<Longrightarrow> merkle_root_with_avx2 H hs avx = ref_root H hs"
  using merkle_loop_ref [of H hs "length hs" avx False]
  by (simp add: merkle_root_with_avx2_def)

section \<open>What a root commits to\<close>

text \<open>The double hash separates two sets of inputs: no input of the one collides with a different
  input of the other. A collision is always one between strings that were hashed, never its mere
  existence (which holds of every hash).\<close>

definition hash_apart :: "hash_fns \<Rightarrow> bytes list \<Rightarrow> bytes list \<Rightarrow> bool" where
  "hash_apart H us vs \<longleftrightarrow> (\<forall>u \<in> set us. \<forall>v \<in> set vs. sha256d H u = sha256d H v \<longrightarrow> u = v)"

definition all32 :: "hash32 list \<Rightarrow> bool" where
  "all32 hs \<longleftrightarrow> (\<forall>h \<in> set hs. length h = 32)"

lemma hash_apart_append:
  "hash_apart H (us @ us') (vs @ vs') \<Longrightarrow> hash_apart H us vs \<and> hash_apart H us' vs'"
  by (auto simp: hash_apart_def)

lemma hash_apart_Cons:
  "hash_apart H (u # us) (v # vs) \<Longrightarrow> (sha256d H u = sha256d H v \<longrightarrow> u = v) \<and> hash_apart H us vs"
  by (auto simp: hash_apart_def)

text \<open>The strings hashed for one level, and for the root of a list of leaves.\<close>

definition level_inputs :: "hash32 list \<Rightarrow> bytes list" where
  "level_inputs hs = map (\<lambda>(a, b). a @ b) (as_pairs (pad_odd hs))"

function merkle_inputs :: "hash_fns \<Rightarrow> hash32 list \<Rightarrow> bytes list" where
  "merkle_inputs H hs =
     (if length hs > 1 then level_inputs hs @ merkle_inputs H (next_level H hs) else [])"
  by auto
termination by (relation "measure (length \<circ> snd)") auto

declare merkle_inputs.simps [simp del]

fun pairs32 :: "(hash32 \<times> hash32) list \<Rightarrow> bool" where
  "pairs32 ps = (\<forall>(a, b) \<in> set ps. length a = 32 \<and> length b = 32)"

lemma pairs32_as_pairs: "all32 hs \<Longrightarrow> pairs32 (as_pairs hs)"
  by (induction hs rule: as_pairs.induct) (auto simp: all32_def)

lemma map_hash_pair_inj:
  "hash_apart H (map (\<lambda>(a, b). a @ b) ps) (map (\<lambda>(a, b). a @ b) qs) \<Longrightarrow> pairs32 ps \<Longrightarrow> pairs32 qs \<Longrightarrow>
   map (hash_merkle_pair H) ps = map (hash_merkle_pair H) qs \<Longrightarrow> ps = qs"
proof (induction ps arbitrary: qs)
  case (Cons p ps)
  then obtain q qs' where q: "qs = q # qs'" by (cases qs) auto
  obtain a b c d where "p = (a, b)" "q = (c, d)" by (cases p; cases q)
  with Cons.prems q have "a @ b = c @ d" "length a = length c"
    by (auto simp: hash_merkle_pair_def dest!: hash_apart_Cons)
  moreover have "ps = qs'"
    using Cons.prems q by (intro Cons.IH) (auto dest: hash_apart_Cons)
  ultimately show ?case using q \<open>p = (a, b)\<close> \<open>q = (c, d)\<close> by simp
qed auto

lemma as_pairs_inj:
  "even (length xs) \<Longrightarrow> even (length ys) \<Longrightarrow> as_pairs xs = as_pairs ys \<Longrightarrow> xs = ys"
proof (induction xs arbitrary: ys rule: as_pairs.induct)
  case (1 a b r)
  then show ?case by (cases ys rule: as_pairs.cases) auto
next
  case "2_1"
  then show ?case by (cases ys rule: as_pairs.cases) auto
qed auto

lemma even_pad_odd [simp]: "even (length (pad_odd hs))"
  by (simp add: pad_odd_def) presburger

lemma all32_pad_odd: "all32 hs \<Longrightarrow> all32 (pad_odd hs)"
  by (cases hs rule: rev_cases) (auto simp: pad_odd_def all32_def nth_append)

lemma adjacent_equal_dup:
  "odd (length xs) \<Longrightarrow> adjacent_equal (xs @ [last xs])"
proof (induction xs rule: adjacent_equal.induct)
  case (1 a b r)
  then show ?case by (cases r) auto
qed auto

lemma pad_odd_inj:
  assumes "pad_odd xs = pad_odd ys" and "\<not> adjacent_equal xs" and "\<not> adjacent_equal ys"
  shows "xs = ys"
proof -
  have pad: "pad_odd zs = (if odd (length zs) then zs @ [last zs] else zs)" for zs :: "'a list"
    by (cases "zs = []") (auto simp: pad_odd_def last_conv_nth odd_iff_mod_2_eq_one)
  from assms(1) show ?thesis
    using adjacent_equal_dup [of xs] adjacent_equal_dup [of ys] assms(2,3)
    by (auto simp: pad split: if_splits)
qed

lemma next_level_inj:
  assumes "hash_apart H (level_inputs xs) (level_inputs ys)" "all32 xs" "all32 ys"
    and "\<not> adjacent_equal xs" "\<not> adjacent_equal ys" "next_level H xs = next_level H ys"
  shows "xs = ys"
proof -
  have "as_pairs (pad_odd xs) = as_pairs (pad_odd ys)"
    using assms by (intro map_hash_pair_inj [of H])
      (simp_all add: next_level_def level_inputs_def pairs32_as_pairs all32_pad_odd
        del: pairs32.simps)
  then have "pad_odd xs = pad_odd ys" by (simp add: as_pairs_inj)
  then show ?thesis using assms pad_odd_inj by blast
qed

text \<open>The number of levels above the leaves.\<close>

fun levels :: "nat \<Rightarrow> nat" where
  "levels n = (if n > 1 then Suc (levels ((n + 1) div 2)) else 0)"

declare levels.simps [simp del]

lemma levels_0 [simp]: "n \<le> 1 \<Longrightarrow> levels n = 0"
  by (subst levels.simps) simp

lemma levels_Suc [simp]: "n > 1 \<Longrightarrow> levels n = Suc (levels ((n + 1) div 2))"
  by (subst levels.simps) simp

lemma all32_next_level: "hash_fns_ok H \<Longrightarrow> all32 (next_level H hs)"
  by (auto simp: all32_def next_level_def hash_merkle_pair_def)

lemma ref_root_binding:
  assumes "hash_fns_ok H"
  shows "hash_apart H (merkle_inputs H xs) (merkle_inputs H ys) \<Longrightarrow>
    all32 xs \<Longrightarrow> all32 ys \<Longrightarrow> xs \<noteq> [] \<Longrightarrow> ys \<noteq> [] \<Longrightarrow>
    levels (length xs) = levels (length ys) \<Longrightarrow>
    ref_root H xs = (r, False) \<Longrightarrow> ref_root H ys = (r, False) \<Longrightarrow> xs = ys"
proof (induction "levels (length xs)" arbitrary: xs ys)
  case 0
  then have "length xs \<le> 1" "length ys \<le> 1" by (metis Zero_not_Suc levels_Suc not_le)+
  with 0 show ?case
    by (cases xs; cases ys) (auto simp: ref_root.simps)
next
  case (Suc n)
  then have len: "length xs > 1" "length ys > 1" by (metis Zero_not_Suc levels_0 not_le)+
  with Suc.prems have root: "ref_root H (next_level H xs) = (r, False)"
    "ref_root H (next_level H ys) = (r, False)" "\<not> adjacent_equal xs" "\<not> adjacent_equal ys"
    by (auto simp: ref_root.simps [of H xs] ref_root.simps [of H ys] Let_def split: prod.splits)
  have ne: "next_level H xs \<noteq> []" "next_level H ys \<noteq> []"
    using len by (auto simp flip: length_0_conv)
  have n: "n = levels (length (next_level H xs))"
    "levels (length (next_level H xs)) = levels (length (next_level H ys))"
    using Suc.hyps(2) len Suc.prems(6) by simp_all
  have apart: "hash_apart H (level_inputs xs) (level_inputs ys)"
    "hash_apart H (merkle_inputs H (next_level H xs)) (merkle_inputs H (next_level H ys))"
    using hash_apart_append [of H "level_inputs xs" _ "level_inputs ys"] Suc.prems(1) len
    by (simp_all add: merkle_inputs.simps [of H xs] merkle_inputs.simps [of H ys])
  have "next_level H xs = next_level H ys"
    by (rule Suc.hyps(1) [OF n(1) apart(2) _ _ ne n(2) root(1,2)])
      (simp_all add: all32_next_level assms(1))
  then show ?case using next_level_inj apart(1) Suc.prems(2,3) root(3,4) by blast
qed

lemma ref_root_dup_tail:
  assumes "odd (length hs)" and "length hs > 1"
  shows "ref_root H (hs @ [last hs]) = (fst (ref_root H hs), True)"
proof -
  have "pad_odd (hs @ [last hs]) = pad_odd hs"
    using assms by (cases "hs = []") (auto simp: pad_odd_def last_conv_nth odd_iff_mod_2_eq_one)
  then have "next_level H (hs @ [last hs]) = next_level H hs" by (simp add: next_level_def)
  then show ?thesis
    using assms adjacent_equal_dup [OF assms(1)]
    by (auto simp: ref_root.simps [of H hs] ref_root.simps [of H "hs @ [last hs]"] case_prod_beta)
qed

section \<open>BIP37 partial merkle trees\<close>

record partial_merkle_tree =
  num_transactions :: nat
  pmt_hashes :: "hash32 list"
  pmt_bits :: "bool list"
  pmt_bad :: bool

type_synonym matched = "(hash32 \<times> nat) list"

definition width_of :: "nat \<Rightarrow> nat \<Rightarrow> nat" where
  "width_of n height = (n + 2 ^ height - 1) div 2 ^ height"

definition tree_width :: "partial_merkle_tree \<Rightarrow> nat \<Rightarrow> nat" where
  "tree_width t height = width_of (num_transactions t) height"

text \<open>\<open>while width_of(n, height) > 1 { height += 1 }\<close>.\<close>

lemma width_gt_1: "width_of n h > 1 \<Longrightarrow> h < n"
proof -
  assume "width_of n h > 1"
  then have "2 * 2 ^ h \<le> n + 2 ^ h - 1"
    using less_eq_div_iff_mult_less_eq [of "2 ^ h" 2 "n + 2 ^ h - 1"] by (simp add: width_of_def)
  moreover have "(0 :: nat) < 2 ^ h" by simp
  ultimately have "2 ^ h < n" by linarith
  then show ?thesis using less_exp [of h] by linarith
qed

function tree_height :: "nat \<Rightarrow> nat \<Rightarrow> nat" where
  "tree_height n height = (if width_of n height > 1 then tree_height n (height + 1) else height)"
  by auto
termination by (relation "measure (\<lambda>(n, h). n - h)") (auto dest!: width_gt_1 [simplified])

declare tree_height.simps [simp del]

fun calc_hash :: "hash_fns \<Rightarrow> nat \<Rightarrow> nat \<Rightarrow> hash32 list \<Rightarrow> nat \<Rightarrow> hash32" where
  "calc_hash H 0 pos txids num_tx = txids ! pos"
| "calc_hash H (Suc h) pos txids num_tx =
     (let left = calc_hash H h (pos * 2) txids num_tx;
          right = (if pos * 2 + 1 < width_of num_tx h
                   then calc_hash H h (pos * 2 + 1) txids num_tx else left)
      in sha256d H (left @ right))"

text \<open>The scan of the leaves below a node, from \<open>p\<close> up to \<open>(pos + 1) << height\<close>.\<close>

definition parent_of_match :: "nat \<Rightarrow> nat \<Rightarrow> bool list \<Rightarrow> nat \<Rightarrow> bool" where
  "parent_of_match height pos matches num_tx =
     list_ex (\<lambda>p. matches ! p) [pos * 2 ^ height ..< min ((pos + 1) * 2 ^ height) num_tx]"

fun traverse_build :: "hash_fns \<Rightarrow> nat \<Rightarrow> nat \<Rightarrow> hash32 list \<Rightarrow> bool list \<Rightarrow>
    partial_merkle_tree \<Rightarrow> partial_merkle_tree" where
  "traverse_build H 0 pos txids matches t =
     (let t = t\<lparr>pmt_bits := pmt_bits t @ [parent_of_match 0 pos matches (num_transactions t)]\<rparr>
      in t\<lparr>pmt_hashes := pmt_hashes t @ [calc_hash H 0 pos txids (num_transactions t)]\<rparr>)"
| "traverse_build H (Suc h) pos txids matches t =
     (let m = parent_of_match (Suc h) pos matches (num_transactions t);
          t = t\<lparr>pmt_bits := pmt_bits t @ [m]\<rparr>
      in if \<not> m then
           t\<lparr>pmt_hashes := pmt_hashes t @ [calc_hash H (Suc h) pos txids (num_transactions t)]\<rparr>
         else
           let t = traverse_build H h (pos * 2) txids matches t
           in if pos * 2 + 1 < tree_width t h
              then traverse_build H h (pos * 2 + 1) txids matches t else t)"

definition pmt_build :: "hash_fns \<Rightarrow> hash32 list \<Rightarrow> bool list \<Rightarrow> partial_merkle_tree" where
  "pmt_build H txids matches =
     (let tree = \<lparr>num_transactions = length txids, pmt_hashes = [], pmt_bits = [], pmt_bad = False\<rparr>;
          height = tree_height (num_transactions tree) 0
      in traverse_build H height 0 txids matches tree)"

text \<open>The walk of the verifier: the tree with its \<open>bad\<close> flag, \<open>bits_used\<close>, \<open>hash_used\<close> and the
  matches found so far are the state.\<close>

record extract_state =
  ex_bad :: bool
  bits_used :: nat
  hash_used :: nat
  ex_matched :: matched

fun traverse_extract :: "hash_fns \<Rightarrow> partial_merkle_tree \<Rightarrow> nat \<Rightarrow> nat \<Rightarrow> extract_state \<Rightarrow>
    hash32 \<times> extract_state" where
  "traverse_extract H t height pos s =
     (if bits_used s \<ge> length (pmt_bits t) then (replicate 32 0, s\<lparr>ex_bad := True\<rparr>)
      else
        let m = pmt_bits t ! bits_used s;
            s = s\<lparr>bits_used := bits_used s + 1\<rparr>
        in case (height, m) of
          (Suc h, True) \<Rightarrow>
            (let (left, s) = traverse_extract H t h (pos * 2) s;
                 (right, s) =
                   (if pos * 2 + 1 < tree_width t h then
                      let (r, s) = traverse_extract H t h (pos * 2 + 1) s
                      in (r, if r = left then s\<lparr>ex_bad := True\<rparr> else s)
                    else (left, s))
             in (sha256d H (left @ right), s))
        | _ \<Rightarrow>
            (if hash_used s \<ge> length (pmt_hashes t) then (replicate 32 0, s\<lparr>ex_bad := True\<rparr>)
             else
               let hash = pmt_hashes t ! hash_used s;
                   s = s\<lparr>hash_used := hash_used s + 1\<rparr>
               in (hash, if height = 0 \<and> m then s\<lparr>ex_matched := ex_matched s @ [(hash, pos)]\<rparr>
                         else s)))"

declare traverse_extract.simps [simp del]

definition div_ceil :: "nat \<Rightarrow> nat \<Rightarrow> nat" where
  "div_ceil a b = (a + b - 1) div b"

definition pmt_extract :: "hash_fns \<Rightarrow> partial_merkle_tree \<Rightarrow> (hash32 \<times> matched) option" where
  "pmt_extract H t =
     (if num_transactions t = 0 then None
      else if num_transactions t > 4000000 div 60 then None
      else if length (pmt_hashes t) > num_transactions t then None
      else if length (pmt_bits t) < length (pmt_hashes t) then None
      else
        let height = tree_height (num_transactions t) 0;
            (root, s) = traverse_extract H t height 0
              \<lparr>ex_bad = pmt_bad t, bits_used = 0, hash_used = 0, ex_matched = []\<rparr>
        in if ex_bad s then None
           else if div_ceil (bits_used s) 8 \<noteq> div_ceil (length (pmt_bits t)) 8 then None
           else if hash_used s \<noteq> length (pmt_hashes t) then None
           else Some (root, ex_matched s))"

section \<open>The wire form of a partial tree\<close>

text \<open>Bits packed least significant first; \<open>packed_bits\<close> sets them one by one.\<close>

definition packed_bits :: "bool list \<Rightarrow> bytes" where
  "packed_bits bits =
     fold (\<lambda>(i, b) packed. if b then packed[i div 8 := packed ! (i div 8) OR push_bit (i mod 8) 1]
         else packed)
       (enumerate 0 bits) (replicate (div_ceil (length bits) 8) 0)"

definition pmt_encode :: "partial_merkle_tree \<Rightarrow> bytes" where
  "pmt_encode t =
     u32_le (word_of_nat (num_transactions t)) @ write_vec (\<lambda>h. h) (pmt_hashes t) @
     (let packed = packed_bits (pmt_bits t) in write_compact_size (len_u64 packed) @ packed)"

definition byte_bits :: "u8 \<Rightarrow> bool list" where
  "byte_bits b = map (\<lambda>shift. drop_bit shift b AND 1 = 1) [0..<8]"

definition pmt_decode :: "decoder \<Rightarrow> partial_merkle_tree option \<times> decoder" where
  "pmt_decode =
     (\<lambda>d. case rd_bind read_u32_le (\<lambda>n.
        rd_bind read_compact_size (\<lambda>n_hashes.
          if n_hashes > ucast n then rd_return None
          else rd_bind (read_items (read_array 32) (unat n_hashes)) (\<lambda>hashes.
          rd_bind read_compact_size (\<lambda>n_bytes.
          rd_bind (read_items read_u8 (unat n_bytes)) (\<lambda>bs.
            rd_return (Some \<lparr>num_transactions = unat n, pmt_hashes = hashes,
              pmt_bits = concat (map byte_bits bs), pmt_bad = False\<rparr>)))))) d of
        (Inl _, d') \<Rightarrow> (None, d')
      | (Inr t, d') \<Rightarrow> (t, d'))"

section \<open>The tree both walks follow\<close>

text \<open>What \<open>traverse_build\<close> appends below a node: the bits and the hashes.\<close>

fun proof_bits :: "nat \<Rightarrow> nat \<Rightarrow> bool list \<Rightarrow> nat \<Rightarrow> bool list" where
  "proof_bits 0 pos ms n = [parent_of_match 0 pos ms n]"
| "proof_bits (Suc h) pos ms n =
     (if \<not> parent_of_match (Suc h) pos ms n then [False]
      else True # proof_bits h (pos * 2) ms n @
        (if pos * 2 + 1 < width_of n h then proof_bits h (pos * 2 + 1) ms n else []))"

fun proof_hashes :: "hash_fns \<Rightarrow> nat \<Rightarrow> nat \<Rightarrow> hash32 list \<Rightarrow> bool list \<Rightarrow> nat \<Rightarrow> hash32 list" where
  "proof_hashes H 0 pos ids ms n = [calc_hash H 0 pos ids n]"
| "proof_hashes H (Suc h) pos ids ms n =
     (if \<not> parent_of_match (Suc h) pos ms n then [calc_hash H (Suc h) pos ids n]
      else proof_hashes H h (pos * 2) ids ms n @
        (if pos * 2 + 1 < width_of n h then proof_hashes H h (pos * 2 + 1) ids ms n else []))"

fun proof_matched :: "nat \<Rightarrow> nat \<Rightarrow> hash32 list \<Rightarrow> bool list \<Rightarrow> nat \<Rightarrow> matched" where
  "proof_matched 0 pos ids ms n = (if parent_of_match 0 pos ms n then [(ids ! pos, pos)] else [])"
| "proof_matched (Suc h) pos ids ms n =
     (if \<not> parent_of_match (Suc h) pos ms n then []
      else proof_matched h (pos * 2) ids ms n @
        (if pos * 2 + 1 < width_of n h then proof_matched h (pos * 2 + 1) ids ms n else []))"

lemma traverse_build_appends:
  "traverse_build H h pos ids ms t =
   t\<lparr>pmt_bits := pmt_bits t @ proof_bits h pos ms (num_transactions t),
     pmt_hashes := pmt_hashes t @ proof_hashes H h pos ids ms (num_transactions t)\<rparr>"
proof (induction h arbitrary: pos t)
  case (Suc h)
  show ?case by (simp add: Suc Let_def tree_width_def)
qed simp

text \<open>No node below has two equal children, both present.\<close>

fun no_twins :: "hash_fns \<Rightarrow> nat \<Rightarrow> nat \<Rightarrow> hash32 list \<Rightarrow> nat \<Rightarrow> bool" where
  "no_twins H 0 pos ids n = True"
| "no_twins H (Suc h) pos ids n =
     (no_twins H h (pos * 2) ids n \<and>
      (pos * 2 + 1 < width_of n h \<longrightarrow>
         no_twins H h (pos * 2 + 1) ids n \<and>
         calc_hash H h (pos * 2) ids n \<noteq> calc_hash H h (pos * 2 + 1) ids n))"

lemma extract_leaf:
  assumes "bits_used s < length (pmt_bits t)" and "hash_used s < length (pmt_hashes t)"
    and "height = 0 \<or> \<not> pmt_bits t ! bits_used s"
  shows "traverse_extract H t height pos s =
    (pmt_hashes t ! hash_used s,
     s\<lparr>bits_used := bits_used s + 1, hash_used := hash_used s + 1,
       ex_matched := ex_matched s @ (if height = 0 \<and> pmt_bits t ! bits_used s
         then [(pmt_hashes t ! hash_used s, pos)] else [])\<rparr>)"
  using assms by (subst traverse_extract.simps) (auto simp: Let_def split: nat.splits)

lemma extract_node:
  assumes "bits_used s < length (pmt_bits t)" and "pmt_bits t ! bits_used s"
  shows "traverse_extract H t (Suc h) pos s =
    (let (left, s) = traverse_extract H t h (pos * 2) (s\<lparr>bits_used := bits_used s + 1\<rparr>);
         (right, s) = (if pos * 2 + 1 < tree_width t h then
             let (r, s) = traverse_extract H t h (pos * 2 + 1) s
             in (r, if r = left then s\<lparr>ex_bad := True\<rparr> else s)
           else (left, s))
     in (sha256d H (left @ right), s))"
  using assms by (simp add: traverse_extract.simps [of H t "Suc h"] Let_def)

lemma extract_build:
  assumes "pmt_bits t = pb @ proof_bits h pos ms n @ sb"
    and "pmt_hashes t = ph @ proof_hashes H h pos ids ms n @ sh"
    and "num_transactions t = n" and "no_twins H h pos ids n"
    and "bits_used s = length pb" and "hash_used s = length ph"
  shows "traverse_extract H t h pos s =
    (calc_hash H h pos ids n,
     s\<lparr>bits_used := bits_used s + length (proof_bits h pos ms n),
       hash_used := hash_used s + length (proof_hashes H h pos ids ms n),
       ex_matched := ex_matched s @ proof_matched h pos ids ms n\<rparr>)"
  using assms
proof (induction h arbitrary: pos pb sb ph sh s)
  case 0
  then show ?case by (subst extract_leaf) (auto simp: nth_append)
next
  case (Suc h)
  let ?m = "parent_of_match (Suc h) pos ms n"
  show ?case
  proof (cases ?m)
    case False
    with Suc.prems show ?thesis by (subst extract_leaf) (auto simp: nth_append)
  next
    case True
    let ?two = "pos * 2 + 1 < width_of n h"
    let ?bl = "proof_bits h (pos * 2) ms n" and ?hl = "proof_hashes H h (pos * 2) ids ms n"
    let ?br = "if ?two then proof_bits h (pos * 2 + 1) ms n else []"
      and ?hr = "if ?two then proof_hashes H h (pos * 2 + 1) ids ms n else []"
    let ?s1 = "s\<lparr>bits_used := bits_used s + 1\<rparr>"
    let ?s2 = "?s1\<lparr>bits_used := bits_used ?s1 + length ?bl, hash_used := hash_used ?s1 + length ?hl,
      ex_matched := ex_matched ?s1 @ proof_matched h (pos * 2) ids ms n\<rparr>"
    have l: "traverse_extract H t h (pos * 2) ?s1 = (calc_hash H h (pos * 2) ids n, ?s2)"
      using Suc.prems True
      by (intro Suc.IH [where pb = "pb @ [True]" and sb = "?br @ sb" and ph = ph and sh = "?hr @ sh"])
        auto
    have r: "traverse_extract H t h (pos * 2 + 1) ?s2 = (calc_hash H h (pos * 2 + 1) ids n,
        ?s2\<lparr>bits_used := bits_used ?s2 + length ?br, hash_used := hash_used ?s2 + length ?hr,
          ex_matched := ex_matched ?s2 @ proof_matched h (pos * 2 + 1) ids ms n\<rparr>)" if ?two
      using Suc.prems True that
      by (subst Suc.IH [where pb = "pb @ [True] @ ?bl" and sb = sb and ph = "ph @ ?hl" and sh = sh])
        auto
    have node: "bits_used s < length (pmt_bits t)" "pmt_bits t ! bits_used s"
      using Suc.prems True by (auto simp: nth_append)
    have w: "tree_width t h = width_of n h" using Suc.prems(3) by (simp add: tree_width_def)
    have twins: "?two \<Longrightarrow> calc_hash H h (pos * 2) ids n \<noteq> calc_hash H h (pos * 2 + 1) ids n"
      using Suc.prems(4) by simp
    show ?thesis
    proof (cases ?two)
      case two: True
      show ?thesis
        unfolding extract_node [OF node] l w Let_def prod.case if_P [OF two] r [OF two]
        using two twins [OF two] True by simp
    next
      case False
      show ?thesis
        unfolding extract_node [OF node] l w Let_def prod.case if_not_P [OF False]
        using False True by (simp add: Let_def)
    qed
  qed
qed

section \<open>Levels, widths and node hashes\<close>

lemma width_less_iff: "x < width_of n h \<longleftrightarrow> x * 2 ^ h < n"
proof -
  have "x < width_of n h \<longleftrightarrow> Suc x * 2 ^ h \<le> n + 2 ^ h - 1"
    using less_eq_div_iff_mult_less_eq [of "2 ^ h" "Suc x" "n + 2 ^ h - 1"]
    by (simp add: width_of_def Suc_le_eq)
  also have "\<dots> \<longleftrightarrow> x * 2 ^ h < n"
  proof -
    have "b + y \<le> n + b - Suc 0 \<longleftrightarrow> y < n" if "0 < b" for b y :: nat
      using that by arith
    from this [of "2 ^ h" "x * 2 ^ h"] show ?thesis by simp
  qed
  finally show ?thesis .
qed

lemma width_0 [simp]: "width_of n 0 = n"
  by (simp add: width_of_def)

lemma width_Suc: "width_of n (Suc h) = (width_of n h + 1) div 2"
proof -
  have "x < width_of n (Suc h) \<longleftrightarrow> x < (width_of n h + 1) div 2" for x
  proof -
    have "x < (width_of n h + 1) div 2 \<longleftrightarrow> 2 * x < width_of n h" by presburger
    then show ?thesis by (simp add: width_less_iff ac_simps)
  qed
  then show ?thesis by (meson less_irrefl nat_neq_iff)
qed

lemma tree_height_levels: "tree_height n h = h + levels (width_of n h)"
proof (induction n h rule: tree_height.induct)
  case (1 n h)
  then show ?case
    by (subst tree_height.simps) (auto simp: width_Suc)
qed

definition level :: "hash_fns \<Rightarrow> hash32 list \<Rightarrow> nat \<Rightarrow> hash32 list" where
  "level H ids k = (next_level H ^^ k) ids"

lemma level_0 [simp]: "level H ids 0 = ids"
  and level_Suc: "level H ids (Suc k) = next_level H (level H ids k)"
  and level_next: "level H (next_level H ids) k = level H ids (Suc k)"
  by (simp_all add: level_def funpow_swap1)

lemma length_level: "length (level H ids k) = width_of (length ids) k"
  by (induction k) (simp_all add: level_Suc width_Suc)

lemma nth_as_pairs: "i < length xs div 2 \<Longrightarrow> as_pairs xs ! i = (xs ! (2 * i), xs ! (2 * i + 1))"
proof (induction xs arbitrary: i rule: as_pairs.induct)
  case (1 a b r)
  then show ?case by (cases i) auto
qed auto

lemma nth_next_level:
  assumes "2 * i < length hs"
  shows "next_level H hs ! i = sha256d H (hs ! (2 * i) @
    (if 2 * i + 1 < length hs then hs ! (2 * i + 1) else hs ! (2 * i)))"
proof -
  have "i < length (pad_odd hs) div 2" using assms by (simp add: pad_odd_def) presburger
  then have "next_level H hs ! i =
      sha256d H (pad_odd hs ! (2 * i) @ pad_odd hs ! (2 * i + 1))"
    by (simp add: next_level_def hash_merkle_pair_def nth_as_pairs)
  moreover have "length hs - 1 = 2 * i" if "\<not> 2 * i + 1 < length hs"
    using assms that by simp
  ultimately show ?thesis using assms
    by (auto simp: pad_odd_def nth_append)
qed

lemma calc_hash_level:
  "pos < width_of (length ids) h \<Longrightarrow> calc_hash H h pos ids (length ids) = level H ids h ! pos"
proof (induction h arbitrary: pos)
  case (Suc h)
  then have w: "2 * pos < width_of (length ids) h" by (simp add: width_Suc)
  then show ?case
    using Suc.IH [of "pos * 2"] Suc.IH [of "pos * 2 + 1"]
    by (simp add: level_Suc nth_next_level length_level Let_def mult.commute)
qed simp

lemma adjacent_equal_nth:
  "\<not> adjacent_equal xs \<Longrightarrow> 2 * i + 1 < length xs \<Longrightarrow> xs ! (2 * i) \<noteq> xs ! (2 * i + 1)"
proof (induction xs arbitrary: i rule: adjacent_equal.induct)
  case (1 a b r)
  then show ?case by (cases i) auto
qed auto

lemma ref_root_levels:
  "ref_root H hs = (r, False) \<Longrightarrow> hs \<noteq> [] \<Longrightarrow>
   level H hs (levels (length hs)) ! 0 = r \<and>
   (\<forall>k < levels (length hs). \<not> adjacent_equal (level H hs k))"
proof (induction "levels (length hs)" arbitrary: hs)
  case 0
  then have "length hs \<le> 1" by (metis Zero_not_Suc levels_Suc not_le)
  with 0 show ?case by (cases hs) (auto simp: ref_root.simps)
next
  case (Suc n)
  then have len: "length hs > 1" by (metis Zero_not_Suc levels_0 not_le)
  with Suc.prems have root: "ref_root H (next_level H hs) = (r, False)" "\<not> adjacent_equal hs"
    by (auto simp: ref_root.simps [of H hs] Let_def split: prod.splits)
  have n: "n = levels (length (next_level H hs))" using Suc.hyps(2) len by simp
  have "next_level H hs \<noteq> []" using len by (auto simp flip: length_0_conv)
  from Suc.hyps(1) [OF n root(1) this]
  have "level H hs (Suc n) ! 0 = r" "\<forall>k < n. \<not> adjacent_equal (level H hs (Suc k))"
    using n by (simp_all add: level_next)
  with root(2) Suc.hyps(2) show ?case
    by (metis (no_types) Suc.hyps(2) level_0 less_Suc_eq_0_disj)
qed

lemma no_twins_level:
  assumes "\<forall>k < h. \<not> adjacent_equal (level H ids k)" and "pos < width_of (length ids) h"
  shows "no_twins H h pos ids (length ids)"
  using assms
proof (induction h arbitrary: pos)
  case (Suc h)
  then have w: "pos * 2 < width_of (length ids) h" by (simp add: width_Suc)
  have "calc_hash H h (pos * 2) ids (length ids) \<noteq> calc_hash H h (pos * 2 + 1) ids (length ids)"
    if "pos * 2 + 1 < width_of (length ids) h"
    using adjacent_equal_nth [of "level H ids h" pos] Suc.prems(1) that
    by (simp add: calc_hash_level length_level mult.commute)
  with Suc w show ?case by simp
qed simp

section \<open>Completeness and soundness of a partial tree\<close>

definition matched_leaves :: "hash32 list \<Rightarrow> bool list \<Rightarrow> nat \<Rightarrow> nat \<Rightarrow> matched" where
  "matched_leaves ids ms a b = map (\<lambda>i. (ids ! i, i)) (filter (\<lambda>i. ms ! i) [a ..< b])"

lemma matched_leaves_split:
  "a \<le> b \<Longrightarrow> b \<le> c \<Longrightarrow> matched_leaves ids ms a b @ matched_leaves ids ms b c = matched_leaves ids ms a c"
  by (metis (no_types, lifting) filter_append le_Suc_ex map_append matched_leaves_def upt_add_eq_append)

lemma parent_of_match_iff:
  "parent_of_match h pos ms n \<longleftrightarrow> matched_leaves [] ms (pos * 2 ^ h) (min ((pos + 1) * 2 ^ h) n) \<noteq> []"
  by (auto simp: parent_of_match_def matched_leaves_def list_ex_iff filter_empty_conv)

lemma matched_leaves_Nil: "matched_leaves [] ms a b = [] \<longleftrightarrow> matched_leaves ids ms a b = []"
  by (simp add: matched_leaves_def)

lemma proof_matched_leaves:
  "pos * 2 ^ h < n \<Longrightarrow>
   proof_matched h pos ids ms n = matched_leaves ids ms (pos * 2 ^ h) (min ((pos + 1) * 2 ^ h) n)"
proof (induction h arbitrary: pos)
  case 0
  then show ?case by (simp add: parent_of_match_def matched_leaves_def)
next
  case (Suc h)
  let ?p = "pos * 2 ^ Suc h" and ?m = "(pos * 2 + 1) * 2 ^ h" and ?e = "(pos + 1) * 2 ^ Suc h"
  have mid: "?p = pos * 2 * 2 ^ h" "?e = (pos * 2 + 1 + 1) * 2 ^ h" "?p \<le> ?m" "?m \<le> ?e"
    by (simp_all add: algebra_simps)
  show ?case
  proof (cases "parent_of_match (Suc h) pos ms n")
    case False
    then show ?thesis
      using matched_leaves_Nil [of ms ?p "min ?e n" ids] parent_of_match_iff [of "Suc h" pos ms n]
      by simp
  next
    case True
    have l: "proof_matched h (pos * 2) ids ms n = matched_leaves ids ms ?p (min ?m n)"
      using Suc.IH [of "pos * 2"] Suc.prems mid(1) by (simp add: mult.assoc)
    show ?thesis
    proof (cases "?m < n")
      case True
      then have "proof_matched h (pos * 2 + 1) ids ms n = matched_leaves ids ms ?m (min ?e n)"
        using Suc.IH [of "pos * 2 + 1"] mid(2) by (simp add: mult.assoc)
      with True l \<open>parent_of_match (Suc h) pos ms n\<close> mid(3,4) show ?thesis
        using matched_leaves_split [of ?p ?m "min ?e n" ids ms]
        by (simp add: width_less_iff min_def mult.assoc split: if_splits)
    next
      case False
      then have "min ?m n = n" "min ?e n = n" using mid(4) by linarith+
      with False l \<open>parent_of_match (Suc h) pos ms n\<close> show ?thesis
        by (simp add: width_less_iff)
    qed
  qed
qed

lemma length_proof_hashes:
  "length (proof_hashes H h pos ids ms n) \<le> length (proof_bits h pos ms n)"
  by (induction h arbitrary: pos) (auto simp: add_mono le_SucI)

lemma length_proof_hashes_leaves:
  "pos * 2 ^ h < n \<Longrightarrow> length (proof_hashes H h pos ids ms n) \<le> min ((pos + 1) * 2 ^ h) n - pos * 2 ^ h"
proof (induction h arbitrary: pos)
  case (Suc h)
  let ?p = "pos * 2 ^ Suc h" and ?m = "(pos * 2 + 1) * 2 ^ h" and ?e = "(pos + 1) * 2 ^ Suc h"
  have mid: "?p = pos * 2 * 2 ^ h" "?e = (pos * 2 + 1 + 1) * 2 ^ h" "?p < ?m" "?m < ?e"
    by (simp_all add: algebra_simps)
  have l: "length (proof_hashes H h (pos * 2) ids ms n) \<le> min ?m n - ?p"
    using Suc.IH [of "pos * 2"] Suc.prems mid(1) by simp
  have r: "length (proof_hashes H h (pos * 2 + 1) ids ms n) \<le> min ?e n - ?m" if "?m < n"
    using Suc.IH [of "pos * 2 + 1"] mid(2) that by simp
  have w: "pos * 2 + 1 < width_of n h \<longleftrightarrow> ?m < n" by (simp add: width_less_iff)
  show ?case
    using l r mid(3,4) Suc.prems w
    by (cases "parent_of_match (Suc h) pos ms n"; cases "?m < n") (auto simp: min_def mult.assoc split: if_splits)
qed simp

lemma width_tree_height: "width_of n (tree_height n h) \<le> 1"
proof (induction n h rule: tree_height.induct)
  case (1 n h)
  then show ?case by (subst tree_height.simps) auto
qed

lemma extract_build_lemma:
  assumes "hash_fns_ok H" and "ids \<noteq> []" and "length ids \<le> 66666"
    and "merkle_root H ids = (r, False)"
  shows "pmt_extract H (pmt_build H ids ms) = Some (r, matched_leaves ids ms 0 (length ids))"
proof -
  let ?n = "length ids"
  define h where "h = tree_height ?n 0"
  define t where "t = pmt_build H ids ms"
  have h: "h = levels ?n" by (simp add: h_def tree_height_levels)
  have root: "ref_root H ids = (r, False)"
    using assms(1,4) by (simp add: merkle_root_def merkle_root_ref)
  note lv = ref_root_levels [OF root assms(2), folded h]
  have w: "0 < width_of ?n h" using assms(2) by (simp add: width_less_iff)
  have bits: "pmt_bits t = [] @ proof_bits h 0 ms ?n @ []"
    and hashes: "pmt_hashes t = [] @ proof_hashes H h 0 ids ms ?n @ []"
    and n: "num_transactions t = ?n" and bad: "\<not> pmt_bad t"
    by (simp_all add: t_def pmt_build_def Let_def traverse_build_appends h_def)
  let ?s = "\<lparr>ex_bad = False, bits_used = 0, hash_used = 0, ex_matched = []\<rparr>"
  have walk: "traverse_extract H t h 0 ?s =
    (calc_hash H h 0 ids ?n, ?s\<lparr>bits_used := length (pmt_bits t), hash_used := length (pmt_hashes t),
       ex_matched := proof_matched h 0 ids ms ?n\<rparr>)"
    using lv w by (subst extract_build [OF bits hashes n]) (simp_all add: no_twins_level bits hashes)
  have r: "calc_hash H h 0 ids ?n = r" using lv calc_hash_level [OF w] by simp
  have "?n \<le> 2 ^ h"
  proof -
    have "width_of ?n h \<le> 1" unfolding h_def by (rule width_tree_height)
    then show ?thesis using width_less_iff [of 1 ?n h] by simp
  qed
  then have m: "proof_matched h 0 ids ms ?n = matched_leaves ids ms 0 ?n"
    using assms(2) by (simp add: proof_matched_leaves min_def)
  have "length (pmt_hashes t) \<le> ?n"
    using length_proof_hashes_leaves [of 0 h ?n H ids ms] assms(2) hashes by simp
  moreover have "length (pmt_hashes t) \<le> length (pmt_bits t)"
    using length_proof_hashes bits hashes by simp
  ultimately show ?thesis
    using assms(2,3) bad
    by (simp add: pmt_extract_def n walk r m Let_def flip: t_def h_def)
qed

lemma ref_root_fst:
  "hs \<noteq> [] \<Longrightarrow> fst (ref_root H hs) = level H hs (levels (length hs)) ! 0"
proof (induction "levels (length hs)" arbitrary: hs)
  case 0
  then have "length hs \<le> 1" by (metis Zero_not_Suc levels_Suc not_le)
  with 0 show ?case by (cases hs) (auto simp: ref_root.simps)
next
  case (Suc n)
  then have len: "length hs > 1" by (metis Zero_not_Suc levels_0 not_le)
  have n: "n = levels (length (next_level H hs))" using Suc.hyps(2) len by simp
  have "next_level H hs \<noteq> []" using len by (auto simp flip: length_0_conv)
  from Suc.hyps(1) [OF n this] show ?case
    using n Suc.hyps(2) len by (simp add: ref_root.simps [of H hs] case_prod_beta level_next)
qed

lemma length_calc_hash:
  "hash_fns_ok H \<Longrightarrow> all32 ids \<Longrightarrow> pos < width_of (length ids) h \<Longrightarrow>
   length (calc_hash H h pos ids (length ids)) = 32"
  by (cases h) (auto simp: Let_def all32_def)

lemma extract_at_end:
  "length (pmt_bits t) \<le> bits_used s \<Longrightarrow>
   traverse_extract H t h pos s = (replicate 32 0, s\<lparr>ex_bad := True\<rparr>)"
  by (subst traverse_extract.simps) simp

lemma extract_no_hash:
  "bits_used s < length (pmt_bits t) \<Longrightarrow> h = 0 \<or> \<not> pmt_bits t ! bits_used s \<Longrightarrow>
   length (pmt_hashes t) \<le> hash_used s \<Longrightarrow>
   traverse_extract H t h pos s = (replicate 32 0, s\<lparr>bits_used := bits_used s + 1, ex_bad := True\<rparr>)"
  by (subst traverse_extract.simps) (auto simp: Let_def split: nat.splits)

lemma traverse_extract_cases:
  obtains (at_end) "length (pmt_bits t) \<le> bits_used s"
  | (no_hash) "bits_used s < length (pmt_bits t)" "h = 0 \<or> \<not> pmt_bits t ! bits_used s"
      "length (pmt_hashes t) \<le> hash_used s"
  | (leaf) "bits_used s < length (pmt_bits t)" "hash_used s < length (pmt_hashes t)"
      "h = 0 \<or> \<not> pmt_bits t ! bits_used s"
  | (node) k where "h = Suc k" "bits_used s < length (pmt_bits t)" "pmt_bits t ! bits_used s"
  by (metis not0_implies_Suc not_le)

lemma length_traverse_extract:
  assumes "hash_fns_ok H" and "all32 (pmt_hashes t)"
  shows "length (fst (traverse_extract H t h pos s)) = 32"
proof (cases rule: traverse_extract_cases [where t = t and s = s and h = h])
  case leaf
  then show ?thesis using assms(2) by (simp add: extract_leaf all32_def)
next
  case (node k)
  then show ?thesis using assms(1)
    by (simp add: extract_node Let_def case_prod_beta)
qed (simp_all add: extract_at_end extract_no_hash)

text \<open>The strings hashed by \<open>calc_hash\<close> below a node, and by the traversal of a proof.\<close>

fun calc_inputs :: "hash_fns \<Rightarrow> nat \<Rightarrow> nat \<Rightarrow> hash32 list \<Rightarrow> bytes list" where
  "calc_inputs H 0 pos ids = []"
| "calc_inputs H (Suc h) pos ids =
     (let left = calc_hash H h (pos * 2) ids (length ids);
          two = (pos * 2 + 1 < width_of (length ids) h);
          right = (if two then calc_hash H h (pos * 2 + 1) ids (length ids) else left)
      in (left @ right) # calc_inputs H h (pos * 2) ids @
         (if two then calc_inputs H h (pos * 2 + 1) ids else []))"

fun extract_inputs :: "hash_fns \<Rightarrow> partial_merkle_tree \<Rightarrow> nat \<Rightarrow> nat \<Rightarrow> extract_state \<Rightarrow> bytes list" where
  "extract_inputs H t 0 pos s = []"
| "extract_inputs H t (Suc h) pos s =
     (if bits_used s < length (pmt_bits t) \<and> pmt_bits t ! bits_used s then
        let s = s\<lparr>bits_used := bits_used s + 1\<rparr>;
            left = fst (traverse_extract H t h (pos * 2) s);
            s' = snd (traverse_extract H t h (pos * 2) s);
            two = (pos * 2 + 1 < tree_width t h);
            right = (if two then fst (traverse_extract H t h (pos * 2 + 1) s') else left)
        in (left @ right) # extract_inputs H t h (pos * 2) s @
           (if two then extract_inputs H t h (pos * 2 + 1) s' else [])
      else [])"

definition proof_inputs :: "hash_fns \<Rightarrow> partial_merkle_tree \<Rightarrow> bytes list" where
  "proof_inputs H t = extract_inputs H t (tree_height (num_transactions t) 0) 0
     \<lparr>ex_bad = pmt_bad t, bits_used = 0, hash_used = 0, ex_matched = []\<rparr>"

definition tree_inputs :: "hash_fns \<Rightarrow> hash32 list \<Rightarrow> bytes list" where
  "tree_inputs H ids = calc_inputs H (tree_height (length ids) 0) 0 ids"

lemma hash_apart_sub: "hash_apart H us vs \<Longrightarrow> set us' \<subseteq> set us \<Longrightarrow> set vs' \<subseteq> set vs \<Longrightarrow> hash_apart H us' vs'"
  by (auto simp: hash_apart_def)

lemma extract_sound:
  assumes "hash_fns_ok H" "all32 (pmt_hashes t)" "all32 ids"
    and "num_transactions t = length ids"
  shows "hash_apart H (extract_inputs H t h pos s) (calc_inputs H h pos ids) \<Longrightarrow>
    pos < width_of (length ids) h \<Longrightarrow>
    traverse_extract H t h pos s = (calc_hash H h pos ids (length ids), s') \<Longrightarrow>
    \<forall>(x, i) \<in> set (ex_matched s). i < length ids \<and> x = ids ! i \<Longrightarrow>
    \<forall>(x, i) \<in> set (ex_matched s'). i < length ids \<and> x = ids ! i"
proof (induction h arbitrary: pos s s')
  case 0
  show ?case
    by (cases rule: traverse_extract_cases [where t = t and s = s and h = 0])
      (use 0 in \<open>auto simp: extract_at_end extract_no_hash extract_leaf split: if_splits\<close>)
next
  case (Suc h)
  show ?case
  proof (cases rule: traverse_extract_cases [where t = t and s = s and h = "Suc h"])
    case (node k)
    let ?n = "length ids"
    let ?two = "pos * 2 + 1 < width_of ?n h"
    have w: "pos * 2 < width_of ?n h" using Suc.prems(2) by (simp add: width_Suc)
    have tw: "tree_width t h = width_of ?n h" using assms(4) by (simp add: tree_width_def)
    obtain l s1 where l: "traverse_extract H t h (pos * 2) (s\<lparr>bits_used := bits_used s + 1\<rparr>) = (l, s1)"
      by fastforce
    obtain r s2 where r: "traverse_extract H t h (pos * 2 + 1) s1 = (r, s2)" by fastforce
    let ?L = "calc_hash H h (pos * 2) ids ?n" and ?R = "calc_hash H h (pos * 2 + 1) ids ?n"
    have len: "length l = 32" "length r = 32"
      using length_traverse_extract [OF assms(1,2)] l r by (metis fst_conv)+
    have eq: "traverse_extract H t (Suc h) pos s =
      (sha256d H (l @ (if ?two then r else l)),
       if ?two then (if r = l then s2\<lparr>ex_bad := True\<rparr> else s2) else s1)"
      unfolding extract_node [OF node(2,3)] l tw Let_def prod.case
      by (cases ?two) (simp_all only: if_True if_False r prod.case)
    have L: "length ?L = 32" using length_calc_hash [OF assms(1,3) w] .
    have R: "length ?R = 32" if ?two using length_calc_hash [OF assms(1,3) that] .
    have h: "sha256d H (l @ (if ?two then r else l)) = sha256d H (?L @ (if ?two then ?R else ?L))"
      using eq Suc.prems(3) by (auto simp: Let_def)
    let ?s = "s\<lparr>bits_used := bits_used s + 1\<rparr>"
    have ins: "extract_inputs H t (Suc h) pos s =
        (l @ (if ?two then r else l)) # extract_inputs H t h (pos * 2) ?s @
          (if ?two then extract_inputs H t h (pos * 2 + 1) s1 else [])"
      using node(2,3) l r tw by (simp add: Let_def)
    have cal: "calc_inputs H (Suc h) pos ids =
        (?L @ (if ?two then ?R else ?L)) # calc_inputs H h (pos * 2) ids @
          (if ?two then calc_inputs H h (pos * 2 + 1) ids else [])"
      by (simp add: Let_def)
    note ap = Suc.prems(1) [unfolded ins cal]
    have ap1: "hash_apart H (extract_inputs H t h (pos * 2) ?s) (calc_inputs H h (pos * 2) ids)"
      by (rule hash_apart_sub [OF ap]) auto
    have ap2: "hash_apart H (extract_inputs H t h (pos * 2 + 1) s1) (calc_inputs H h (pos * 2 + 1) ids)"
      if ?two by (rule hash_apart_sub [OF ap]) (use that in auto)
    have "l @ (if ?two then r else l) = ?L @ (if ?two then ?R else ?L)"
      using hash_apart_Cons [OF ap] h by blast
    then have lr: "l = ?L" "?two \<Longrightarrow> r = ?R" using len L by auto
    have s1: "\<forall>(x, i) \<in> set (ex_matched s1). i < ?n \<and> x = ids ! i"
      using Suc.IH [OF ap1 w l [unfolded lr(1)]] Suc.prems(4) by simp
    have s2: "\<forall>(x, i) \<in> set (ex_matched s2). i < ?n \<and> x = ids ! i" if ?two
      using Suc.IH [OF ap2 [OF that] that r [unfolded lr(2) [OF that]] s1] .
    show ?thesis
      using eq Suc.prems(3) s1 s2 by (auto split: if_splits)
  qed (use Suc.prems in \<open>auto simp: extract_at_end extract_no_hash extract_leaf split: if_splits\<close>)
qed

lemma extract_root_sound:
  assumes "hash_fns_ok H" "all32 (pmt_hashes t)" "all32 ids"
    and "num_transactions t = length ids" and "hash_apart H (proof_inputs H t) (tree_inputs H ids)"
    and "pmt_extract H t = Some (fst (merkle_root H ids), m)"
  shows "\<forall>(x, i) \<in> set m. i < length ids \<and> x = ids ! i"
proof -
  let ?h = "tree_height (length ids) 0"
  let ?s = "\<lparr>ex_bad = pmt_bad t, bits_used = 0, hash_used = 0, ex_matched = []\<rparr>"
  have ne: "ids \<noteq> []" using assms(4,6) by (auto simp: pmt_extract_def)
  then have w: "0 < width_of (length ids) ?h" by (simp add: width_less_iff)
  have "calc_hash H ?h 0 ids (length ids) = fst (merkle_root H ids)"
    using calc_hash_level [OF w] ref_root_fst [OF ne] assms(1)
    by (simp add: merkle_root_def merkle_root_ref tree_height_levels)
  then obtain s' where "traverse_extract H t ?h 0 ?s = (calc_hash H ?h 0 ids (length ids), s')"
    and "m = ex_matched s'"
    using assms(4,6) by (auto simp: pmt_extract_def Let_def split: if_splits prod.splits)
  with extract_sound [OF assms(1-4) assms(5) [unfolded proof_inputs_def tree_inputs_def assms(4)] w] show ?thesis by fastforce
qed

section \<open>Properties\<close>


text \<open>the flaw CVE-2012-2459 names, and that it is caught: repeating the last of an odd number
  of leaves gives the same root, with the mutation flag set.\<close>

theorem merkle_root_repeated_tail:
  assumes "hash_fns_ok H" "odd (length hs)" "length hs > 1"
  shows "merkle_root H (hs @ [last hs]) = (fst (merkle_root H hs), True)"
  using ref_root_dup_tail assms by (simp add: merkle_root_def merkle_root_ref)

text \<open>the root computed with the eight-lane SIMD kernel is the one computed hash by hash.\<close>

theorem merkle_root_simd_equiv:
  assumes "hash_fns_ok H"
  shows "merkle_root_with_avx2 H hs True = merkle_root_with_avx2 H hs False"
  using assms by (simp add: merkle_root_ref)

text \<open>C39: the proof \<open>build\<close> makes for an unmutated block of at most 66,666 transactions is one
  \<open>extract\<close> accepts, with the block's root and exactly the marked leaves at their positions.\<close>

theorem pmt_build_extract:
  assumes "hash_fns_ok H" and "ids \<noteq> []" and "length ids \<le> 66666"
    and "merkle_root H ids = (r, False)"
  shows "pmt_extract H (pmt_build H ids ms) =
    Some (r, map (\<lambda>i. (ids ! i, i)) (filter (\<lambda>i. ms ! i) [0 ..< length ids]))"
  using extract_build_lemma [OF assms] by (simp add: matched_leaves_def)


definition leaf :: "u8 \<Rightarrow> hash32" where
  "leaf b = replicate 32 b"

lemma toy_merkle [simp]:
  "sha256d toy_hashes (leaf a @ x) = leaf a"
  by (simp add: sha256d_def toy_hashes_def toy_digest_def leaf_def)

lemma toy_root [simp]: "merkle_root_with_avx2 toy_hashes hs avx = ref_root toy_hashes hs"
  by (rule merkle_root_ref [OF toy_hashes_ok])

lemma leaf_eq [simp]: "leaf a = leaf b \<longleftrightarrow> a = b"
  by (simp add: leaf_def replicate_eq_replicate)

lemma toy_root_3:
  "merkle_root toy_hashes [leaf 1, leaf 2, leaf 3] = (leaf 1, False)"
  by (simp add: merkle_root_def ref_root.simps next_level_def pad_odd_def hash_merkle_pair_def)


text \<open>An instance: three leaves.\<close>

lemma merkle_root_repeated_tail_witness:
  "merkle_root toy_hashes [leaf 1, leaf 2, leaf 3, leaf 3] = (leaf 1, True)"
  using merkle_root_repeated_tail [OF toy_hashes_ok, of "[leaf 1, leaf 2, leaf 3]"]
  by (simp add: toy_root_3)

text \<open>An instance: nine leaves, the digest above.\<close>

lemma merkle_root_simd_equiv_witness:
  "merkle_root_with_avx2 toy_hashes (map leaf [1, 2, 3, 4, 5, 6, 7, 8, 9]) True =
   merkle_root_with_avx2 toy_hashes (map leaf [1, 2, 3, 4, 5, 6, 7, 8, 9]) False"
  by (rule merkle_root_simd_equiv [OF toy_hashes_ok])

text \<open>Witness of C39: a proof for the second of three leaves.\<close>

lemma pmt_build_extract_witness:
  "pmt_extract toy_hashes (pmt_build toy_hashes [leaf 1, leaf 2, leaf 3] [False, True, False]) =
   Some (leaf 1, [(leaf 2, 1)])"
  using pmt_build_extract [OF toy_hashes_ok _ _ toy_root_3, of "[False, True, False]"]
  by (simp add: upt_rec)


end
