(* ===== verification/Block.thy ===== *)
theory Block
  imports Transaction Merkle
begin

text \<open>
  Block headers and blocks: \<open>src/crates/avila-consensus/src/header.rs\<close> and
  \<open>src/crates/avila-consensus/src/block.rs\<close>. A \<open>CompactTarget\<close> is its 32-bit word. The header's
  \<open>i32\<close> version is a word read through \<open>sint\<close>.
\<close>

record block_header =
  hdr_version :: i32
  prev_block_hash :: hash32
  hdr_merkle_root :: hash32
  hdr_time :: u32
  hdr_bits :: u32
  hdr_nonce :: u32

definition HEADER_SIZE :: nat where "HEADER_SIZE = 80"

definition header_write :: "block_header \<Rightarrow> bytes" where
  "header_write h =
     u32_le (hdr_version h) @ prev_block_hash h @ hdr_merkle_root h @
     u32_le (hdr_time h) @ u32_le (hdr_bits h) @ u32_le (hdr_nonce h)"

definition header_encode :: "block_header \<Rightarrow> bytes" where
  "header_encode h = header_write h"

definition header_read :: "block_header rd" where
  "header_read =
     rd_bind read_i32_le (\<lambda>v.
     rd_bind (read_array 32) (\<lambda>prev.
     rd_bind (read_array 32) (\<lambda>mr.
     rd_bind read_u32_le (\<lambda>t.
     rd_bind read_u32_le (\<lambda>b.
     rd_bind read_u32_le (\<lambda>n.
       rd_return \<lparr>hdr_version = v, prev_block_hash = prev, hdr_merkle_root = mr, hdr_time = t,
         hdr_bits = b, hdr_nonce = n\<rparr>))))))"

definition header_decode :: "bytes \<Rightarrow> decode_error + block_header" where
  "header_decode bs =
     (if length bs \<noteq> HEADER_SIZE then Inl (HeaderLength (length bs))
      else case header_read (decoder_new bs) of
        (Inl e, d) \<Rightarrow> Inl e
      | (Inr h, d) \<Rightarrow> res_bind (decoder_finish d) (\<lambda>_. Inr h))"

definition header_hash :: "hash_fns \<Rightarrow> block_header \<Rightarrow> hash32" where
  "header_hash H h = sha256d H (header_encode h)"

definition header_valid :: "block_header \<Rightarrow> bool" where
  "header_valid h \<longleftrightarrow> length (prev_block_hash h) = 32 \<and> length (hdr_merkle_root h) = 32"

lemma header_iff: "header_read d = (Inr h, d') \<longleftrightarrow> header_valid h \<and> consumes d (header_write h) d'"
  by (cases h) (simp add: header_read_def header_valid_def header_write_def; blast)

interpretation header: codec header_read header_write header_valid
  by unfold_locales (rule header_iff)

lemma length_header_write: "header_valid h \<Longrightarrow> length (header_write h) = 80"
  by (simp add: header_write_def header_valid_def)

lemma header_decode_iff: "header_decode bs = Inr h \<longleftrightarrow> header_valid h \<and> header_encode h = bs"
proof -
  have "header_decode bs = Inr h \<longleftrightarrow> length bs = 80 \<and>
      (\<exists>d. header_read (decoder_new bs) = (Inr h, d) \<and> is_finished d)"
    by (auto simp: header_decode_def HEADER_SIZE_def decoder_finish_def res_bind_def
        split: prod.splits sum.splits if_splits)
  also have "\<dots> \<longleftrightarrow> header_valid h \<and> header_encode h = bs"
    using consumes_all [of bs "header_write h"] consumes_whole [of bs]
    by (auto simp: header.rd_iff header_encode_def length_header_write)
  finally show ?thesis .
qed

section \<open>Blocks\<close>

definition MAX_BLOCK_SERIALIZED_SIZE :: nat where "MAX_BLOCK_SERIALIZED_SIZE = 4000000"
definition MAX_BLOCK_WEIGHT :: nat where "MAX_BLOCK_WEIGHT = 4000000"
definition WITNESS_SCALE_FACTOR :: nat where "WITNESS_SCALE_FACTOR = 4"

definition WITNESS_COMMITMENT_HEADER :: bytes where
  "WITNESS_COMMITMENT_HEADER = [0x6a, 0x24, 0xaa, 0x21, 0xa9, 0xed]"

definition MINIMUM_WITNESS_COMMITMENT :: nat where "MINIMUM_WITNESS_COMMITMENT = 38"

record block =
  blk_header :: block_header
  transactions :: "transaction list"

definition block_read :: "block rd" where
  "block_read =
     rd_bind header_read (\<lambda>h.
     rd_bind (read_vec tx_read) (\<lambda>txs.
       rd_return \<lparr>blk_header = h, transactions = txs\<rparr>))"

definition block_decode :: "bytes \<Rightarrow> decode_error + block" where
  "block_decode bs =
     (if length bs > MAX_BLOCK_SERIALIZED_SIZE
      then Inl (InputTooLarge (length bs) MAX_BLOCK_SERIALIZED_SIZE)
      else case block_read (decoder_new bs) of
        (Inl e, d) \<Rightarrow> Inl e
      | (Inr b, d) \<Rightarrow> res_bind (decoder_finish d) (\<lambda>_. Inr b))"

definition block_encode :: "block \<Rightarrow> bytes" where
  "block_encode b = header_write (blk_header b) @ write_vec write_with_witness (transactions b)"

definition block_size_without_witness :: "block \<Rightarrow> nat" where
  "block_size_without_witness b =
     fold (\<lambda>tx size. size + size_without_witness tx) (transactions b)
       (HEADER_SIZE + compact_size_len (len_u64 (transactions b)))"

definition block_size_with_witness :: "block \<Rightarrow> nat" where
  "block_size_with_witness b =
     fold (\<lambda>tx size. size + size_with_witness tx) (transactions b)
       (HEADER_SIZE + compact_size_len (len_u64 (transactions b)))"

definition block_weight :: "block \<Rightarrow> nat" where
  "block_weight b = 3 * block_size_without_witness b + block_size_with_witness b"

definition block_hash :: "hash_fns \<Rightarrow> block \<Rightarrow> hash32" where
  "block_hash H b = header_hash H (blk_header b)"

definition block_txids :: "hash_fns \<Rightarrow> block \<Rightarrow> hash32 list" where
  "block_txids H b = map (txid H) (transactions b)"

definition block_merkle_root :: "hash_fns \<Rightarrow> block \<Rightarrow> hash32 \<times> bool" where
  "block_merkle_root H b = merkle_root H (map (txid H) (transactions b))"

definition witness_merkle_root :: "hash_fns \<Rightarrow> block \<Rightarrow> hash32" where
  "witness_merkle_root H b =
     fst (merkle_root H (replicate 32 0 # map (wtxid H) (drop 1 (transactions b))))"

definition starts_with :: "bytes \<Rightarrow> bytes \<Rightarrow> bool" where
  "starts_with s p \<longleftrightarrow> take (length p) s = p"

definition is_commitment_script :: "script \<Rightarrow> bool" where
  "is_commitment_script s \<longleftrightarrow>
     length s \<ge> MINIMUM_WITNESS_COMMITMENT \<and> starts_with s WITNESS_COMMITMENT_HEADER"

definition witness_commitment_output :: "block \<Rightarrow> nat option" where
  "witness_commitment_output b =
     (case transactions b of
        [] \<Rightarrow> None
      | coinbase # _ \<Rightarrow>
          fold (\<lambda>(index, out) found.
              if is_commitment_script (script_pubkey out) then Some index else found)
            (enumerate 0 (outputs coinbase)) None)"

definition expected_witness_commitment :: "hash_fns \<Rightarrow> block \<Rightarrow> hash32 option" where
  "expected_witness_commitment H b =
     (case transactions b of
        [] \<Rightarrow> None
      | coinbase # _ \<Rightarrow>
        (case inputs coinbase of
           [] \<Rightarrow> None
         | first_input # _ \<Rightarrow>
             (if length (witness first_input) \<noteq> 1 then None
              else
                let reserved_value = witness first_input ! 0
                in if length reserved_value \<noteq> 32 then None
                   else Some (sha256d H (witness_merkle_root H b @ reserved_value)))))"

section \<open>Lemmas\<close>

definition block_valid :: "block \<Rightarrow> bool" where
  "block_valid b \<longleftrightarrow> header_valid (blk_header b) \<and> fits (transactions b) \<and>
     (\<forall>tx \<in> set (transactions b). tx_valid tx)"

lemma block_iff: "block_read d = (Inr b, d') \<longleftrightarrow> block_valid b \<and> consumes d (block_encode b) d'"
  by (cases b) (auto simp: block_read_def block_encode_def block_valid_def header.rd_iff
      tx.read_vec_iff)

interpretation block: codec block_read block_encode block_valid
  by unfold_locales (rule block_iff)

lemma block_decode_iff:
  "block_decode bs = Inr b \<longleftrightarrow>
   block_valid b \<and> block_encode b = bs \<and> length bs \<le> MAX_BLOCK_SERIALIZED_SIZE"
proof -
  have "block_decode bs = Inr b \<longleftrightarrow> length bs \<le> MAX_BLOCK_SERIALIZED_SIZE \<and>
      (\<exists>d. block_read (decoder_new bs) = (Inr b, d) \<and> is_finished d)"
    by (auto simp: block_decode_def decoder_finish_def res_bind_def
        split: prod.splits sum.splits if_splits)
  also have "\<dots> \<longleftrightarrow> block_valid b \<and> block_encode b = bs \<and> length bs \<le> MAX_BLOCK_SERIALIZED_SIZE"
    using consumes_all [of bs "block_encode b"] consumes_whole [of bs]
    by (auto simp: block.rd_iff)
  finally show ?thesis .
qed

lemma block_sizes:
  assumes "block_valid b"
  shows "block_size_with_witness b = length (block_encode b)"
    and "block_size_without_witness b = length (header_write (blk_header b)) +
      length (write_vec write_without_witness (transactions b))"
proof -
  have tx: "size_with_witness tx = length (write_with_witness tx) \<and>
      size_without_witness tx = length (write_without_witness tx)" if "tx \<in> set (transactions b)" for tx
  proof -
    have "\<forall>i \<in> set (inputs tx). length (op_txid (previous_output i)) = 32"
      using assms that by (simp add: block_valid_def tx_valid_def txin_valid_def)
    then show ?thesis
      using size_with_witness_length size_without_witness_length by (simp add: tx_encode_def)
  qed
  then have "sum_list (map size_with_witness (transactions b)) = sum_list (map (\<lambda>x. length (write_with_witness x)) (transactions b))"
    "sum_list (map size_without_witness (transactions b)) =
       sum_list (map (\<lambda>x. length (write_without_witness x)) (transactions b))"
    by (simp_all cong: map_cong)
  moreover have "length (header_write (blk_header b)) = 80"
    using assms by (simp add: block_valid_def length_header_write)
  ultimately show "block_size_with_witness b = length (block_encode b)"
    and "block_size_without_witness b = length (header_write (blk_header b)) +
      length (write_vec write_without_witness (transactions b))"
    by (simp_all add: block_size_with_witness_def block_size_without_witness_def block_encode_def
        length_write_vec fold_add_sum_list HEADER_SIZE_def)
qed

text \<open>A loop that overwrites its result at each hit ends with the last hit.\<close>

lemma fold_last_index:
  "fold (\<lambda>(i, x) found. if P x then Some i else found) (enumerate 0 xs) r = Some k \<longleftrightarrow>
   (k < length xs \<and> P (xs ! k) \<and> (\<forall>j. k < j \<and> j < length xs \<longrightarrow> \<not> P (xs ! j))) \<or>
   ((\<forall>x \<in> set xs. \<not> P x) \<and> r = Some k)"
proof (induction xs arbitrary: k rule: rev_induct)
  case (snoc x xs)
  show ?case
  proof (cases "P x")
    case True
    have "k = length xs" if "k < length xs + 1" "\<forall>j. k < j \<and> j < length xs + 1 \<longrightarrow> \<not> P ((xs @ [x]) ! j)"
    proof (rule ccontr)
      assume "k \<noteq> length xs"
      with that(1) have "k < length xs \<and> length xs < length xs + 1" by simp
      then have "\<not> P ((xs @ [x]) ! length xs)" using that(2) by blast
      with True show False by simp
    qed
    then have "k = length xs \<longleftrightarrow> k < length xs + 1 \<and> P ((xs @ [x]) ! k) \<and>
        (\<forall>j. k < j \<and> j < length xs + 1 \<longrightarrow> \<not> P ((xs @ [x]) ! j))"
      by (metis True less_add_one linorder_not_less nth_append_length Suc_eq_plus1 less_Suc_eq_le)
    with True show ?thesis by (simp add: enumerate_append_eq eq_commute)
  next
    case False
    have "(\<forall>j. k < j \<and> j < length xs + 1 \<longrightarrow> \<not> P ((xs @ [x]) ! j)) \<longleftrightarrow>
        (\<forall>j. k < j \<and> j < length xs \<longrightarrow> \<not> P (xs ! j))" if "k < length xs"
      using False that by (auto simp: nth_append less_Suc_eq)
    with False snoc [of k] show ?thesis
      by (auto simp: enumerate_append_eq nth_append less_Suc_eq)
  qed
qed simp

definition sample_header :: block_header where
  "sample_header = \<lparr>hdr_version = 1, prev_block_hash = replicate 32 0,
     hdr_merkle_root = replicate 32 9, hdr_time = 1231006505, hdr_bits = 0x1d00ffff,
     hdr_nonce = 2083236893\<rparr>"

section \<open>Properties\<close>

text \<open>C40: a block decodes exactly from its encoding, of at most four million bytes, and its
  header from its 80 bytes.\<close>

theorem block_decode_exact:
  "(block_decode bs = Inr b \<longleftrightarrow>
      block_valid b \<and> block_encode b = bs \<and> length bs \<le> 4000000) \<and>
   (header_decode hs = Inr h \<longleftrightarrow> header_valid h \<and> header_encode h = hs)"
  using block_decode_iff header_decode_iff by (simp add: MAX_BLOCK_SERIALIZED_SIZE_def)

text \<open>the witness commitment is the last output of the first transaction whose script has the
  commitment form; there is none exactly when no output of it has, or there is no transaction.\<close>

theorem witness_commitment_is_last:
  "witness_commitment_output \<lparr>blk_header = h, transactions = cb # txs\<rparr> = Some k \<longleftrightarrow>
   k < length (outputs cb) \<and> is_commitment_script (script_pubkey (outputs cb ! k)) \<and>
   (\<forall>j. k < j \<and> j < length (outputs cb) \<longrightarrow> \<not> is_commitment_script (script_pubkey (outputs cb ! j)))"
  by (simp add: witness_commitment_output_def
      fold_last_index [where P = "\<lambda>out. is_commitment_script (script_pubkey out)"])

text \<open>An instance: an output with the commitment form between two without it.\<close>

lemma witness_commitment_is_last_witness:
  "witness_commitment_output \<lparr>blk_header = sample_header, transactions =
     [segwit_sample\<lparr>outputs := [\<lparr>out_value = 0, script_pubkey = []\<rparr>,
       \<lparr>out_value = 0, script_pubkey = WITNESS_COMMITMENT_HEADER @ replicate 32 5\<rparr>,
       \<lparr>out_value = 1, script_pubkey = replicate 38 0x6a\<rparr>]\<rparr>]\<rparr> = Some 1"
  by (subst witness_commitment_is_last)
    (auto simp: is_commitment_script_def starts_with_def WITNESS_COMMITMENT_HEADER_def
      MINIMUM_WITNESS_COMMITMENT_def less_Suc_eq)

text \<open>the weight of a block that came off the wire, computed without serializing, is three
  times the size of its stripped serialization plus its full size (BIP141).\<close>

theorem decoded_block_weight:
  assumes "block_decode bs = Inr b"
  shows "block_size_with_witness b = length bs \<and>
    block_weight b = 3 * (80 + length (write_vec write_without_witness (transactions b))) + length bs"
  using assms block_sizes [of b] length_header_write [of "blk_header b"]
  by (simp add: block_decode_iff block_weight_def block_valid_def)

text \<open>An instance: a block of one segregated-witness transaction.\<close>

lemma decoded_block_weight_witness:
  "block_size_with_witness \<lparr>blk_header = sample_header, transactions = [segwit_sample]\<rparr> = 150"
proof -
  let ?b = "\<lparr>blk_header = sample_header, transactions = [segwit_sample]\<rparr>"
  have v: "block_valid ?b"
    by (simp add: block_valid_def header_valid_def sample_header_def fits_def segwit_sample_def
        tx_valid_def txin_valid_def txout_valid_def witness_valid_def in_i64_def i64_min_def
        i64_max_def)
  have l: "length (block_encode ?b) = 150"
    by (simp add: block_encode_def header_write_def sample_header_def segwit_sample_def
        write_with_witness_def has_witness_def write_vec_def write_txin_no_witness_def
        write_txout_def write_witness_def length_write_var_bytes size_simps compact_size_len_def
        len_u64_def)
  from v l have "block_decode (block_encode ?b) = Inr ?b"
    by (simp add: block_decode_iff MAX_BLOCK_SERIALIZED_SIZE_def)
  from decoded_block_weight [OF this] l show ?thesis by simp
qed

end
