(* ===== verification/Arith.thy ===== *)
theory Arith
  imports Hashing
begin

text \<open>
  256-bit unsigned arithmetic and compact targets: \<open>src/crates/avila-consensus/src/arith.rs\<close>.

  A \<open>U256\<close> is its four 64-bit limbs, least significant first; every loop over the limbs is a
  recursion over their list. The numeric meaning is \<open>u256_val\<close>, and each operation is proved to
  compute its mathematical counterpart modulo \<open>2 ^ 256\<close>. Shift amounts and bit counts (\<open>u32\<close>)
  are naturals.
\<close>

datatype u256 = U256 u64 u64 u64 u64

fun limbs :: "u256 \<Rightarrow> u64 list" where
  "limbs (U256 a b c d) = [a, b, c, d]"

definition of_limbs :: "u64 list \<Rightarrow> u256" where
  "of_limbs l = U256 (l ! 0) (l ! 1) (l ! 2) (l ! 3)"

definition u256_ZERO :: u256 where "u256_ZERO = U256 0 0 0 0"
definition u256_ONE :: u256 where "u256_ONE = U256 1 0 0 0"
definition u256_MAX :: u256 where "u256_MAX = U256 (- 1) (- 1) (- 1) (- 1)"

definition from_u64 :: "u64 \<Rightarrow> u256" where
  "from_u64 v = U256 v 0 0 0"

definition from_le_bytes :: "bytes \<Rightarrow> u256" where
  "from_le_bytes bs = of_limbs (map (\<lambda>i. u64_of_le (take 8 (drop (i * 8) bs))) [0..<4])"

definition to_le_bytes :: "u256 \<Rightarrow> bytes" where
  "to_le_bytes x = concat (map u64_le (limbs x))"

definition from_be_bytes :: "bytes \<Rightarrow> u256" where
  "from_be_bytes bs = of_limbs (map (\<lambda>i. u64_of_le (rev (take 8 (drop ((3 - i) * 8) bs)))) [0..<4])"

definition to_be_bytes :: "u256 \<Rightarrow> bytes" where
  "to_be_bytes x = concat (map (\<lambda>i. rev (u64_le (limbs x ! (3 - i)))) [0..<4])"

definition u256_is_zero :: "u256 \<Rightarrow> bool" where
  "u256_is_zero x \<longleftrightarrow> limbs x = [0, 0, 0, 0]"

definition low_u64 :: "u256 \<Rightarrow> u64" where
  "low_u64 x = limbs x ! 0"

text \<open>\<open>u64::leading_zeros\<close> through the length of the binary representation.\<close>

fun bit_length :: "nat \<Rightarrow> nat" where
  "bit_length n = (if n = 0 then 0 else Suc (bit_length (n div 2)))"

declare bit_length.simps [simp del]

definition leading_zeros :: "u64 \<Rightarrow> nat" where
  "leading_zeros w = 64 - bit_length (unat w)"

fun bits_loop :: "(nat \<times> u64) list \<Rightarrow> nat" where
  "bits_loop [] = 0"
| "bits_loop ((i, limb) # r) =
     (if limb \<noteq> 0 then i * 64 + (64 - leading_zeros limb) else bits_loop r)"

definition u256_bits :: "u256 \<Rightarrow> nat" where
  "u256_bits x = bits_loop (rev (enumerate 0 (limbs x)))"

text \<open>\<open>overflowing_add\<close>, \<open>overflowing_sub\<close>, \<open>u64::from(bool)\<close>.\<close>

definition overflowing_add :: "u64 \<Rightarrow> u64 \<Rightarrow> u64 \<times> bool" where
  "overflowing_add a b = (a + b, unat a + unat b \<ge> 2 ^ 64)"

definition overflowing_sub :: "u64 \<Rightarrow> u64 \<Rightarrow> u64 \<times> bool" where
  "overflowing_sub a b = (a - b, unat a < unat b)"

definition b2u :: "bool \<Rightarrow> u64" where
  "b2u b = (if b then 1 else 0)"

fun adc_loop :: "(u64 \<times> u64) list \<Rightarrow> u64 \<Rightarrow> u64 list \<times> u64" where
  "adc_loop [] carry = ([], carry)"
| "adc_loop ((a, b) # r) carry =
     (let (sum1, c1) = overflowing_add a b;
          (sum2, c2) = overflowing_add sum1 carry;
          (out, carry') = adc_loop r (b2u c1 + b2u c2)
      in (sum2 # out, carry'))"

definition adc :: "u256 \<Rightarrow> u256 \<Rightarrow> u256 \<times> bool" where
  "adc x y = (let (out, carry) = adc_loop (zip (limbs x) (limbs y)) 0 in (of_limbs out, carry \<noteq> 0))"

fun sbb_loop :: "(u64 \<times> u64) list \<Rightarrow> u64 \<Rightarrow> u64 list \<times> u64" where
  "sbb_loop [] borrow = ([], borrow)"
| "sbb_loop ((a, b) # r) borrow =
     (let (diff1, b1) = overflowing_sub a b;
          (diff2, b2) = overflowing_sub diff1 borrow;
          (out, borrow') = sbb_loop r (b2u b1 + b2u b2)
      in (diff2 # out, borrow'))"

definition sbb :: "u256 \<Rightarrow> u256 \<Rightarrow> u256 \<times> bool" where
  "sbb x y = (let (out, borrow) = sbb_loop (zip (limbs x) (limbs y)) 0 in (of_limbs out, borrow \<noteq> 0))"

fun mul_loop :: "u64 list \<Rightarrow> u64 \<Rightarrow> 128 word \<Rightarrow> u64 list \<times> 128 word" where
  "mul_loop [] rhs carry = ([], carry)"
| "mul_loop (limb # r) rhs carry =
     (let product = ucast limb * ucast rhs + carry;
          (out, carry') = mul_loop r rhs (drop_bit 64 product)
      in (ucast product # out, carry'))"

definition mul_u64_with_carry :: "u256 \<Rightarrow> u64 \<Rightarrow> u256 \<times> u64" where
  "mul_u64_with_carry x rhs =
     (let (out, carry) = mul_loop (limbs x) rhs 0 in (of_limbs out, ucast carry))"

definition u256_checked_add :: "u256 \<Rightarrow> u256 \<Rightarrow> u256 option" where
  "u256_checked_add x y = (let (r, carry) = adc x y in if carry then None else Some r)"

definition u256_checked_sub :: "u256 \<Rightarrow> u256 \<Rightarrow> u256 option" where
  "u256_checked_sub x y = (let (r, borrow) = sbb x y in if borrow then None else Some r)"

definition u256_wrapping_add :: "u256 \<Rightarrow> u256 \<Rightarrow> u256" where
  "u256_wrapping_add x y = fst (adc x y)"

definition u256_wrapping_sub :: "u256 \<Rightarrow> u256 \<Rightarrow> u256" where
  "u256_wrapping_sub x y = fst (sbb x y)"

definition checked_mul_u64 :: "u256 \<Rightarrow> u64 \<Rightarrow> u256 option" where
  "checked_mul_u64 x rhs =
     (let (r, carry) = mul_u64_with_carry x rhs in if carry = 0 then Some r else None)"

definition wrapping_mul_u64 :: "u256 \<Rightarrow> u64 \<Rightarrow> u256" where
  "wrapping_mul_u64 x rhs = fst (mul_u64_with_carry x rhs)"

text \<open>\<open>Ord::cmp\<close>: lexicographic from the most significant limb.\<close>

fun lex_less :: "u64 list \<Rightarrow> u64 list \<Rightarrow> bool" where
  "lex_less (a # as) (b # bs) = (a < b \<or> (a = b \<and> lex_less as bs))"
| "lex_less [] (b # bs) = True"
| "lex_less _ [] = False"

instantiation u256 :: linorder
begin

definition less_u256 :: "u256 \<Rightarrow> u256 \<Rightarrow> bool" where
  "less_u256 x y = lex_less (rev (limbs x)) (rev (limbs y))"

definition less_eq_u256 :: "u256 \<Rightarrow> u256 \<Rightarrow> bool" where
  "less_eq_u256 x y = (x = y \<or> lex_less (rev (limbs x)) (rev (limbs y)))"

instance
proof
  fix x y z :: u256
  show "x < y \<longleftrightarrow> x \<le> y \<and> \<not> y \<le> x"
    by (cases x; cases y) (auto simp: less_u256_def less_eq_u256_def)
  show "x \<le> x" by (simp add: less_eq_u256_def)
  show "x \<le> y \<Longrightarrow> y \<le> z \<Longrightarrow> x \<le> z"
    by (cases x; cases y; cases z) (auto simp: less_eq_u256_def)
  show "x \<le> y \<Longrightarrow> y \<le> x \<Longrightarrow> x = y"
    by (cases x; cases y) (auto simp: less_eq_u256_def)
  show "x \<le> y \<or> y \<le> x"
    by (cases x; cases y) (auto simp: less_eq_u256_def)
qed

end

text \<open>The shift loops; the result array is a list updated at the destination index.\<close>

fun shl_loop :: "(nat \<times> u64) list \<Rightarrow> nat \<Rightarrow> nat \<Rightarrow> u64 list \<Rightarrow> u64 list" where
  "shl_loop [] ws b r = r"
| "shl_loop ((i, limb) # rest) ws b r =
     (let dest = i + ws;
          r = (if dest < 4 then r[dest := r ! dest OR push_bit b limb] else r);
          r = (if b \<noteq> 0 then
                 (let dest2 = dest + 1
                  in if dest2 < 4 then r[dest2 := r ! dest2 OR drop_bit (64 - b) limb] else r)
               else r)
      in shl_loop rest ws b r)"

definition u256_shl :: "u256 \<Rightarrow> nat \<Rightarrow> u256" where
  "u256_shl x shift =
     (if shift \<ge> 256 then u256_ZERO
      else of_limbs (shl_loop (enumerate 0 (limbs x)) (shift div 64) (shift mod 64) [0, 0, 0, 0]))"

fun shr_loop :: "(nat \<times> u64) list \<Rightarrow> nat \<Rightarrow> nat \<Rightarrow> u64 list \<Rightarrow> u64 list" where
  "shr_loop [] ws b r = r"
| "shr_loop ((i, limb) # rest) ws b r =
     (let r = (if ws \<le> i then r[i - ws := r ! (i - ws) OR drop_bit b limb] else r);
          r = (if b \<noteq> 0 \<and> ws + 1 \<le> i
               then r[i - (ws + 1) := r ! (i - (ws + 1)) OR push_bit (64 - b) limb] else r)
      in shr_loop rest ws b r)"

definition u256_shr :: "u256 \<Rightarrow> nat \<Rightarrow> u256" where
  "u256_shr x shift =
     (if shift \<ge> 256 then u256_ZERO
      else of_limbs (shr_loop (enumerate 0 (limbs x)) (shift div 64) (shift mod 64) [0, 0, 0, 0]))"

definition u256_not :: "u256 \<Rightarrow> u256" where
  "u256_not x = of_limbs (map NOT (limbs x))"

text \<open>\<open>quotient.0[shift / 64] |= 1u64 << (shift % 64)\<close>, and the division loop, from \<open>shift\<close> down.\<close>

definition set_bit_at :: "u256 \<Rightarrow> nat \<Rightarrow> u256" where
  "set_bit_at q shift =
     of_limbs ((limbs q)[shift div 64 := limbs q ! (shift div 64) OR push_bit (shift mod 64) 1])"

fun div_loop :: "nat \<Rightarrow> u256 \<Rightarrow> u256 \<Rightarrow> u256 \<Rightarrow> u256 \<times> u256" where
  "div_loop shift divisor rmd quot =
     (let (rmd, quot) =
        (if rmd \<ge> divisor
         then (u256_wrapping_sub rmd divisor, set_bit_at quot shift)
         else (rmd, quot))
      in case shift of
           0 \<Rightarrow> (quot, rmd)
         | Suc s \<Rightarrow> div_loop s (u256_shr divisor 1) rmd quot)"

declare div_loop.simps [simp del]

definition div_rem :: "u256 \<Rightarrow> u256 \<Rightarrow> (u256 \<times> u256) option" where
  "div_rem x rhs =
     (if u256_is_zero rhs then None
      else
        let num_bits = u256_bits x; div_bits = u256_bits rhs
        in if div_bits > num_bits then Some (u256_ZERO, x)
           else
             let shift = num_bits - div_bits
             in Some (div_loop shift (u256_shl rhs shift) x u256_ZERO))"

section \<open>Compact targets and work\<close>

text \<open>A \<open>CompactTarget\<close> is its \<open>u32\<close>, a \<open>Target\<close> and a \<open>Work\<close> are their \<open>U256\<close>.\<close>

type_synonym compact_target = u32
type_synonym target = u256
type_synonym work = u256

record expanded_target =
  et_value :: u256
  et_negative :: bool
  et_overflow :: bool

definition expand :: "compact_target \<Rightarrow> expanded_target" where
  "expand compact =
     (let size = unat (drop_bit 24 compact);
          word0 = compact AND 0x007fffff;
          word = (if size \<le> 3 then drop_bit (8 * (3 - size)) word0 else word0);
          val = (if size \<le> 3 then from_u64 (ucast word)
                 else u256_shl (from_u64 (ucast word)) (8 * (size - 3)));
          negative = (word \<noteq> 0 \<and> compact AND 0x00800000 \<noteq> 0);
          overflow = (word \<noteq> 0 \<and> (size > 34 \<or> (word > 0xff \<and> size > 33) \<or> (word > 0xffff \<and> size > 32)))
      in \<lparr>et_value = val, et_negative = negative, et_overflow = overflow\<rparr>)"

definition from_target :: "u256 \<Rightarrow> bool \<Rightarrow> compact_target" where
  "from_target v negative =
     (let bits = u256_bits v;
          size = (bits + 7) div 8;
          compact = (if size \<le> 3 then push_bit (8 * (3 - size)) (low_u64 v)
                     else low_u64 (u256_shr v (8 * (size - 3))));
          (compact, size) = (if compact AND 0x00800000 \<noteq> 0 then (drop_bit 8 compact, size + 1)
                             else (compact, size));
          result = compact OR push_bit 24 (word_of_nat size);
          result = (if negative \<and> result AND 0x007fffff \<noteq> 0 then result OR 0x00800000 else result)
      in ucast result)"

definition to_compact :: "target \<Rightarrow> compact_target" where
  "to_compact t = from_target t False"

definition work_from_compact :: "compact_target \<Rightarrow> work" where
  "work_from_compact bits =
     (let e = expand bits
      in if et_negative e \<or> et_overflow e \<or> u256_is_zero (et_value e) then u256_ZERO
         else case u256_checked_add (et_value e) u256_ONE of
           None \<Rightarrow> u256_ZERO
         | Some denom \<Rightarrow>
             (case div_rem (u256_not (et_value e)) denom of
                None \<Rightarrow> u256_ZERO
              | Some (quot, _) \<Rightarrow> u256_wrapping_add quot u256_ONE))"

definition work_checked_add :: "work \<Rightarrow> work \<Rightarrow> work option" where
  "work_checked_add x y = u256_checked_add x y"

section \<open>Values\<close>

fun lval :: "u64 list \<Rightarrow> nat" where
  "lval [] = 0"
| "lval (w # ws) = unat w + 2 ^ 64 * lval ws"

definition u256_val :: "u256 \<Rightarrow> nat" where
  "u256_val x = lval (limbs x)"

lemma u256_val_U256 [simp]:
  "u256_val (U256 a b c d) = unat a + 2 ^ 64 * unat b + 2 ^ 128 * unat c + 2 ^ 192 * unat d"
  by (simp add: u256_val_def)

lemma of_limbs_limbs [simp]: "of_limbs (limbs x) = x"
  by (cases x) (simp add: of_limbs_def)

lemma length_limbs [simp]: "length (limbs x) = 4"
  by (cases x) simp

lemma length_4_cases:
  assumes "length l = 4"
  obtains a b c d where "l = [a, b, c, d]"
  using assms by (auto simp: numeral_eq_Suc length_Suc_conv)

lemma limbs_of_limbs: "length l = 4 \<Longrightarrow> limbs (of_limbs l) = l"
  by (erule length_4_cases) (simp add: of_limbs_def)

lemma val_of_limbs: "length l = 4 \<Longrightarrow> u256_val (of_limbs l) = lval l"
  by (simp add: u256_val_def limbs_of_limbs)

lemma lval_bound: "lval l < 2 ^ (64 * length l)"
proof (induction l)
  case (Cons w ws)
  have "unat w < 2 ^ 64" using unat_bound [of w] by simp
  from digit_bound [OF this Cons] show ?case by (simp add: power_add)
qed simp

lemma u256_val_bound: "u256_val x < 2 ^ 256"
  using lval_bound [of "limbs x"] by (simp add: u256_val_def)

lemma lval_inj: "length xs = length ys \<Longrightarrow> lval xs = lval ys \<Longrightarrow> xs = ys"
proof (induction xs ys rule: list_induct2)
  case (Cons x xs y ys)
  have "unat x < 2 ^ 64" "unat y < 2 ^ 64" using unat_bound [of x] unat_bound [of y] by simp_all
  from digit_inj [OF this, of "lval xs" "lval ys"] Cons.prems
  have "unat x = unat y" "lval xs = lval ys" by simp_all
  with Cons show ?case by (simp add: word_unat_eq_iff)
qed simp

lemma u256_val_inj: "u256_val x = u256_val y \<longleftrightarrow> x = y"
proof
  assume "u256_val x = u256_val y"
  then have "limbs x = limbs y" by (intro lval_inj) (simp_all add: u256_val_def)
  then show "x = y" by (metis of_limbs_limbs)
qed simp

section \<open>Addition, subtraction, multiplication\<close>

lemma adc_step:
  assumes "unat carry \<le> 1" "overflowing_add a b = (s1, c1)" "overflowing_add s1 carry = (s2, c2)"
  shows "unat s2 + 2 ^ 64 * unat (b2u c1 + b2u c2) = unat a + unat b + unat carry"
    and "unat (b2u c1 + b2u c2) \<le> 1"
proof -
  have b: "unat a < 2 ^ 64" "unat b < 2 ^ 64" using unat_bound [of a] unat_bound [of b] by simp_all
  have "s1 = a + b" "c1 = (unat a + unat b \<ge> 2 ^ 64)" "s2 = s1 + carry"
    "c2 = (unat s1 + unat carry \<ge> 2 ^ 64)"
    using assms by (simp_all add: overflowing_add_def)
  with b assms(1) show "unat s2 + 2 ^ 64 * unat (b2u c1 + b2u c2) = unat a + unat b + unat carry"
    and "unat (b2u c1 + b2u c2) \<le> 1"
    by (auto simp: b2u_def unat_plus_if' simp del: unat_u64_lt)
qed

lemma adc_loop_val:
  "adc_loop ps carry = (out, c) \<Longrightarrow> unat carry \<le> 1 \<Longrightarrow>
   length out = length ps \<and> unat c \<le> 1 \<and>
   lval out + 2 ^ (64 * length ps) * unat c = lval (map fst ps) + lval (map snd ps) + unat carry"
proof (induction ps carry arbitrary: out c rule: adc_loop.induct)
  case (2 a b r carry)
  obtain s1 c1 where o1: "overflowing_add a b = (s1, c1)" by fastforce
  obtain s2 c2 where o2: "overflowing_add s1 carry = (s2, c2)" by fastforce
  obtain out' c' where r: "adc_loop r (b2u c1 + b2u c2) = (out', c')" by fastforce
  note step = adc_step [OF "2.prems"(2) o1 o2]
  from "2.IH" [OF refl o1 [symmetric] refl o2 [symmetric] _ step(2)] r
  have IH: "length out' = length r \<and> unat c' \<le> 1 \<and>
    lval out' + 2 ^ (64 * length r) * unat c' =
      lval (map fst r) + lval (map snd r) + unat (b2u c1 + b2u c2)"
    by (metis o1 o2 step(2) "2.IH")
  have "out = s2 # out'" "c = c'" using "2.prems"(1) o1 o2 r by simp_all
  with IH step(1) show ?case by (simp add: power_add algebra_simps)
qed simp

lemma lval_zip: "lval (map fst (zip (limbs x) (limbs y))) = u256_val x"
  "lval (map snd (zip (limbs x) (limbs y))) = u256_val y"
  by (simp_all add: u256_val_def)

lemma adc_val:
  assumes "adc x y = (z, c)"
  shows "u256_val z + (if c then 2 ^ 256 else 0) = u256_val x + u256_val y"
proof -
  obtain out carry where l: "adc_loop (zip (limbs x) (limbs y)) 0 = (out, carry)" by fastforce
  with assms have z: "z = of_limbs out" "c = (carry \<noteq> 0)" by (auto simp: adc_def)
  have o: "length out = 4" "unat carry \<le> 1"
    "lval out + 2 ^ 256 * unat carry = u256_val x + u256_val y"
    using adc_loop_val [OF l] by (auto simp: lval_zip simp del: map_fst_zip map_snd_zip)
  then have "unat carry = (if c then 1 else 0)"
    using z(2) by (auto simp: unat_eq_0 le_Suc_eq)
  with o z show ?thesis by (auto simp: val_of_limbs)
qed

lemma sbb_step:
  assumes "unat borrow \<le> 1" "overflowing_sub a b = (d1, b1)" "overflowing_sub d1 borrow = (d2, b2)"
  shows "unat d2 + unat b + unat borrow = unat a + 2 ^ 64 * unat (b2u b1 + b2u b2)"
    and "unat (b2u b1 + b2u b2) \<le> 1"
proof -
  have b: "unat a < 2 ^ 64" "unat b < 2 ^ 64" using unat_bound [of a] unat_bound [of b] by simp_all
  have "d1 = a - b" "b1 = (unat a < unat b)" "d2 = d1 - borrow" "b2 = (unat d1 < unat borrow)"
    using assms by (simp_all add: overflowing_sub_def)
  with b assms(1) show "unat d2 + unat b + unat borrow = unat a + 2 ^ 64 * unat (b2u b1 + b2u b2)"
    and "unat (b2u b1 + b2u b2) \<le> 1"
    by (auto simp: b2u_def unat_sub_if' simp del: unat_u64_lt)
qed

lemma sbb_loop_val:
  "sbb_loop ps borrow = (out, c) \<Longrightarrow> unat borrow \<le> 1 \<Longrightarrow>
   length out = length ps \<and> unat c \<le> 1 \<and>
   lval out + lval (map snd ps) + unat borrow = lval (map fst ps) + 2 ^ (64 * length ps) * unat c"
proof (induction ps borrow arbitrary: out c rule: sbb_loop.induct)
  case (2 a b r borrow)
  obtain s1 c1 where o1: "overflowing_sub a b = (s1, c1)" by fastforce
  obtain s2 c2 where o2: "overflowing_sub s1 borrow = (s2, c2)" by fastforce
  obtain out' c' where r: "sbb_loop r (b2u c1 + b2u c2) = (out', c')" by fastforce
  note step = sbb_step [OF "2.prems"(2) o1 o2]
  have IH: "length out' = length r \<and> unat c' \<le> 1 \<and>
    lval out' + lval (map snd r) + unat (b2u c1 + b2u c2) =
      lval (map fst r) + 2 ^ (64 * length r) * unat c'"
    using r step(2) by (metis o1 o2 "2.IH")
  have "out = s2 # out'" "c = c'" using "2.prems"(1) o1 o2 r by simp_all
  with IH step(1) show ?case by (simp add: power_add algebra_simps)
qed simp

lemma sbb_val:
  assumes "sbb x y = (z, c)"
  shows "u256_val z + u256_val y = u256_val x + (if c then 2 ^ 256 else 0)"
proof -
  obtain out carry where l: "sbb_loop (zip (limbs x) (limbs y)) 0 = (out, carry)" by fastforce
  with assms have z: "z = of_limbs out" "c = (carry \<noteq> 0)" by (auto simp: sbb_def)
  have o: "length out = 4" "unat carry \<le> 1"
    "lval out + u256_val y = u256_val x + 2 ^ 256 * unat carry"
    using sbb_loop_val [OF l] by (auto simp: lval_zip simp del: map_fst_zip map_snd_zip)
  then have "unat carry = (if c then 1 else 0)"
    using z(2) by (auto simp: unat_eq_0 le_Suc_eq)
  with o z show ?thesis by (auto simp: val_of_limbs)
qed

lemma mul_loop_val:
  "mul_loop l rhs carry = (out, c) \<Longrightarrow> unat carry < 2 ^ 64 \<Longrightarrow>
   length out = length l \<and> unat c < 2 ^ 64 \<and>
   lval out + 2 ^ (64 * length l) * unat c = lval l * unat rhs + unat carry"
proof (induction l rhs carry arbitrary: out c rule: mul_loop.induct)
  case (2 limb r rhs carry)
  let ?p = "ucast limb * ucast rhs + carry :: 128 word"
  obtain out' c' where r: "mul_loop r rhs (drop_bit 64 ?p) = (out', c')" by fastforce
  have "unat limb \<le> 2 ^ 64 - 1" "unat rhs \<le> 2 ^ 64 - 1"
    using unat_bound [of limb] unat_bound [of rhs] by (simp_all del: unat_u64_lt)
  then have "unat limb * unat rhs \<le> (2 ^ 64 - 1) * (2 ^ 64 - 1)" by (rule mult_le_mono)
  with "2.prems"(2) have small: "unat limb * unat rhs + unat carry < 2 ^ 128" by simp
  have u: "unat (ucast limb :: 128 word) = unat limb" "unat (ucast rhs :: 128 word) = unat rhs"
    by (simp_all add: unat_ucast_up)
  have p: "unat ?p = unat limb * unat rhs + unat carry"
    using small by (simp add: unat_word_ariths u)
  have hi: "unat (drop_bit 64 ?p) = unat ?p div 2 ^ 64"
    by (simp add: drop_bit_eq_div unat_div_distrib)
  have lo: "unat (ucast ?p :: u64) = unat ?p mod 2 ^ 64"
    by (simp add: unsigned_ucast_eq take_bit_eq_mod)
  have "unat (drop_bit 64 ?p) < 2 ^ 64" using p hi small by (simp add: less_mult_imp_div_less)
  from "2.IH" [OF refl _ this] r have IH: "length out' = length r \<and> unat c' < 2 ^ 64 \<and>
    lval out' + 2 ^ (64 * length r) * unat c' = lval r * unat rhs + unat (drop_bit 64 ?p)" by simp
  have out: "out = ucast ?p # out'" "c = c'" using "2.prems"(1) r by simp_all
  have "lval out + 2 ^ (64 * length (limb # r)) * unat c =
      unat ?p mod 2 ^ 64 + 2 ^ 64 * (lval out' + 2 ^ (64 * length r) * unat c')"
    by (simp add: out lo power_add distrib_left del: unat_u64_lt)
  also have "\<dots> = unat ?p mod 2 ^ 64 + 2 ^ 64 * (unat ?p div 2 ^ 64) + 2 ^ 64 * (lval r * unat rhs)"
    using IH hi by (simp add: distrib_left)
  also have "\<dots> = lval (limb # r) * unat rhs + unat carry"
    unfolding mod_mult_div_eq by (simp add: p distrib_right)
  finally show ?case using IH out by simp
qed simp

lemma mul_val:
  assumes "mul_u64_with_carry x rhs = (z, c)"
  shows "u256_val z + 2 ^ 256 * unat c = u256_val x * unat rhs"
proof -
  obtain out carry where l: "mul_loop (limbs x) rhs 0 = (out, carry)" by fastforce
  with assms have z: "z = of_limbs out" "c = ucast carry" by (auto simp: mul_u64_with_carry_def)
  have o: "length out = 4" "unat carry < 2 ^ 64"
    "lval out + 2 ^ 256 * unat carry = u256_val x * unat rhs"
    using mul_loop_val [OF l] by (auto simp: u256_val_def)
  then have "unat c = unat carry" using z(2) by (simp add: unsigned_ucast_eq take_bit_nat_eq_self)
  with o z show ?thesis by (auto simp: val_of_limbs)
qed

section \<open>Order\<close>

lemma lval_snoc: "lval (xs @ [w]) = lval xs + 2 ^ (64 * length xs) * unat w"
  by (induction xs) (simp_all add: power_add algebra_simps)

lemma lex_less_val:
  "length xs = length ys \<Longrightarrow> lex_less xs ys \<longleftrightarrow> lval (rev xs) < lval (rev ys)"
proof (induction xs ys rule: list_induct2)
  case (Cons x xs y ys)
  let ?B = "2 ^ (64 * length xs) :: nat"
  have b: "lval (rev xs) < ?B" "lval (rev ys) < ?B"
    using lval_bound [of "rev xs"] lval_bound [of "rev ys"] Cons.hyps by simp_all
  have step: "a + ?B * u < c + ?B * v" if "u < v" "a < ?B" for a c u v
  proof -
    have "a + ?B * u < ?B * Suc u" using that(2) by simp
    also have "\<dots> \<le> ?B * v" using that(1) by (intro mult_le_mono2) simp
    finally show ?thesis by simp
  qed
  consider "unat x < unat y" | "unat y < unat x" | "unat x = unat y" by linarith
  then show ?case
  proof cases
    case 1
    with step [OF 1 b(1), of "lval (rev ys)"] Cons.hyps show ?thesis
      by (simp add: lval_snoc word_less_nat_alt)
  next
    case 2
    with step [OF 2 b(2), of "lval (rev xs)"] Cons.hyps show ?thesis
      by (auto simp: lval_snoc word_less_nat_alt)
  next
    case 3
    with Cons show ?thesis by (simp add: lval_snoc word_less_nat_alt word_unat_eq_iff)
  qed
qed simp

lemma u256_less_val: "x < y \<longleftrightarrow> u256_val x < u256_val y"
  using lex_less_val [of "rev (limbs x)" "rev (limbs y)"]
  by (simp add: less_u256_def u256_val_def)

lemma u256_le_val: "x \<le> y \<longleftrightarrow> u256_val x \<le> u256_val y"
  by (metis u256_less_val linorder_not_le)

lemma u256_ZERO_val [simp]: "u256_val u256_ZERO = 0"
  and u256_ONE_val [simp]: "u256_val u256_ONE = 1"
  and from_u64_val [simp]: "u256_val (from_u64 w) = unat w"
  by (simp_all add: u256_ZERO_def u256_ONE_def from_u64_def)

lemma u256_is_zero_val [simp]: "u256_is_zero x \<longleftrightarrow> u256_val x = 0"
  by (cases x) (auto simp: u256_is_zero_def unat_eq_0)

lemma u256_checked_add_val:
  "u256_checked_add x y = (if u256_val x + u256_val y < 2 ^ 256
     then Some (u256_wrapping_add x y) else None)"
  "u256_val (u256_wrapping_add x y) = (u256_val x + u256_val y) mod 2 ^ 256"
proof -
  obtain z c where a: "adc x y = (z, c)" by fastforce
  have v: "u256_val x + u256_val y = u256_val z + (if c then 2 ^ 256 else 0)"
    using adc_val [OF a] by simp
  have z: "u256_val z < 2 ^ 256" by (rule u256_val_bound)
  show "u256_checked_add x y = (if u256_val x + u256_val y < 2 ^ 256
     then Some (u256_wrapping_add x y) else None)"
    using z by (simp add: u256_checked_add_def u256_wrapping_add_def a v)
  show "u256_val (u256_wrapping_add x y) = (u256_val x + u256_val y) mod 2 ^ 256"
    unfolding v using z by (simp add: u256_wrapping_add_def a)
qed

lemma u256_checked_sub_val:
  "u256_checked_sub x y = (if u256_val y \<le> u256_val x then Some (u256_wrapping_sub x y) else None)"
  "u256_val (u256_wrapping_sub x y) = (u256_val x + (2 ^ 256 - u256_val y)) mod 2 ^ 256"
proof -
  obtain z c where a: "sbb x y = (z, c)" by fastforce
  have v: "u256_val z + u256_val y = u256_val x + (if c then 2 ^ 256 else 0)"
    using sbb_val [OF a] by simp
  have z: "u256_val z < 2 ^ 256" "u256_val x < 2 ^ 256" "u256_val y < 2 ^ 256"
    by (rule u256_val_bound)+
  have c: "c \<longleftrightarrow> u256_val x < u256_val y" using v z by (cases c) auto
  show "u256_checked_sub x y = (if u256_val y \<le> u256_val x then Some (u256_wrapping_sub x y) else None)"
    using c by (simp add: u256_checked_sub_def u256_wrapping_sub_def a)
  have "u256_val x + (2 ^ 256 - u256_val y) = u256_val z + (if c then 0 else 2 ^ 256)"
    using v z(3) by (cases c) (simp_all split: if_splits)
  then show "u256_val (u256_wrapping_sub x y) = (u256_val x + (2 ^ 256 - u256_val y)) mod 2 ^ 256"
    using z(1) by (simp add: u256_wrapping_sub_def a)
qed

lemma u256_sub_val:
  assumes "u256_val y \<le> u256_val x"
  shows "u256_val (u256_wrapping_sub x y) = u256_val x - u256_val y"
proof -
  have e: "u256_val x + (2 ^ 256 - u256_val y) = (u256_val x - u256_val y) + 2 ^ 256"
    using assms u256_val_bound [of y] by linarith
  have "u256_val x - u256_val y < 2 ^ 256"
    using u256_val_bound [of x] by (rule le_less_trans [OF diff_le_self])
  then show ?thesis unfolding u256_checked_sub_val(2) e by (simp only: mod_add_self2 mod_less)
qed

section \<open>Shifts\<close>

lemma unat_push_bit: "unat (push_bit b (w :: u64)) = (unat w * 2 ^ b) mod 2 ^ 64"
  unfolding unsigned_push_bit_eq by (simp add: push_bit_eq_mult take_bit_eq_mod)

lemma unat_drop_bit: "unat (drop_bit b (w :: u64)) = unat w div 2 ^ b"
proof (cases "b < 64")
  case True
  then show ?thesis
    unfolding unsigned_drop_bit_eq by (simp add: drop_bit_eq_div take_bit_nat_eq_self)
next
  case False
  then have "(2 :: nat) ^ 64 \<le> 2 ^ b" by (intro power_increasing) simp_all
  moreover have "unat w < 2 ^ 64" using unat_bound [of w] by simp
  ultimately have "unat w div 2 ^ b = 0" by (intro div_less) linarith
  moreover have "drop_bit b w = 0" using False by (intro bit_eqI) (simp add: bit_simps)
  ultimately show ?thesis by simp
qed

definition shl_in :: "nat \<Rightarrow> u64 \<Rightarrow> u64" where
  "shl_in b y = (if b \<noteq> 0 then drop_bit (64 - b) y else 0)"

definition shr_in :: "nat \<Rightarrow> u64 \<Rightarrow> u64" where
  "shr_in b y = (if b \<noteq> 0 then push_bit (64 - b) y else 0)"

lemma shl_limb:
  assumes "b < 64"
  shows "unat (shl_in b y OR push_bit b x) + 2 ^ 64 * (unat x * 2 ^ b div 2 ^ 64) =
    unat x * 2 ^ b + unat y * 2 ^ b div 2 ^ 64"
proof -
  have "shl_in b y AND push_bit b x = 0"
    using assms by (intro bit_eqI) (auto simp: shl_in_def bit_simps dest: bit_imp_le_length)
  moreover have "unat (shl_in b y) = unat y * 2 ^ b div 2 ^ 64"
  proof (cases "b = 0")
    case False
    have "(2 :: nat) ^ 64 = 2 ^ (64 - b) * 2 ^ b" using assms by (simp flip: power_add)
    then have "unat y * 2 ^ b div 2 ^ 64 = unat y div 2 ^ (64 - b)"
      using div_mult_mult2 [of "2 ^ b" "unat y" "2 ^ (64 - b)"] by simp
    with False show ?thesis by (simp only: shl_in_def unat_drop_bit if_True simp_thms)
  qed (simp add: shl_in_def)
  ultimately show ?thesis
    by (simp add: unat_or_disjoint unat_push_bit)
qed

lemma shr_limb:
  assumes "b < 64"
  shows "unat (drop_bit b x OR shr_in b y) * 2 ^ b + unat x mod 2 ^ b =
    unat x + 2 ^ 64 * (unat y mod 2 ^ b)"
proof -
  have B: "(2 :: nat) ^ 64 = 2 ^ (64 - b) * 2 ^ b" using assms by (simp flip: power_add)
  have "drop_bit b x AND shr_in b y = 0"
    using assms by (intro bit_eqI) (auto simp: shr_in_def bit_simps dest: bit_imp_le_length)
  then have "unat (drop_bit b x OR shr_in b y) = unat x div 2 ^ b + unat (shr_in b y)"
    by (simp add: unat_or_disjoint unat_drop_bit)
  moreover have "unat (shr_in b y) * 2 ^ b = 2 ^ 64 * (unat y mod 2 ^ b)"
  proof (cases "b = 0")
    case False
    have "unat (shr_in b y) = unat y * 2 ^ (64 - b) mod 2 ^ 64"
      using False by (simp add: shr_in_def unat_push_bit)
    also have "\<dots> = 2 ^ (64 - b) * (unat y mod 2 ^ b)"
      unfolding B by (simp add: mult.commute mult_mod_right)
    finally show ?thesis unfolding B by (simp only: ac_simps)
  qed (simp add: shr_in_def)
  ultimately show ?thesis
    using div_mult_mod_eq [of "unat x" "2 ^ b"] by (simp add: distrib_right)
qed

lemma shl_limbs:
  "u256_shl (U256 p q r s) n =
   (let b = n mod 64; h = shl_in b; l = push_bit b in
    if n < 64 then U256 (l p) (h p OR l q) (h q OR l r) (h r OR l s)
    else if n < 128 then U256 0 (l p) (h p OR l q) (h q OR l r)
    else if n < 192 then U256 0 0 (l p) (h p OR l q)
    else if n < 256 then U256 0 0 0 (l p)
    else u256_ZERO)"
proof -
  consider "n div 64 = 0" "n < 64" | "n div 64 = 1" "64 \<le> n" "n < 128"
    | "n div 64 = 2" "128 \<le> n" "n < 192" | "n div 64 = 3" "192 \<le> n" "n < 256" | "256 \<le> n"
    by linarith
  then show ?thesis
    by cases (simp_all add: u256_shl_def shl_in_def of_limbs_def Let_def or.commute)
qed

lemma shr_limbs:
  "u256_shr (U256 p q r s) n =
   (let b = n mod 64; h = shr_in b; l = drop_bit b in
    if n < 64 then U256 (l p OR h q) (l q OR h r) (l r OR h s) (l s)
    else if n < 128 then U256 (l q OR h r) (l r OR h s) (l s) 0
    else if n < 192 then U256 (l r OR h s) (l s) 0 0
    else if n < 256 then U256 (l s) 0 0 0
    else u256_ZERO)"
proof -
  consider "n div 64 = 0" "n < 64" | "n div 64 = 1" "64 \<le> n" "n < 128"
    | "n div 64 = 2" "128 \<le> n" "n < 192" | "n div 64 = 3" "192 \<le> n" "n < 256" | "256 \<le> n"
    by linarith
  then show ?thesis
    by cases (simp_all add: u256_shr_def shr_in_def of_limbs_def Let_def)
qed

lemma shl_in_0 [simp]: "shl_in b 0 = 0" and shr_in_0 [simp]: "shr_in b 0 = 0"
  by (simp_all add: shl_in_def shr_in_def)

lemma shl_limb0: "b < 64 \<Longrightarrow> unat (push_bit b x :: u64) + 2 ^ 64 * (unat x * 2 ^ b div 2 ^ 64) = unat x * 2 ^ b"
  using shl_limb [of b 0 x] by simp

lemma shr_limb0: "b < 64 \<Longrightarrow> unat (drop_bit b x :: u64) * 2 ^ b + unat x mod 2 ^ b = unat x"
  using shr_limb [of b x 0] by simp

lemma u256_modI: "u256_val z + 2 ^ 256 * k = v \<Longrightarrow> u256_val z = v mod 2 ^ 256"
  using u256_val_bound [of z] by (metis mod_less mod_mult_self2)

lemma pow2_split:
  assumes "n div 64 = j"
  shows "(2 :: nat) ^ n = 2 ^ (64 * j) * 2 ^ (n mod 64)"
proof -
  have "64 * j + n mod 64 = n" unfolding assms [symmetric] by (rule mult_div_mod_eq)
  then show ?thesis by (metis power_add)
qed

lemma carry_sum4:
  fixes n0 n1 n2 n3 c0 c1 c2 c3 e0 e1 e2 e3 :: nat
  assumes "n0 + 2 ^ 64 * c0 = e0" "n1 + 2 ^ 64 * c1 = e1 + c0" "n2 + 2 ^ 64 * c2 = e2 + c1"
    "n3 + 2 ^ 64 * c3 = e3 + c2"
  shows "n0 + 2 ^ 64 * n1 + 2 ^ 128 * n2 + 2 ^ 192 * n3 + 2 ^ 256 * c3 =
    e0 + 2 ^ 64 * e1 + 2 ^ 128 * e2 + 2 ^ 192 * e3"
  using assms by simp

lemma u256_val_mult: "u256_val (U256 p q r s) * P =
   unat p * P + 2 ^ 64 * (unat q * P) + 2 ^ 128 * (unat r * P) + 2 ^ 192 * (unat s * P)"
  by (simp add: distrib_right)

lemma u256_shl_val: "u256_val (u256_shl x n) = u256_val x * 2 ^ n mod 2 ^ 256"
proof (cases x)
  case x: (U256 p q r s)
  define b where "b = n mod 64"
  define c where "c w = unat w * 2 ^ b div 2 ^ 64" for w :: u64
  have "b < 64" by (simp add: b_def)
  note l0 = shl_limb0 [OF this, folded c_def] and l = shl_limb [OF this, folded c_def]
  note lim = shl_limbs [of p q r s n, folded b_def, unfolded Let_def]
  note sum = carry_sum4 [OF l0 [of p] l [of p q] l [of q r] l [of r s]]
  consider "n < 64" | "64 \<le> n" "n < 128" | "128 \<le> n" "n < 192" | "192 \<le> n" "n < 256" | "256 \<le> n"
    by linarith
  then show ?thesis
  proof cases
    case 1
    then have "b = n" by (simp add: b_def)
    moreover have "u256_shl x n = U256 (push_bit b p) (shl_in b p OR push_bit b q)
      (shl_in b q OR push_bit b r) (shl_in b r OR push_bit b s)"
      using 1 by (simp add: x lim)
    ultimately show ?thesis using sum unfolding x
      by (intro u256_modI [where k = "c s"]) (simp only: u256_val_mult, simp only: u256_val_U256)
  next
    case 2
    then have "n div 64 = 1" by simp
    from pow2_split [OF this] have P: "(2 :: nat) ^ n = 2 ^ 64 * 2 ^ b" by (simp add: b_def)
    have "u256_shl x n = U256 0 (push_bit b p) (shl_in b p OR push_bit b q) (shl_in b q OR push_bit b r)"
      using 2 by (simp add: x lim)
    moreover have "u256_val x * 2 ^ n = 2 ^ 64 * (u256_val x * 2 ^ b)" by (simp add: P)
    ultimately show ?thesis
      using l0 [of p] l [of p q] l [of q r]
      by (intro u256_modI [where k = "c r + unat s * 2 ^ b"])
        (simp add: x u256_val_mult del: u256_val_U256, simp)
  next
    case 3
    then have "n div 64 = 2" by simp
    from pow2_split [OF this] have P: "(2 :: nat) ^ n = 2 ^ 128 * 2 ^ b" by (simp add: b_def)
    have "u256_shl x n = U256 0 0 (push_bit b p) (shl_in b p OR push_bit b q)"
      using 3 by (simp add: x lim)
    moreover have "u256_val x * 2 ^ n = 2 ^ 128 * (u256_val x * 2 ^ b)" by (simp add: P)
    ultimately show ?thesis
      using l0 [of p] l [of p q]
      by (intro u256_modI [where k = "c q + unat r * 2 ^ b + 2 ^ 64 * (unat s * 2 ^ b)"])
        (simp add: x u256_val_mult del: u256_val_U256, simp)
  next
    case 4
    then have "n div 64 = 3" by simp
    from pow2_split [OF this] have P: "(2 :: nat) ^ n = 2 ^ 192 * 2 ^ b" by (simp add: b_def)
    have "u256_shl x n = U256 0 0 0 (push_bit b p)"
      using 4 by (simp add: x lim)
    moreover have "u256_val x * 2 ^ n = 2 ^ 192 * (u256_val x * 2 ^ b)" by (simp add: P)
    ultimately show ?thesis
      using l0 [of p]
      by (intro u256_modI [where k = "c p + unat q * 2 ^ b + 2 ^ 64 * (unat r * 2 ^ b)
          + 2 ^ 128 * (unat s * 2 ^ b)"])
        (simp add: x u256_val_mult del: u256_val_U256, simp)
  next
    case 5
    then have "(2 :: nat) ^ n = 2 ^ (n - 256) * 2 ^ 256" by (metis le_add_diff_inverse2 power_add)
    then have "u256_val x * 2 ^ n mod 2 ^ 256 = 0" by simp
    with 5 show ?thesis by (simp add: x lim)
  qed
qed

lemma div_uniqueI: "v = z * D + rem \<Longrightarrow> rem < D \<Longrightarrow> z = v div (D :: nat)"
  by simp

lemma u256_shr_val: "u256_val (u256_shr x n) = u256_val x div 2 ^ n"
proof (cases x)
  case x: (U256 p q r s)
  define b where "b = n mod 64"
  define m where "m w = unat w mod 2 ^ b" for w :: u64
  have "b < 64" by (simp add: b_def)
  note l0 = shr_limb0 [OF this, folded m_def] and l = shr_limb [OF this, folded m_def]
  note lim = shr_limbs [of p q r s n, folded b_def, unfolded Let_def]
  have m: "m w < 2 ^ b" for w by (simp add: m_def)
  have w64: "unat w < 2 ^ 64" for w :: u64 using unat_bound [of w] by simp
  consider "n < 64" | "64 \<le> n" "n < 128" | "128 \<le> n" "n < 192" | "192 \<le> n" "n < 256" | "256 \<le> n"
    by linarith
  then show ?thesis
  proof cases
    case 1
    then have "b = n" by (simp add: b_def)
    moreover have "u256_shr x n = U256 (drop_bit b p OR shr_in b q) (drop_bit b q OR shr_in b r)
      (drop_bit b r OR shr_in b s) (drop_bit b s)"
      using 1 by (simp add: x lim)
    ultimately show ?thesis using m [of p] l [of p q] l [of q r] l [of r s] l0 [of s]
      by (intro div_uniqueI [where rem = "m p"]) (simp add: x u256_val_mult del: u256_val_U256, simp_all)
  next
    case 2
    then have "n div 64 = 1" by simp
    from pow2_split [OF this] have P: "(2 :: nat) ^ n = 2 ^ 64 * 2 ^ b" by (simp add: b_def)
    have "u256_shr x n = U256 (drop_bit b q OR shr_in b r) (drop_bit b r OR shr_in b s) (drop_bit b s) 0"
      using 2 by (simp add: x lim)
    moreover have "z * 2 ^ n = 2 ^ 64 * (z * 2 ^ b)" for z :: nat by (simp add: P)
    ultimately show ?thesis
      using digit_bound [OF w64 m, of p q] P l [of q r] l [of r s] l0 [of s]
      by (intro div_uniqueI [where rem = "unat p + 2 ^ 64 * m q"])
        (simp add: x u256_val_mult del: u256_val_U256, simp_all)
  next
    case 3
    then have "n div 64 = 2" by simp
    from pow2_split [OF this] have P: "(2 :: nat) ^ n = 2 ^ 64 * (2 ^ 64 * 2 ^ b)" by (simp add: b_def)
    have "u256_shr x n = U256 (drop_bit b r OR shr_in b s) (drop_bit b s) 0 0"
      using 3 by (simp add: x lim)
    moreover have "z * 2 ^ n = 2 ^ 128 * (z * 2 ^ b)" for z :: nat by (simp add: P)
    ultimately show ?thesis
      using digit_bound [OF w64 digit_bound [OF w64 m], of p q r] P l [of r s] l0 [of s]
      by (intro div_uniqueI [where rem = "unat p + 2 ^ 64 * (unat q + 2 ^ 64 * m r)"])
        (simp add: x u256_val_mult del: u256_val_U256, simp_all)
  next
    case 4
    then have "n div 64 = 3" by simp
    from pow2_split [OF this] have P: "(2 :: nat) ^ n = 2 ^ 64 * (2 ^ 64 * (2 ^ 64 * 2 ^ b))"
      by (simp add: b_def)
    have "u256_shr x n = U256 (drop_bit b s) 0 0 0"
      using 4 by (simp add: x lim)
    moreover have "z * 2 ^ n = 2 ^ 192 * (z * 2 ^ b)" for z :: nat by (simp add: P)
    ultimately show ?thesis
      using digit_bound [OF w64 digit_bound [OF w64 digit_bound [OF w64 m]], of p q r s] P l0 [of s]
      by (intro div_uniqueI [where rem = "unat p + 2 ^ 64 * (unat q + 2 ^ 64 * (unat r + 2 ^ 64 * m s))"])
        (simp add: x u256_val_mult del: u256_val_U256, simp_all)
  next
    case 5
    then have "(2 :: nat) ^ 256 \<le> 2 ^ n" by (intro power_increasing) simp_all
    then have "u256_val x div 2 ^ n = 0" using u256_val_bound [of x] by (intro div_less) linarith
    with 5 show ?thesis by (simp add: x lim)
  qed
qed

section \<open>Bit counts\<close>

lemma bit_length_bounds: "n < 2 ^ bit_length n \<and> (n \<noteq> 0 \<longrightarrow> 2 ^ (bit_length n - 1) \<le> n)"
proof (induction n rule: bit_length.induct)
  case (1 n)
  show ?case
  proof (cases "n \<le> 1")
    case True
    then have "n = 0 \<or> n = 1" by auto
    then show ?thesis by (auto simp: bit_length.simps [of 0] bit_length.simps [of "Suc 0"])
  next
    case False
    then have "n div 2 \<noteq> 0" by simp
    then have "bit_length (n div 2) > 0" by (subst bit_length.simps) simp
    then obtain k where k: "bit_length (n div 2) = Suc k" by (cases "bit_length (n div 2)") auto
    from 1 False k have "n div 2 < 2 * 2 ^ k" "2 ^ k \<le> n div 2" by simp_all
    then have "n < 4 * 2 ^ k" "2 * 2 ^ k \<le> n" by linarith+
    with False k show ?thesis by (simp add: bit_length.simps [of n])
  qed
qed

lemma bit_length_0 [simp]: "bit_length 0 = 0"
  by (simp add: bit_length.simps)

lemma bit_length_unique:
  assumes "2 ^ k \<le> n" "n < 2 ^ Suc k"
  shows "bit_length n = Suc k"
proof -
  have n: "n \<noteq> 0" using assms(1) by (metis not_one_le_zero power_eq_0_iff zero_neq_numeral le_zero_eq)
  note b = bit_length_bounds [of n]
  have "2 ^ k < (2 :: nat) ^ bit_length n" using b assms(1) by linarith
  then have "k < bit_length n" by simp
  moreover have "2 ^ (bit_length n - 1) < (2 :: nat) ^ Suc k" using b n assms(2) by linarith
  then have "bit_length n - 1 < Suc k" by (rule power_less_imp_less_exp [rotated]) simp
  ultimately show ?thesis by linarith
qed

lemma bit_length_le: "n < 2 ^ k \<Longrightarrow> bit_length n \<le> k"
proof (cases "n = 0")
  case False
  assume "n < 2 ^ k"
  moreover have "2 ^ (bit_length n - 1) \<le> n" using bit_length_bounds [of n] False by simp
  ultimately have "2 ^ (bit_length n - 1) < (2 :: nat) ^ k" by linarith
  then show ?thesis by (simp add: power_strict_increasing_iff)
qed simp

lemma bit_length_shift:
  assumes "w \<noteq> 0" "low < 2 ^ k"
  shows "bit_length (low + 2 ^ k * w) = k + bit_length w"
proof -
  have "bit_length w \<noteq> 0" using assms(1) bit_length_bounds [of w] by (cases "bit_length w") auto
  then obtain j where j: "bit_length w = Suc j" by (cases "bit_length w") auto
  have b: "2 ^ j \<le> w" "w < 2 ^ Suc j" using bit_length_bounds [of w] j assms(1) by simp_all
  have "2 ^ (k + j) \<le> low + 2 ^ k * w" using b(1) by (simp add: power_add trans_le_add2)
  moreover have "low + 2 ^ k * w < 2 ^ Suc (k + j)"
    using digit_bound [OF assms(2) b(2)] by (simp add: power_add)
  ultimately have "bit_length (low + 2 ^ k * w) = Suc (k + j)" by (rule bit_length_unique)
  with j show ?thesis by simp
qed

lemma u64_bits: "64 - leading_zeros w = bit_length (unat w)"
  using bit_length_le [of "unat w" 64] unat_bound [of w] by (simp add: leading_zeros_def)

lemma u256_bits_val: "u256_bits x = bit_length (u256_val x)"
proof (cases x)
  case x: (U256 p q r s)
  have w64: "unat w < 2 ^ 64" for w :: u64 using unat_bound [of w] by simp
  have e: "rev (enumerate 0 (limbs x)) = [(3, s), (2, r), (1, q), (0, p)]" by (simp add: x)
  have v: "u256_val x = (unat p + 2 ^ 64 * unat q + 2 ^ 128 * unat r) + 2 ^ 192 * unat s"
    by (simp add: x)
  have low: "unat p + 2 ^ 64 * unat q + 2 ^ 128 * unat r < 2 ^ 192"
    "unat p + 2 ^ 64 * unat q < 2 ^ 128"
    using digit_bound [OF w64 digit_bound [OF w64 w64], of p q r] digit_bound [OF w64 w64, of p q]
    by simp_all
  show ?thesis
  proof (cases "s = 0")
    case False
    then show ?thesis using bit_length_shift [OF _ low(1), of "unat s"]
      by (simp add: u256_bits_def e u64_bits v unat_eq_0 del: u256_val_U256)
  next
    case s: True
    show ?thesis
    proof (cases "r = 0")
      case False
      with s show ?thesis using bit_length_shift [OF _ low(2), of "unat r"]
        by (simp add: u256_bits_def e u64_bits v unat_eq_0)
    next
      case r: True
      show ?thesis
      proof (cases "q = 0")
        case False
        with s r show ?thesis using bit_length_shift [OF _ w64, of "unat q" p]
          by (simp add: u256_bits_def e u64_bits v unat_eq_0)
      next
        case True
        with s r show ?thesis by (simp add: u256_bits_def e u64_bits v)
      qed
    qed
  qed
qed

section \<open>Division\<close>

lemma bit_digit:
  assumes "(a :: nat) < 2 ^ 64"
  shows "bit (a + 2 ^ 64 * b) n = (if n < 64 then bit a n else bit b (n - 64))"
proof (cases "n < 64")
  case True
  then have "(2 :: nat) ^ 64 = 2 ^ n * 2 ^ (64 - n)" by (simp flip: power_add)
  then have "(a + 2 ^ 64 * b) div 2 ^ n = a div 2 ^ n + 2 ^ (64 - n) * b"
    by (simp only: mult.assoc div_mult_self2 power_not_zero zero_neq_numeral not_False_eq_True)
  with True show ?thesis by (simp add: bit_iff_odd)
next
  case False
  then have "(2 :: nat) ^ n = 2 ^ 64 * 2 ^ (n - 64)" by (metis le_add_diff_inverse not_le power_add)
  then have "(a + 2 ^ 64 * b) div 2 ^ n = (a + 2 ^ 64 * b) div 2 ^ 64 div 2 ^ (n - 64)"
    by (simp only: div_mult2_eq)
  also have "(a + 2 ^ 64 * b) div 2 ^ 64 = b" using assms by simp
  finally show ?thesis using False by (simp add: bit_iff_odd)
qed

lemma bit_lval: "bit (lval l) n \<longleftrightarrow> n < 64 * length l \<and> bit (l ! (n div 64)) (n mod 64)"
proof (induction l arbitrary: n)
  case (Cons w ws)
  have "unat w < 2 ^ 64" using unat_bound [of w] by simp
  note bd = bit_digit [OF this, of "lval ws" n]
  show ?case
  proof (cases "n < 64")
    case True
    then show ?thesis using bd by (simp add: bit_unsigned_iff)
  next
    case False
    then have "n div 64 = Suc ((n - 64) div 64)" "n mod 64 = (n - 64) mod 64"
      by (simp_all add: div_if mod_if)
    with False show ?thesis using bd Cons [of "n - 64"] by (simp add: less_diff_conv2 add.commute)
  qed
qed simp

lemma set_bit_at_val:
  assumes "s < 256" and "2 ^ Suc s dvd u256_val q"
  shows "u256_val (set_bit_at q s) = u256_val q + 2 ^ s"
proof -
  let ?j = "s div 64"
  have j: "?j < 4" using assms(1) by simp
  have split: "n = s \<longleftrightarrow> n div 64 = ?j \<and> n mod 64 = s mod 64" for n
    by (metis mult_div_mod_eq)
  have "u256_val (set_bit_at q s) = u256_val q OR 2 ^ s"
  proof (rule bit_eqI)
    fix n
    have "bit (u256_val (set_bit_at q s)) n \<longleftrightarrow> n < 256 \<and>
        bit ((limbs q)[?j := limbs q ! ?j OR push_bit (s mod 64) 1] ! (n div 64)) (n mod 64)"
      by (simp add: set_bit_at_def val_of_limbs bit_lval)
    also have "\<dots> \<longleftrightarrow> n < 256 \<and> (bit (limbs q ! (n div 64)) (n mod 64) \<or> n = s)"
      using j split [of n]
      by (cases "n div 64 = ?j") (auto simp: nth_list_update bit_or_iff bit_exp_iff)
    also have "\<dots> \<longleftrightarrow> bit (u256_val q OR 2 ^ s) n"
      using assms(1) by (auto simp: u256_val_def bit_lval bit_or_iff bit_exp_iff)
    finally show "bit (u256_val (set_bit_at q s)) n \<longleftrightarrow> bit (u256_val q OR 2 ^ s) n" .
  qed
  also have "\<dots> = u256_val q + 2 ^ s"
  proof (rule disjunctive_add_eq_or [symmetric], rule bit_eqI)
    fix n
    have "\<not> bit (u256_val q) s"
    proof -
      obtain k where "u256_val q = 2 ^ Suc s * k" using assms(2) by (elim dvdE)
      then have "u256_val q div 2 ^ s = 2 * k" by simp
      then show ?thesis by (simp add: bit_iff_odd)
    qed
    then show "bit (u256_val q AND 2 ^ s) n \<longleftrightarrow> bit (0 :: nat) n"
      by (auto simp: bit_and_iff bit_exp_iff)
  qed
  finally show ?thesis .
qed

lemma div_loop_val:
  assumes "div_loop s D R Q = (q, r)" and "s < 256" and "u256_val D = v * 2 ^ s"
    and "u256_val R < 2 * u256_val D" and "2 ^ Suc s dvd u256_val Q" and "0 < v"
  shows "u256_val q * v + u256_val r = u256_val Q * v + u256_val R \<and> u256_val r < v"
  using assms
proof (induction s arbitrary: D R Q)
  case 0
  have ge: "D \<le> R \<longleftrightarrow> u256_val D \<le> u256_val R" by (rule u256_le_val)
  show ?case
  proof (cases "D \<le> R")
    case True
    then have "q = set_bit_at Q 0" "r = u256_wrapping_sub R D"
      using 0 by (simp_all add: div_loop.simps [of 0])
    with True ge 0 set_bit_at_val [of 0 Q] show ?thesis by (simp add: u256_sub_val)
  next
    case False
    then have "q = Q" "r = R" using 0 by (simp_all add: div_loop.simps [of 0])
    with False ge 0 show ?thesis by simp
  qed
next
  case (Suc s)
  have ge: "D \<le> R \<longleftrightarrow> u256_val D \<le> u256_val R" by (rule u256_le_val)
  have half: "u256_val (u256_shr D 1) = v * 2 ^ s" using Suc.prems by (simp add: u256_shr_val)
  have dvd: "2 ^ Suc s dvd u256_val Q"
    using Suc.prems(5) by (rule dvd_trans [rotated]) (simp add: le_imp_power_dvd)
  show ?case
  proof (cases "D \<le> R")
    case True
    let ?Q = "set_bit_at Q (Suc s)" and ?R = "u256_wrapping_sub R D"
    have l: "div_loop s (u256_shr D 1) ?R ?Q = (q, r)"
      using Suc.prems(1) True by (simp add: div_loop.simps [of "Suc s"])
    have Q: "u256_val ?Q = u256_val Q + 2 ^ Suc s" using Suc.prems by (intro set_bit_at_val)
    have R: "u256_val ?R = u256_val R - u256_val D" using True ge by (simp add: u256_sub_val)
    have "u256_val ?R < 2 * u256_val (u256_shr D 1)" "2 ^ Suc s dvd u256_val ?Q"
      using Suc.prems(3,4) dvd True ge by (simp_all add: R Q half [unfolded One_nat_def])
    from Suc.IH [OF l _ half this Suc.prems(6)] Suc.prems(2,3) True ge show ?thesis
      by (simp add: R Q algebra_simps)
  next
    case False
    have l: "div_loop s (u256_shr D 1) R Q = (q, r)"
      using Suc.prems(1) False by (simp add: div_loop.simps [of "Suc s"])
    have "u256_val R < 2 * u256_val (u256_shr D 1)" using False ge Suc.prems(3) half by simp
    from Suc.IH [OF l _ half this dvd Suc.prems(6)] Suc.prems(2) show ?thesis by simp
  qed
qed

lemma div_rem_val:
  "div_rem x y = None \<longleftrightarrow> u256_val y = 0"
  "div_rem x y = Some (q, r) \<Longrightarrow>
     u256_val q = u256_val x div u256_val y \<and> u256_val r = u256_val x mod u256_val y"
proof -
  show "div_rem x y = None \<longleftrightarrow> u256_val y = 0"
    by (auto simp: div_rem_def Let_def)
  assume d: "div_rem x y = Some (q, r)"
  then have y: "0 < u256_val y" by (auto simp: div_rem_def split: if_splits)
  have uniq: "u256_val q = u256_val x div u256_val y \<and> u256_val r = u256_val x mod u256_val y"
    if "u256_val q * u256_val y + u256_val r = u256_val x" "u256_val r < u256_val y"
    unfolding that(1) [symmetric] using that(2) by simp
  show "u256_val q = u256_val x div u256_val y \<and> u256_val r = u256_val x mod u256_val y"
  proof (cases "u256_bits y > u256_bits x")
    case True
    then have "q = u256_ZERO" "r = x" using d y by (simp_all add: div_rem_def)
    moreover have "u256_val x < u256_val y"
    proof -
      have "u256_val x < 2 ^ bit_length (u256_val x)" using bit_length_bounds by blast
      also have "\<dots> \<le> 2 ^ (bit_length (u256_val y) - 1)"
        using True by (intro power_increasing) (simp_all add: u256_bits_val)
      also have "\<dots> \<le> u256_val y" using bit_length_bounds [of "u256_val y"] y by simp
      finally show ?thesis .
    qed
    ultimately show ?thesis by simp
  next
    case False
    define s where "s = u256_bits x - u256_bits y"
    have l: "div_loop s (u256_shl y s) x u256_ZERO = (q, r)"
      using d y False by (simp add: div_rem_def s_def Let_def)
    have yb: "bit_length (u256_val y) > 0"
      using bit_length_bounds [of "u256_val y"] y by (cases "bit_length (u256_val y)") auto
    have bx: "bit_length (u256_val x) \<le> 256" by (rule bit_length_le [OF u256_val_bound])
    have s: "s + bit_length (u256_val y) = bit_length (u256_val x)"
      using False by (simp add: s_def u256_bits_val)
    have "u256_val y * 2 ^ s < 2 ^ bit_length (u256_val y) * 2 ^ s"
      using bit_length_bounds [of "u256_val y"] by simp
    also have "\<dots> = 2 ^ bit_length (u256_val x)" using s by (metis add.commute power_add)
    also have "\<dots> \<le> 2 ^ 256" by (rule power_increasing [OF bx]) simp
    finally have D: "u256_val (u256_shl y s) = u256_val y * 2 ^ s" by (simp add: u256_shl_val)
    have "u256_val x < 2 ^ (bit_length (u256_val y) + s)"
      using bit_length_bounds [of "u256_val x"] s by (simp add: add.commute)
    also have "\<dots> = 2 * (2 ^ (bit_length (u256_val y) - 1) * 2 ^ s)"
      using yb by (cases "bit_length (u256_val y)") (simp_all add: power_add)
    also have "\<dots> \<le> 2 * (u256_val y * 2 ^ s)"
      using bit_length_bounds [of "u256_val y"] y by simp
    finally have R: "u256_val x < 2 * u256_val (u256_shl y s)" by (simp add: D)
    have "s < 256" using s yb bx by linarith
    from div_loop_val [OF l this D R _ y] uniq show ?thesis by simp
  qed
qed

section \<open>Compact targets\<close>

lemma unat_not_u64: "unat (NOT (w :: u64)) = 2 ^ 64 - 1 - unat w"
proof -
  have "NOT w = - 1 - w" by (simp add: not_eq_complement)
  moreover have "unat w \<le> unat (- 1 :: u64)" by (simp flip: word_le_nat_alt)
  ultimately have "unat (NOT w) = unat (- 1 :: u64) - unat w" by (simp add: unat_sub word_le_nat_alt)
  then show ?thesis by (simp add: unsigned_minus_1_eq_mask mask_eq_exp_minus_1)
qed

lemma u256_not_val: "u256_val (u256_not x) = 2 ^ 256 - 1 - u256_val x"
proof (cases x)
  case (U256 p q r s)
  have "unat w \<le> 2 ^ 64 - 1" for w :: u64
    using unat_bound [of w] by (simp del: unat_u64_lt)
  from this [of p] this [of q] this [of r] this [of s] show ?thesis
    by (simp add: U256 u256_not_def of_limbs_def unat_not_u64 del: unat_u64_lt)
qed

definition mant :: "u32 \<Rightarrow> nat" where
  "mant c = unat c mod 2 ^ 23"

definition csize :: "u32 \<Rightarrow> nat" where
  "csize c = unat c div 2 ^ 24"

lemma expand_parts:
  "unat (c AND 0x007fffff) = mant c" "unat (drop_bit 24 c) = csize c"
  "c AND 0x00800000 \<noteq> 0 \<longleftrightarrow> bit c 23" for c :: u32
proof -
  have m: "(0x007fffff :: u32) = mask 23" by (simp add: mask_eq_exp_minus_1)
  show "unat (c AND 0x007fffff) = mant c"
    unfolding m by (simp add: mant_def take_bit_eq_mod unat_mod_distrib flip: take_bit_eq_mask)
  show "unat (drop_bit 24 c) = csize c"
    by (simp add: csize_def drop_bit_eq_div unat_div_distrib)
  have e: "(0x00800000 :: u32) = 2 ^ 23" by simp
  show "c AND 0x00800000 \<noteq> 0 \<longleftrightarrow> bit c 23"
    unfolding e by (simp only: and_exp_eq_0_iff_not_bit not_not)
qed

lemma csize_le: "csize c \<le> 255"
proof -
  have "csize c < 256" unfolding csize_def by (rule less_mult_imp_div_less) simp
  then show ?thesis by simp
qed

lemma mant_lt: "mant c < 2 ^ 23"
  by (simp add: mant_def)

definition cword :: "u32 \<Rightarrow> nat" where
  "cword c = (if csize c \<le> 3 then mant c div 2 ^ (8 * (3 - csize c)) else mant c)"

lemma unat_drop_bit32: "k < 32 \<Longrightarrow> unat (drop_bit k (w :: u32)) = unat w div 2 ^ k"
  unfolding unsigned_drop_bit_eq by (simp add: drop_bit_eq_div take_bit_nat_eq_self)

lemma expand_word:
  "unat (if csize c \<le> 3 then drop_bit (8 * (3 - csize c)) (c AND 0x007fffff) else c AND 0x007fffff) =
   cword c"
proof -
  have "8 * (3 - csize c) < 32" by simp
  note d = unat_drop_bit32 [OF this]
  show ?thesis by (cases "csize c \<le> 3") (simp_all only: d cword_def expand_parts if_True if_False)
qed

lemma expand_overflow:
  "et_overflow (expand c) \<longleftrightarrow> cword c \<noteq> 0 \<and>
   (csize c > 34 \<or> (cword c > 0xff \<and> csize c > 33) \<or> (cword c > 0xffff \<and> csize c > 32))"
proof -
  define w where "w = (if csize c \<le> 3 then drop_bit (8 * (3 - csize c)) (c AND 0x007fffff)
    else c AND 0x007fffff)"
  have w: "unat w = cword c" unfolding w_def by (rule expand_word)
  have "et_overflow (expand c) \<longleftrightarrow> w \<noteq> 0 \<and>
      (csize c > 34 \<or> (w > 0xff \<and> csize c > 33) \<or> (w > 0xffff \<and> csize c > 32))"
    by (simp only: expand_def Let_def expand_parts w_def expanded_target.select_convs)
  then show ?thesis by (simp add: word_less_nat_alt unat_eq_0 [symmetric] w)
qed

lemma expand_negative: "et_negative (expand c) \<longleftrightarrow> cword c \<noteq> 0 \<and> bit c 23"
proof -
  define w where "w = (if csize c \<le> 3 then drop_bit (8 * (3 - csize c)) (c AND 0x007fffff)
    else c AND 0x007fffff)"
  have w: "unat w = cword c" unfolding w_def by (rule expand_word)
  have "et_negative (expand c) \<longleftrightarrow> w \<noteq> 0 \<and> bit c 23"
    by (simp only: expand_def Let_def expand_parts w_def expanded_target.select_convs)
  then show ?thesis by (simp add: unat_eq_0 [symmetric] w)
qed

lemma expand_value:
  assumes "\<not> et_overflow (expand c)"
  shows "u256_val (et_value (expand c)) = cword c * 2 ^ (8 * (csize c - 3))"
proof -
  define w where "w = (if csize c \<le> 3 then drop_bit (8 * (3 - csize c)) (c AND 0x007fffff)
    else c AND 0x007fffff)"
  have w: "unat (ucast w :: u64) = cword c"
    unfolding w_def expand_word [symmetric] by (rule unat_ucast_up) simp
  have v: "et_value (expand c) = (if csize c \<le> 3 then from_u64 (ucast w)
      else u256_shl (from_u64 (ucast w)) (8 * (csize c - 3)))"
    by (simp only: expand_def Let_def expand_parts w_def expanded_target.select_convs)
  show ?thesis
  proof (cases "csize c \<le> 3")
    case True
    then show ?thesis by (simp add: v w)
  next
    case False
    have pow: "cword c * 2 ^ (8 * (csize c - 3)) < 2 ^ 256" if "cword c < 2 ^ k" "k + 8 * (csize c - 3) \<le> 256" for k
    proof -
      have "cword c * 2 ^ (8 * (csize c - 3)) < 2 ^ k * 2 ^ (8 * (csize c - 3))"
        using that(1) by simp
      also have "\<dots> \<le> 2 ^ 256" unfolding power_add [symmetric] using that(2) by (rule power_increasing) simp
      finally show ?thesis .
    qed
    have "cword c < 2 ^ 23" using False mant_lt [of c] by (simp add: cword_def)
    then have "cword c * 2 ^ (8 * (csize c - 3)) < 2 ^ 256"
      using assms pow [of 8] pow [of 16] pow [of 24] False
      by (cases "cword c = 0"; cases "cword c > 0xffff"; cases "cword c > 0xff")
        (auto simp: expand_overflow)
    with False show ?thesis by (simp add: v w u256_shl_val)
  qed
qed

lemma work_from_compact_val:
  assumes "\<not> et_negative (expand c)" "\<not> et_overflow (expand c)" "u256_val (et_value (expand c)) \<noteq> 0"
  shows "u256_val (work_from_compact c) = 2 ^ 256 div (u256_val (et_value (expand c)) + 1)"
proof -
  let ?t = "u256_val (et_value (expand c))"
  have "?t \<noteq> 2 ^ 256 - 1"
  proof (cases "csize c \<le> 3")
    case True
    have "cword c \<le> mant c" by (simp add: cword_def)
    then have "cword c < 2 ^ 23" using mant_lt [of c] by linarith
    with True expand_value [OF assms(2)] show ?thesis by simp
  next
    case False
    then obtain k where "csize c - 3 = Suc k" by (cases "csize c - 3") auto
    then have "?t = 256 * (cword c * 2 ^ (8 * k))"
      using expand_value [OF assms(2)] by (simp add: power_add)
    then have "?t mod 256 = 0" by simp
    moreover have "(2 ^ 256 - 1) mod 256 = (255 :: nat)" by simp
    ultimately show ?thesis by (metis zero_neq_numeral)
  qed
  then have t: "?t + 1 < 2 ^ 256" using u256_val_bound [of "et_value (expand c)"] by linarith
  define d where "d = u256_wrapping_add (et_value (expand c)) u256_ONE"
  have d: "u256_checked_add (et_value (expand c)) u256_ONE = Some d" "u256_val d = ?t + 1"
    using t by (simp_all add: u256_checked_add_val d_def)
  obtain q r where q: "div_rem (u256_not (et_value (expand c))) d = Some (q, r)"
    using d(2) div_rem_val(1) [of "u256_not (et_value (expand c))" d]
    by (cases "div_rem (u256_not (et_value (expand c))) d") auto
  have "u256_val q = (2 ^ 256 - (?t + 1)) div (?t + 1)"
    using div_rem_val(2) [OF q] d(2) by (simp add: u256_not_val)
  also have "\<dots> + 1 = 2 ^ 256 div (?t + 1)"
    using t by (subst (2) div_if) (simp add: Suc_le_eq)
  finally have v: "u256_val q + 1 = 2 ^ 256 div (?t + 1)" by simp
  have "2 ^ 256 div (?t + 1) \<le> 2 ^ 256 div 2" using assms(3) by (intro div_le_mono2) simp_all
  then have "u256_val q + 1 < 2 ^ 256" unfolding v by simp
  with v show ?thesis
    using assms by (simp add: work_from_compact_def d(1) q u256_checked_add_val(2))
qed

lemma low_u64_val: "unat (low_u64 x) = u256_val x mod 2 ^ 64"
proof (cases x)
  case (U256 p q r s)
  have "u256_val x = unat p + 2 ^ 64 * (unat q + 2 ^ 64 * unat r + 2 ^ 128 * unat s)"
    by (simp add: U256)
  moreover have "unat p < 2 ^ 64" using unat_bound [of p] by simp
  ultimately have "u256_val x mod 2 ^ 64 = unat p" by (simp only: mod_mult_self2 mod_less)
  then show ?thesis by (simp add: low_u64_def U256 del: u256_val_U256)
qed

text \<open>The mantissa before the sign adjustment, and the encoding as a number.\<close>

definition top_size :: "nat \<Rightarrow> nat" where
  "top_size v = (bit_length v + 7) div 8"

definition top_mant :: "nat \<Rightarrow> nat" where
  "top_mant v = (if top_size v \<le> 3 then v * 2 ^ (8 * (3 - top_size v))
     else v div 2 ^ (8 * (top_size v - 3)))"

lemma top_size_bound: "v < 2 ^ (8 * top_size v)"
proof -
  have "v < 2 ^ bit_length v" using bit_length_bounds by blast
  also have "\<dots> \<le> 2 ^ (8 * top_size v)" unfolding top_size_def by (rule power_increasing) simp_all
  finally show ?thesis .
qed

lemma top_mant_lt: "top_mant v < 2 ^ 24"
proof (cases "top_size v \<le> 3")
  case True
  have "v * 2 ^ (8 * (3 - top_size v)) < 2 ^ (8 * top_size v) * 2 ^ (8 * (3 - top_size v))"
    using top_size_bound [of v] by simp
  also have "\<dots> = 2 ^ (8 * top_size v + 8 * (3 - top_size v))" by (rule power_add [symmetric])
  also have "8 * top_size v + 8 * (3 - top_size v) = 24" using True by simp
  finally show ?thesis using True by (simp add: top_mant_def)
next
  case False
  have "v < 2 ^ (8 * top_size v)" by (rule top_size_bound)
  also have "8 * top_size v = 24 + 8 * (top_size v - 3)" using False by simp
  finally have "v < 2 ^ 24 * 2 ^ (8 * (top_size v - 3))" by (simp add: power_add)
  then have "v div 2 ^ (8 * (top_size v - 3)) < 2 ^ 24" by (rule less_mult_imp_div_less)
  with False show ?thesis by (simp add: top_mant_def)
qed

definition enc_mant :: "nat \<Rightarrow> nat" where
  "enc_mant v = (if 2 ^ 23 \<le> top_mant v then top_mant v div 2 ^ 8 else top_mant v)"

definition enc_size :: "nat \<Rightarrow> nat" where
  "enc_size v = (if 2 ^ 23 \<le> top_mant v then top_size v + 1 else top_size v)"

lemma enc_mant_lt: "enc_mant v < 2 ^ 23"
  using top_mant_lt [of v] by (simp add: enc_mant_def less_mult_imp_div_less)

lemma bit_unat: "bit (w :: 'a::len word) n \<longleftrightarrow> bit (unat w) n"
  by (auto simp: bit_unsigned_iff bit_imp_possible_bit)

lemma bit23: "m < 2 ^ 24 \<Longrightarrow> bit (m :: nat) 23 \<longleftrightarrow> 2 ^ 23 \<le> m"
proof -
  assume m: "m < 2 ^ 24"
  have "m div 2 ^ 23 < 2" by (rule less_mult_imp_div_less) (use m in simp)
  then have "odd (m div 2 ^ 23) \<longleftrightarrow> m div 2 ^ 23 = 1" by (cases "m div 2 ^ 23") auto
  also have "\<dots> \<longleftrightarrow> 2 ^ 23 \<le> m" using m by auto
  finally show ?thesis by (simp add: bit_iff_odd)
qed

lemma and_bit23: "(w :: u64) AND 0x00800000 \<noteq> 0 \<longleftrightarrow> bit w 23"
proof -
  have e: "(0x00800000 :: u64) = 2 ^ 23" by simp
  show ?thesis unfolding e by (simp only: and_exp_eq_0_iff_not_bit not_not)
qed

lemma from_target_unat:
  "unat (from_target v False) = enc_mant (u256_val v) + 2 ^ 24 * enc_size (u256_val v)"
proof -
  let ?V = "u256_val v"
  have bl: "bit_length ?V \<le> 256" by (rule bit_length_le [OF u256_val_bound])
  then have ts: "top_size ?V \<le> 32" by (simp add: top_size_def)
  define c0 :: u64 where "c0 = (if top_size ?V \<le> 3 then push_bit (8 * (3 - top_size ?V)) (low_u64 v)
    else low_u64 (u256_shr v (8 * (top_size ?V - 3))))"
  have c0: "unat c0 = top_mant ?V"
  proof (cases "top_size ?V \<le> 3")
    case True
    have "?V < 2 ^ 64"
    proof -
      have "?V < 2 ^ (8 * top_size ?V)" by (rule top_size_bound)
      also have "\<dots> \<le> 2 ^ 64" by (rule power_increasing) (use True in simp_all)
      finally show ?thesis .
    qed
    moreover have "top_mant ?V < 2 ^ 64" using top_mant_lt [of ?V] by simp
    ultimately show ?thesis using True
      by (simp add: c0_def unat_push_bit low_u64_val top_mant_def)
  next
    case False
    moreover have "top_mant ?V < 2 ^ 64" using top_mant_lt [of ?V] by simp
    ultimately show ?thesis by (simp add: c0_def low_u64_val u256_shr_val top_mant_def)
  qed
  have sign: "c0 AND 0x00800000 \<noteq> 0 \<longleftrightarrow> 2 ^ 23 \<le> top_mant ?V"
    unfolding and_bit23 bit_unat c0 by (rule bit23 [OF top_mant_lt])
  define c1 where "c1 = (if 2 ^ 23 \<le> top_mant ?V then drop_bit 8 c0 else c0)"
  have c1: "unat c1 = enc_mant ?V" by (simp add: c1_def unat_drop_bit c0 enc_mant_def)
  have es: "enc_size ?V \<le> 33" using ts by (simp add: enc_size_def)
  let ?s = "push_bit 24 (word_of_nat (enc_size ?V) :: u64)"
  have s: "unat ?s = 2 ^ 24 * enc_size ?V"
    using es by (simp add: unat_push_bit unat_of_nat take_bit_nat_eq_self)
  have "c1 AND ?s = 0"
  proof (rule bit_eqI)
    fix n
    have "unat c1 < 2 ^ 24" using enc_mant_lt [of ?V] c1 by simp
    then have "bit c1 n \<Longrightarrow> n < 24" by (rule word_bit_less)
    then show "bit (c1 AND ?s) n \<longleftrightarrow> bit (0 :: u64) n" by (auto simp: bit_and_iff bit_push_bit_iff)
  qed
  then have r: "unat (c1 OR ?s) = enc_mant ?V + 2 ^ 24 * enc_size ?V"
    by (simp only: unat_or_disjoint c1 s)
  have ft: "from_target v False = ucast (c1 OR ?s)"
    by (cases "2 ^ 23 \<le> top_mant ?V")
      (simp_all only: from_target_def Let_def u256_bits_val c1_def enc_size_def sign
        top_size_def [symmetric] c0_def [symmetric] if_True if_False prod.case simp_thms)
  have "enc_mant ?V + 2 ^ 24 * enc_size ?V < 2 ^ 32" using enc_mant_lt [of ?V] es by simp
  then show ?thesis by (simp add: ft unsigned_ucast_eq take_bit_nat_eq_self r)
qed

lemma enc_value:
  "(if enc_size v \<le> 3 then enc_mant v div 2 ^ (8 * (3 - enc_size v)) else enc_mant v) *
     2 ^ (8 * (enc_size v - 3)) = v div 2 ^ (8 * (enc_size v - 3)) * 2 ^ (8 * (enc_size v - 3))"
proof (cases "2 ^ 23 \<le> top_mant v")
  case False
  then have "enc_size v = top_size v" "enc_mant v = top_mant v"
    by (simp_all add: enc_size_def enc_mant_def)
  then show ?thesis by (simp add: top_mant_def)
next
  case True
  consider "top_size v \<le> 2" | "top_size v = 3" | "top_size v > 3" by linarith
  then show ?thesis
  proof cases
    case 1
    then have k: "3 - top_size v = Suc (2 - top_size v)" by simp
    have "v * 2 ^ (8 * Suc (2 - top_size v)) div 2 ^ 8 = v * 2 ^ (8 * (2 - top_size v))"
      by (simp add: power_add)
    moreover have "top_mant v = v * 2 ^ (8 * Suc (2 - top_size v))"
      using 1 k by (simp only: top_mant_def) simp
    ultimately have "enc_mant v = v * 2 ^ (8 * (2 - top_size v))"
      using True by (simp only: enc_mant_def if_True)
    moreover have "enc_size v = Suc (top_size v)" using True by (simp add: enc_size_def)
    ultimately show ?thesis using 1 by simp
  next
    case 2
    then have "top_mant v = v" by (simp add: top_mant_def)
    with True have "enc_mant v = v div 2 ^ 8" "enc_size v = 4"
      using 2 by (simp_all add: enc_size_def enc_mant_def)
    then show ?thesis by simp
  next
    case 3
    then have "8 * (top_size v + 1 - 3) = 8 * (top_size v - 3) + 8" by simp
    then have p: "(2 :: nat) ^ (8 * (top_size v + 1 - 3)) = 2 ^ (8 * (top_size v - 3)) * 2 ^ 8"
      by (simp only: power_add)
    have "top_mant v = v div 2 ^ (8 * (top_size v - 3))" using 3 by (simp add: top_mant_def)
    with True have em: "enc_mant v = v div 2 ^ (8 * (top_size v + 1 - 3))"
      by (simp only: enc_mant_def if_True p div_mult2_eq)
    have es: "enc_size v = top_size v + 1" using True by (simp add: enc_size_def)
    then have "\<not> enc_size v \<le> 3" using 3 by simp
    then show ?thesis by (simp only: if_False em es)
  qed
qed

lemma to_compact_expand:
  assumes "c = to_compact t" and "e = 8 * (csize c - 3)"
  shows "\<not> et_negative (expand c)" "\<not> et_overflow (expand c)"
    "u256_val (et_value (expand c)) = u256_val t div 2 ^ e * 2 ^ e"
proof -
  let ?V = "u256_val t"
  have u: "unat c = enc_mant ?V + 2 ^ 24 * enc_size ?V"
    using assms(1) by (simp add: to_compact_def from_target_unat)
  have m: "mant c = enc_mant ?V" and s: "csize c = enc_size ?V" and b: "\<not> bit c 23"
  proof -
    have e: "enc_mant ?V < 2 ^ 23" by (rule enc_mant_lt)
    have u2: "unat c = enc_mant ?V + 2 ^ 23 * (2 * enc_size ?V)" by (simp add: u)
    show "mant c = enc_mant ?V" unfolding mant_def u2 using e by (simp only: mod_mult_self2 mod_less)
    show "csize c = enc_size ?V" using e by (simp add: csize_def u)
    have "unat c div 2 ^ 23 = 2 * enc_size ?V" unfolding u2 using e by simp
    then have "even (unat c div 2 ^ 23)" by simp
    then show "\<not> bit c 23" unfolding bit_unat by (simp add: bit_iff_odd)
  qed
  have w: "cword c = (if enc_size ?V \<le> 3 then enc_mant ?V div 2 ^ (8 * (3 - enc_size ?V)) else enc_mant ?V)"
    by (simp add: cword_def m s)
  show "\<not> et_negative (expand c)" using b by (simp add: expand_negative)
  have ts: "top_size ?V \<le> 32"
    using bit_length_le [OF u256_val_bound, of t] by (simp add: top_size_def)
  have "enc_size ?V > 32 \<Longrightarrow> enc_size ?V = 33 \<and> enc_mant ?V \<le> 0xffff"
    using ts top_mant_lt [of ?V] by (auto simp: enc_size_def enc_mant_def split: if_splits)
  then show o: "\<not> et_overflow (expand c)"
    by (cases "enc_size ?V > 32") (auto simp: expand_overflow s w)
  show "u256_val (et_value (expand c)) = ?V div 2 ^ e * 2 ^ e"
    using expand_value [OF o] enc_value [of ?V] by (simp add: assms(2) s w)
qed

section \<open>Byte strings\<close>

lemma unat_u64_of_le: "length bs = 8 \<Longrightarrow> unat (u64_of_le bs) = le_val bs"
  using le_val_bound [of bs] by (simp add: u64_of_le_def unat_of_nat take_bit_nat_eq_self)

lemma length_32_split:
  assumes "length bs = 32"
  obtains a b c d where "bs = a @ b @ c @ d" "length a = 8" "length b = 8" "length c = 8" "length d = 8"
proof
  show "bs = take 8 bs @ take 8 (drop 8 bs) @ take 8 (drop 16 bs) @ drop 24 bs"
    using append_take_drop_id [of 8 bs] append_take_drop_id [of 8 "drop 8 bs"]
      append_take_drop_id [of 8 "drop 16 bs"]
    by (simp only: drop_drop) simp
qed (use assms in simp_all)

lemma from_le_bytes_val: "length bs = 32 \<Longrightarrow> u256_val (from_le_bytes bs) = le_val bs"
proof (erule length_32_split)
  fix a b c d :: bytes
  assume l: "bs = a @ b @ c @ d" "length a = 8" "length b = 8" "length c = 8" "length d = 8"
  then have "from_le_bytes bs = U256 (u64_of_le a) (u64_of_le b) (u64_of_le c) (u64_of_le d)"
    by (simp add: from_le_bytes_def of_limbs_def upt_rec)
  with l show ?thesis by (simp add: unat_u64_of_le le_val_append)
qed

lemma from_to_le_bytes [simp]: "from_le_bytes (to_le_bytes x) = x"
  by (cases x) (simp add: from_le_bytes_def to_le_bytes_def of_limbs_def upt_rec)

lemma from_to_be_bytes [simp]: "from_be_bytes (to_be_bytes x) = x"
  by (cases x) (simp add: from_be_bytes_def to_be_bytes_def of_limbs_def upt_rec)

section \<open>Properties\<close>

text \<open>the limb-wise operations compute their mathematical counterparts: addition,
  subtraction and multiplication modulo \<open>2 ^ 256\<close> with overflow reported exactly when it
  happens, shifts multiply and divide by powers of two, the order is the numeric one, and
  \<open>bits\<close> is the length of the binary representation.\<close>

theorem u256_operations:
  "u256_val (u256_wrapping_add x y) = (u256_val x + u256_val y) mod 2 ^ 256 \<and>
   (u256_checked_add x y = None \<longleftrightarrow> 2 ^ 256 \<le> u256_val x + u256_val y) \<and>
   u256_val (u256_wrapping_sub x y) = (u256_val x + (2 ^ 256 - u256_val y)) mod 2 ^ 256 \<and>
   (u256_checked_sub x y = None \<longleftrightarrow> u256_val x < u256_val y) \<and>
   u256_val (wrapping_mul_u64 x m) = u256_val x * unat m mod 2 ^ 256 \<and>
   (checked_mul_u64 x m = None \<longleftrightarrow> 2 ^ 256 \<le> u256_val x * unat m) \<and>
   u256_val (u256_shl x n) = u256_val x * 2 ^ n mod 2 ^ 256 \<and>
   u256_val (u256_shr x n) = u256_val x div 2 ^ n \<and>
   (x < y \<longleftrightarrow> u256_val x < u256_val y) \<and>
   u256_bits x = bit_length (u256_val x)"
proof -
  obtain z c where m: "mul_u64_with_carry x m = (z, c)" by fastforce
  note mv = mul_val [OF m]
  have "u256_val (wrapping_mul_u64 x m) = u256_val x * unat m mod 2 ^ 256"
    using u256_modI [OF mv] by (simp add: wrapping_mul_u64_def m)
  moreover have "checked_mul_u64 x m = None \<longleftrightarrow> unat c \<noteq> 0"
    by (simp add: checked_mul_u64_def m unat_eq_0)
  moreover have "unat c \<noteq> 0 \<longleftrightarrow> 2 ^ 256 \<le> u256_val x * unat m"
    unfolding mv [symmetric] using u256_val_bound [of z] by (cases "unat c") auto
  ultimately show ?thesis
    by (simp only: u256_checked_add_val u256_checked_sub_val u256_shl_val u256_shr_val u256_less_val
        u256_bits_val simp_thms)
      (simp add: not_less)
qed

text \<open>C34: binary long division gives quotient and remainder, for every divisor but zero.\<close>

theorem div_rem_correct:
  "map_option (\<lambda>(q, r). (u256_val q, u256_val r)) (div_rem x y) =
   (if u256_val y = 0 then None
    else Some (u256_val x div u256_val y, u256_val x mod u256_val y))"
  using div_rem_val [of x y] by (cases "div_rem x y") auto

text \<open>encoding a target compactly keeps its leading bytes: the decoded target is the
  original with its low \<open>8 * (size - 3)\<close> bits cleared, never negative and never an overflow.\<close>

theorem to_compact_truncates:
  "\<not> et_negative (expand (to_compact t)) \<and> \<not> et_overflow (expand (to_compact t)) \<and>
   (\<exists>e. e = 8 * (unat (drop_bit 24 (to_compact t)) - 3) \<and>
      u256_val (et_value (expand (to_compact t))) = u256_val t div 2 ^ e * 2 ^ e)"
  using to_compact_expand [OF refl refl, of t] by (simp add: expand_parts)

text \<open>C35: the work of a valid target is the expected number of hashes,
  \<open>2 ^ 256 div (target + 1)\<close>, although the quotient is computed within 256 bits.\<close>

theorem work_from_compact_expected:
  assumes "\<not> et_negative (expand c)" "\<not> et_overflow (expand c)" "u256_val (et_value (expand c)) \<noteq> 0"
  shows "u256_val (work_from_compact c) = 2 ^ 256 div (u256_val (et_value (expand c)) + 1)"
  by (rule work_from_compact_val [OF assms])

lemma expand_genesis:
  "\<not> et_negative (expand 0x1d00ffff)" "\<not> et_overflow (expand 0x1d00ffff)"
  "u256_val (et_value (expand 0x1d00ffff)) = 0xffff * 2 ^ 208"
proof -
  have s: "csize 0x1d00ffff = 29" and w: "cword 0x1d00ffff = 0xffff"
    by (simp_all add: csize_def cword_def mant_def)
  have b: "\<not> bit (0x1d00ffff :: u32) 23" by simp
  show "\<not> et_negative (expand 0x1d00ffff)" by (simp only: expand_negative b simp_thms)
  show o: "\<not> et_overflow (expand 0x1d00ffff)" by (simp add: expand_overflow s w)
  show "u256_val (et_value (expand 0x1d00ffff)) = 0xffff * 2 ^ 208"
    by (simp add: expand_value [OF o] s w)
qed

text \<open>Witness of C35: the target of the genesis block.\<close>

lemma work_from_compact_expected_witness:
  "u256_val (work_from_compact 0x1d00ffff) = 4295032833"
  using work_from_compact_expected [of "0x1d00ffff"] by (simp add: expand_genesis)

end
