(* ===== verification/Script.thy ===== *)
theory Script
  imports Transaction
begin

text \<open>
  Raw scripts: \<open>src/crates/avila-consensus/src/script.rs\<close>, and the strict DER check of
  \<open>src/crates/avila-consensus/src/interpreter.rs\<close> the renderer uses.

  The instruction iterator is a record with its \<open>next\<close>; \<open>instructions\<close> is the list a
  \<open>for instruction in script.instructions()\<close> loop sees, ending after the first malformed push.
  Counters (\<open>u64\<close>) are naturals: a count never exceeds twenty times the script's length.
  Rendered text is a \<open>string\<close>.
\<close>

section \<open>Opcodes\<close>

definition OP_0 :: u8 where [simp]: "OP_0 = 0x00"
definition OP_PUSHDATA1 :: u8 where [simp]: "OP_PUSHDATA1 = 0x4c"
definition OP_PUSHDATA2 :: u8 where [simp]: "OP_PUSHDATA2 = 0x4d"
definition OP_PUSHDATA4 :: u8 where [simp]: "OP_PUSHDATA4 = 0x4e"
definition OP_1NEGATE :: u8 where [simp]: "OP_1NEGATE = 0x4f"
definition OP_RESERVED :: u8 where [simp]: "OP_RESERVED = 0x50"
definition OP_1 :: u8 where [simp]: "OP_1 = 0x51"
definition OP_16 :: u8 where [simp]: "OP_16 = 0x60"
definition OP_RETURN :: u8 where [simp]: "OP_RETURN = 0x6a"
definition OP_IF :: u8 where [simp]: "OP_IF = 0x63"
definition OP_NOTIF :: u8 where [simp]: "OP_NOTIF = 0x64"
definition OP_ELSE :: u8 where [simp]: "OP_ELSE = 0x67"
definition OP_ENDIF :: u8 where [simp]: "OP_ENDIF = 0x68"
definition OP_VERIFY :: u8 where [simp]: "OP_VERIFY = 0x69"
definition OP_TOALTSTACK :: u8 where [simp]: "OP_TOALTSTACK = 0x6b"
definition OP_FROMALTSTACK :: u8 where [simp]: "OP_FROMALTSTACK = 0x6c"
definition OP_IFDUP :: u8 where [simp]: "OP_IFDUP = 0x73"
definition OP_DUP :: u8 where [simp]: "OP_DUP = 0x76"
definition OP_SWAP :: u8 where [simp]: "OP_SWAP = 0x7c"
definition OP_SIZE :: u8 where [simp]: "OP_SIZE = 0x82"
definition OP_EQUAL :: u8 where [simp]: "OP_EQUAL = 0x87"
definition OP_EQUALVERIFY :: u8 where [simp]: "OP_EQUALVERIFY = 0x88"
definition OP_0NOTEQUAL :: u8 where [simp]: "OP_0NOTEQUAL = 0x92"
definition OP_ADD :: u8 where [simp]: "OP_ADD = 0x93"
definition OP_BOOLAND :: u8 where [simp]: "OP_BOOLAND = 0x9a"
definition OP_BOOLOR :: u8 where [simp]: "OP_BOOLOR = 0x9b"
definition OP_NUMEQUAL :: u8 where [simp]: "OP_NUMEQUAL = 0x9c"
definition OP_NUMEQUALVERIFY :: u8 where [simp]: "OP_NUMEQUALVERIFY = 0x9d"
definition OP_RIPEMD160 :: u8 where [simp]: "OP_RIPEMD160 = 0xa6"
definition OP_SHA256 :: u8 where [simp]: "OP_SHA256 = 0xa8"
definition OP_HASH160 :: u8 where [simp]: "OP_HASH160 = 0xa9"
definition OP_HASH256 :: u8 where [simp]: "OP_HASH256 = 0xaa"
definition OP_CHECKSIG :: u8 where [simp]: "OP_CHECKSIG = 0xac"
definition OP_CHECKSIGVERIFY :: u8 where [simp]: "OP_CHECKSIGVERIFY = 0xad"
definition OP_CHECKMULTISIG :: u8 where [simp]: "OP_CHECKMULTISIG = 0xae"
definition OP_CHECKMULTISIGVERIFY :: u8 where [simp]: "OP_CHECKMULTISIGVERIFY = 0xaf"
definition OP_CLTV :: u8 where [simp]: "OP_CLTV = 0xb1"
definition OP_CSV :: u8 where [simp]: "OP_CSV = 0xb2"
definition OP_NOP10 :: u8 where [simp]: "OP_NOP10 = 0xb9"
definition OP_CHECKSIGADD :: u8 where [simp]: "OP_CHECKSIGADD = 0xba"

definition MAX_PUBKEYS_PER_MULTISIG :: nat where "MAX_PUBKEYS_PER_MULTISIG = 20"
definition MAX_DIRECT_PUSH :: u8 where [simp]: "MAX_DIRECT_PUSH = 0x4b"
definition MAX_SCRIPT_SIZE :: nat where "MAX_SCRIPT_SIZE = 10000"
definition MAX_SCRIPT_ELEMENT_SIZE :: nat where "MAX_SCRIPT_ELEMENT_SIZE = 520"

definition decode_op_n :: "u8 \<Rightarrow> u8 option" where
  "decode_op_n opcode =
     (if opcode = OP_0 then Some 0
      else if OP_1 \<le> opcode \<and> opcode \<le> OP_16 then Some (opcode - (OP_1 - 1))
      else None)"

section \<open>Instructions\<close>

datatype instruction = Push bytes | Op u8

datatype malformed_script = MalformedScript nat

record instructions_iter =
  it_bytes :: bytes
  it_position :: nat
  it_finished :: bool

text \<open>\<open>bytes.get(a..b)\<close>: none when \<open>b\<close> is past the end.\<close>

definition get_range :: "bytes \<Rightarrow> nat \<Rightarrow> nat \<Rightarrow> bytes option" where
  "get_range bs a b = (if a \<le> b \<and> b \<le> length bs then Some (take (b - a) (drop a bs)) else None)"

text \<open>\<open>len |= u32::from(*byte) << (8 * shift)\<close> over the length bytes.\<close>

definition push_length :: "bytes \<Rightarrow> u32" where
  "push_length len_bytes =
     fold (\<lambda>(shift, byte) len. len OR push_bit (8 * shift) (ucast byte)) (enumerate 0 len_bytes) 0"

definition iter_next ::
  "instructions_iter \<Rightarrow> (malformed_script + instruction) option \<times> instructions_iter" where
  "iter_next it =
     (if it_finished it then (None, it)
      else
        let bs = it_bytes it; start = it_position it;
            malformed = (Some (Inl (MalformedScript start)), it\<lparr>it_finished := True\<rparr>);
            push = (\<lambda>cursor push_len.
              case get_range bs cursor (cursor + push_len) of
                Some data \<Rightarrow> (Some (Inr (Push data)), it\<lparr>it_position := cursor + push_len\<rparr>)
              | None \<Rightarrow> malformed)
        in if start \<ge> length bs then (None, it)
           else
             let opcode = bs ! start; cursor = start + 1
             in if opcode \<le> MAX_DIRECT_PUSH then push cursor (unat opcode)
                else if opcode = OP_PUSHDATA1 \<or> opcode = OP_PUSHDATA2 \<or> opcode = OP_PUSHDATA4 then
                  let width = (if opcode = OP_PUSHDATA1 then 1 else if opcode = OP_PUSHDATA2 then 2 else 4)
                  in case get_range bs cursor (cursor + width) of
                       None \<Rightarrow> malformed
                     | Some len_bytes \<Rightarrow> push (cursor + width) (unat (push_length len_bytes))
                else (Some (Inr (Op opcode)), it\<lparr>it_position := cursor\<rparr>))"

definition script_iter :: "script \<Rightarrow> instructions_iter" where
  "script_iter s = \<lparr>it_bytes = s, it_position = 0, it_finished = False\<rparr>"

definition iter_measure :: "instructions_iter \<Rightarrow> nat" where
  "iter_measure it = (if it_finished it then 0 else Suc (length (it_bytes it) - it_position it))"

lemma get_range_Some: "get_range bs a b = Some d \<Longrightarrow> a \<le> b \<and> b \<le> length bs"
  by (simp add: get_range_def split: if_splits)

lemma iter_next_measure:
  "iter_next it = (Some r, it') \<Longrightarrow> iter_measure it' < iter_measure it"
  by (auto simp: iter_next_def iter_measure_def Let_def split: if_splits option.splits
      dest!: get_range_Some)

function iter_list :: "instructions_iter \<Rightarrow> (malformed_script + instruction) list" where
  "iter_list it = (case iter_next it of (None, _) \<Rightarrow> [] | (Some r, it') \<Rightarrow> r # iter_list it')"
  by auto
termination by (relation "measure iter_measure") (auto dest: iter_next_measure [OF sym])

declare iter_list.simps [simp del]

definition instructions :: "script \<Rightarrow> (malformed_script + instruction) list" where
  "instructions s = iter_list (script_iter s)"

section \<open>Counting and classifying\<close>

text \<open>The loop of \<open>sig_ops\<close>: \<open>break\<close> at the first error.\<close>

fun sig_ops_loop :: "bool \<Rightarrow> (malformed_script + instruction) list \<Rightarrow> u8 option \<Rightarrow> nat \<Rightarrow> nat" where
  "sig_ops_loop accurate [] last_opcode count = count"
| "sig_ops_loop accurate (Inl e # r) last_opcode count = count"
| "sig_ops_loop accurate (Inr (Push d) # r) last_opcode count = sig_ops_loop accurate r None count"
| "sig_ops_loop accurate (Inr (Op opcode) # r) last_opcode count =
     sig_ops_loop accurate r (Some opcode)
       (if opcode = OP_CHECKSIG \<or> opcode = OP_CHECKSIGVERIFY then count + 1
        else if opcode = OP_CHECKMULTISIG \<or> opcode = OP_CHECKMULTISIGVERIFY then
          count +
            (if accurate then
               (case Option.bind last_opcode decode_op_n of
                  Some n \<Rightarrow> unat n | None \<Rightarrow> MAX_PUBKEYS_PER_MULTISIG)
             else MAX_PUBKEYS_PER_MULTISIG)
        else count)"

definition sig_ops :: "script \<Rightarrow> bool \<Rightarrow> nat" where
  "sig_ops s accurate = sig_ops_loop accurate (instructions s) None 0"

definition push_like :: "malformed_script + instruction \<Rightarrow> bool" where
  "push_like i = (case i of Inr (Push d) \<Rightarrow> True | Inr (Op opcode) \<Rightarrow> opcode \<le> OP_16 | Inl e \<Rightarrow> False)"

definition is_push_only :: "script \<Rightarrow> bool" where
  "is_push_only s = list_all push_like (instructions s)"

fun last_pushed_loop :: "(malformed_script + instruction) list \<Rightarrow> bytes \<Rightarrow> bytes option" where
  "last_pushed_loop [] prev = Some prev"
| "last_pushed_loop (Inr (Push d) # r) prev = last_pushed_loop r d"
| "last_pushed_loop (Inr (Op opcode) # r) prev =
     (if opcode \<le> OP_16 then last_pushed_loop r prev else None)"
| "last_pushed_loop (Inl e # r) prev = None"

definition last_pushed_data :: "script \<Rightarrow> bytes option" where
  "last_pushed_data s = last_pushed_loop (instructions s) []"

definition first_byte :: "bytes \<Rightarrow> u8 option" where
  "first_byte bs = (case bs of [] \<Rightarrow> None | b # _ \<Rightarrow> Some b)"

definition is_unspendable :: "script \<Rightarrow> bool" where
  "is_unspendable s \<longleftrightarrow> length s > MAX_SCRIPT_SIZE \<or> first_byte s = Some OP_RETURN"

definition has_valid_ops :: "script \<Rightarrow> bool" where
  "has_valid_ops s =
     list_all (\<lambda>i. case i of
         Inr (Op opc) \<Rightarrow> opc \<le> OP_NOP10
       | Inr (Push data) \<Rightarrow> length data \<le> MAX_SCRIPT_ELEMENT_SIZE
       | Inl e \<Rightarrow> False) (instructions s)"

definition is_p2sh :: "script \<Rightarrow> bool" where
  "is_p2sh s \<longleftrightarrow> length s = 23 \<and> s ! 0 = OP_HASH160 \<and> s ! 1 = 0x14 \<and> s ! 22 = OP_EQUAL"

definition is_p2wsh :: "script \<Rightarrow> bool" where
  "is_p2wsh s \<longleftrightarrow> length s = 34 \<and> s ! 0 = OP_0 \<and> s ! 1 = 0x20"

definition witness_program :: "script \<Rightarrow> (u8 \<times> bytes) option" where
  "witness_program s =
     (if length s < 4 \<or> length s > 42 then None
      else case decode_op_n (s ! 0) of
        None \<Rightarrow> None
      | Some v \<Rightarrow> if unat (s ! 1) + 2 \<noteq> length s then None else Some (v, drop 2 s))"

text \<open>\<open>GetOp\<close> failures do not stop this walk: the cursor stays after the bytes already read.\<close>

definition trailing_header :: "bytes \<Rightarrow> nat \<Rightarrow> u8 \<Rightarrow> nat \<times> nat option" where
  "trailing_header bs pc opcode =
     (if opcode < OP_PUSHDATA1 then (pc, Some (unat opcode))
      else if opcode = OP_PUSHDATA1 then
        (if pc < length bs then (pc + 1, Some (unat (bs ! pc))) else (pc, None))
      else if opcode = OP_PUSHDATA2 then
        (case get_range bs pc (pc + 2) of
           Some b \<Rightarrow> (pc + 2, Some (unat (u16_of_le b))) | None \<Rightarrow> (pc, None))
      else
        (case get_range bs pc (pc + 4) of
           Some b \<Rightarrow> (pc + 4, Some (unat (u32_of_le b))) | None \<Rightarrow> (pc, None)))"

lemma trailing_header_ge: "trailing_header bs pc opcode = (pc', l) \<Longrightarrow> pc \<le> pc'"
  by (auto simp: trailing_header_def split: if_splits option.splits)

function trailing_loop :: "bytes \<Rightarrow> nat \<Rightarrow> bytes \<Rightarrow> bytes" where
  "trailing_loop bs pc data =
     (if pc \<ge> length bs then data
      else
        let opcode = bs ! pc
        in if opcode \<le> OP_PUSHDATA4 then
             (case trailing_header bs (pc + 1) opcode of
                (pc', None) \<Rightarrow> trailing_loop bs pc' []
              | (pc', Some len) \<Rightarrow>
                  if length bs - pc' < len then trailing_loop bs pc' []
                  else trailing_loop bs (pc' + len) (take len (drop pc' bs)))
           else trailing_loop bs (pc + 1) [])"
  by auto
termination
  by (relation "measure (\<lambda>(bs, pc, data). length bs - pc)")
    (auto dest!: trailing_header_ge [OF sym])

declare trailing_loop.simps [simp del]

definition trailing_push_data :: "script \<Rightarrow> bytes" where
  "trailing_push_data s = trailing_loop s 0 []"

definition p2sh_sig_ops :: "script \<Rightarrow> nat" where
  "p2sh_sig_ops sig = (if \<not> is_push_only sig then 0 else sig_ops (trailing_push_data sig) True)"

section \<open>Script encodings\<close>

text \<open>The \<open>while magnitude > 0\<close> loop, and the sign byte.\<close>

fun magnitude_bytes :: "nat \<Rightarrow> bytes" where
  "magnitude_bytes m = (if m > 0 then word_of_nat (m mod 256) # magnitude_bytes (m div 256) else [])"

declare magnitude_bytes.simps [simp del]

definition encode_script_num :: "int \<Rightarrow> bytes" where
  "encode_script_num v =
     (if v = 0 then []
      else
        let negative = v < 0; bs = magnitude_bytes (nat \<bar>v\<bar>)
        in if bs \<noteq> [] \<and> last bs AND 0x80 \<noteq> 0 then bs @ [if negative then 0x80 else 0]
           else if negative \<and> bs \<noteq> [] then butlast bs @ [last bs OR 0x80]
           else bs)"

definition push_slice :: "bytes \<Rightarrow> bytes" where
  "push_slice data =
     (let len = length data in
      if len = 0 then [OP_0]
      else if len \<le> unat MAX_DIRECT_PUSH then [word_of_nat len]
      else if len \<le> 0xff then [OP_PUSHDATA1, word_of_nat len]
      else if len \<le> 0xffff then OP_PUSHDATA2 # u16_le (word_of_nat len)
      else OP_PUSHDATA4 # u32_le (word_of_nat len)) @ data"

definition push_int :: "int \<Rightarrow> bytes" where
  "push_int v =
     (if v = - 1 then [OP_1NEGATE]
      else if v = 0 then [OP_0]
      else if 1 \<le> v \<and> v \<le> 16 then [OP_1 - 1 + word_of_int v]
      else push_slice (encode_script_num v))"

section \<open>Rendering and templates\<close>

text \<open>\<open>interpreter::is_valid_signature_encoding\<close>: strict DER and the hash type byte.\<close>

definition is_valid_signature_encoding :: "bytes \<Rightarrow> bool" where
  "is_valid_signature_encoding sig =
     (if length sig < 9 \<or> length sig > 73 then False
      else if sig ! 0 \<noteq> 0x30 \<or> unat (sig ! 1) \<noteq> length sig - 3 then False
      else
        let len_r = unat (sig ! 3)
        in if 5 + len_r \<ge> length sig then False
           else
             let len_s = unat (sig ! (5 + len_r))
             in if len_r + len_s + 7 \<noteq> length sig then False
                else if sig ! 2 \<noteq> 0x02 \<or> len_r = 0 \<or> sig ! 4 AND 0x80 \<noteq> 0 then False
                else if len_r > 1 \<and> sig ! 4 = 0x00 \<and> sig ! 5 AND 0x80 = 0 then False
                else if sig ! (len_r + 4) \<noteq> 0x02 \<or> len_s = 0 \<or> sig ! (len_r + 6) AND 0x80 \<noteq> 0 then False
                else if len_s > 1 \<and> sig ! (len_r + 6) = 0x00 \<and> sig ! (len_r + 7) AND 0x80 = 0 then False
                else True)"

definition sighash_suffix :: "bytes \<Rightarrow> string option" where
  "sighash_suffix data =
     (if \<not> is_valid_signature_encoding data \<or> data = [] then None
      else
        let t = last data
        in if t AND NOT 0x83 \<noteq> 0 then None
           else
             let base = t AND 0x1f
             in if base = 1 then Some (if t AND 0x80 = 0x80 then ''[ALL|ANYONECANPAY]'' else ''[ALL]'')
                else if base = 2 then Some (if t AND 0x80 = 0x80 then ''[NONE|ANYONECANPAY]'' else ''[NONE]'')
                else if base = 3 then Some (if t AND 0x80 = 0x80 then ''[SINGLE|ANYONECANPAY]'' else ''[SINGLE]'')
                else None)"

text \<open>Sign-magnitude, little-endian; reached with at most four bytes, so the \<open>i64\<close> shifts are exact.\<close>

definition asm_script_num :: "bytes \<Rightarrow> int" where
  "asm_script_num data =
     (let v = fold (\<lambda>(i, b) v. v OR push_bit (8 * i) (int (unat b))) (enumerate 0 data) (0 :: int)
      in if data \<noteq> [] \<and> last data AND 0x80 \<noteq> 0
         then - (v AND NOT (push_bit (8 * (length data - 1)) 0x80)) else v)"

definition opcode_names :: "(u8 \<times> string) list" where
  "opcode_names = [
   (0x50, ''OP_RESERVED''), (0x61, ''OP_NOP''), (0x62, ''OP_VER''),
   (0x63, ''OP_IF''), (0x64, ''OP_NOTIF''), (0x65, ''OP_VERIF''),
   (0x66, ''OP_VERNOTIF''), (0x67, ''OP_ELSE''), (0x68, ''OP_ENDIF''),
   (0x69, ''OP_VERIFY''), (0x6a, ''OP_RETURN''), (0x6b, ''OP_TOALTSTACK''),
   (0x6c, ''OP_FROMALTSTACK''), (0x6d, ''OP_2DROP''), (0x6e, ''OP_2DUP''),
   (0x6f, ''OP_3DUP''), (0x70, ''OP_2OVER''), (0x71, ''OP_2ROT''),
   (0x72, ''OP_2SWAP''), (0x73, ''OP_IFDUP''), (0x74, ''OP_DEPTH''),
   (0x75, ''OP_DROP''), (0x76, ''OP_DUP''), (0x77, ''OP_NIP''),
   (0x78, ''OP_OVER''), (0x79, ''OP_PICK''), (0x7a, ''OP_ROLL''),
   (0x7b, ''OP_ROT''), (0x7c, ''OP_SWAP''), (0x7d, ''OP_TUCK''),
   (0x7e, ''OP_CAT''), (0x7f, ''OP_SUBSTR''), (0x80, ''OP_LEFT''),
   (0x81, ''OP_RIGHT''), (0x82, ''OP_SIZE''), (0x83, ''OP_INVERT''),
   (0x84, ''OP_AND''), (0x85, ''OP_OR''), (0x86, ''OP_XOR''),
   (0x87, ''OP_EQUAL''), (0x88, ''OP_EQUALVERIFY''), (0x89, ''OP_RESERVED1''),
   (0x8a, ''OP_RESERVED2''), (0x8b, ''OP_1ADD''), (0x8c, ''OP_1SUB''),
   (0x8d, ''OP_2MUL''), (0x8e, ''OP_2DIV''), (0x8f, ''OP_NEGATE''),
   (0x90, ''OP_ABS''), (0x91, ''OP_NOT''), (0x92, ''OP_0NOTEQUAL''),
   (0x93, ''OP_ADD''), (0x94, ''OP_SUB''), (0x95, ''OP_MUL''),
   (0x96, ''OP_DIV''), (0x97, ''OP_MOD''), (0x98, ''OP_LSHIFT''),
   (0x99, ''OP_RSHIFT''), (0x9a, ''OP_BOOLAND''), (0x9b, ''OP_BOOLOR''),
   (0x9c, ''OP_NUMEQUAL''), (0x9d, ''OP_NUMEQUALVERIFY''), (0x9e, ''OP_NUMNOTEQUAL''),
   (0x9f, ''OP_LESSTHAN''), (0xa0, ''OP_GREATERTHAN''), (0xa1, ''OP_LESSTHANOREQUAL''),
   (0xa2, ''OP_GREATERTHANOREQUAL''), (0xa3, ''OP_MIN''), (0xa4, ''OP_MAX''),
   (0xa5, ''OP_WITHIN''), (0xa6, ''OP_RIPEMD160''), (0xa7, ''OP_SHA1''),
   (0xa8, ''OP_SHA256''), (0xa9, ''OP_HASH160''), (0xaa, ''OP_HASH256''),
   (0xab, ''OP_CODESEPARATOR''), (0xac, ''OP_CHECKSIG''), (0xad, ''OP_CHECKSIGVERIFY''),
   (0xae, ''OP_CHECKMULTISIG''), (0xaf, ''OP_CHECKMULTISIGVERIFY''), (0xb0, ''OP_NOP1''),
   (0xb1, ''OP_CHECKLOCKTIMEVERIFY''), (0xb2, ''OP_CHECKSEQUENCEVERIFY''), (0xb3, ''OP_NOP4''),
   (0xb4, ''OP_NOP5''), (0xb5, ''OP_NOP6''), (0xb6, ''OP_NOP7''),
   (0xb7, ''OP_NOP8''), (0xb8, ''OP_NOP9''), (0xb9, ''OP_NOP10''),
   (0xba, ''OP_CHECKSIGADD''), (0xff, ''OP_INVALIDOPCODE'')]"

definition decimal :: "nat \<Rightarrow> string" where
  "decimal n = (if n < 10 then [char_of (48 + n)] else [char_of (48 + n div 10), char_of (48 + n mod 10)])"

definition opcode_name :: "u8 \<Rightarrow> string" where
  "opcode_name opcode =
     (if opcode = OP_1NEGATE then ''-1''
      else if opcode = OP_RESERVED then ''OP_RESERVED''
      else if OP_1 \<le> opcode \<and> opcode \<le> OP_16 then decimal (unat (opcode - OP_1) + 1)
      else case map_of opcode_names opcode of Some n \<Rightarrow> n | None \<Rightarrow> ''OP_UNKNOWN'')"

text \<open>\<open>i64::to_string\<close> and \<open>{byte:02x}\<close>.\<close>

fun nat_string :: "nat \<Rightarrow> string" where
  "nat_string n = (if n < 10 then [char_of (48 + n)] else nat_string (n div 10) @ [char_of (48 + n mod 10)])"

declare nat_string.simps [simp del]

definition int_string :: "int \<Rightarrow> string" where
  "int_string v = (if v < 0 then CHR ''-'' # nat_string (nat (- v)) else nat_string (nat v))"

definition hex_string :: "bytes \<Rightarrow> string" where
  "hex_string bs = map (\<lambda>b. char_of (unat b)) (hex_encode bs)"

definition asm_sep :: "string \<Rightarrow> string" where
  "asm_sep out = (if out = [] then [] else '' '')"

fun asm_loop :: "bool \<Rightarrow> (malformed_script + instruction) list \<Rightarrow> string \<Rightarrow> string" where
  "asm_loop attempt [] out = out"
| "asm_loop attempt (Inr (Push data) # r) out =
     asm_loop attempt r (out @ asm_sep out @
       (if length data \<le> 4 then int_string (asm_script_num data)
        else case sighash_suffix data of
          Some name \<Rightarrow> if attempt then hex_string (butlast data) @ name else hex_string data
        | None \<Rightarrow> hex_string data))"
| "asm_loop attempt (Inr (Op opcode) # r) out =
     asm_loop attempt r (out @ asm_sep out @ opcode_name opcode)"
| "asm_loop attempt (Inl e # r) out = out @ asm_sep out @ ''[error]''"

definition asm_impl :: "script \<Rightarrow> bool \<Rightarrow> string" where
  "asm_impl s attempt_sighash_decode =
     asm_loop (attempt_sighash_decode \<and> \<not> is_unspendable s) (instructions s) []"

definition asm :: "script \<Rightarrow> string" where "asm s = asm_impl s False"
definition asm_sighash :: "script \<Rightarrow> string" where "asm_sighash s = asm_impl s True"

datatype script_type =
    Nonstandard
  | PubKey bytes
  | PubKeyHash bytes
  | ScriptHash bytes
  | Multisig u8 "bytes list"
  | NullData
  | WitnessProgram u8 bytes
  | Anchor

definition script_type_name :: "script_type \<Rightarrow> string" where
  "script_type_name t =
     (case t of
        Nonstandard \<Rightarrow> ''nonstandard''
      | PubKey _ \<Rightarrow> ''pubkey''
      | PubKeyHash _ \<Rightarrow> ''pubkeyhash''
      | ScriptHash _ \<Rightarrow> ''scripthash''
      | Multisig _ _ \<Rightarrow> ''multisig''
      | NullData \<Rightarrow> ''nulldata''
      | WitnessProgram v p \<Rightarrow>
          (if v = 0 \<and> length p = 20 then ''witness_v0_keyhash''
           else if v = 0 \<and> length p = 32 then ''witness_v0_scripthash''
           else if v = 1 \<and> length p = 32 then ''witness_v1_taproot''
           else ''witness_unknown'')
      | Anchor \<Rightarrow> ''anchor'')"

definition is_valid_pubkey :: "bytes \<Rightarrow> bool" where
  "is_valid_pubkey key =
     (if length key = 33 then key ! 0 = 0x02 \<or> key ! 0 = 0x03
      else if length key = 65 then key ! 0 = 0x04
      else False)"

text \<open>The key loop of the multisig template: every instruction a valid key.\<close>

fun multisig_keys :: "(malformed_script + instruction) list \<Rightarrow> bytes list option" where
  "multisig_keys [] = Some []"
| "multisig_keys (Inr (Push key) # r) =
     (if is_valid_pubkey key then map_option (\<lambda>ks. key # ks) (multisig_keys r) else None)"
| "multisig_keys (_ # r) = None"

definition classify_multisig :: "script \<Rightarrow> script_type option" where
  "classify_multisig s =
     (if length s \<ge> 3 \<and> s ! (length s - 1) = OP_CHECKMULTISIG then
        (case (decode_op_n (s ! 0), decode_op_n (s ! (length s - 2))) of
           (Some m, Some n) \<Rightarrow>
             (case multisig_keys (instructions (take (length s - 3) (drop 1 s))) of
                Some keys \<Rightarrow>
                  if length keys = unat n \<and> m \<ge> 1 \<and> m \<le> n then Some (Multisig m keys) else None
              | None \<Rightarrow> None)
         | _ \<Rightarrow> None)
      else None)"

definition classify_pubkey :: "script \<Rightarrow> script_type option" where
  "classify_pubkey s =
     (if (length s = 35 \<and> s ! 0 = 33) \<or> (length s = 67 \<and> s ! 0 = 65) then
        let key = take (length s - 2) (drop 1 s)
        in if s ! (length s - 1) = OP_CHECKSIG \<and> is_valid_pubkey key then Some (PubKey key) else None
      else None)"

definition is_push_result :: "malformed_script + instruction \<Rightarrow> bool" where
  "is_push_result i = (case i of Inr (Push d) \<Rightarrow> True | _ \<Rightarrow> False)"

definition classify_nulldata :: "script \<Rightarrow> script_type" where
  "classify_nulldata s =
     (if s ! 0 = OP_RETURN \<and> list_all is_push_result (instructions (drop 1 s)) then NullData
      else Nonstandard)"

definition classify_legacy :: "script \<Rightarrow> script_type" where
  "classify_legacy s =
     (if length s = 25 \<and> s ! 0 = 0x76 \<and> s ! 1 = OP_HASH160 \<and> s ! 2 = 0x14 \<and> s ! 23 = 0x88 \<and>
         s ! 24 = OP_CHECKSIG then PubKeyHash (take 20 (drop 3 s))
      else if is_p2sh s then ScriptHash (take 20 (drop 2 s))
      else case classify_pubkey s of
        Some t \<Rightarrow> t
      | None \<Rightarrow> (case classify_multisig s of Some t \<Rightarrow> t | None \<Rightarrow> classify_nulldata s))"

definition classify :: "script \<Rightarrow> script_type" where
  "classify s =
     (if s = [] then Nonstandard
      else if s = [0x51, 0x02, 0x4e, 0x73] then Anchor
      else
        case witness_program s of
          Some (v, program) \<Rightarrow>
            if v \<noteq> 0 \<or> length program = 20 \<or> length program = 32 then WitnessProgram v program
            else classify_legacy s
        | None \<Rightarrow> classify_legacy s)"

section \<open>Verification flags and witness sigops\<close>

type_synonym script_flags = u32

definition FLAG_NONE :: script_flags where "FLAG_NONE = 0"
definition FLAG_P2SH :: script_flags where "FLAG_P2SH = 0x1"
definition FLAG_STRICTENC :: script_flags where "FLAG_STRICTENC = 0x2"
definition FLAG_DERSIG :: script_flags where "FLAG_DERSIG = 0x4"
definition FLAG_LOW_S :: script_flags where "FLAG_LOW_S = 0x8"
definition FLAG_NULLDUMMY :: script_flags where "FLAG_NULLDUMMY = 0x10"
definition FLAG_SIGPUSHONLY :: script_flags where "FLAG_SIGPUSHONLY = 0x20"
definition FLAG_MINIMALDATA :: script_flags where "FLAG_MINIMALDATA = 0x40"
definition FLAG_DISCOURAGE_UPGRADABLE_NOPS :: script_flags where "FLAG_DISCOURAGE_UPGRADABLE_NOPS = 0x80"
definition FLAG_CLEANSTACK :: script_flags where "FLAG_CLEANSTACK = 0x100"
definition FLAG_CHECKLOCKTIMEVERIFY :: script_flags where "FLAG_CHECKLOCKTIMEVERIFY = 0x200"
definition FLAG_CHECKSEQUENCEVERIFY :: script_flags where "FLAG_CHECKSEQUENCEVERIFY = 0x400"
definition FLAG_WITNESS :: script_flags where "FLAG_WITNESS = 0x800"
definition FLAG_DISCOURAGE_UPGRADABLE_WITNESS_PROGRAM :: script_flags where "FLAG_DISCOURAGE_UPGRADABLE_WITNESS_PROGRAM = 0x1000"
definition FLAG_MINIMALIF :: script_flags where "FLAG_MINIMALIF = 0x2000"
definition FLAG_NULLFAIL :: script_flags where "FLAG_NULLFAIL = 0x4000"
definition FLAG_WITNESS_PUBKEYTYPE :: script_flags where "FLAG_WITNESS_PUBKEYTYPE = 0x8000"
definition FLAG_CONST_SCRIPTCODE :: script_flags where "FLAG_CONST_SCRIPTCODE = 0x10000"
definition FLAG_TAPROOT :: script_flags where "FLAG_TAPROOT = 0x20000"
definition FLAG_DISCOURAGE_UPGRADABLE_TAPROOT_VERSION :: script_flags where "FLAG_DISCOURAGE_UPGRADABLE_TAPROOT_VERSION = 0x40000"
definition FLAG_DISCOURAGE_OP_SUCCESS :: script_flags where "FLAG_DISCOURAGE_OP_SUCCESS = 0x80000"
definition FLAG_DISCOURAGE_UPGRADABLE_PUBKEYTYPE :: script_flags where "FLAG_DISCOURAGE_UPGRADABLE_PUBKEYTYPE = 0x100000"

definition flag_set :: "script_flags \<Rightarrow> script_flags \<Rightarrow> bool" where
  "flag_set flags other \<longleftrightarrow> flags AND other = other"

definition flag_union :: "script_flags \<Rightarrow> script_flags \<Rightarrow> script_flags" where
  "flag_union flags other = flags OR other"

definition WITNESS_V0_KEYHASH_SIZE :: nat where "WITNESS_V0_KEYHASH_SIZE = 20"
definition WITNESS_V0_SCRIPTHASH_SIZE :: nat where "WITNESS_V0_SCRIPTHASH_SIZE = 32"

definition witness_sig_ops :: "u8 \<Rightarrow> bytes \<Rightarrow> witness \<Rightarrow> nat" where
  "witness_sig_ops v program w =
     (if v \<noteq> 0 then 0
      else if length program = WITNESS_V0_KEYHASH_SIZE then 1
      else if length program = WITNESS_V0_SCRIPTHASH_SIZE \<and> w \<noteq> [] then sig_ops (last w) True
      else 0)"

definition count_witness_sig_ops :: "script \<Rightarrow> script \<Rightarrow> witness \<Rightarrow> script_flags \<Rightarrow> nat" where
  "count_witness_sig_ops sig spk w flags =
     (if \<not> flag_set flags FLAG_WITNESS then 0
      else case witness_program spk of
        Some (v, program) \<Rightarrow> witness_sig_ops v program w
      | None \<Rightarrow>
          if is_p2sh spk \<and> is_push_only sig then
            (case witness_program (trailing_push_data sig) of
               Some (v, program) \<Rightarrow> witness_sig_ops v program w
             | None \<Rightarrow> 0)
          else 0)"

section \<open>Lengths of pushes\<close>

lemma push_length_val: "length bs \<le> 4 \<Longrightarrow> unat (push_length bs) = le_val bs"
proof (induction bs rule: rev_induct)
  case (snoc b bs)
  let ?acc = "push_length bs" and ?hi = "push_bit (8 * length bs) (ucast b) :: u32"
  have len: "length bs \<le> 3" using snoc.prems by simp
  have acc: "unat ?acc = le_val bs" using snoc by simp
  have lt: "le_val bs < 2 ^ (8 * length bs)" using le_val_bound [of bs] by (simp add: power_mult)
  have "unat (ucast b :: u32) = unat b" by (rule unat_ucast_up) simp
  moreover have "unat b * 2 ^ (8 * length bs) < 2 ^ 32"
  proof -
    have "unat b * 2 ^ (8 * length bs) < 2 ^ 8 * 2 ^ (8 * length bs)" by simp
    also have "\<dots> = 2 ^ (8 + 8 * length bs)" by (rule power_add [symmetric])
    also have "\<dots> \<le> 2 ^ 32" by (rule power_increasing) (use len in simp_all)
    finally show ?thesis .
  qed
  ultimately have hi: "unat ?hi = unat b * 2 ^ (8 * length bs)"
    unfolding unsigned_push_bit_eq by (simp add: push_bit_eq_mult take_bit_nat_eq_self)
  have "?acc AND ?hi = 0"
  proof (rule bit_eqI)
    fix n
    have "bit ?acc n \<Longrightarrow> n < 8 * length bs" by (rule word_bit_less) (use lt acc in simp_all)
    then show "bit (?acc AND ?hi) n \<longleftrightarrow> bit (0 :: u32) n" by (auto simp: bit_and_iff bit_push_bit_iff)
  qed
  then have "unat (?acc OR ?hi) = le_val bs + unat b * 2 ^ (8 * length bs)"
    by (simp only: unat_or_disjoint acc hi)
  moreover have "push_length (bs @ [b]) = ?acc OR ?hi"
    by (simp add: push_length_def enumerate_append_eq)
  ultimately show ?case by (simp add: power_mult le_val_append)
qed (simp add: push_length_def)

section \<open>Pushes parse back\<close>

lemma get_range_app:
  "length pre = a \<Longrightarrow> get_range (pre @ data @ rest) a (a + length data) = Some data"
  by (simp add: get_range_def)

lemma unat_u8_of_nat: "n < 256 \<Longrightarrow> unat (word_of_nat n :: u8) = n"
  by (simp add: unat_of_nat_u8)

lemma length_push_slice: "length data < length (push_slice data)"
  by (simp add: push_slice_def Let_def)

lemma iter_next_push:
  assumes "length data < 2 ^ 32"
  shows "iter_next \<lparr>it_bytes = pre @ push_slice data @ rest, it_position = length pre, it_finished = False\<rparr> =
    (Some (Inr (Push data)),
     \<lparr>it_bytes = pre @ push_slice data @ rest, it_position = length (pre @ push_slice data),
      it_finished = False\<rparr>)"
proof -
  let ?n = "length data"
  have fin: "length (pre @ hdr) = k \<Longrightarrow>
      get_range (pre @ (hdr @ data) @ rest) k (k + ?n) = Some data" for hdr k
    using get_range_app [of "pre @ hdr" k data rest] by simp
  have lenb: "get_range (pre @ ((opc # lb) @ data) @ rest) (length pre + 1) (length pre + 1 + length lb) = Some lb"
    for opc lb
    using get_range_app [of "pre @ [opc]" "length pre + 1" lb "data @ rest"] by simp
  consider (direct) "?n \<le> 75" | (one) "75 < ?n" "?n \<le> 255" | (two) "255 < ?n" "?n \<le> 65535"
    | (four) "65535 < ?n" by linarith
  then show ?thesis
  proof cases
    case direct
    then have p: "push_slice data = [word_of_nat ?n] @ data" by (auto simp: push_slice_def Let_def)
    have u: "unat (word_of_nat ?n :: u8) = ?n" using direct by (simp add: unat_u8_of_nat)
    then have "word_of_nat ?n \<le> (0x4b :: u8)" using direct by (simp add: word_le_nat_alt)
    with u show ?thesis
      using fin [of "[word_of_nat ?n]" "Suc (length pre)"]
      by (simp add: p iter_next_def Let_def nth_append)
  next
    case one
    then have p: "push_slice data = (0x4c # [word_of_nat ?n]) @ data"
      by (auto simp: push_slice_def Let_def)
    have "unat (push_length [word_of_nat ?n]) = ?n"
      using one by (simp add: push_length_val unat_u8_of_nat)
    then show ?thesis
      using fin [of "0x4c # [word_of_nat ?n]" "length pre + 2"] lenb [of "0x4c" "[word_of_nat ?n]"]
      by (simp add: p iter_next_def Let_def nth_append)
  next
    case two
    then have p: "push_slice data = (0x4d # u16_le (word_of_nat ?n)) @ data"
      by (auto simp: push_slice_def Let_def)
    have "unat (push_length (u16_le (word_of_nat ?n))) = ?n"
      using two by (simp add: push_length_val u16_le_def le_val_small unat_of_nat take_bit_nat_eq_self)
    then show ?thesis
      using fin [of "0x4d # u16_le (word_of_nat ?n)" "Suc (Suc (Suc (length pre)))"]
        lenb [of "0x4d" "u16_le (word_of_nat ?n)"]
      by (simp add: p iter_next_def Let_def nth_append)
  next
    case four
    then have p: "push_slice data = (0x4e # u32_le (word_of_nat ?n)) @ data"
      by (auto simp: push_slice_def Let_def)
    have "unat (push_length (u32_le (word_of_nat ?n))) = ?n"
      using assms by (simp add: push_length_val u32_le_def le_val_small unat_of_nat take_bit_nat_eq_self)
    then show ?thesis
      using fin [of "0x4e # u32_le (word_of_nat ?n)" "5 + length pre"]
        lenb [of "0x4e" "u32_le (word_of_nat ?n)"]
      by (simp add: p iter_next_def Let_def nth_append)
  qed
qed

lemma iter_list_end: "iter_list \<lparr>it_bytes = bs, it_position = length bs, it_finished = False\<rparr> = []"
  by (subst iter_list.simps) (simp add: iter_next_def Let_def)

lemma iter_list_pushes:
  "\<forall>d \<in> set ds. length d < 2 ^ 32 \<Longrightarrow>
   iter_list \<lparr>it_bytes = pre @ concat (map push_slice ds), it_position = length pre, it_finished = False\<rparr> =
   map (\<lambda>d. Inr (Push d)) ds"
proof (induction ds arbitrary: pre)
  case (Cons d ds)
  have "iter_list \<lparr>it_bytes = (pre @ push_slice d) @ concat (map push_slice ds),
      it_position = length (pre @ push_slice d), it_finished = False\<rparr> = map (\<lambda>d. Inr (Push d)) ds"
    using Cons.IH [of "pre @ push_slice d"] Cons.prems by simp
  then show ?case
    using iter_next_push [of d pre "concat (map push_slice ds)"] Cons.prems
    by (subst iter_list.simps) simp
qed (simp add: iter_list_end)

section \<open>Bounds on signature operations\<close>

lemma decode_op_n_le: "decode_op_n b = Some n \<Longrightarrow> unat n \<le> 16"
proof -
  assume "decode_op_n b = Some n"
  then consider "n = 0" | "0x51 \<le> b" "b \<le> 0x60" "n = b - 0x50"
    by (auto simp: decode_op_n_def split: if_splits)
  then show ?thesis
  proof cases
    case 2
    then have "unat b \<le> 0x60" "unat n = unat b - 0x50"
      by (simp_all add: word_le_nat_alt unat_sub_if')
    then show ?thesis by simp
  qed simp
qed

lemma op_count_le:
  "(case Option.bind l decode_op_n of Some n \<Rightarrow> unat n | None \<Rightarrow> MAX_PUBKEYS_PER_MULTISIG) \<le> 20"
  by (auto simp: MAX_PUBKEYS_PER_MULTISIG_def split: option.splits Option.bind_splits
      dest!: decode_op_n_le)

lemma sig_ops_loop_accurate_le:
  "c \<le> c' \<Longrightarrow> sig_ops_loop True r l c \<le> sig_ops_loop False r l' c'"
proof (induction r arbitrary: l l' c c')
  case (Cons i r)
  show ?case
  proof (cases i)
    case (Inr j)
    show ?thesis
    proof (cases j)
      case (Op opc)
      have "(if opc = OP_CHECKSIG \<or> opc = OP_CHECKSIGVERIFY then c + 1
          else if opc = OP_CHECKMULTISIG \<or> opc = OP_CHECKMULTISIGVERIFY then
            c + (case Option.bind l decode_op_n of Some n \<Rightarrow> unat n | None \<Rightarrow> MAX_PUBKEYS_PER_MULTISIG)
          else c) \<le>
        (if opc = OP_CHECKSIG \<or> opc = OP_CHECKSIGVERIFY then c' + 1
          else if opc = OP_CHECKMULTISIG \<or> opc = OP_CHECKMULTISIGVERIFY then c' + MAX_PUBKEYS_PER_MULTISIG
          else c')"
        using op_count_le [of l] Cons.prems by (simp add: MAX_PUBKEYS_PER_MULTISIG_def)
      from Cons.IH [OF this, of "Some opc" "Some opc"] show ?thesis
        by (simp only: Inr Op sig_ops_loop.simps if_True if_False)
    qed (use Cons Inr in simp)
  qed (use Cons in simp)
qed simp

definition parsed :: "(malformed_script + instruction) list \<Rightarrow> nat" where
  "parsed r = length (filter is_ok r)"

lemma sig_ops_loop_bound: "sig_ops_loop False r l c \<le> c + 20 * parsed r"
proof (induction r arbitrary: l c)
  case (Cons i r)
  show ?case
  proof (cases i)
    case (Inr j)
    then show ?thesis
    proof (cases j)
      case (Op opc)
      show ?thesis
        using Cons [of "Some opc" "c + 20"] Cons [of "Some opc" "c + 1"] Cons [of "Some opc" c]
        by (simp add: Inr Op parsed_def MAX_PUBKEYS_PER_MULTISIG_def)
    qed (use Cons [of None c] in \<open>simp add: parsed_def\<close>)
  qed (simp add: parsed_def)
qed simp

lemma iter_next_bytes: "iter_next it = (r, it') \<Longrightarrow> it_bytes it' = it_bytes it"
  by (auto simp: iter_next_def Let_def split: if_splits option.splits)

lemma iter_next_ok:
  "iter_next it = (Some (Inr i), it') \<Longrightarrow>
   it_position it < it_position it' \<and> it_position it' \<le> length (it_bytes it)"
  by (auto simp: iter_next_def Let_def split: if_splits option.splits dest!: get_range_Some)

lemma iter_next_err: "iter_next it = (Some (Inl e), it') \<Longrightarrow> it_finished it'"
  by (auto simp: iter_next_def Let_def split: if_splits option.splits)

lemma iter_list_finished: "it_finished it \<Longrightarrow> iter_list it = []"
  by (subst iter_list.simps) (simp add: iter_next_def)

lemma parsed_iter_list: "parsed (iter_list it) \<le> length (it_bytes it) - it_position it"
proof (induction it rule: iter_list.induct)
  case IH: (1 it)
  show ?case
  proof (cases "iter_next it")
    case (Pair r it')
    consider "r = None" | e where "r = Some (Inl e)" | i where "r = Some (Inr i)"
      by (metis option.exhaust sum.exhaust)
    then show ?thesis
    proof cases
      case 1
      with Pair show ?thesis by (subst iter_list.simps) (simp add: parsed_def)
    next
      case 2
      with Pair have "it_finished it'" by (simp add: iter_next_err)
      with Pair 2 show ?thesis by (subst iter_list.simps) (simp add: iter_list_finished parsed_def)
    next
      case 3
      have "parsed (iter_list it') \<le> length (it_bytes it') - it_position it'"
        using IH Pair 3 by simp
      with Pair 3 iter_next_ok [of it i it'] iter_next_bytes [of it _ it'] show ?thesis
        by (subst iter_list.simps) (simp add: parsed_def, arith)
    qed
  qed
qed

section \<open>The trailing push of a push-only script\<close>

fun last_push :: "(malformed_script + instruction) list \<Rightarrow> bytes \<Rightarrow> bytes" where
  "last_push [] d = d"
| "last_push (Inr (Push d') # r) d = last_push r d'"
| "last_push (Inr (Op opc) # r) d = last_push r []"
| "last_push (Inl e # r) d = last_push r d"

lemma le_val_u16: "length b = 2 \<Longrightarrow> unat (u16_of_le b) = le_val b"
  using le_val_bound [of b] by (simp add: u16_of_le_def unat_of_nat take_bit_nat_eq_self)

lemma le_val_u32: "length b = 4 \<Longrightarrow> unat (u32_of_le b) = le_val b"
  using le_val_bound [of b] by (simp add: u32_of_le_def unat_of_nat take_bit_nat_eq_self)

lemma length_get_range: "get_range bs a b = Some d \<Longrightarrow> length d = b - a"
  by (auto simp: get_range_def split: if_splits)

lemma pushdata_cases: "\<not> b \<le> 0x4b \<Longrightarrow> b \<le> (0x4e :: u8) \<Longrightarrow> b = 0x4c \<or> b = 0x4d \<or> b = 0x4e"
  unfolding word_le_nat_alt word_unat_eq_iff by auto

lemma trailing_header_len:
  assumes "opc \<le> OP_PUSHDATA4" and "\<not> opc \<le> MAX_DIRECT_PUSH"
    and "w = (if opc = OP_PUSHDATA1 then 1 else if opc = OP_PUSHDATA2 then 2 else 4)"
    and "get_range bs pc (pc + w) = Some lb"
  shows "trailing_header bs pc opc = (pc + w, Some (unat (push_length lb)))"
proof -
  have l: "length lb = w" using length_get_range [OF assms(4)] by simp
  then have "length lb \<le> 4" using assms(3) by (simp split: if_splits)
  note v = push_length_val [OF this]
  consider "opc = 0x4c" | "opc = 0x4d" | "opc = 0x4e"
    using pushdata_cases assms(1,2) by auto
  then show ?thesis
  proof cases
    case 1
    then have "pc < length bs" "lb = [bs ! pc]"
      using assms(3,4) by (auto simp: get_range_def take_Suc_conv_app_nth split: if_splits)
    with 1 assms(3) v show ?thesis by (simp add: trailing_header_def)
  next
    case 2
    with assms(3,4) v le_val_u16 [of lb] l show ?thesis by (simp add: trailing_header_def)
  next
    case 3
    with assms(3,4) v le_val_u32 [of lb] l show ?thesis by (simp add: trailing_header_def)
  qed
qed

lemma trailing_loop_step:
  assumes "iter_next \<lparr>it_bytes = bs, it_position = pc, it_finished = False\<rparr> = (Some (Inr i), it')"
  shows "trailing_loop bs pc d =
    trailing_loop bs (it_position it') (case i of Push d' \<Rightarrow> d' | Op opc \<Rightarrow> [])"
    and "it' = \<lparr>it_bytes = bs, it_position = it_position it', it_finished = False\<rparr>"
proof -
  show "it' = \<lparr>it_bytes = bs, it_position = it_position it', it_finished = False\<rparr>"
    using assms by (auto simp: iter_next_def Let_def split: if_splits option.splits)
  have pc: "pc < length bs" using assms by (auto simp: iter_next_def Let_def split: if_splits)
  let ?opc = "bs ! pc"
  show "trailing_loop bs pc d =
    trailing_loop bs (it_position it') (case i of Push d' \<Rightarrow> d' | Op opc \<Rightarrow> [])"
  proof (cases "?opc \<le> 0x4b")
    case True
    then have "?opc < 0x4c" "?opc \<le> 0x4e" by (simp_all add: word_less_nat_alt word_le_nat_alt)
    with True pc assms show ?thesis
      by (subst trailing_loop.simps)
        (auto simp: iter_next_def Let_def trailing_header_def get_range_def split: if_splits)
  next
    case False
    show ?thesis
    proof (cases "?opc \<le> 0x4e")
      case True
      define w :: nat where "w = (if ?opc = OP_PUSHDATA1 then 1 else if ?opc = OP_PUSHDATA2 then 2 else 4)"
      obtain lb where lb: "get_range bs (pc + 1) (pc + 1 + w) = Some lb"
        using assms False pushdata_cases [OF False True] pc
        by (auto simp: iter_next_def Let_def w_def split: if_splits option.splits)
      have h: "trailing_header bs (pc + 1) ?opc = (pc + 1 + w, Some (unat (push_length lb)))"
        using True False lb by (intro trailing_header_len) (simp_all add: w_def)
      from assms lb False True pushdata_cases [OF False True] pc h show ?thesis
        by (subst trailing_loop.simps)
          (auto simp: iter_next_def Let_def w_def get_range_def split: if_splits option.splits)
    next
      case gt: False
      then have "?opc \<noteq> 0x4c" "?opc \<noteq> 0x4d" "?opc \<noteq> 0x4e" by (auto simp: word_le_nat_alt)
      with gt False pc assms show ?thesis
        by (subst trailing_loop.simps) (auto simp: iter_next_def Let_def split: if_splits)
    qed
  qed
qed

lemma trailing_loop_last_push:
  "it_finished it = False \<Longrightarrow> list_all is_ok (iter_list it) \<Longrightarrow>
   trailing_loop (it_bytes it) (it_position it) d = last_push (iter_list it) d"
proof (induction it arbitrary: d rule: iter_list.induct)
  case IH: (1 it)
  have it: "it = \<lparr>it_bytes = it_bytes it, it_position = it_position it, it_finished = False\<rparr>"
    using IH.prems(1) by simp
  show ?case
  proof (cases "iter_next it")
    case (Pair r it')
    consider (none) "r = None" | (err) e where "r = Some (Inl e)" | (ok) i where "r = Some (Inr i)"
      by (metis option.exhaust sum.exhaust)
    then show ?thesis
    proof cases
      case none
      with Pair IH.prems(1) have "it_position it \<ge> length (it_bytes it)"
        by (auto simp: iter_next_def Let_def split: if_splits option.splits)
      with Pair none show ?thesis
        by (subst iter_list.simps, subst trailing_loop.simps) simp
    next
      case err
      with Pair have "iter_list it = Inl e # iter_list it'" by (subst iter_list.simps) simp
      with IH.prems(2) show ?thesis by simp
    next
      case ok
      have n: "iter_next \<lparr>it_bytes = it_bytes it, it_position = it_position it, it_finished = False\<rparr> =
          (Some (Inr i), it')"
        using Pair ok it by simp
      have l: "iter_list it = Inr i # iter_list it'" using Pair ok by (subst iter_list.simps) simp
      have it': "it_finished it' = False" "it_bytes it' = it_bytes it"
        using trailing_loop_step(2) [OF n] by (metis instructions_iter.select_convs)+
      have "trailing_loop (it_bytes it) (it_position it') d' = last_push (iter_list it') d'" for d'
        using IH.IH Pair ok it' IH.prems(2) l by simp
      with trailing_loop_step(1) [OF n, of d] l show ?thesis by (cases i) simp_all
    qed
  qed
qed

section \<open>Strict DER\<close>

text \<open>A positive, minimally encoded DER integer.\<close>

definition der_integer :: "bytes \<Rightarrow> bool" where
  "der_integer r \<longleftrightarrow> r \<noteq> [] \<and> r ! 0 AND 0x80 = 0 \<and>
     (length r > 1 \<longrightarrow> r ! 0 = 0 \<longrightarrow> r ! 1 AND 0x80 \<noteq> 0)"

definition der_signature :: "bytes \<Rightarrow> bytes \<Rightarrow> u8 \<Rightarrow> bytes" where
  "der_signature r s hash_type =
     [0x30, word_of_nat (length r + length s + 4), 0x02, word_of_nat (length r)] @ r @
     [0x02, word_of_nat (length s)] @ s @ [hash_type]"

lemma der_valid:
  assumes "der_integer r" "der_integer s" "length r + length s \<le> 66"
  shows "is_valid_signature_encoding (der_signature r s h)"
proof -
  let ?sig = "der_signature r s h"
  have ne: "r \<noteq> []" "s \<noteq> []" using assms(1,2) by (auto simp: der_integer_def)
  then have l1: "0 < length r" "0 < length s" by simp_all
  have len: "length ?sig = length r + length s + 7" by (simp add: der_signature_def)
  have at: "?sig ! 0 = 0x30" "?sig ! 1 = word_of_nat (length r + length s + 4)" "?sig ! 2 = 0x02"
    "?sig ! 3 = word_of_nat (length r)" "?sig ! 4 = r ! 0"
    "?sig ! (5 + length r) = word_of_nat (length s)" "?sig ! (length r + 4) = 0x02"
    "?sig ! (length r + 6) = s ! 0"
    using l1 by (simp_all add: der_signature_def nth_append nth_Cons')
  have at1: "length r > 1 \<Longrightarrow> ?sig ! 5 = r ! 1" "length s > 1 \<Longrightarrow> ?sig ! (length r + 7) = s ! 1"
    by (simp_all add: der_signature_def nth_append nth_Cons')
  have u: "unat (word_of_nat (length r + length s + 4) :: u8) = length r + length s + 4"
    "unat (word_of_nat (length r) :: u8) = length r" "unat (word_of_nat (length s) :: u8) = length s"
    using assms(3) by (simp_all add: unat_u8_of_nat del: of_nat_add)
  have z: "\<not> length r + length s < Suc (Suc 0)" using l1 by linarith
  show ?thesis
    unfolding is_valid_signature_encoding_def Let_def len at u
    using assms at1 z by (simp add: der_integer_def add.commute)
qed

lemma valid_der:
  assumes "is_valid_signature_encoding sig"
  shows "\<exists>r s h. sig = der_signature r s h \<and> der_integer r \<and> der_integer s \<and> length r + length s \<le> 66"
proof -
  define n where "n = unat (sig ! 3)"
  define m where "m = unat (sig ! (5 + n))"
  from assms have c: "9 \<le> length sig" "length sig \<le> 73" "sig ! 0 = 0x30" "unat (sig ! 1) = length sig - 3"
    "5 + n < length sig" "n + m + 7 = length sig" "sig ! 2 = 0x02" "n \<noteq> 0" "sig ! 4 AND 0x80 = 0"
    "n > 1 \<longrightarrow> sig ! 4 = 0 \<longrightarrow> sig ! 5 AND 0x80 \<noteq> 0" "sig ! (n + 4) = 0x02" "m \<noteq> 0"
    "sig ! (n + 6) AND 0x80 = 0" "m > 1 \<longrightarrow> sig ! (n + 6) = 0 \<longrightarrow> sig ! (n + 7) AND 0x80 \<noteq> 0"
    by (auto simp: is_valid_signature_encoding_def Let_def n_def m_def split: if_splits)
  define r where "r = take n (drop 4 sig)"
  define s where "s = take m (drop (6 + n) sig)"
  have lr: "length r = n" and ls: "length s = m" using c by (simp_all add: r_def s_def)
  have w: "word_of_nat (length r + length s + 4) = sig ! 1" "word_of_nat (length r) = sig ! 3"
    "word_of_nat (length s) = sig ! (5 + n)"
  proof -
    have "length r + length s + 4 = unat (sig ! 1)" using c(4,6) lr ls by simp
    then show "word_of_nat (length r + length s + 4) = sig ! 1" by (simp only: of_nat_unat ucast_id)
    show "word_of_nat (length r) = sig ! 3" using lr by (simp add: n_def)
    show "word_of_nat (length s) = sig ! (5 + n)" using ls by (simp add: m_def)
  qed
  have "sig = der_signature r s (last sig)"
  proof (rule nth_equalityI)
    show "length sig = length (der_signature r s (last sig))"
      using c(6) lr ls by (simp add: der_signature_def)
    fix i
    assume i: "i < length sig"
    have "sig \<noteq> []" "length sig - 1 = n + m + 6" using c(1,6) by auto
    then have last: "last sig = sig ! (n + m + 6)" using last_conv_nth by metis
    consider "i = 0" | "i = 1" | "i = 2" | "i = 3" | "4 \<le> i" "i < 4 + n" | "i = 4 + n" | "i = 5 + n"
      | "6 + n \<le> i" "i < 6 + n + m" | "i = n + m + 6"
      using i c(6) by linarith
    then show "sig ! i = der_signature r s (last sig) ! i"
    proof cases
      case 5
      then obtain j where j: "i = 4 + j" "j < n" by (metis add_less_cancel_left le_Suc_ex)
      then have "der_signature r s (last sig) ! i = r ! j"
        using lr by (simp add: der_signature_def nth_append)
      also have "\<dots> = sig ! i" using j c(6) by (simp add: r_def)
      finally show ?thesis by simp
    next
      case 8
      then obtain j where j: "i = 6 + n + j" "j < m" by (metis add_less_cancel_left le_Suc_ex)
      then have "der_signature r s (last sig) ! i = s ! j"
        using lr ls by (simp add: der_signature_def nth_append)
      also have "\<dots> = sig ! i" using j c(6) by (simp add: s_def add.assoc)
      finally show ?thesis by simp
    qed (use c w lr ls last in \<open>simp_all add: der_signature_def nth_append nth_Cons' add.commute del: of_nat_add\<close>)
  qed
  moreover have "r ! 0 = sig ! 4" "s ! 0 = sig ! (n + 6)" using c by (simp_all add: r_def s_def add.commute)
  moreover have "n > 1 \<Longrightarrow> r ! 1 = sig ! 5" "m > 1 \<Longrightarrow> s ! 1 = sig ! (n + 7)"
    using c by (simp_all add: r_def s_def add.commute)
  ultimately have "sig = der_signature r s (last sig) \<and> der_integer r \<and> der_integer s \<and>
      length r + length s \<le> 66"
    using c lr ls by (auto simp: der_integer_def)
  then show ?thesis by blast
qed

section \<open>Properties\<close>

text \<open>Data pushed with \<open>push_slice\<close> is read back by the instruction iterator, in order and
  complete, for every length the four-byte length field can hold.\<close>

theorem push_slice_parses:
  assumes "\<forall>d \<in> set ds. length d < 2 ^ 32"
  shows "instructions (concat (map push_slice ds)) = map (\<lambda>d. Inr (Push d)) ds"
  using iter_list_pushes [of ds "[]"] assms by (simp add: instructions_def script_iter_def)

text \<open>An instance: an empty push, a direct push and one that needs a length byte.\<close>

lemma push_slice_parses_witness:
  "\<exists>x. length x = 80 \<and>
    instructions (concat (map push_slice [[], [0xab], x])) = map (\<lambda>d. Inr (Push d)) [[], [0xab], x]"
  by (rule exI [of _ "replicate 80 7"])
    (intro conjI push_slice_parses; simp)

text \<open>The accurate signature operation count never exceeds the legacy one, and the legacy count
  is at most twenty for each byte of the script.\<close>

theorem sig_ops_bounds:
  "sig_ops s True \<le> sig_ops s False \<and> sig_ops s False \<le> 20 * length s"
proof
  show "sig_ops s True \<le> sig_ops s False"
    unfolding sig_ops_def by (rule sig_ops_loop_accurate_le) simp
  have "parsed (instructions s) \<le> length s"
    using parsed_iter_list [of "script_iter s"] by (simp add: instructions_def script_iter_def)
  then show "sig_ops s False \<le> 20 * length s"
    using sig_ops_loop_bound [of "instructions s" None 0] unfolding sig_ops_def by linarith
qed

text \<open>On a script that parses without error the byte-level walk of \<open>trailing_push_data\<close> and the
  instruction iterator agree: it is the data of the last instruction when that is a push, and
  empty otherwise.\<close>

theorem trailing_push_is_last:
  assumes "list_all is_ok (instructions s)"
  shows "trailing_push_data s = last_push (instructions s) []"
  using trailing_loop_last_push [of "script_iter s" "[]"] assms
  by (simp add: trailing_push_data_def instructions_def script_iter_def)

text \<open>An instance: a script that ends with a push of one byte.\<close>

lemma trailing_push_is_last_witness:
  "trailing_push_data [OP_1, 0x01, 0x51] = [0x51]"
  by (subst trailing_push_is_last) code_simp+

text \<open>A signature passes the strict DER check exactly when it is the DER encoding of two
  positive, minimally encoded integers followed by one hash type byte, within the size limit.\<close>

theorem strict_der_iff:
  "is_valid_signature_encoding sig \<longleftrightarrow>
    (\<exists>r s h. sig = der_signature r s h \<and> der_integer r \<and> der_integer s \<and> length r + length s \<le> 66)"
  using der_valid valid_der by blast

end
