(* ===== verification/Interp_Base.thy ===== *)
theory Interp_Base
  imports Script
begin

text \<open>
  The script interpreter of \<open>src/crates/avila-consensus/src/interpreter.rs\<close>, first part: the error
  vocabulary, the interface to the signature checker, and the pure helpers of the stack machine
  (\<open>cast_to_bool\<close>, \<open>get_op\<close>, script numbers, the signature and key encoding checks,
  \<open>find_and_delete\<close>).

  The \<open>SignatureChecker\<close> trait is a record of functions: its implementations call secp256k1, and
  every definition that checks a signature takes the record as an argument. \<open>base_checker\<close> is the
  trait's default implementation. \<open>debug_assert!\<close> is not modelled: the release build drops it.
\<close>

section \<open>Opcodes and limits\<close>

definition OP_NOP :: u8 where [simp]: "OP_NOP = 0x61"
definition OP_2DROP :: u8 where [simp]: "OP_2DROP = 0x6d"
definition OP_2DUP :: u8 where [simp]: "OP_2DUP = 0x6e"
definition OP_3DUP :: u8 where [simp]: "OP_3DUP = 0x6f"
definition OP_2OVER :: u8 where [simp]: "OP_2OVER = 0x70"
definition OP_2ROT :: u8 where [simp]: "OP_2ROT = 0x71"
definition OP_2SWAP :: u8 where [simp]: "OP_2SWAP = 0x72"
definition OP_DEPTH :: u8 where [simp]: "OP_DEPTH = 0x74"
definition OP_DROP :: u8 where [simp]: "OP_DROP = 0x75"
definition OP_NIP :: u8 where [simp]: "OP_NIP = 0x77"
definition OP_OVER :: u8 where [simp]: "OP_OVER = 0x78"
definition OP_PICK :: u8 where [simp]: "OP_PICK = 0x79"
definition OP_ROLL :: u8 where [simp]: "OP_ROLL = 0x7a"
definition OP_ROT :: u8 where [simp]: "OP_ROT = 0x7b"
definition OP_TUCK :: u8 where [simp]: "OP_TUCK = 0x7d"
definition OP_CAT :: u8 where [simp]: "OP_CAT = 0x7e"
definition OP_SUBSTR :: u8 where [simp]: "OP_SUBSTR = 0x7f"
definition OP_LEFT :: u8 where [simp]: "OP_LEFT = 0x80"
definition OP_RIGHT :: u8 where [simp]: "OP_RIGHT = 0x81"
definition OP_INVERT :: u8 where [simp]: "OP_INVERT = 0x83"
definition OP_AND :: u8 where [simp]: "OP_AND = 0x84"
definition OP_OR :: u8 where [simp]: "OP_OR = 0x85"
definition OP_XOR :: u8 where [simp]: "OP_XOR = 0x86"
definition OP_2MUL :: u8 where [simp]: "OP_2MUL = 0x8d"
definition OP_2DIV :: u8 where [simp]: "OP_2DIV = 0x8e"
definition OP_MUL :: u8 where [simp]: "OP_MUL = 0x95"
definition OP_DIV :: u8 where [simp]: "OP_DIV = 0x96"
definition OP_MOD :: u8 where [simp]: "OP_MOD = 0x97"
definition OP_LSHIFT :: u8 where [simp]: "OP_LSHIFT = 0x98"
definition OP_RSHIFT :: u8 where [simp]: "OP_RSHIFT = 0x99"
definition OP_1ADD :: u8 where [simp]: "OP_1ADD = 0x8b"
definition OP_1SUB :: u8 where [simp]: "OP_1SUB = 0x8c"
definition OP_NEGATE :: u8 where [simp]: "OP_NEGATE = 0x8f"
definition OP_ABS :: u8 where [simp]: "OP_ABS = 0x90"
definition OP_NOT :: u8 where [simp]: "OP_NOT = 0x91"
definition OP_SUB :: u8 where [simp]: "OP_SUB = 0x94"
definition OP_NUMNOTEQUAL :: u8 where [simp]: "OP_NUMNOTEQUAL = 0x9e"
definition OP_LESSTHAN :: u8 where [simp]: "OP_LESSTHAN = 0x9f"
definition OP_GREATERTHAN :: u8 where [simp]: "OP_GREATERTHAN = 0xa0"
definition OP_LESSTHANOREQUAL :: u8 where [simp]: "OP_LESSTHANOREQUAL = 0xa1"
definition OP_GREATERTHANOREQUAL :: u8 where [simp]: "OP_GREATERTHANOREQUAL = 0xa2"
definition OP_MIN :: u8 where [simp]: "OP_MIN = 0xa3"
definition OP_MAX :: u8 where [simp]: "OP_MAX = 0xa4"
definition OP_WITHIN :: u8 where [simp]: "OP_WITHIN = 0xa5"
definition OP_SHA1 :: u8 where [simp]: "OP_SHA1 = 0xa7"
definition OP_CODESEPARATOR :: u8 where [simp]: "OP_CODESEPARATOR = 0xab"
definition OP_NOP1 :: u8 where [simp]: "OP_NOP1 = 0xb0"
definition OP_CHECKLOCKTIMEVERIFY :: u8 where [simp]: "OP_CHECKLOCKTIMEVERIFY = 0xb1"
definition OP_CHECKSEQUENCEVERIFY :: u8 where [simp]: "OP_CHECKSEQUENCEVERIFY = 0xb2"
definition OP_NOP4 :: u8 where [simp]: "OP_NOP4 = 0xb3"

definition MAX_OPS_PER_SCRIPT :: int where "MAX_OPS_PER_SCRIPT = 201"
definition MAX_STACK_SIZE :: nat where "MAX_STACK_SIZE = 1000"
definition MAX_SCRIPTNUM_SIZE :: nat where [simp]: "MAX_SCRIPTNUM_SIZE = 4"
definition ANNEX_TAG :: u8 where "ANNEX_TAG = 0x50"
definition TAPROOT_LEAF_MASK :: u8 where "TAPROOT_LEAF_MASK = 0xfe"
definition TAPROOT_LEAF_TAPSCRIPT :: u8 where "TAPROOT_LEAF_TAPSCRIPT = 0xc0"
definition TAPROOT_CONTROL_BASE_SIZE :: nat where "TAPROOT_CONTROL_BASE_SIZE = 33"
definition TAPROOT_CONTROL_NODE_SIZE :: nat where "TAPROOT_CONTROL_NODE_SIZE = 32"
definition TAPROOT_CONTROL_MAX_SIZE :: nat where
  "TAPROOT_CONTROL_MAX_SIZE = TAPROOT_CONTROL_BASE_SIZE + TAPROOT_CONTROL_NODE_SIZE * 128"
definition WITNESS_V1_TAPROOT_SIZE :: nat where "WITNESS_V1_TAPROOT_SIZE = 32"
definition VALIDATION_WEIGHT_PER_SIGOP_PASSED :: int where "VALIDATION_WEIGHT_PER_SIGOP_PASSED = 50"
definition VALIDATION_WEIGHT_OFFSET :: int where "VALIDATION_WEIGHT_OFFSET = 50"
definition SIGHASH_ALL :: u8 where "SIGHASH_ALL = 1"
definition SIGHASH_SINGLE :: u8 where "SIGHASH_SINGLE = 3"
definition SIGHASH_ANYONECANPAY :: u8 where "SIGHASH_ANYONECANPAY = 0x80"

section \<open>Errors\<close>

datatype script_error =
    Ok | EvalFalse | OpReturn | ScriptSize | PushSize | OpCount | StackSize | SigCount
    | PubkeyCount | Verify | EqualVerify | CheckMultisigVerify | CheckSigVerify
    | NumEqualVerify | BadOpcode | DisabledOpcode | InvalidStackOperation
    | InvalidAltstackOperation | UnbalancedConditional | NegativeLocktime
    | UnsatisfiedLocktime | SigHashType | SigDer | MinimalData | SigPushOnly | SigHighS
    | SigNullDummy | PubkeyType | CleanStack | MinimalIf | SigNullFail
    | DiscourageUpgradableNops | DiscourageUpgradableWitnessProgram
    | DiscourageUpgradableTaprootVersion | DiscourageOpSuccess
    | DiscourageUpgradablePubkeyType | WitnessProgramWrongLength | WitnessProgramWitnessEmpty
    | WitnessProgramMismatch | WitnessMalleated | WitnessMalleatedP2sh | WitnessUnexpected
    | WitnessPubkeyType | SchnorrSigSize | SchnorrSigHashType | SchnorrSig
    | TaprootWrongControlSize | TapscriptValidationWeight | TapscriptCheckMultisig
    | TapscriptMinimalIf | OpCodeSeparator | SigFindAndDelete | UnknownError

fun script_error_string :: "script_error \<Rightarrow> string" where
  "script_error_string Ok = ''No error''"
| "script_error_string EvalFalse = ''Script evaluated without error but finished with a false/empty top stack element''"
| "script_error_string Verify = ''Script failed an OP_VERIFY operation''"
| "script_error_string EqualVerify = ''Script failed an OP_EQUALVERIFY operation''"
| "script_error_string CheckMultisigVerify = ''Script failed an OP_CHECKMULTISIGVERIFY operation''"
| "script_error_string CheckSigVerify = ''Script failed an OP_CHECKSIGVERIFY operation''"
| "script_error_string NumEqualVerify = ''Script failed an OP_NUMEQUALVERIFY operation''"
| "script_error_string ScriptSize = ''Script is too big''"
| "script_error_string PushSize = ''Push value size limit exceeded''"
| "script_error_string OpCount = ''Operation limit exceeded''"
| "script_error_string StackSize = ''Stack size limit exceeded''"
| "script_error_string SigCount = ''Signature count negative or greater than pubkey count''"
| "script_error_string PubkeyCount = ''Pubkey count negative or limit exceeded''"
| "script_error_string BadOpcode = ''Opcode missing or not understood''"
| "script_error_string DisabledOpcode = ''Attempted to use a disabled opcode''"
| "script_error_string InvalidStackOperation = ''Operation not valid with the current stack size''"
| "script_error_string InvalidAltstackOperation = ''Operation not valid with the current altstack size''"
| "script_error_string OpReturn = ''OP_RETURN was encountered''"
| "script_error_string UnbalancedConditional = ''Invalid OP_IF construction''"
| "script_error_string NegativeLocktime = ''Negative locktime''"
| "script_error_string UnsatisfiedLocktime = ''Locktime requirement not satisfied''"
| "script_error_string SigHashType = ''Signature hash type missing or not understood''"
| "script_error_string SigDer = ''Non-canonical DER signature''"
| "script_error_string MinimalData = ''Data push larger than necessary''"
| "script_error_string SigPushOnly = ''Only push operators allowed in signatures''"
| "script_error_string SigHighS = ''Non-canonical signature: S value is unnecessarily high''"
| "script_error_string SigNullDummy = ''Dummy CHECKMULTISIG argument must be zero''"
| "script_error_string MinimalIf = ''OP_IF/NOTIF argument must be minimal''"
| "script_error_string SigNullFail = ''Signature must be zero for failed CHECK(MULTI)SIG operation''"
| "script_error_string DiscourageUpgradableNops = ''NOPx reserved for soft-fork upgrades''"
| "script_error_string DiscourageUpgradableWitnessProgram = ''Witness version reserved for soft-fork upgrades''"
| "script_error_string DiscourageUpgradableTaprootVersion = ''Taproot version reserved for soft-fork upgrades''"
| "script_error_string DiscourageOpSuccess = ''OP_SUCCESSx reserved for soft-fork upgrades''"
| "script_error_string DiscourageUpgradablePubkeyType = ''Public key version reserved for soft-fork upgrades''"
| "script_error_string PubkeyType = ''Public key is neither compressed or uncompressed''"
| "script_error_string CleanStack = ''Stack size must be exactly one after execution''"
| "script_error_string WitnessProgramWrongLength = ''Witness program has incorrect length''"
| "script_error_string WitnessProgramWitnessEmpty = ''Witness program was passed an empty witness''"
| "script_error_string WitnessProgramMismatch = ''Witness program hash mismatch''"
| "script_error_string WitnessMalleated = ''Witness requires empty scriptSig''"
| "script_error_string WitnessMalleatedP2sh = ''Witness requires only-redeemscript scriptSig''"
| "script_error_string WitnessUnexpected = ''Witness provided for non-witness script''"
| "script_error_string WitnessPubkeyType = ''Using non-compressed keys in segwit''"
| "script_error_string SchnorrSigSize = ''Invalid Schnorr signature size''"
| "script_error_string SchnorrSigHashType = ''Invalid Schnorr signature hash type''"
| "script_error_string SchnorrSig = ''Invalid Schnorr signature''"
| "script_error_string TaprootWrongControlSize = ''Invalid Taproot control block size''"
| "script_error_string TapscriptValidationWeight = ''Too much signature validation relative to witness weight''"
| "script_error_string TapscriptCheckMultisig = ''OP_CHECKMULTISIG(VERIFY) is not available in tapscript''"
| "script_error_string TapscriptMinimalIf = ''OP_IF/NOTIF argument must be minimal in tapscript''"
| "script_error_string OpCodeSeparator = ''Using OP_CODESEPARATOR in non-witness script''"
| "script_error_string SigFindAndDelete = ''Signature is found in scriptCode''"
| "script_error_string UnknownError = ''unknown error''"

section \<open>Execution data and the signature checker\<close>

datatype sig_version = Base | WitnessV0 | Taproot | Tapscript

record exec_data =
  codeseparator_pos :: u32
  codeseparator_pos_init :: bool
  annex_present :: bool
  annex_init :: bool
  annex_hash :: "bytes option"
  tapleaf_hash :: "bytes option"
  tapleaf_hash_init :: bool
  validation_weight_left :: i64
  validation_weight_left_init :: bool
  output_hash :: "bytes option"

definition exec_data_default :: exec_data where
  "exec_data_default = \<lparr>codeseparator_pos = 0, codeseparator_pos_init = False, annex_present = False,
     annex_init = False, annex_hash = None, tapleaf_hash = None, tapleaf_hash_init = False,
     validation_weight_left = 0, validation_weight_left_init = False, output_hash = None\<rparr>"

record checker =
  check_ecdsa_signature :: "bytes \<Rightarrow> bytes \<Rightarrow> bytes \<Rightarrow> sig_version \<Rightarrow> bool"
  check_schnorr_signature :: "bytes \<Rightarrow> bytes \<Rightarrow> sig_version \<Rightarrow> exec_data \<Rightarrow> script_error + exec_data"
  check_locktime :: "int \<Rightarrow> bool"
  check_sequence :: "int \<Rightarrow> bool"
  verify_taproot_commitment :: "bytes \<Rightarrow> bytes \<Rightarrow> bytes \<Rightarrow> bool"

text \<open>The default methods of the trait.\<close>

definition base_checker :: checker where
  "base_checker = \<lparr>check_ecdsa_signature = (\<lambda>sig pubkey script_code sigversion. False),
     check_schnorr_signature = (\<lambda>sig pubkey sigversion execdata. Inl SchnorrSig),
     check_locktime = (\<lambda>locktime. False), check_sequence = (\<lambda>sequence. False),
     verify_taproot_commitment = (\<lambda>control program tapleaf_hash. False)\<rparr>"

section \<open>Small helpers\<close>

text \<open>The loop returns at the first byte that is not zero; the last byte may be the sign of zero.\<close>

fun cast_to_bool :: "bytes \<Rightarrow> bool" where
  "cast_to_bool [] = False"
| "cast_to_bool (b # vch) =
     (if b \<noteq> 0 then (if vch = [] \<and> b = 0x80 then False else True) else cast_to_bool vch)"

text \<open>
  \<open>get_op\<close> returns the cursor with its result: on failure it is past the opcode and the length
  bytes that were present. The length bytes are read as \<open>trailing_header\<close> reads them.
\<close>

definition get_op :: "bytes \<Rightarrow> nat \<Rightarrow> (u8 \<times> bytes) option \<times> nat" where
  "get_op script pc =
     (if pc \<ge> length script then (None, pc)
      else
        let opcode = script ! pc; pc = pc + 1
        in if opcode > OP_PUSHDATA4 then (Some (opcode, []), pc)
           else case trailing_header script pc opcode of
             (pc, None) \<Rightarrow> (None, pc)
           | (pc, Some sz) \<Rightarrow>
               if length script - pc < sz then (None, pc)
               else (Some (opcode, take sz (drop pc script)), pc + sz))"

text \<open>Reached with at most five bytes, so the \<open>i64\<close> shifts of the loop are exact.\<close>

definition script_num_value :: "bytes \<Rightarrow> int" where
  "script_num_value vch =
     fold (\<lambda>(i, b) v. v OR push_bit (8 * i) (int (unat b))) (enumerate 0 vch) (0 :: int)"

definition script_num :: "bytes \<Rightarrow> bool \<Rightarrow> nat \<Rightarrow> script_error + int" where
  "script_num vch require_minimal max_size =
     (let n = length vch in
      if n > max_size then Inl UnknownError
      else if require_minimal \<and> vch \<noteq> [] \<and> vch ! (n - 1) AND 0x7f = 0 \<and>
         (n \<le> 1 \<or> vch ! (n - 2) AND 0x80 = 0) then Inl UnknownError
      else
        let v = script_num_value vch
        in if vch \<noteq> [] \<and> vch ! (n - 1) AND 0x80 \<noteq> 0
           then Inr (- (v AND NOT (push_bit (8 * (n - 1)) 0x80)))
           else Inr v)"

definition getint :: "int \<Rightarrow> int" where
  "getint v = max (- (2 ^ 31)) (min (2 ^ 31 - 1) v)"

definition check_minimal_push :: "bytes \<Rightarrow> u8 \<Rightarrow> bool" where
  "check_minimal_push data opcode =
     (if data = [] then opcode = OP_0
      else if length data = 1 \<and> 1 \<le> data ! 0 \<and> data ! 0 \<le> 16 then False
      else if length data = 1 \<and> data ! 0 = 0x81 then False
      else if length data \<le> 75 then opcode = word_of_nat (length data)
      else if length data \<le> 255 then opcode = OP_PUSHDATA1
      else if length data \<le> 65535 then opcode = OP_PUSHDATA2
      else True)"

definition is_op_success :: "u8 \<Rightarrow> bool" where
  "is_op_success opcode \<longleftrightarrow>
     opcode = 80 \<or> opcode = 98 \<or> (126 \<le> opcode \<and> opcode \<le> 129) \<or> (131 \<le> opcode \<and> opcode \<le> 134) \<or>
     (137 \<le> opcode \<and> opcode \<le> 138) \<or> (141 \<le> opcode \<and> opcode \<le> 142) \<or>
     (149 \<le> opcode \<and> opcode \<le> 153) \<or> (187 \<le> opcode \<and> opcode \<le> 254)"

definition is_pay_to_anchor :: "u8 \<Rightarrow> bytes \<Rightarrow> bool" where
  "is_pay_to_anchor version program \<longleftrightarrow> version = 1 \<and> program = [0x4e, 0x73]"

section \<open>Signature and key encodings\<close>

definition is_compressed_or_uncompressed_pubkey :: "bytes \<Rightarrow> bool" where
  "is_compressed_or_uncompressed_pubkey key =
     (if length key < 33 then False
      else if key ! 0 = 0x04 then length key = 65
      else if key ! 0 = 0x02 \<or> key ! 0 = 0x03 then length key = 33
      else False)"

definition is_compressed_pubkey :: "bytes \<Rightarrow> bool" where
  "is_compressed_pubkey key \<longleftrightarrow> length key = 33 \<and> (key ! 0 = 0x02 \<or> key ! 0 = 0x03)"

definition SECP256K1_ORDER :: bytes where
  "SECP256K1_ORDER =
     [0xff, 0xff, 0xff, 0xff, 0xff, 0xff, 0xff, 0xff, 0xff, 0xff, 0xff, 0xff, 0xff, 0xff, 0xff, 0xfe,
      0xba, 0xae, 0xdc, 0xe6, 0xaf, 0x48, 0xa0, 0x3b, 0xbf, 0xd2, 0x5e, 0x8c, 0xd0, 0x36, 0x41, 0x41]"

definition SECP256K1_HALF_ORDER :: bytes where
  "SECP256K1_HALF_ORDER =
     [0x7f, 0xff, 0xff, 0xff, 0xff, 0xff, 0xff, 0xff, 0xff, 0xff, 0xff, 0xff, 0xff, 0xff, 0xff, 0xff,
      0x5d, 0x57, 0x6e, 0x73, 0x57, 0xa4, 0x50, 0x1d, 0xdf, 0xe9, 0x2f, 0x46, 0x68, 0x1b, 0x20, 0xa0]"

datatype ordering = Less | Equal | Greater

text \<open>The lexicographic comparison of byte slices.\<close>

fun cmp_bytes :: "bytes \<Rightarrow> bytes \<Rightarrow> ordering" where
  "cmp_bytes [] [] = Equal"
| "cmp_bytes [] (b # bs) = Less"
| "cmp_bytes (a # as) [] = Greater"
| "cmp_bytes (a # as) (b # bs) =
     (if a < b then Less else if b < a then Greater else cmp_bytes as bs)"

definition cmp_be256 :: "bytes \<Rightarrow> bytes \<Rightarrow> ordering" where
  "cmp_be256 bs bound =
     (if length bs > 32 then Greater else cmp_bytes (replicate (32 - length bs) 0 @ bs) bound)"

definition check_low_s :: "bytes \<Rightarrow> bool" where
  "check_low_s sig_der =
     (if length sig_der < 8 \<or> sig_der ! 0 \<noteq> 0x30 then False
      else
        let len_r = unat (sig_der ! 3)
        in if 5 + len_r \<ge> length sig_der then False
           else
             let len_s = unat (sig_der ! (5 + len_r))
             in if len_r + len_s + 6 \<noteq> length sig_der then False
                else
                  let r_bytes = take len_r (drop 4 sig_der);
                      s_bytes = take len_s (drop (6 + len_r) sig_der)
                  in if cmp_be256 r_bytes SECP256K1_ORDER \<noteq> Less \<or>
                        cmp_be256 s_bytes SECP256K1_ORDER \<noteq> Less then True
                     else cmp_be256 s_bytes SECP256K1_HALF_ORDER \<noteq> Greater)"

definition check_signature_encoding_low_s :: "bytes \<Rightarrow> script_error + unit" where
  "check_signature_encoding_low_s sig =
     (if \<not> is_valid_signature_encoding sig then Inl SigDer
      else if \<not> check_low_s (take (length sig - 1) sig) then Inl SigHighS
      else Inr ())"

definition is_defined_hashtype :: "bytes \<Rightarrow> bool" where
  "is_defined_hashtype sig =
     (if sig = [] then False
      else let b = last sig AND NOT SIGHASH_ANYONECANPAY in SIGHASH_ALL \<le> b \<and> b \<le> SIGHASH_SINGLE)"

definition check_signature_encoding :: "bytes \<Rightarrow> script_flags \<Rightarrow> script_error + unit" where
  "check_signature_encoding sig flags =
     (if sig = [] then Inr ()
      else
        let dersig_family = flag_union (flag_union FLAG_DERSIG FLAG_LOW_S) FLAG_STRICTENC
        in if flags AND dersig_family \<noteq> 0 \<and> \<not> is_valid_signature_encoding sig then Inl SigDer
           else res_bind (if flag_set flags FLAG_LOW_S then check_signature_encoding_low_s sig else Inr ())
             (\<lambda>_. if flag_set flags FLAG_STRICTENC \<and> \<not> is_defined_hashtype sig then Inl SigHashType
                  else Inr ()))"

definition check_pubkey_encoding :: "bytes \<Rightarrow> script_flags \<Rightarrow> sig_version \<Rightarrow> script_error + unit" where
  "check_pubkey_encoding pubkey flags sigversion =
     (if flag_set flags FLAG_STRICTENC \<and> \<not> is_compressed_or_uncompressed_pubkey pubkey then Inl PubkeyType
      else if flag_set flags FLAG_WITNESS_PUBKEYTYPE \<and> sigversion = WitnessV0 \<and>
         \<not> is_compressed_pubkey pubkey then Inl WitnessPubkeyType
      else Inr ())"

section \<open>Removing signatures from a script\<close>

lemma get_op_ge: "get_op script pc = (r, pc') \<Longrightarrow> pc \<le> pc'"
  by (auto simp: get_op_def Let_def dest!: trailing_header_ge split: if_splits prod.splits option.splits)

lemma trailing_header_in:
  "trailing_header bs pc opcode = (pc', Some l) \<Longrightarrow> pc \<le> length bs \<Longrightarrow> pc \<le> pc' \<and> pc' \<le> length bs"
  by (auto simp: trailing_header_def get_range_def split: if_splits option.splits)

lemma get_op_progress:
  assumes "get_op script pc = (Some r, pc')"
  shows "pc < pc' \<and> pc' \<le> length script"
proof (cases "trailing_header script (Suc pc) (script ! pc)")
  case (Pair p l)
  with assms show ?thesis
    using trailing_header_in [of script "Suc pc" "script ! pc" p]
    by (cases l) (auto simp: get_op_def Let_def split: if_splits)
qed

text \<open>The inner \<open>while\<close>: the cursor past every copy of \<open>b\<close>, and how many there were.\<close>

function skip_matches :: "bytes \<Rightarrow> bytes \<Rightarrow> nat \<Rightarrow> nat \<Rightarrow> nat \<times> nat" where
  "skip_matches script b pc found =
     (if b \<noteq> [] \<and> length script - pc \<ge> length b \<and> take (length b) (drop pc script) = b
      then skip_matches script b (pc + length b) (found + 1) else (pc, found))"
  by auto
termination
  by (relation "measure (\<lambda>(script, b, pc, found). length script - pc)")
    (auto simp flip: length_greater_0_conv)

declare skip_matches.simps [simp del]

lemma skip_matches_ge: "skip_matches script b pc found = (pc', found') \<Longrightarrow> pc \<le> pc'"
proof (induction script b pc found rule: skip_matches.induct)
  case (1 script b pc found)
  then show ?case
    using skip_matches.simps [of script b pc found] by (force split: if_splits)
qed

text \<open>The outer \<open>loop\<close>, with its cursors, its result and its count.\<close>

function delete_loop :: "bytes \<Rightarrow> bytes \<Rightarrow> nat \<Rightarrow> nat \<Rightarrow> bytes \<Rightarrow> nat \<Rightarrow> bytes \<times> nat \<times> nat" where
  "delete_loop script b pc pc2 result found =
     (let result = result @ take (pc - pc2) (drop pc2 script)
      in case skip_matches script b pc found of
           (pc, found) \<Rightarrow>
             (case get_op script pc of
                (None, _) \<Rightarrow> (result, pc, found)
              | (Some _, pc') \<Rightarrow> delete_loop script b pc' pc result found))"
  by auto
termination
proof (relation "measure (\<lambda>(script, b, pc, pc2, result, found). length script - pc)", goal_cases)
  case (2 script b pc pc2 result found r p f g p' i)
  then have "pc \<le> p" "p < p' \<and> p' \<le> length script"
    using skip_matches_ge [of script b pc found p f] get_op_progress [of script p i p'] by simp_all
  then have "length script - p' < length script - pc" by linarith
  then show ?case by simp
qed simp

declare delete_loop.simps [simp del]

definition find_and_delete :: "bytes \<Rightarrow> bytes \<Rightarrow> bytes \<times> nat" where
  "find_and_delete script b =
     (if b = [] then (script, 0)
      else case delete_loop script b 0 0 [] 0 of
        (result, pc2, found) \<Rightarrow>
          if found > 0 then (result @ drop pc2 script, found) else (script, found))"

end
