(* ===== verification/Script_Num.thy ===== *)
theory Script_Num
  imports Interp_Base
begin

text \<open>
  Script numbers: \<open>script_num\<close> of \<open>src/crates/avila-consensus/src/interpreter.rs\<close> decodes what
  \<open>encode_script_num\<close> of \<open>src/crates/avila-consensus/src/script.rs\<close> writes. The reference is
  \<open>num_of\<close>, the sign-magnitude value of a byte string; both directions of the codec and the truth
  value \<open>cast_to_bool\<close> are stated against it.
\<close>

section \<open>Bits of a byte\<close>

lemma byte_and_7f: "unat (b AND 0x7f :: u8) = unat b mod 128"
proof -
  have "b AND 0x7f = take_bit 7 b" by (simp add: take_bit_eq_mask mask_eq_exp_minus_1)
  then have "unat (b AND 0x7f) = take_bit 7 (unat b)" by (simp only: unsigned_take_bit_eq)
  then show ?thesis by (simp add: take_bit_eq_mod)
qed

lemma byte_mod128: "unat (b :: u8) mod 128 = (if 128 \<le> unat b then unat b - 128 else unat b)"
proof -
  have "unat b - 128 < 128" using unat_u8_lt [of b] by linarith
  then show ?thesis by (simp add: le_mod_geq)
qed

lemma byte_mod128_0: "unat (b :: u8) mod 128 = 0 \<longleftrightarrow> b = 0 \<or> b = 0x80"
proof -
  have "unat b mod 128 = 0 \<longleftrightarrow> unat b = 0 \<or> unat b = 128" by (auto simp: byte_mod128)
  moreover have "b = 0x80 \<longleftrightarrow> unat b = 128" by (simp add: word_unat_eq_iff)
  ultimately show ?thesis by (simp only: unat_eq_zero)
qed

lemma byte_bit7: "bit (b :: u8) 7 \<longleftrightarrow> 128 \<le> unat b"
proof -
  have "bit b 7 \<longleftrightarrow> odd (unat b div 128)"
    using bit_unsigned_iff [where 'a = nat, of b 7] by (simp add: bit_iff_odd)
  also have "\<dots> \<longleftrightarrow> 128 \<le> unat b"
  proof (cases "128 \<le> unat b")
    case True
    then have "unat b div 128 = 1" using unat_u8_lt [of b] by linarith
    with True show ?thesis by simp
  qed simp
  finally show ?thesis .
qed

lemma byte_and_80: "(b :: u8) AND 0x80 = 0 \<longleftrightarrow> unat b < 128"
  using and_exp_eq_0_iff_not_bit [of b 7] byte_bit7 [of b] by (simp add: not_le)

lemma byte_and_7f_0: "(b :: u8) AND 0x7f = 0 \<longleftrightarrow> unat b mod 128 = 0"
  using byte_and_7f [of b] by (metis unat_eq_zero)

lemma byte_or_80: "unat b < 128 \<Longrightarrow> unat (b OR 0x80 :: u8) = unat b + 128"
  by (subst unat_or_disjoint) (simp_all add: byte_and_80)

section \<open>The value loop\<close>

lemma nat_or_shift:
  assumes "v < 2 ^ k"
  shows "v OR push_bit k b = v + 2 ^ k * (b :: nat)"
proof -
  have "v AND push_bit k b = 0"
    using assms
    by (intro bit_eqI) (auto simp: bit_simps dest!: nat_bit_le dest: order_le_less_trans
        simp: power_strict_increasing_iff)
  then show ?thesis by (simp add: disjunctive_add_eq_or [symmetric] push_bit_eq_mult mult.commute)
qed

lemma script_num_value_eq: "script_num_value vch = int (le_val vch)"
proof (induction vch rule: rev_induct)
  case (snoc b vch)
  have "script_num_value (vch @ [b]) =
      script_num_value vch OR push_bit (8 * length vch) (int (unat b))"
    by (simp add: script_num_value_def enumerate_append_eq)
  also have "\<dots> = int (le_val vch OR push_bit (8 * length vch) (unat b))"
    using snoc by (simp add: of_nat_or_eq of_nat_push_bit)
  also have "\<dots> = int (le_val (vch @ [b]))"
    using le_val_bound [of vch] by (subst nat_or_shift) (simp_all add: le_val_append power_mult)
  finally show ?case .
qed (simp add: script_num_value_def)

lemma int_clear_bit:
  assumes "bit (v :: int) n"
  shows "v AND NOT (2 ^ n) = v - 2 ^ n"
proof -
  have "(v AND NOT (2 ^ n)) + 2 ^ n = (v AND NOT (2 ^ n)) OR 2 ^ n"
    by (rule disjunctive_add_eq_or) (auto intro!: bit_eqI simp: bit_simps)
  also have "\<dots> = v" using assms by (auto intro!: bit_eqI simp: bit_simps)
  finally show ?thesis by simp
qed

section \<open>The reference\<close>

text \<open>The magnitude and the value of a sign-magnitude string: the top bit of the last byte is the sign.\<close>

definition magnitude :: "bytes \<Rightarrow> nat" where
  "magnitude vch =
     (if vch = [] then 0
      else le_val (butlast vch) + 256 ^ (length vch - 1) * (unat (last vch) mod 128))"

definition num_of :: "bytes \<Rightarrow> int" where
  "num_of vch =
     (if vch \<noteq> [] \<and> 128 \<le> unat (last vch) then - int (magnitude vch) else int (magnitude vch))"

definition minimal :: "bytes \<Rightarrow> bool" where
  "minimal vch \<longleftrightarrow> vch \<noteq> [] \<longrightarrow> unat (last vch) mod 128 = 0 \<longrightarrow>
     (butlast vch \<noteq> [] \<and> 128 \<le> unat (last (butlast vch)))"

lemma magnitude_snoc: "magnitude (lo @ [b]) = le_val lo + 256 ^ length lo * (unat b mod 128)"
  by (simp add: magnitude_def)

lemma script_num_eq:
  "script_num vch rm k = (if length vch > k \<or> rm \<and> \<not> minimal vch then Inl UnknownError else Inr (num_of vch))"
proof (cases vch rule: rev_cases)
  case Nil
  then show ?thesis
    by (simp add: script_num_def minimal_def num_of_def magnitude_def script_num_value_eq)
next
  case (snoc lo b)
  have min: "minimal vch \<longleftrightarrow> \<not> (b AND 0x7f = 0 \<and> (length vch \<le> 1 \<or> vch ! (length vch - 2) AND 0x80 = 0))"
  proof (cases lo rule: rev_cases)
    case (snoc lo' c)
    then show ?thesis
      using \<open>vch = lo @ [b]\<close>
      by (auto simp: minimal_def byte_and_7f_0 byte_and_80 nth_append butlast_append)
  qed (simp add: \<open>vch = lo @ [b]\<close> minimal_def byte_and_7f_0)
  have val: "int (le_val vch) = int (le_val lo) + 2 ^ (8 * length lo) * int (unat b)"
    by (simp add: snoc le_val_append power_mult)
  have neg: "int (le_val vch) AND NOT (push_bit (8 * length lo) 0x80) = int (magnitude vch)"
    if "128 \<le> unat b"
  proof -
    note ge = that
    let ?n = "8 * length lo + 7"
    have "unat b div 128 = 1" using that unat_u8_lt [of b] by linarith
    moreover have "unat b mod 128 = unat b - 128" using that by (simp add: byte_mod128)
    moreover have "int (le_val vch) div 2 ^ ?n = int (unat b div 128)"
    proof -
      have lo: "int (le_val lo) < 2 ^ (8 * length lo)"
        using le_val_bound [of lo] by (simp add: power_mult)
      have "int (le_val vch) div 2 ^ (8 * length lo) = int (unat b)"
        using lo by (simp add: val)
      then show ?thesis by (simp add: power_add zdiv_zmult2_eq zdiv_int)
    qed
    ultimately have "bit (int (le_val vch)) ?n" by (simp add: bit_iff_odd)
    then have "int (le_val vch) AND NOT (2 ^ ?n) = int (le_val vch) - 2 ^ ?n" by (rule int_clear_bit)
    moreover have "push_bit (8 * length lo) (0x80 :: int) = 2 ^ ?n"
      by (simp add: push_bit_eq_mult power_add)
    moreover have "int (le_val vch) - 2 ^ ?n = int (magnitude vch)"
    proof -
      obtain k where k: "unat b = 128 + k" using le_Suc_ex [OF ge] by blast
      then have "magnitude vch = le_val lo + 256 ^ length lo * k"
        using \<open>unat b mod 128 = unat b - 128\<close> by (simp add: snoc magnitude_snoc)
      moreover have "le_val vch = le_val lo + 256 ^ length lo * (128 + k)"
        by (simp only: snoc le_val_append k le_val.simps mult_0_right add_0_right)
      moreover have "(2 :: nat) ^ ?n = 256 ^ length lo * 128" by (simp add: power_mult power_add)
      ultimately have "le_val vch = magnitude vch + 2 ^ ?n" by (simp only: distrib_left)
      then show ?thesis by simp
    qed
    ultimately show ?thesis by simp
  qed
  have pos: "le_val vch = magnitude vch" if "unat b < 128"
    using that by (simp add: snoc magnitude_snoc le_val_append)
  have "num_of vch = (if b AND 0x80 \<noteq> 0
      then - (int (le_val vch) AND NOT (push_bit (8 * length lo) 0x80)) else int (le_val vch))"
    using neg pos by (auto simp: num_of_def snoc byte_and_80)
  then show ?thesis
    using min by (auto simp: script_num_def Let_def script_num_value_eq snoc)
qed

section \<open>The encoder\<close>

lemma magnitude_bytes_0 [simp]: "magnitude_bytes 0 = []"
  by (simp add: magnitude_bytes.simps)

lemma magnitude_bytes_pos:
  "m > 0 \<Longrightarrow> magnitude_bytes m = word_of_nat (m mod 256) # magnitude_bytes (m div 256)"
  by (simp add: magnitude_bytes.simps)

lemma le_val_magnitude_bytes [simp]: "le_val (magnitude_bytes m) = m"
proof (induction m rule: magnitude_bytes.induct)
  case (1 m)
  then show ?case by (cases "m = 0") (simp_all add: magnitude_bytes_pos unat_of_nat_u8)
qed

lemma magnitude_bytes_Nil [simp]: "magnitude_bytes m = [] \<longleftrightarrow> m = 0"
  by (cases "m = 0") (simp_all add: magnitude_bytes_pos)

lemma last_magnitude_bytes: "m > 0 \<Longrightarrow> last (magnitude_bytes m) \<noteq> 0"
proof (induction m rule: magnitude_bytes.induct)
  case (1 m)
  show ?case
  proof (cases "m div 256 = 0")
    case True
    with 1(2) have "m < 256" by (simp add: div_eq_0_iff)
    with 1(2) have "(word_of_nat m :: u8) \<noteq> 0" by (simp add: unat_u8_of_nat flip: unat_eq_0)
    with True 1(2) \<open>m < 256\<close> show ?thesis by (simp add: magnitude_bytes_pos)
  next
    case False
    with 1 show ?thesis by (simp add: magnitude_bytes_pos [OF 1(2)])
  qed
qed

lemma magnitude_bytes_le_val: "bs = [] \<or> last bs \<noteq> 0 \<Longrightarrow> magnitude_bytes (le_val bs) = bs"
proof (induction bs)
  case (Cons b bs)
  have "le_val (b # bs) > 0"
  proof (cases bs)
    case Nil
    with Cons.prems show ?thesis by (simp add: unat_gt_0)
  next
    case (Cons c cs)
    with Cons.prems Cons.IH have "magnitude_bytes (le_val bs) \<noteq> []" by simp
    then show ?thesis by simp
  qed
  moreover have "magnitude_bytes (le_val bs) = bs" using Cons by (cases bs) auto
  moreover have "unat b < 256" by simp
  ultimately show ?case by (simp add: magnitude_bytes_pos del: magnitude_bytes_Nil)
qed simp

lemma length_magnitude_bytes: "m < 256 ^ k \<Longrightarrow> length (magnitude_bytes m) \<le> k"
proof (induction k arbitrary: m)
  case (Suc k)
  then have "m div 256 < 256 ^ k" by (simp add: less_mult_imp_div_less mult.commute)
  with Suc.IH show ?case by (cases "m = 0") (simp_all add: magnitude_bytes_pos)
qed simp

lemma length_encode_script_num:
  assumes "nat \<bar>v\<bar> < 256 ^ k"
  shows "length (encode_script_num v) \<le> Suc k"
  using length_magnitude_bytes [OF assms]
  by (cases "magnitude_bytes (nat \<bar>v\<bar>) = []") (auto simp: encode_script_num_def Let_def)

lemma encode_num_of:
  assumes "minimal vch"
  shows "encode_script_num (num_of vch) = vch"
proof (cases vch rule: rev_cases)
  case Nil
  then show ?thesis by (simp add: num_of_def magnitude_def encode_script_num_def)
next
  case (snoc lo b)
  show ?thesis
  proof (cases "unat b mod 128 = 0")
    case True
    then obtain lo' c where lo: "lo = lo' @ [c]" "128 \<le> unat c"
      using assms by (cases lo rule: rev_cases) (auto simp: minimal_def snoc butlast_append)
    have m: "magnitude vch = le_val lo" using True by (simp add: snoc magnitude_snoc)
    have mb: "magnitude_bytes (le_val lo) = lo"
      using lo by (intro magnitude_bytes_le_val) auto
    then have "le_val lo > 0" using lo by (metis append_is_Nil_conv gr0I list.discI magnitude_bytes_0)
    moreover have "b = 0 \<or> b = 0x80" using True by (simp only: byte_mod128_0)
    ultimately show ?thesis
      using lo mb m byte_and_80 [of c]
      by (auto simp: snoc num_of_def encode_script_num_def Let_def)
  next
    case False
    define t :: u8 where "t = b AND 0x7f"
    have t: "unat t = unat b mod 128" by (simp add: t_def byte_and_7f)
    have m: "magnitude vch = le_val (lo @ [t])" by (simp add: snoc magnitude_snoc le_val_append t)
    have mb: "magnitude_bytes (le_val (lo @ [t])) = lo @ [t]"
      using False t by (intro magnitude_bytes_le_val) (auto simp: unat_eq_0)
    then have pos: "le_val (lo @ [t]) > 0" by (metis append_is_Nil_conv gr0I list.discI magnitude_bytes_0)
    have t7: "unat t < 128" by (simp add: t)
    show ?thesis
    proof (cases "128 \<le> unat b")
      case True
      have "t OR 0x80 = b"
        using True t7 t by (subst word_unat_eq_iff, subst byte_or_80) (simp_all add: byte_mod128)
      with True t7 m mb pos byte_and_80 [of t] show ?thesis
        by (auto simp: snoc num_of_def encode_script_num_def Let_def simp del: le_val_magnitude_bytes)
    next
      case ge: False
      then have "t = b" using t by (simp add: word_unat_eq_iff byte_mod128)
      with ge t7 m mb pos byte_and_80 [of t] show ?thesis
        by (auto simp: snoc num_of_def encode_script_num_def Let_def)
    qed
  qed
qed

lemma num_of_encode: "minimal (encode_script_num v) \<and> num_of (encode_script_num v) = v"
proof (cases "v = 0")
  case True
  then show ?thesis by (simp add: encode_script_num_def minimal_def num_of_def magnitude_def)
next
  case False
  define m where "m = nat \<bar>v\<bar>"
  have "m > 0" using False by (simp add: m_def)
  then obtain lo b where mb: "magnitude_bytes m = lo @ [b]"
    by (cases "magnitude_bytes m" rule: rev_cases) auto
  have b: "unat b \<noteq> 0" using last_magnitude_bytes [OF \<open>m > 0\<close>] mb by (simp add: unat_eq_0)
  have val: "m = le_val lo + 256 ^ length lo * unat b"
    using le_val_magnitude_bytes [of m] mb by (simp add: le_val_append)
  have v: "v = (if v < 0 then - int m else int m)" by (simp add: m_def)
  show ?thesis
  proof (cases "128 \<le> unat b")
    case True
    have enc: "encode_script_num v = lo @ [b] @ [if v < 0 then 0x80 else 0]"
      using False True mb byte_and_80 [of b] by (auto simp: encode_script_num_def m_def Let_def)
    have "magnitude (encode_script_num v) = m"
      using magnitude_snoc [of "lo @ [b]"] val by (simp add: enc le_val_append)
    with v True show ?thesis
      by (auto simp: enc num_of_def minimal_def butlast_append)
  next
    case lt: False
    have enc: "encode_script_num v = lo @ [if v < 0 then b OR 0x80 else b]"
      using False lt mb byte_and_80 [of b] by (auto simp: encode_script_num_def m_def Let_def)
    have top: "unat (b OR 0x80) = unat b + 128" using lt by (intro byte_or_80) simp
    have "magnitude (encode_script_num v) = m"
      using lt val by (simp add: enc magnitude_snoc top)
    with v lt b top show ?thesis
      by (auto simp: enc num_of_def minimal_def)
  qed
qed

section \<open>Truth\<close>

lemma cast_to_bool_snoc: "cast_to_bool (lo @ [b]) \<longleftrightarrow> le_val lo \<noteq> 0 \<or> (b \<noteq> 0 \<and> b \<noteq> 0x80)"
  by (induction lo) (auto simp: unat_eq_0)

lemma cast_to_bool_iff: "cast_to_bool vch \<longleftrightarrow> num_of vch \<noteq> 0"
proof (cases vch rule: rev_cases)
  case (snoc lo b)
  then have "magnitude vch = 0 \<longleftrightarrow> le_val lo = 0 \<and> (b = 0 \<or> b = 0x80)"
    by (simp only: snoc magnitude_snoc byte_mod128_0 [symmetric] add_is_0 mult_is_0) simp
  then show ?thesis by (auto simp: snoc cast_to_bool_snoc num_of_def)
qed (simp add: num_of_def magnitude_def)

section \<open>Properties\<close>

text \<open>Under the minimal-encoding rule the decoder accepts exactly the encodings of the encoder,
  within the size limit: every number has one accepted byte string.\<close>

theorem script_num_roundtrip:
  "script_num vch True k = Inr v \<longleftrightarrow> vch = encode_script_num v \<and> length vch \<le> k"
  using encode_num_of [of vch] num_of_encode [of v] by (auto simp: script_num_eq)

text \<open>\<open>cast_to_bool\<close> agrees with the number a string decodes to, minimal or not: negative zero
  and every padded zero are false.\<close>

theorem cast_to_bool_num:
  assumes "script_num vch rm k = Inr v"
  shows "cast_to_bool vch \<longleftrightarrow> v \<noteq> 0"
  using assms by (auto simp: script_num_eq cast_to_bool_iff split: if_splits)

text \<open>An instance: negative zero, accepted without the minimal rule.\<close>

lemma cast_to_bool_num_witness: "\<not> cast_to_bool [0x00, 0x80]"
  using cast_to_bool_num [of "[0x00, 0x80]" False 4 0] by (simp add: script_num_def script_num_value_def)

end
