(* ===== verification/Sig_Encoding.thy ===== *)
theory Sig_Encoding
  imports Script_Num
begin

text \<open>
  What the signature encoding checks of \<open>src/crates/avila-consensus/src/interpreter.rs\<close> accept:
  \<open>check_low_s\<close> in terms of the integers R and S of the signature, and
  \<open>check_signature_encoding\<close> in terms of the flags.
\<close>

section \<open>Big-endian comparison\<close>

definition be_val :: "bytes \<Rightarrow> nat" where
  "be_val bs = le_val (rev bs)"

lemma be_val_simps [simp]: "be_val [] = 0" "be_val (b # bs) = 256 ^ length bs * unat b + be_val bs"
  by (simp_all add: be_val_def le_val_append)

lemma be_val_bound: "be_val bs < 256 ^ length bs"
  using le_val_bound [of "rev bs"] by (simp add: be_val_def)

lemma be_val_pad [simp]: "be_val (replicate k 0 @ bs) = be_val bs"
  by (induction k) simp_all

lemma be_digit:
  fixes B x y :: nat
  assumes "a < b" "x < B"
  shows "B * a + x < B * b + y"
proof -
  have "B * Suc a \<le> B * b" using assms(1) by (intro mult_le_mono2) simp
  with assms(2) show ?thesis by simp
qed

lemma cmp_bytes_be:
  "length as = length bs \<Longrightarrow>
   cmp_bytes as bs = (if be_val as < be_val bs then Less else if be_val bs < be_val as then Greater else Equal)"
proof (induction as bs rule: cmp_bytes.induct)
  case (4 a as b bs)
  then have len: "length as = length bs" by simp
  consider (lt) "a < b" | (gt) "b < a" | (eq) "a = b" by (rule linorder_cases)
  then show ?case
  proof cases
    case lt
    then have "be_val (a # as) < be_val (b # bs)"
      using be_digit [of "unat a" "unat b" "be_val as" "256 ^ length bs"] be_val_bound [of as] len
      by (simp add: word_less_nat_alt)
    with lt show ?thesis by simp
  next
    case gt
    then have "be_val (b # bs) < be_val (a # as)"
      using be_digit [of "unat b" "unat a" "be_val bs" "256 ^ length bs"] be_val_bound [of bs] len
      by (simp add: word_less_nat_alt)
    with gt show ?thesis by (auto dest: order_less_asym)
  qed (use 4 len in simp)
qed auto

lemma cmp_be256_eq:
  assumes "length bound = 32"
  shows "cmp_be256 bs bound =
    (if length bs > 32 then Greater
     else if be_val bs < be_val bound then Less else if be_val bound < be_val bs then Greater else Equal)"
  using assms by (simp add: cmp_be256_def cmp_bytes_be)

text \<open>The order of the group and its half, as numbers.\<close>

definition curve_order :: nat where
  "curve_order = 0xfffffffffffffffffffffffffffffffebaaedce6af48a03bbfd25e8cd0364141"

lemma order_val: "be_val SECP256K1_ORDER = curve_order"
  by (simp add: SECP256K1_ORDER_def curve_order_def)

lemma half_order_val: "be_val SECP256K1_HALF_ORDER = curve_order div 2"
  by (simp add: SECP256K1_HALF_ORDER_def curve_order_def)

lemma length_orders: "length SECP256K1_ORDER = 32" "length SECP256K1_HALF_ORDER = 32"
  by (simp_all add: SECP256K1_ORDER_def SECP256K1_HALF_ORDER_def)

section \<open>Low S\<close>

text \<open>The signatures \<open>check_low_s\<close> refuses.\<close>

definition refused_s :: "bytes \<Rightarrow> bytes \<Rightarrow> bool" where
  "refused_s r s \<longleftrightarrow> length r \<le> 32 \<and> length s \<le> 32 \<and> be_val r < curve_order \<and>
     curve_order div 2 < be_val s \<and> be_val s < curve_order"

lemma check_low_s_der:
  assumes "r \<noteq> []" "s \<noteq> []" "length r + length s \<le> 66"
  shows "check_low_s (take (length (der_signature r s h) - 1) (der_signature r s h)) \<longleftrightarrow> \<not> refused_s r s"
proof -
  define d where "d = take (length (der_signature r s h) - 1) (der_signature r s h)"
  have d: "d = [0x30, word_of_nat (length r + length s + 4), 0x02, word_of_nat (length r)] @ r @
      [0x02, word_of_nat (length s)] @ s"
    by (simp add: d_def der_signature_def)
  have len: "length d = length r + length s + 6" by (simp add: d)
  have pos: "0 < length r" "0 < length s" using assms by simp_all
  have u: "unat (word_of_nat (length r) :: u8) = length r" "unat (word_of_nat (length s) :: u8) = length s"
    using assms(3) by (simp_all add: unat_u8_of_nat)
  have at: "d ! 0 = 0x30" "d ! 3 = word_of_nat (length r)" "d ! (5 + length r) = word_of_nat (length s)"
    unfolding d by (simp_all add: nth_append nth_Cons')
  have sl: "take (length r) (drop 4 d) = r" "take (length s) (drop (6 + length r) d) = s"
    unfolding d by (simp_all add: eval_nat_numeral)
  have "\<not> length d < 8" "\<not> length d \<le> 5 + length r"
    using pos unfolding len by linarith+
  then have "check_low_s d =
    (if cmp_be256 r SECP256K1_ORDER \<noteq> Less \<or> cmp_be256 s SECP256K1_ORDER \<noteq> Less then True
     else cmp_be256 s SECP256K1_HALF_ORDER \<noteq> Greater)"
    unfolding check_low_s_def Let_def at u sl by (simp add: len)
  then show ?thesis
    unfolding d_def by (auto simp: cmp_be256_eq length_orders order_val half_order_val refused_s_def)
qed

section \<open>Flags\<close>

lemma flag_set_bit: "n < 32 \<Longrightarrow> flag_set f (2 ^ n) \<longleftrightarrow> bit f n"
proof
  assume "n < 32" "flag_set f (2 ^ n)"
  then have "bit (f AND 2 ^ n) n" by (simp add: flag_set_def bit_simps)
  then show "bit f n" by (simp add: bit_simps)
next
  assume "n < 32" "bit f n"
  then show "flag_set f (2 ^ n)"
    unfolding flag_set_def by (intro bit_eqI) (auto simp: bit_simps)
qed

lemma flag_and: "n < 32 \<Longrightarrow> f AND 2 ^ n \<noteq> 0 \<longleftrightarrow> flag_set f (2 ^ n)"
  using flag_set_bit [of n f] and_exp_eq_0_iff_not_bit [of f n] by simp

lemma der_family:
  "flags AND flag_union (flag_union FLAG_DERSIG FLAG_LOW_S) FLAG_STRICTENC \<noteq> 0 \<longleftrightarrow>
   flag_set flags FLAG_DERSIG \<or> flag_set flags FLAG_LOW_S \<or> flag_set flags FLAG_STRICTENC"
proof -
  have e: "flag_union (flag_union FLAG_DERSIG FLAG_LOW_S) FLAG_STRICTENC = 2 ^ 2 OR (2 ^ 3 OR 2 ^ 1)"
    by (simp add: flag_union_def FLAG_DERSIG_def FLAG_LOW_S_def FLAG_STRICTENC_def)
  show ?thesis
    unfolding e bit.conj_disj_distrib or_eq_0_iff
    using flag_and [of 2 flags] flag_and [of 3 flags] flag_and [of 1 flags]
    by (simp add: FLAG_DERSIG_def FLAG_LOW_S_def FLAG_STRICTENC_def)
qed

lemma is_defined_hashtype_iff:
  assumes "sig \<noteq> []"
  shows "is_defined_hashtype sig \<longleftrightarrow> last sig \<in> {1, 2, 3, 0x81, 0x82, 0x83}"
proof -
  let ?b = "last sig"
  have "?b AND NOT SIGHASH_ANYONECANPAY = ?b AND 0x7f"
  proof -
    have "NOT SIGHASH_ANYONECANPAY = 0x7f" by code_simp
    then show ?thesis by simp
  qed
  then have "is_defined_hashtype sig \<longleftrightarrow> 1 \<le> unat ?b mod 128 \<and> unat ?b mod 128 \<le> 3"
    using assms by (simp add: is_defined_hashtype_def SIGHASH_ALL_def SIGHASH_SINGLE_def
        word_le_nat_alt byte_and_7f)
  also have "\<dots> \<longleftrightarrow> unat ?b \<in> {1, 2, 3, 129, 130, 131}"
    by (auto simp: byte_mod128)
  also have "\<dots> \<longleftrightarrow> ?b \<in> {1, 2, 3, 0x81, 0x82, 0x83}"
    by (simp add: word_unat_eq_iff)
  finally show ?thesis .
qed

lemma strict_low_s:
  "is_valid_signature_encoding sig \<and> (l \<longrightarrow> check_low_s (take (length sig - 1) sig)) \<longleftrightarrow>
   (\<exists>r s h. sig = der_signature r s h \<and> der_integer r \<and> der_integer s \<and> length r + length s \<le> 66 \<and>
      (l \<longrightarrow> \<not> refused_s r s))"
proof
  assume a: "is_valid_signature_encoding sig \<and> (l \<longrightarrow> check_low_s (take (length sig - 1) sig))"
  then obtain r s h where e: "sig = der_signature r s h" "der_integer r" "der_integer s"
    "length r + length s \<le> 66" using valid_der by blast
  with a check_low_s_der [of r s h] show "\<exists>r s h. sig = der_signature r s h \<and> der_integer r \<and>
      der_integer s \<and> length r + length s \<le> 66 \<and> (l \<longrightarrow> \<not> refused_s r s)"
    by (auto simp: der_integer_def)
next
  assume "\<exists>r s h. sig = der_signature r s h \<and> der_integer r \<and> der_integer s \<and>
      length r + length s \<le> 66 \<and> (l \<longrightarrow> \<not> refused_s r s)"
  then obtain r s h where e: "sig = der_signature r s h" "der_integer r" "der_integer s"
    "length r + length s \<le> 66" "l \<longrightarrow> \<not> refused_s r s" by blast
  then show "is_valid_signature_encoding sig \<and> (l \<longrightarrow> check_low_s (take (length sig - 1) sig))"
    using der_valid [of r s h] check_low_s_der [of r s h] by (auto simp: der_integer_def)
qed

lemma check_signature_encoding_ok:
  "check_signature_encoding sig flags = Inr () \<longleftrightarrow>
    sig = [] \<or>
    (flag_set flags FLAG_DERSIG \<or> flag_set flags FLAG_LOW_S \<or> flag_set flags FLAG_STRICTENC \<longrightarrow>
       is_valid_signature_encoding sig \<and>
       (flag_set flags FLAG_LOW_S \<longrightarrow> check_low_s (take (length sig - 1) sig))) \<and>
    (flag_set flags FLAG_STRICTENC \<longrightarrow> is_defined_hashtype sig)"
proof (cases "sig = []")
  case False
  then show ?thesis
    unfolding check_signature_encoding_def der_family Let_def
    by (auto simp: check_signature_encoding_low_s_def)
qed (simp add: check_signature_encoding_def)

section \<open>Properties\<close>

text \<open>On strict DER signatures \<open>check_low_s\<close> refuses exactly the ones whose R and S both fit in
  32 bytes, with R below the group order and S above half of it and below it.\<close>

theorem check_low_s_iff:
  assumes "der_integer r" "der_integer s" "length r + length s \<le> 66"
  shows "check_low_s (take (length (der_signature r s h) - 1) (der_signature r s h)) \<longleftrightarrow> \<not> refused_s r s"
  using assms by (intro check_low_s_der) (auto simp: der_integer_def)

text \<open>An instance: S is one above half the order, in 32 bytes, and is refused.\<close>

lemma check_low_s_iff_witness:
  "\<exists>s. be_val s = curve_order div 2 + 1 \<and>
    \<not> check_low_s (take (length (der_signature [0x01] s 1) - 1) (der_signature [0x01] s 1))"
proof (intro exI conjI)
  let ?s = "take 31 SECP256K1_HALF_ORDER @ [0xa1]"
  show "be_val ?s = curve_order div 2 + 1" by (simp add: SECP256K1_HALF_ORDER_def curve_order_def)
  moreover have "der_integer ?s" by (simp add: der_integer_def SECP256K1_HALF_ORDER_def)
  moreover have "der_integer [0x01]" by (simp add: der_integer_def)
  ultimately show "\<not> check_low_s (take (length (der_signature [0x01] ?s 1) - 1) (der_signature [0x01] ?s 1))"
    by (subst check_low_s_iff) (simp_all add: refused_s_def length_orders curve_order_def)
qed


text \<open>What \<open>check_signature_encoding\<close> accepts: an empty signature always; otherwise strict DER
  under any of the three flags, a low S under LOW_S, and one of the six hash types under STRICTENC.\<close>

theorem check_signature_encoding_iff:
  "check_signature_encoding sig flags = Inr () \<longleftrightarrow>
    sig = [] \<or>
    ((flag_set flags FLAG_DERSIG \<or> flag_set flags FLAG_LOW_S \<or> flag_set flags FLAG_STRICTENC \<longrightarrow>
        (\<exists>r s h. sig = der_signature r s h \<and> der_integer r \<and> der_integer s \<and> length r + length s \<le> 66 \<and>
           (flag_set flags FLAG_LOW_S \<longrightarrow> \<not> refused_s r s))) \<and>
     (flag_set flags FLAG_STRICTENC \<longrightarrow> last sig \<in> {1, 2, 3, 0x81, 0x82, 0x83}))"
proof (cases "sig = []")
  case False
  then show ?thesis
    unfolding check_signature_encoding_ok strict_low_s is_defined_hashtype_iff [OF False] by simp
qed (simp add: check_signature_encoding_def)

text \<open>An instance: the signature with R = S = 1 and hash type ALL passes every encoding flag.\<close>

lemma check_signature_encoding_iff_witness:
  "check_signature_encoding (der_signature [1] [1] 1)
     (flag_union FLAG_LOW_S (flag_union FLAG_DERSIG FLAG_STRICTENC)) = Inr ()"
proof -
  have "der_integer [1]" and "\<not> refused_s [1] [1]" and "last (der_signature [1] [1] 1) = 1"
    by (simp_all add: der_integer_def refused_s_def curve_order_def der_signature_def)
  moreover have "length [1 :: u8] + length [1 :: u8] \<le> 66" by simp
  ultimately show ?thesis unfolding check_signature_encoding_iff by blast
qed

end
