(* ===== verification/Find_Delete.thy ===== *)
theory Find_Delete
  imports Interp_Base
begin

text \<open>
  \<open>get_op\<close> and \<open>find_and_delete\<close> of \<open>src/crates/avila-consensus/src/interpreter.rs\<close>: the interpreter's
  own parser agrees with the instruction iterator of \<open>script.rs\<close>, and on a script made of whole
  instructions removing a signature removes the instructions that push exactly that signature.
\<close>

section \<open>One instruction, in any context\<close>

text \<open>A byte string that is one whole instruction.\<close>

definition instr :: "bytes \<Rightarrow> bool" where
  "instr i \<longleftrightarrow> (case get_op i 0 of (Some r, pc) \<Rightarrow> pc = length i | (None, pc) \<Rightarrow> False)"

lemma get_range_in:
  "get_range bs a b = Some d \<Longrightarrow> get_range (pre @ bs @ post) (length pre + a) (length pre + b) = Some d"
  by (auto simp: get_range_def split: if_splits)

lemma trailing_header_at:
  assumes "trailing_header bs pc opc = (pc', Some l)"
  shows "trailing_header (pre @ bs @ post) (length pre + pc) opc = (length pre + pc', Some l)"
  using assms
  by (auto simp: trailing_header_def nth_append add.assoc [symmetric] split: if_splits option.splits
      dest: get_range_in [where pre = pre and post = post])

lemma get_op_at:
  assumes "get_op bs pc = (Some r, pc')"
  shows "get_op (pre @ bs @ post) (length pre + pc) = (Some r, length pre + pc')"
proof -
  have pc: "pc < length bs" using assms by (auto simp: get_op_def split: if_splits)
  then have nth: "(pre @ bs @ post) ! (length pre + pc) = bs ! pc" by (simp add: nth_append)
  show ?thesis
  proof (cases "bs ! pc > OP_PUSHDATA4")
    case True
    with assms pc nth show ?thesis by (auto simp: get_op_def Let_def)
  next
    case False
    with assms pc obtain p l where h: "trailing_header bs (pc + 1) (bs ! pc) = (p, Some l)"
      and l: "l \<le> length bs - p" "r = (bs ! pc, take l (drop p bs))" "pc' = p + l"
      by (auto simp: get_op_def Let_def split: prod.splits option.splits if_splits)
    have p: "p \<le> length bs" using trailing_header_in [OF h] pc by simp
    have "trailing_header (pre @ bs @ post) (length pre + pc + 1) (bs ! pc) = (length pre + p, Some l)"
      using trailing_header_at [OF h, of pre post] by simp
    moreover have "take l (drop (length pre + p) (pre @ bs @ post)) = take l (drop p bs)"
      using l(1) by simp
    ultimately show ?thesis
      using False pc nth l p by (simp add: get_op_def Let_def)
  qed
qed

lemma instr_at:
  assumes "instr i"
  shows "\<exists>r. \<forall>pre post. get_op (pre @ i @ post) (length pre) = (Some r, length pre + length i)"
proof -
  obtain r where "get_op i 0 = (Some r, length i)"
    using assms by (auto simp: instr_def split: prod.splits option.splits)
  from get_op_at [OF this] show ?thesis by auto
qed

lemma instr_prefix:
  assumes "instr i" "instr b" "take (length b) (i @ post) = b"
  shows "i = b"
proof -
  obtain r where r: "\<And>pre post. get_op (pre @ i @ post) (length pre) = (Some r, length pre + length i)"
    using instr_at [OF assms(1)] by blast
  obtain q where q: "\<And>pre post. get_op (pre @ b @ post) (length pre) = (Some q, length pre + length b)"
    using instr_at [OF assms(2)] by blast
  have e: "b @ drop (length b) (i @ post) = i @ post"
    using append_take_drop_id [of "length b" "i @ post"] unfolding assms(3) .
  have "get_op (i @ post) 0 = (Some q, length b)"
    using q [of "[]" "drop (length b) (i @ post)"] unfolding append_Nil e by simp
  then have "length i = length b" using r [of "[]" post] by simp
  moreover have "take (length i) (i @ post) = i" by simp
  ultimately show ?thesis using assms(3) by metis
qed

lemma instr_ne: "instr i \<Longrightarrow> i \<noteq> []"
  by (auto simp: instr_def get_op_def)

section \<open>The iterator and \<open>get_op\<close>\<close>

fun instr_data :: "instruction \<Rightarrow> bytes" where
  "instr_data (Push d) = d"
| "instr_data (Op opc) = []"

lemma get_op_iter_next:
  assumes "iter_next \<lparr>it_bytes = bs, it_position = pc, it_finished = False\<rparr> = (Some (Inr i), it')"
  shows "get_op bs pc = (Some (bs ! pc, instr_data i), it_position it')"
proof -
  have pc: "pc < length bs" using assms by (auto simp: iter_next_def Let_def split: if_splits)
  let ?opc = "bs ! pc"
  show ?thesis
  proof (cases "?opc \<le> 0x4b")
    case True
    then have "?opc < 0x4c" "\<not> ?opc > 0x4e" by (simp_all add: word_less_nat_alt word_le_nat_alt)
    with True pc assms show ?thesis
      by (auto simp: get_op_def iter_next_def Let_def trailing_header_def get_range_def split: if_splits)
  next
    case False
    show ?thesis
    proof (cases "?opc \<le> 0x4e")
      case True
      define w :: nat where "w = (if ?opc = OP_PUSHDATA1 then 1 else if ?opc = OP_PUSHDATA2 then 2 else 4)"
      obtain lb where lb: "get_range bs (pc + 1) (pc + 1 + w) = Some lb"
        using assms False pushdata_cases [OF False True] pc
        by (auto simp: iter_next_def Let_def w_def split: if_splits option.splits)
      have h: "trailing_header bs (pc + 1) ?opc = (pc + 1 + w, Some (unat (push_length lb)))"
        using True False lb by (intro trailing_header_len) (simp_all add: w_def)
      from assms lb False True pushdata_cases [OF False True] pc h show ?thesis
        by (auto simp: get_op_def iter_next_def Let_def w_def get_range_def split: if_splits option.splits)
    next
      case gt: False
      then have "?opc \<noteq> 0x4c" "?opc \<noteq> 0x4d" "?opc \<noteq> 0x4e" by (auto simp: word_le_nat_alt)
      with gt False pc assms show ?thesis
        by (auto simp: get_op_def iter_next_def Let_def split: if_splits)
    qed
  qed
qed

lemma instr_push_slice: "length d < 2 ^ 32 \<Longrightarrow> instr (push_slice d)"
  using iter_next_push [of d "[]" "[]"]
  by (auto simp: instr_def dest!: get_op_iter_next)

section \<open>Removal\<close>

lemma delete_loop_skip:
  assumes "b \<noteq> []" "take (length b) (drop pc script) = b" "pc2 \<le> pc"
  shows "delete_loop script b pc pc2 result found =
    delete_loop script b (pc + length b) (pc + length b) (result @ take (pc - pc2) (drop pc2 script)) (found + 1)"
proof -
  have "length script - pc \<ge> length b"
    using assms(2) by (metis length_drop length_take min.cobounded1)
  then have "skip_matches script b pc found = skip_matches script b (pc + length b) (found + 1)"
    using assms by (subst skip_matches.simps) simp
  then show ?thesis
    by (subst (1 2) delete_loop.simps) simp
qed

lemma delete_loop_keep:
  assumes "\<not> take (length b) (drop pc script) = b" "get_op script pc = (Some r, pc')"
  shows "delete_loop script b pc pc2 result found =
    delete_loop script b pc' pc (result @ take (pc - pc2) (drop pc2 script)) found"
proof -
  have "skip_matches script b pc found = (pc, found)"
    using assms by (subst skip_matches.simps) auto
  with assms show ?thesis by (subst delete_loop.simps) simp
qed

definition loop_result :: "bytes \<Rightarrow> bytes \<times> nat \<times> nat \<Rightarrow> bytes \<times> nat" where
  "loop_result script x = (case x of (result, pc2, found) \<Rightarrow> (result @ drop pc2 script, found))"

lemma delete_loop_instrs:
  assumes "instr b"
  shows "\<forall>i \<in> set is. instr i \<Longrightarrow> pc2 \<le> length pre \<Longrightarrow>
    loop_result (pre @ concat is) (delete_loop (pre @ concat is) b (length pre) pc2 result found) =
    (result @ drop pc2 pre @ concat (filter (\<lambda>i. i \<noteq> b) is), found + count_list is b)"
proof (induction "is" arbitrary: pre pc2 result found)
  case Nil
  have "skip_matches pre b (length pre) found = (length pre, found)"
    using instr_ne [OF assms] by (subst skip_matches.simps) auto
  moreover have "get_op pre (length pre) = (None, length pre)" by (simp add: get_op_def)
  ultimately show ?case
    using Nil by (subst delete_loop.simps) (simp add: loop_result_def)
next
  case (Cons i "is")
  let ?s = "pre @ concat (i # is)"
  have s: "?s = (pre @ i) @ concat is" by simp
  have i: "instr i" using Cons.prems by simp
  have slice: "take (length pre - pc2) (drop pc2 ?s) = drop pc2 pre" using Cons.prems by simp
  show ?case
  proof (cases "i = b")
    case True
    have "delete_loop ?s b (length pre) pc2 result found =
        delete_loop ?s b (length (pre @ i)) (length (pre @ i)) (result @ drop pc2 pre) (found + 1)"
      using delete_loop_skip [of b "length pre" ?s pc2] instr_ne [OF i] True Cons.prems(2) slice by simp
    then show ?thesis
      using Cons.IH [of "length (pre @ i)" "pre @ i"] Cons.prems(1) True unfolding s by simp
  next
    case False
    then have "\<not> take (length b) (drop (length pre) ?s) = b"
      using instr_prefix [OF i assms, of "concat is"] by auto
    moreover obtain r where "\<And>pre post. get_op (pre @ i @ post) (length pre) = (Some r, length pre + length i)"
      using instr_at [OF i] by blast
    from this [of pre "concat is"] have "get_op ?s (length pre) = (Some r, length (pre @ i))" by simp
    ultimately have "delete_loop ?s b (length pre) pc2 result found =
        delete_loop ?s b (length (pre @ i)) (length pre) (result @ drop pc2 pre) found"
      using delete_loop_keep [of b "length pre" ?s r "length (pre @ i)" pc2 result found] slice by simp
    then show ?thesis
      using Cons.IH [of "length pre" "pre @ i"] Cons.prems(1) False unfolding s by simp
  qed
qed

section \<open>Properties\<close>

text \<open>On a script made of whole instructions \<open>find_and_delete\<close> removes exactly the instructions
  that push the signature in its own encoding, keeps the others in order, and counts the removals.\<close>

theorem find_and_delete_instrs:
  assumes "\<forall>i \<in> set is. instr i" "length sig < 2 ^ 32"
  shows "find_and_delete (concat is) (push_slice sig) =
    (concat (filter (\<lambda>i. i \<noteq> push_slice sig) is), count_list is (push_slice sig))"
proof -
  let ?b = "push_slice sig"
  have b: "instr ?b" using assms(2) by (rule instr_push_slice)
  obtain result pc2 found where l: "delete_loop (concat is) ?b 0 0 [] 0 = (result, pc2, found)"
    by (metis prod_cases3)
  then have "result @ drop pc2 (concat is) = concat (filter (\<lambda>i. i \<noteq> ?b) is)" "found = count_list is ?b"
    using delete_loop_instrs [OF b assms(1), of 0 "[]" "[]" 0] by (simp_all add: loop_result_def)
  moreover have "count_list is ?b = 0 \<Longrightarrow> filter (\<lambda>i. i \<noteq> ?b) is = is"
    by (auto simp: count_list_0_iff filter_id_conv)
  ultimately show ?thesis
    using instr_ne [OF b] l by (auto simp: find_and_delete_def)
qed

text \<open>An instance: the signature between two opcodes, twice; the data of another push stays.\<close>

lemma find_and_delete_instrs_witness:
  "find_and_delete [0x76, 0x01, 0xaa, 0x01, 0xaa, 0x02, 0x01, 0xaa, 0xac] (push_slice [0xaa]) =
    ([0x76, 0x02, 0x01, 0xaa, 0xac], 2)"
  using find_and_delete_instrs [of "[[0x76], [0x01, 0xaa], [0x01, 0xaa], [0x02, 0x01, 0xaa], [0xac]]" "[0xaa]"]
  by (simp add: instr_def get_op_def trailing_header_def push_slice_def)

text \<open>The interpreter's parser and the instruction iterator agree: where the iterator yields an
  instruction, \<open>get_op\<close> yields its opcode and data and leaves the cursor at the same place.\<close>

theorem get_op_agrees:
  assumes "iter_next \<lparr>it_bytes = bs, it_position = pc, it_finished = False\<rparr> = (Some (Inr i), it')"
  shows "get_op bs pc = (Some (bs ! pc, instr_data i), it_position it')"
  using assms by (rule get_op_iter_next)

text \<open>An instance: a push with a length byte.\<close>

lemma get_op_agrees_witness: "get_op [0x4c, 0x02, 0xaa, 0xbb, 0xac] 0 = (Some (0x4c, [0xaa, 0xbb]), 4)"
  using get_op_agrees [of "[0x4c, 0x02, 0xaa, 0xbb, 0xac]" 0 "Push [0xaa, 0xbb]"]
  by (simp add: iter_next_def get_range_def push_length_def)

end
