(* ===== verification/Condition_Stack.thy ===== *)
theory Condition_Stack
  imports Prelude
begin

text \<open>
  \<open>ConditionStack\<close> of \<open>src/crates/avila-consensus/src/interpreter.rs\<close>: the nesting of OP_IF as a depth
  and the position of the first false. The contract is the vector of booleans it stands for
  (locale \<open>nesting\<close>): whatever sequence of IF, ELSE and ENDIF runs, the compact form answers
  \<open>all_true\<close> and \<open>is_empty\<close> as the vector does. Both fields are \<open>u32\<close> and \<open>u32::MAX\<close> means no false,
  so the contract holds below that depth; a script would need four gigabytes to go deeper.
\<close>

record condition_stack =
  cs_size :: u32
  cs_first_false :: u32

definition NO_FALSE :: u32 where
  "NO_FALSE = 0xffffffff"

definition cond_default :: condition_stack where
  "cond_default = \<lparr>cs_size = 0, cs_first_false = NO_FALSE\<rparr>"

definition cond_is_empty :: "condition_stack \<Rightarrow> bool" where
  "cond_is_empty c \<longleftrightarrow> cs_size c = 0"

definition cond_all_true :: "condition_stack \<Rightarrow> bool" where
  "cond_all_true c \<longleftrightarrow> cs_first_false c = NO_FALSE"

definition cond_push :: "bool \<Rightarrow> condition_stack \<Rightarrow> condition_stack" where
  "cond_push f c =
     (let c = (if cs_first_false c = NO_FALSE \<and> \<not> f then c\<lparr>cs_first_false := cs_size c\<rparr> else c)
      in c\<lparr>cs_size := cs_size c + 1\<rparr>)"

definition cond_pop :: "condition_stack \<Rightarrow> condition_stack" where
  "cond_pop c =
     (let c = c\<lparr>cs_size := cs_size c - 1\<rparr>
      in if cs_first_false c = cs_size c then c\<lparr>cs_first_false := NO_FALSE\<rparr> else c)"

definition cond_toggle_top :: "condition_stack \<Rightarrow> condition_stack" where
  "cond_toggle_top c =
     (if cs_first_false c = NO_FALSE then c\<lparr>cs_first_false := cs_size c - 1\<rparr>
      else if cs_first_false c = cs_size c - 1 then c\<lparr>cs_first_false := NO_FALSE\<rparr>
      else c)"

section \<open>The contract\<close>

text \<open>What OP_IF, OP_ELSE and OP_ENDIF do to the nesting; the last two need a nonempty stack.\<close>

datatype cond_op = Enter bool | Else | Endif

fun cond_run ::
  "('s \<Rightarrow> bool) \<Rightarrow> (bool \<Rightarrow> 's \<Rightarrow> 's) \<Rightarrow> ('s \<Rightarrow> 's) \<Rightarrow> ('s \<Rightarrow> 's) \<Rightarrow> cond_op list \<Rightarrow> 's \<Rightarrow> 's option"
where
  "cond_run isempty push pop toggle [] s = Some s"
| "cond_run isempty push pop toggle (Enter b # ops) s = cond_run isempty push pop toggle ops (push b s)"
| "cond_run isempty push pop toggle (Else # ops) s =
     (if isempty s then None else cond_run isempty push pop toggle ops (toggle s))"
| "cond_run isempty push pop toggle (Endif # ops) s =
     (if isempty s then None else cond_run isempty push pop toggle ops (pop s))"

text \<open>The vector of booleans, top first.\<close>

fun vec_toggle :: "bool list \<Rightarrow> bool list" where
  "vec_toggle [] = []"
| "vec_toggle (b # l) = (\<not> b) # l"

abbreviation vec_run :: "cond_op list \<Rightarrow> bool list \<Rightarrow> bool list option" where
  "vec_run \<equiv> cond_run (\<lambda>l. l = []) (#) tl vec_toggle"

locale nesting =
  fixes rep :: "bool list \<Rightarrow> 's \<Rightarrow> bool" and limit :: nat
    and initial :: 's and isempty :: "'s \<Rightarrow> bool" and alltrue :: "'s \<Rightarrow> bool"
    and push :: "bool \<Rightarrow> 's \<Rightarrow> 's" and pop :: "'s \<Rightarrow> 's" and toggle :: "'s \<Rightarrow> 's"
  assumes rep_initial: "rep [] initial"
    and rep_isempty: "rep l s \<Longrightarrow> isempty s \<longleftrightarrow> l = []"
    and rep_alltrue: "rep l s \<Longrightarrow> alltrue s \<longleftrightarrow> (\<forall>b \<in> set l. b)"
    and rep_push: "rep l s \<Longrightarrow> length l < limit \<Longrightarrow> rep (b # l) (push b s)"
    and rep_pop: "rep (b # l) s \<Longrightarrow> rep l (pop s)"
    and rep_toggle: "rep (b # l) s \<Longrightarrow> rep ((\<not> b) # l) (toggle s)"
begin

lemma run_rep:
  "rep l s \<Longrightarrow> length l + length ops \<le> limit \<Longrightarrow>
   rel_option rep (vec_run ops l) (cond_run isempty push pop toggle ops s)"
proof (induction ops arbitrary: l s)
  case (Cons op ops)
  note e = rep_isempty [OF Cons.prems(1)]
  show ?case
  proof (cases op)
    case (Enter b)
    with Cons.IH [of "b # l" "push b s"] rep_push [of l s b] Cons.prems show ?thesis by simp
  next
    case Else
    show ?thesis
    proof (cases l)
      case (Cons b l')
      with Cons.IH [of "(\<not> b) # l'" "toggle s"] rep_toggle [of b l' s] Cons.prems Else e
      show ?thesis by simp
    qed (use Else e in simp)
  next
    case Endif
    show ?thesis
    proof (cases l)
      case (Cons b l')
      with Cons.IH [of l' "pop s"] rep_pop [of b l' s] Cons.prems Endif e show ?thesis by simp
    qed (use Endif e in simp)
  qed
qed simp

lemma run_initial:
  assumes "length ops \<le> limit"
  shows "(case cond_run isempty push pop toggle ops initial of
      None \<Rightarrow> vec_run ops [] = None
    | Some s \<Rightarrow> (\<exists>l. vec_run ops [] = Some l \<and> (isempty s \<longleftrightarrow> l = []) \<and> (alltrue s \<longleftrightarrow> (\<forall>b \<in> set l. b))))"
  using run_rep [OF rep_initial, of ops] assms
  by (auto elim!: option.rel_cases simp: rep_isempty rep_alltrue)

end

section \<open>The compact form keeps the contract\<close>

text \<open>The depth of the first false, counted from the bottom of the vector.\<close>

fun first_false :: "bool list \<Rightarrow> nat option" where
  "first_false [] = None"
| "first_false (b # l) = (case first_false l of Some n \<Rightarrow> Some n | None \<Rightarrow> if b then None else Some (length l))"

definition cond_rep :: "bool list \<Rightarrow> condition_stack \<Rightarrow> bool" where
  "cond_rep l c \<longleftrightarrow> length l < 2 ^ 32 - 1 \<and> cs_size c = word_of_nat (length l) \<and>
     cs_first_false c = (case first_false l of None \<Rightarrow> NO_FALSE | Some n \<Rightarrow> word_of_nat n)"

lemma first_false_less: "first_false l = Some n \<Longrightarrow> n < length l"
  by (induction l arbitrary: n) (force split: option.splits if_splits)+

lemma first_false_None: "first_false l = None \<longleftrightarrow> (\<forall>b \<in> set l. b)"
  by (induction l) (auto split: option.splits)

lemma u32_eq:
  "n < 2 ^ 32 \<Longrightarrow> m < 2 ^ 32 \<Longrightarrow> (word_of_nat n :: u32) = word_of_nat m \<longleftrightarrow> n = m"
  by (auto dest!: arg_cong [of _ _ unat] simp: unat_of_nat take_bit_nat_eq_self)

lemma no_false_nat: "NO_FALSE = word_of_nat (2 ^ 32 - 1)"
  by (simp add: NO_FALSE_def)

lemma of_nat_no_false: "n < 2 ^ 32 - 1 \<Longrightarrow> (word_of_nat n :: u32) \<noteq> NO_FALSE"
  unfolding no_false_nat by (subst u32_eq) simp_all

interpretation conditions: nesting cond_rep "2 ^ 32 - 2" cond_default cond_is_empty cond_all_true
  cond_push cond_pop cond_toggle_top
proof unfold_locales
  show "cond_rep [] cond_default" by (simp add: cond_rep_def cond_default_def)
next
  fix l s
  assume r: "cond_rep l s"
  show "cond_is_empty s \<longleftrightarrow> l = []"
    using r u32_eq [of "length l" 0] by (simp add: cond_rep_def cond_is_empty_def)
  show "cond_all_true s \<longleftrightarrow> (\<forall>b \<in> set l. b)"
    using r of_nat_no_false first_false_less [of l] first_false_None [of l]
    by (fastforce simp: cond_rep_def cond_all_true_def split: option.splits)
  fix b
  assume len: "length l < 2 ^ 32 - 2"
  show "cond_rep (b # l) (cond_push b s)"
    using r len of_nat_no_false first_false_less [of l]
    by (fastforce simp: cond_rep_def cond_push_def Let_def add.commute split: option.splits)
next
  fix b l s
  assume r: "cond_rep (b # l) s"
  have size: "cs_size s - 1 = word_of_nat (length l)" using r by (simp add: cond_rep_def)
  have lt: "length l < 2 ^ 32 - 1" using r by (simp add: cond_rep_def)
  have ne: "word_of_nat n \<noteq> (word_of_nat (length l) :: u32)" if "first_false l = Some n" for n
    using that lt first_false_less [OF that] u32_eq [of n "length l"] by simp
  show "cond_rep l (cond_pop s)"
    using r size lt ne of_nat_no_false [OF lt]
    by (auto simp: cond_rep_def cond_pop_def Let_def split: option.splits if_splits)
  show "cond_rep ((\<not> b) # l) (cond_toggle_top s)"
    using r size lt ne of_nat_no_false [OF lt] of_nat_no_false first_false_less [of l]
    by (fastforce simp: cond_rep_def cond_toggle_top_def Let_def split: option.splits if_splits)
qed

section \<open>Property\<close>

text \<open>C17: For every sequence of conditional opcodes the two-number condition stack fails where the
  vector of booleans fails, and otherwise says the same about being empty and about all being true.\<close>

theorem condition_stack_refines:
  assumes "length ops \<le> 2 ^ 32 - 2"
  shows "case cond_run cond_is_empty cond_push cond_pop cond_toggle_top ops cond_default of
      None \<Rightarrow> vec_run ops [] = None
    | Some c \<Rightarrow> (\<exists>l. vec_run ops [] = Some l \<and> (cond_is_empty c \<longleftrightarrow> l = []) \<and>
        (cond_all_true c \<longleftrightarrow> (\<forall>b \<in> set l. b)))"
  using assms by (rule conditions.run_initial)

text \<open>Witness of C17: a false branch with a true one nested in it, then ELSE of the outer one.\<close>

lemma condition_stack_refines_witness:
  "\<exists>c. cond_run cond_is_empty cond_push cond_pop cond_toggle_top
      [Enter False, Enter True, Else, Endif, Else] cond_default = Some c \<and> cond_all_true c"
proof -
  let ?ops = "[Enter False, Enter True, Else, Endif, Else]"
  define r where "r = cond_run cond_is_empty cond_push cond_pop cond_toggle_top ?ops cond_default"
  have "vec_run ?ops [] = Some [True]" by simp
  moreover have "case r of None \<Rightarrow> vec_run ?ops [] = None
    | Some c \<Rightarrow> (\<exists>l. vec_run ?ops [] = Some l \<and> (cond_is_empty c \<longleftrightarrow> l = []) \<and>
        (cond_all_true c \<longleftrightarrow> (\<forall>b \<in> set l. b)))"
    unfolding r_def by (rule condition_stack_refines) simp
  ultimately show ?thesis unfolding r_def [symmetric] by (cases r) auto
qed

end
