(* ===== verification/Interp_Eval.thy ===== *)
theory Interp_Eval
  imports Interp_Base Condition_Stack
begin

text \<open>
  \<open>eval_script\<close> of \<open>src/crates/avila-consensus/src/interpreter.rs\<close>: the stack machine. Its local
  variables are the fields of a \<open>machine\<close>; the arguments it never changes are the fields of an
  \<open>eval_env\<close>. A stack is a list with its top first, so that \<open>top!(n)\<close> is its element at \<open>n - 1\<close>
  (the Rust vector is the reversed list). Each group of opcodes of the big \<open>match\<close> is a definition
  from machines to machines or an error; the early \<open>return Err(..)\<close> of the code is \<open>Inl\<close>, after
  which no caller looks at the stack.
\<close>

record machine =
  m_stack :: "bytes list"
  m_altstack :: "bytes list"
  m_cond :: condition_stack
  m_op_count :: int
  m_pc :: nat
  m_pbegincodehash :: nat
  m_opcode_pos :: u32
  m_execdata :: exec_data

record eval_env =
  e_hashes :: hash_fns
  e_bytes :: bytes
  e_flags :: script_flags
  e_checker :: checker
  e_sigversion :: sig_version

definition has_flag :: "eval_env \<Rightarrow> script_flags \<Rightarrow> bool" where
  "has_flag E f = flag_set (e_flags E) f"

definition require_minimal :: "eval_env \<Rightarrow> bool" where
  "require_minimal E = has_flag E FLAG_MINIMALDATA"

definition num :: "eval_env \<Rightarrow> bytes \<Rightarrow> script_error + int" where
  "num E v = script_num v (require_minimal E) MAX_SCRIPTNUM_SIZE"

definition vch_bool :: "bool \<Rightarrow> bytes" where
  "vch_bool b = (if b then [1] else [])"

definition set_stack :: "machine \<Rightarrow> bytes list \<Rightarrow> script_error + machine" where
  "set_stack m st = Inr (m\<lparr>m_stack := st\<rparr>)"

definition wrapping_i64 :: "int \<Rightarrow> int" where
  "wrapping_i64 x = signed_take_bit 63 x"

section \<open>Lock times and conditionals\<close>

definition SEQUENCE_LOCKTIME_DISABLE_FLAG :: u32 where
  "SEQUENCE_LOCKTIME_DISABLE_FLAG = 0x80000000"

definition op_locktime :: "eval_env \<Rightarrow> u8 \<Rightarrow> machine \<Rightarrow> script_error + machine" where
  "op_locktime E opcode m =
     (if opcode = OP_CHECKLOCKTIMEVERIFY then
        if \<not> has_flag E FLAG_CHECKLOCKTIMEVERIFY then Inr m
        else case m_stack m of [] \<Rightarrow> Inl InvalidStackOperation
        | v # _ \<Rightarrow> res_bind (script_num v (require_minimal E) 5) (\<lambda>locktime.
            if locktime < 0 then Inl NegativeLocktime
            else if \<not> check_locktime (e_checker E) locktime then Inl UnsatisfiedLocktime
            else Inr m)
      else
        if \<not> has_flag E FLAG_CHECKSEQUENCEVERIFY then Inr m
        else case m_stack m of [] \<Rightarrow> Inl InvalidStackOperation
        | v # _ \<Rightarrow> res_bind (script_num v (require_minimal E) 5) (\<lambda>sequence.
            if sequence < 0 then Inl NegativeLocktime
            else if sequence AND int (unat SEQUENCE_LOCKTIME_DISABLE_FLAG) \<noteq> 0 then Inr m
            else if \<not> check_sequence (e_checker E) sequence then Inl UnsatisfiedLocktime
            else Inr m))"

definition op_if :: "eval_env \<Rightarrow> bool \<Rightarrow> u8 \<Rightarrow> machine \<Rightarrow> script_error + machine" where
  "op_if E f_exec opcode m =
     (if f_exec then
        case m_stack m of [] \<Rightarrow> Inl UnbalancedConditional
        | vch # rest \<Rightarrow>
            let unclean = length vch > 1 \<or> (length vch = 1 \<and> vch ! 0 \<noteq> 1) in
            if e_sigversion E = Tapscript \<and> unclean then Inl TapscriptMinimalIf
            else if e_sigversion E = WitnessV0 \<and> has_flag E FLAG_MINIMALIF \<and> unclean then Inl MinimalIf
            else
              let f_value = cast_to_bool vch;
                  f_value = (if opcode = OP_NOTIF then \<not> f_value else f_value)
              in Inr (m\<lparr>m_stack := rest, m_cond := cond_push f_value (m_cond m)\<rparr>)
      else Inr (m\<lparr>m_cond := cond_push False (m_cond m)\<rparr>))"

definition op_else_endif :: "u8 \<Rightarrow> machine \<Rightarrow> script_error + machine" where
  "op_else_endif opcode m =
     (if cond_is_empty (m_cond m) then Inl UnbalancedConditional
      else if opcode = OP_ELSE then Inr (m\<lparr>m_cond := cond_toggle_top (m_cond m)\<rparr>)
      else Inr (m\<lparr>m_cond := cond_pop (m_cond m)\<rparr>))"

definition op_verify :: "machine \<Rightarrow> script_error + machine" where
  "op_verify m =
     (case m_stack m of [] \<Rightarrow> Inl InvalidStackOperation
      | v # rest \<Rightarrow> if cast_to_bool v then set_stack m rest else Inl Verify)"

section \<open>Stack operations\<close>

definition op_altstack :: "u8 \<Rightarrow> machine \<Rightarrow> script_error + machine" where
  "op_altstack opcode m =
     (if opcode = OP_TOALTSTACK then
        case m_stack m of [] \<Rightarrow> Inl InvalidStackOperation
        | v # rest \<Rightarrow> Inr (m\<lparr>m_stack := rest, m_altstack := v # m_altstack m\<rparr>)
      else
        case m_altstack m of [] \<Rightarrow> Inl InvalidAltstackOperation
        | v # rest \<Rightarrow> Inr (m\<lparr>m_stack := v # m_stack m, m_altstack := rest\<rparr>))"

definition op_multi :: "u8 \<Rightarrow> machine \<Rightarrow> script_error + machine" where
  "op_multi opcode m =
     (let st = m_stack m; bad = Inl InvalidStackOperation in
      if opcode = OP_2DROP then (case st of _ # _ # r \<Rightarrow> set_stack m r | _ \<Rightarrow> bad)
      else if opcode = OP_2DUP then
        (case st of x2 # x1 # r \<Rightarrow> set_stack m (x2 # x1 # x2 # x1 # r) | _ \<Rightarrow> bad)
      else if opcode = OP_3DUP then
        (case st of x3 # x2 # x1 # r \<Rightarrow> set_stack m (x3 # x2 # x1 # x3 # x2 # x1 # r) | _ \<Rightarrow> bad)
      else if opcode = OP_2OVER then
        (case st of x4 # x3 # x2 # x1 # r \<Rightarrow> set_stack m (x2 # x1 # x4 # x3 # x2 # x1 # r) | _ \<Rightarrow> bad)
      else if opcode = OP_2ROT then
        (case st of x6 # x5 # x4 # x3 # x2 # x1 # r \<Rightarrow> set_stack m (x2 # x1 # x6 # x5 # x4 # x3 # r)
         | _ \<Rightarrow> bad)
      else
        (case st of x4 # x3 # x2 # x1 # r \<Rightarrow> set_stack m (x2 # x1 # x4 # x3 # r) | _ \<Rightarrow> bad))"

definition op_single :: "u8 \<Rightarrow> machine \<Rightarrow> script_error + machine" where
  "op_single opcode m =
     (let st = m_stack m; bad = Inl InvalidStackOperation in
      if opcode = OP_IFDUP then
        (case st of x # r \<Rightarrow> set_stack m (if cast_to_bool x then x # x # r else x # r) | _ \<Rightarrow> bad)
      else if opcode = OP_DEPTH then set_stack m (encode_script_num (int (length st)) # st)
      else if opcode = OP_DROP then (case st of _ # r \<Rightarrow> set_stack m r | _ \<Rightarrow> bad)
      else if opcode = OP_DUP then (case st of x # r \<Rightarrow> set_stack m (x # x # r) | _ \<Rightarrow> bad)
      else if opcode = OP_NIP then (case st of x2 # x1 # r \<Rightarrow> set_stack m (x2 # r) | _ \<Rightarrow> bad)
      else (case st of x2 # x1 # r \<Rightarrow> set_stack m (x1 # x2 # x1 # r) | _ \<Rightarrow> bad))"

definition op_pick_roll :: "eval_env \<Rightarrow> u8 \<Rightarrow> machine \<Rightarrow> script_error + machine" where
  "op_pick_roll E opcode m =
     (if length (m_stack m) < 2 then Inl InvalidStackOperation
      else res_bind (num E (hd (m_stack m))) (\<lambda>v.
        let n = getint v; st = tl (m_stack m) in
        if n < 0 \<or> n \<ge> int (length st) then Inl InvalidStackOperation
        else
          let n = nat n; v = st ! n; st = (if opcode = OP_ROLL then take n st @ drop (Suc n) st else st)
          in set_stack m (v # st)))"

definition op_rotate :: "u8 \<Rightarrow> machine \<Rightarrow> script_error + machine" where
  "op_rotate opcode m =
     (let st = m_stack m; bad = Inl InvalidStackOperation in
      if opcode = OP_ROT then (case st of x3 # x2 # x1 # r \<Rightarrow> set_stack m (x1 # x3 # x2 # r) | _ \<Rightarrow> bad)
      else if opcode = OP_SWAP then (case st of x2 # x1 # r \<Rightarrow> set_stack m (x1 # x2 # r) | _ \<Rightarrow> bad)
      else if opcode = OP_TUCK then (case st of x2 # x1 # r \<Rightarrow> set_stack m (x2 # x1 # x2 # r) | _ \<Rightarrow> bad)
      else (case st of x # r \<Rightarrow> set_stack m (encode_script_num (int (length x)) # x # r) | _ \<Rightarrow> bad))"

section \<open>Comparison and arithmetic\<close>

definition op_equal :: "u8 \<Rightarrow> machine \<Rightarrow> script_error + machine" where
  "op_equal opcode m =
     (case m_stack m of
        x2 # x1 # r \<Rightarrow>
          let equal = (x1 = x2) in
          if opcode = OP_EQUALVERIFY then (if equal then set_stack m r else Inl EqualVerify)
          else set_stack m (vch_bool equal # r)
      | _ \<Rightarrow> Inl InvalidStackOperation)"

definition unary_num :: "u8 \<Rightarrow> int \<Rightarrow> int" where
  "unary_num opcode bn =
     (if opcode = OP_1ADD then wrapping_i64 (bn + 1)
      else if opcode = OP_1SUB then wrapping_i64 (bn - 1)
      else if opcode = OP_NEGATE then wrapping_i64 (- bn)
      else if opcode = OP_ABS then (if bn < 0 then wrapping_i64 (- bn) else bn)
      else if opcode = OP_NOT then (if bn = 0 then 1 else 0)
      else (if bn \<noteq> 0 then 1 else 0))"

definition op_unary :: "eval_env \<Rightarrow> u8 \<Rightarrow> machine \<Rightarrow> script_error + machine" where
  "op_unary E opcode m =
     (case m_stack m of
        x # r \<Rightarrow> res_bind (num E x) (\<lambda>bn. set_stack m (encode_script_num (unary_num opcode bn) # r))
      | _ \<Rightarrow> Inl InvalidStackOperation)"

definition binary_num :: "u8 \<Rightarrow> int \<Rightarrow> int \<Rightarrow> int" where
  "binary_num opcode bn1 bn2 =
     (if opcode = OP_ADD then wrapping_i64 (bn1 + bn2)
      else if opcode = OP_SUB then wrapping_i64 (bn1 - bn2)
      else if opcode = OP_BOOLAND then of_bool (bn1 \<noteq> 0 \<and> bn2 \<noteq> 0)
      else if opcode = OP_BOOLOR then of_bool (bn1 \<noteq> 0 \<or> bn2 \<noteq> 0)
      else if opcode = OP_NUMEQUAL \<or> opcode = OP_NUMEQUALVERIFY then of_bool (bn1 = bn2)
      else if opcode = OP_NUMNOTEQUAL then of_bool (bn1 \<noteq> bn2)
      else if opcode = OP_LESSTHAN then of_bool (bn1 < bn2)
      else if opcode = OP_GREATERTHAN then of_bool (bn1 > bn2)
      else if opcode = OP_LESSTHANOREQUAL then of_bool (bn1 \<le> bn2)
      else if opcode = OP_GREATERTHANOREQUAL then of_bool (bn1 \<ge> bn2)
      else if opcode = OP_MIN then min bn1 bn2
      else max bn1 bn2)"

definition op_binary :: "eval_env \<Rightarrow> u8 \<Rightarrow> machine \<Rightarrow> script_error + machine" where
  "op_binary E opcode m =
     (case m_stack m of
        x2 # x1 # r \<Rightarrow>
          res_bind (num E x1) (\<lambda>bn1. res_bind (num E x2) (\<lambda>bn2.
            let v = encode_script_num (binary_num opcode bn1 bn2) in
            if opcode = OP_NUMEQUALVERIFY then
              (if cast_to_bool v then set_stack m r else Inl NumEqualVerify)
            else set_stack m (v # r)))
      | _ \<Rightarrow> Inl InvalidStackOperation)"

definition op_within :: "eval_env \<Rightarrow> machine \<Rightarrow> script_error + machine" where
  "op_within E m =
     (case m_stack m of
        x3 # x2 # x1 # r \<Rightarrow>
          res_bind (num E x1) (\<lambda>bn1. res_bind (num E x2) (\<lambda>bn2. res_bind (num E x3) (\<lambda>bn3.
            set_stack m (vch_bool (bn2 \<le> bn1 \<and> bn1 < bn3) # r))))
      | _ \<Rightarrow> Inl InvalidStackOperation)"

definition op_crypto :: "eval_env \<Rightarrow> u8 \<Rightarrow> machine \<Rightarrow> script_error + machine" where
  "op_crypto E opcode m =
     (let H = e_hashes E in
      case m_stack m of
        vch # r \<Rightarrow> set_stack m
          ((if opcode = OP_RIPEMD160 then ripemd160 H vch
            else if opcode = OP_SHA1 then sha1 H vch
            else if opcode = OP_SHA256 then sha256 H vch
            else if opcode = OP_HASH160 then ripemd160 H (sha256 H vch)
            else sha256 H (sha256 H vch)) # r)
      | _ \<Rightarrow> Inl InvalidStackOperation)"

end
