(* ===== verification/Interp_Run.thy ===== *)
theory Interp_Run
  imports Interp_Eval
begin

text \<open>
  The rest of the interpreter of \<open>src/crates/avila-consensus/src/interpreter.rs\<close>: the signature
  opcodes, the loop of \<open>eval_script\<close>, taproot hashing, witness programs and \<open>verify_script\<close>.
\<close>

section \<open>Checking one signature\<close>

definition eval_checksig_pre_tapscript :: "eval_env \<Rightarrow> bytes \<Rightarrow> bytes \<Rightarrow> nat \<Rightarrow> script_error + bool" where
  "eval_checksig_pre_tapscript E sig pubkey script_code_start =
     (let flags = e_flags E; sigversion = e_sigversion E;
          script_code = drop script_code_start (e_bytes E)
      in res_bind
        (if sigversion = Base then
           (case find_and_delete script_code (push_slice sig) of
              (script_code, found) \<Rightarrow>
                if found > 0 \<and> has_flag E FLAG_CONST_SCRIPTCODE then Inl SigFindAndDelete
                else Inr script_code)
         else Inr script_code)
        (\<lambda>script_code. res_bind (check_signature_encoding sig flags)
          (\<lambda>_. res_bind (check_pubkey_encoding pubkey flags sigversion)
            (\<lambda>_. let success = check_ecdsa_signature (e_checker E) sig pubkey script_code sigversion in
                 if \<not> success \<and> has_flag E FLAG_NULLFAIL \<and> sig \<noteq> [] then Inl SigNullFail
                 else Inr success))))"

definition eval_checksig_tapscript ::
  "eval_env \<Rightarrow> bytes \<Rightarrow> bytes \<Rightarrow> exec_data \<Rightarrow> script_error + (bool \<times> exec_data)" where
  "eval_checksig_tapscript E sig pubkey execdata =
     (let success = (sig \<noteq> []);
          left = validation_weight_left execdata - VALIDATION_WEIGHT_PER_SIGOP_PASSED;
          execdata = (if success then execdata\<lparr>validation_weight_left := left\<rparr> else execdata)
      in if success \<and> left < 0 then Inl TapscriptValidationWeight
         else if pubkey = [] then Inl PubkeyType
         else if length pubkey = 32 then
           (if success then
              res_bind (check_schnorr_signature (e_checker E) sig pubkey Tapscript execdata)
                (\<lambda>execdata. Inr (success, execdata))
            else Inr (success, execdata))
         else if has_flag E FLAG_DISCOURAGE_UPGRADABLE_PUBKEYTYPE then Inl DiscourageUpgradablePubkeyType
         else Inr (success, execdata))"

text \<open>The dispatcher; \<open>Taproot\<close> is \<open>unreachable!\<close> in the code: no caller executes a script under it.\<close>

definition eval_checksig ::
  "eval_env \<Rightarrow> bytes \<Rightarrow> bytes \<Rightarrow> nat \<Rightarrow> exec_data \<Rightarrow> script_error + (bool \<times> exec_data)" where
  "eval_checksig E sig pubkey script_code_start execdata =
     (case e_sigversion E of
        Tapscript \<Rightarrow> eval_checksig_tapscript E sig pubkey execdata
      | Taproot \<Rightarrow> Inl UnknownError
      | _ \<Rightarrow> res_bind (eval_checksig_pre_tapscript E sig pubkey script_code_start)
          (\<lambda>success. Inr (success, execdata)))"

definition op_checksig :: "eval_env \<Rightarrow> u8 \<Rightarrow> machine \<Rightarrow> script_error + machine" where
  "op_checksig E opcode m =
     (case m_stack m of
        pubkey # sig # r \<Rightarrow>
          res_bind (eval_checksig E sig pubkey (m_pbegincodehash m) (m_execdata m))
            (\<lambda>(success, execdata).
              let m = m\<lparr>m_execdata := execdata\<rparr> in
              if opcode = OP_CHECKSIGVERIFY then (if success then set_stack m r else Inl CheckSigVerify)
              else set_stack m (vch_bool success # r))
      | _ \<Rightarrow> Inl InvalidStackOperation)"

definition op_checksigadd :: "eval_env \<Rightarrow> machine \<Rightarrow> script_error + machine" where
  "op_checksigadd E m =
     (if e_sigversion E = Base \<or> e_sigversion E = WitnessV0 then Inl BadOpcode
      else case m_stack m of
        pubkey # n # sig # r \<Rightarrow>
          res_bind (num E n) (\<lambda>n.
            res_bind (eval_checksig E sig pubkey (m_pbegincodehash m) (m_execdata m))
              (\<lambda>(success, execdata).
                set_stack (m\<lparr>m_execdata := execdata\<rparr>) (encode_script_num (n + of_bool success) # r)))
      | _ \<Rightarrow> Inl InvalidStackOperation)"

section \<open>OP_CHECKMULTISIG\<close>

text \<open>Removing the signatures at \<open>isig\<close>, \<open>isig + 1\<close>, ... below the top from the script code.\<close>

fun delete_sigs :: "eval_env \<Rightarrow> bytes list \<Rightarrow> bytes \<Rightarrow> script_error + bytes" where
  "delete_sigs E [] script_code = Inr script_code"
| "delete_sigs E (sig # sigs) script_code =
     (case find_and_delete script_code (push_slice sig) of
        (script_code, found) \<Rightarrow>
          if found > 0 \<and> has_flag E FLAG_CONST_SCRIPTCODE then Inl SigFindAndDelete
          else delete_sigs E sigs script_code)"

text \<open>The \<open>while success && sigs_count > 0\<close> loop; \<open>st ! (k - 1)\<close> is \<open>top!(k)\<close>.\<close>

function multisig_loop ::
  "eval_env \<Rightarrow> bytes list \<Rightarrow> bytes \<Rightarrow> nat \<Rightarrow> nat \<Rightarrow> nat \<Rightarrow> nat \<Rightarrow> script_error + bool" where
  "multisig_loop E st script_code isig ikey sigs_count keys_count =
     (if sigs_count = 0 then Inr True
      else
        let sig = st ! (isig - 1); pubkey = st ! (ikey - 1)
        in res_bind (check_signature_encoding sig (e_flags E)) (\<lambda>_.
           res_bind (check_pubkey_encoding pubkey (e_flags E) (e_sigversion E)) (\<lambda>_.
             let ok = check_ecdsa_signature (e_checker E) sig pubkey script_code (e_sigversion E);
                 isig = (if ok then isig + 1 else isig);
                 sigs_count = (if ok then sigs_count - 1 else sigs_count);
                 keys_count = keys_count - 1
             in if sigs_count > keys_count then Inr False
                else multisig_loop E st script_code isig (ikey + 1) sigs_count keys_count)))"
  by auto
termination
  by (relation "measure (\<lambda>(E, st, sc, isig, ikey, sigs, keys). sigs + keys)") (auto split: if_splits)

declare multisig_loop.simps [simp del]

text \<open>The clean-up loop \<open>while i > 1\<close>.\<close>

fun multisig_cleanup :: "eval_env \<Rightarrow> bool \<Rightarrow> nat \<Rightarrow> nat \<Rightarrow> bytes list \<Rightarrow> script_error + bytes list" where
  "multisig_cleanup E success i ikey2 [] = Inr []"
| "multisig_cleanup E success i ikey2 (v # r) =
     (if i > 1 then
        if \<not> success \<and> has_flag E FLAG_NULLFAIL \<and> ikey2 = 0 \<and> v \<noteq> [] then Inl SigNullFail
        else multisig_cleanup E success (i - 1) (ikey2 - 1) r
      else Inr (v # r))"

definition multisig_finish ::
  "eval_env \<Rightarrow> u8 \<Rightarrow> bool \<Rightarrow> machine \<Rightarrow> script_error + machine" where
  "multisig_finish E opcode success m =
     (case m_stack m of [] \<Rightarrow> Inl InvalidStackOperation
      | dummy # r \<Rightarrow>
          if has_flag E FLAG_NULLDUMMY \<and> dummy \<noteq> [] then Inl SigNullDummy
          else if opcode = OP_CHECKMULTISIGVERIFY then
            (if success then set_stack m r else Inl CheckMultisigVerify)
          else set_stack m (vch_bool success # r))"

definition op_multisig :: "eval_env \<Rightarrow> u8 \<Rightarrow> machine \<Rightarrow> script_error + machine" where
  "op_multisig E opcode m =
     (let st = m_stack m in
      if e_sigversion E = Tapscript then Inl TapscriptCheckMultisig
      else if length st < 1 then Inl InvalidStackOperation
      else res_bind (num E (st ! 0)) (\<lambda>v.
        let keys_count = getint v in
        if keys_count < 0 \<or> keys_count > int MAX_PUBKEYS_PER_MULTISIG then Inl PubkeyCount
        else
          let m = m\<lparr>m_op_count := m_op_count m + keys_count\<rparr>; keys_count = nat keys_count;
              ikey = 2; ikey2 = keys_count + 2; i = 2 + keys_count in
          if m_op_count m > MAX_OPS_PER_SCRIPT then Inl OpCount
          else if length st < i then Inl InvalidStackOperation
          else res_bind (num E (st ! (i - 1))) (\<lambda>v.
            let sigs_count = getint v in
            if sigs_count < 0 \<or> sigs_count > int keys_count then Inl SigCount
            else
              let sigs_count = nat sigs_count; isig = i + 1; i = isig + sigs_count in
              if length st < i then Inl InvalidStackOperation
              else
                let script_code = drop (m_pbegincodehash m) (e_bytes E) in
                res_bind (if e_sigversion E = Base
                          then delete_sigs E (take sigs_count (drop (isig - 1) st)) script_code
                          else Inr script_code) (\<lambda>script_code.
                res_bind (multisig_loop E st script_code isig ikey sigs_count keys_count) (\<lambda>success.
                res_bind (multisig_cleanup E success i ikey2 st) (\<lambda>st.
                  multisig_finish E opcode success (m\<lparr>m_stack := st\<rparr>)))))))"

section \<open>The loop\<close>

definition disabled_opcode :: "u8 \<Rightarrow> bool" where
  "disabled_opcode opcode \<longleftrightarrow> opcode \<in>
     {OP_CAT, OP_SUBSTR, OP_LEFT, OP_RIGHT, OP_INVERT, OP_AND, OP_OR, OP_XOR, OP_2MUL, OP_2DIV, OP_MUL,
      OP_DIV, OP_MOD, OP_LSHIFT, OP_RSHIFT}"

definition count_op :: "eval_env \<Rightarrow> u8 \<Rightarrow> machine \<Rightarrow> script_error + machine" where
  "count_op E opcode m =
     (if (e_sigversion E = Base \<or> e_sigversion E = WitnessV0) \<and> opcode > OP_16 then
        let m = m\<lparr>m_op_count := m_op_count m + 1\<rparr> in
        if m_op_count m > MAX_OPS_PER_SCRIPT then Inl OpCount else Inr m
      else Inr m)"

text \<open>The \<open>match opcode\<close>.\<close>

definition exec_op :: "eval_env \<Rightarrow> bool \<Rightarrow> u8 \<Rightarrow> machine \<Rightarrow> script_error + machine" where
  "exec_op E f_exec opcode m =
     (if opcode = OP_1NEGATE \<or> (OP_1 \<le> opcode \<and> opcode \<le> OP_16) then
        set_stack m (encode_script_num (int (unat opcode) - int (unat (OP_1 - 1))) # m_stack m)
      else if opcode = OP_NOP then Inr m
      else if opcode = OP_CHECKLOCKTIMEVERIFY \<or> opcode = OP_CHECKSEQUENCEVERIFY then op_locktime E opcode m
      else if opcode = OP_NOP1 \<or> (OP_NOP4 \<le> opcode \<and> opcode \<le> OP_NOP10) then
        (if has_flag E FLAG_DISCOURAGE_UPGRADABLE_NOPS then Inl DiscourageUpgradableNops else Inr m)
      else if opcode = OP_IF \<or> opcode = OP_NOTIF then op_if E f_exec opcode m
      else if opcode = OP_ELSE \<or> opcode = OP_ENDIF then op_else_endif opcode m
      else if opcode = OP_VERIFY then op_verify m
      else if opcode = OP_RETURN then Inl OpReturn
      else if opcode = OP_TOALTSTACK \<or> opcode = OP_FROMALTSTACK then op_altstack opcode m
      else if OP_2DROP \<le> opcode \<and> opcode \<le> OP_2SWAP then op_multi opcode m
      else if OP_IFDUP \<le> opcode \<and> opcode \<le> OP_OVER then op_single opcode m
      else if opcode = OP_PICK \<or> opcode = OP_ROLL then op_pick_roll E opcode m
      else if opcode = OP_ROT \<or> opcode = OP_SWAP \<or> opcode = OP_TUCK \<or> opcode = OP_SIZE then op_rotate opcode m
      else if opcode = OP_EQUAL \<or> opcode = OP_EQUALVERIFY then op_equal opcode m
      else if opcode = OP_1ADD \<or> opcode = OP_1SUB \<or> (OP_NEGATE \<le> opcode \<and> opcode \<le> OP_0NOTEQUAL) then
        op_unary E opcode m
      else if opcode = OP_ADD \<or> opcode = OP_SUB \<or> (OP_BOOLAND \<le> opcode \<and> opcode \<le> OP_MAX) then
        op_binary E opcode m
      else if opcode = OP_WITHIN then op_within E m
      else if OP_RIPEMD160 \<le> opcode \<and> opcode \<le> OP_HASH256 then op_crypto E opcode m
      else if opcode = OP_CODESEPARATOR then
        Inr (m\<lparr>m_pbegincodehash := m_pc m,
               m_execdata := (m_execdata m)\<lparr>codeseparator_pos := m_opcode_pos m\<rparr>\<rparr>)
      else if opcode = OP_CHECKSIG \<or> opcode = OP_CHECKSIGVERIFY then op_checksig E opcode m
      else if opcode = OP_CHECKSIGADD then op_checksigadd E m
      else if opcode = OP_CHECKMULTISIG \<or> opcode = OP_CHECKMULTISIGVERIFY then op_multisig E opcode m
      else Inl BadOpcode)"

text \<open>The branch the executed flag and the opcode choose.\<close>

definition exec_instr :: "eval_env \<Rightarrow> u8 \<Rightarrow> bytes \<Rightarrow> machine \<Rightarrow> script_error + machine" where
  "exec_instr E opcode push m =
     (let f_exec = cond_all_true (m_cond m) in
      if f_exec \<and> opcode \<le> OP_PUSHDATA4 then
        (if require_minimal E \<and> \<not> check_minimal_push push opcode then Inl MinimalData
         else set_stack m (push # m_stack m))
      else if f_exec \<or> (OP_IF \<le> opcode \<and> opcode \<le> OP_ENDIF) then exec_op E f_exec opcode m
      else Inr m)"

text \<open>One iteration of \<open>while pc < bytes.len()\<close>.\<close>

definition eval_step :: "eval_env \<Rightarrow> machine \<Rightarrow> script_error + machine" where
  "eval_step E m =
     (case get_op (e_bytes E) (m_pc m) of
        (None, _) \<Rightarrow> Inl BadOpcode
      | (Some (opcode, push), pc) \<Rightarrow>
          if length push > MAX_SCRIPT_ELEMENT_SIZE then Inl PushSize
          else res_bind (count_op E opcode (m\<lparr>m_pc := pc\<rparr>)) (\<lambda>m.
            if disabled_opcode opcode then Inl DisabledOpcode
            else if opcode = OP_CODESEPARATOR \<and> e_sigversion E = Base \<and> has_flag E FLAG_CONST_SCRIPTCODE
              then Inl OpCodeSeparator
            else res_bind (exec_instr E opcode push m) (\<lambda>m.
              if length (m_stack m) + length (m_altstack m) > MAX_STACK_SIZE then Inl StackSize
              else Inr (m\<lparr>m_opcode_pos := m_opcode_pos m + 1\<rparr>))))"

lemma set_stack_eq [simp]: "set_stack m st = Inr m' \<longleftrightarrow> m' = m\<lparr>m_stack := st\<rparr>"
  by (auto simp: set_stack_def)

text \<open>No opcode moves the program counter: the loop's progress is \<open>get_op\<close>'s.\<close>

lemmas op_defs = op_locktime_def op_if_def op_else_endif_def op_verify_def op_altstack_def op_multi_def
  op_single_def op_pick_roll_def op_rotate_def op_equal_def op_unary_def op_binary_def op_within_def
  op_crypto_def op_checksig_def op_checksigadd_def

lemma ops_pc [simp]:
  "op_locktime E opc m = Inr m' \<Longrightarrow> m_pc m' = m_pc m"
  "op_if E f opc m = Inr m' \<Longrightarrow> m_pc m' = m_pc m"
  "op_else_endif opc m = Inr m' \<Longrightarrow> m_pc m' = m_pc m"
  "op_verify m = Inr m' \<Longrightarrow> m_pc m' = m_pc m"
  "op_altstack opc m = Inr m' \<Longrightarrow> m_pc m' = m_pc m"
  "op_pick_roll E opc m = Inr m' \<Longrightarrow> m_pc m' = m_pc m"
  "op_equal opc m = Inr m' \<Longrightarrow> m_pc m' = m_pc m"
  "op_unary E opc m = Inr m' \<Longrightarrow> m_pc m' = m_pc m"
  "op_binary E opc m = Inr m' \<Longrightarrow> m_pc m' = m_pc m"
  "op_within E m = Inr m' \<Longrightarrow> m_pc m' = m_pc m"
  "op_crypto E opc m = Inr m' \<Longrightarrow> m_pc m' = m_pc m"
  "op_checksig E opc m = Inr m' \<Longrightarrow> m_pc m' = m_pc m"
  "op_checksigadd E m = Inr m' \<Longrightarrow> m_pc m' = m_pc m"
  by (auto simp: op_defs Let_def split: list.splits if_splits prod.splits)

lemma op_multi_pc [simp]: "op_multi opc m = Inr m' \<Longrightarrow> m_pc m' = m_pc m"
  by (auto simp: op_multi_def Let_def split: list.splits if_splits)

lemma op_single_pc [simp]: "op_single opc m = Inr m' \<Longrightarrow> m_pc m' = m_pc m"
  by (auto simp: op_single_def Let_def split: list.splits if_splits)

lemma op_rotate_pc [simp]: "op_rotate opc m = Inr m' \<Longrightarrow> m_pc m' = m_pc m"
  by (auto simp: op_rotate_def Let_def split: list.splits if_splits)

lemma op_multisig_pc [simp]: "op_multisig E opc m = Inr m' \<Longrightarrow> m_pc m' = m_pc m"
  by (auto simp: op_multisig_def multisig_finish_def Let_def split: list.splits if_splits)

lemma exec_op_pc: "exec_op E f opc m = Inr m' \<Longrightarrow> m_pc m' = m_pc m"
  unfolding exec_op_def by (auto split: if_splits)

lemma eval_step_pc:
  assumes "eval_step E m = Inr m'"
  shows "m_pc m < m_pc m' \<and> m_pc m' \<le> length (e_bytes E)"
proof -
  obtain opcode push pc where g: "get_op (e_bytes E) (m_pc m) = (Some (opcode, push), pc)"
    using assms by (auto simp: eval_step_def split: prod.splits option.splits)
  then have "m_pc m' = pc"
    using assms by (auto simp: eval_step_def count_op_def exec_instr_def Let_def dest!: exec_op_pc split: if_splits)
  with get_op_progress [OF g] show ?thesis by simp
qed

function eval_loop :: "eval_env \<Rightarrow> machine \<Rightarrow> script_error + machine" where
  "eval_loop E m =
     (if m_pc m < length (e_bytes E) then res_bind (eval_step E m) (\<lambda>m. eval_loop E m) else Inr m)"
  by auto
termination
  by (relation "measure (\<lambda>(E, m). length (e_bytes E) - m_pc m)") (auto dest: eval_step_pc)

declare eval_loop.simps [simp del]

definition eval_script ::
  "hash_fns \<Rightarrow> bytes list \<Rightarrow> script \<Rightarrow> script_flags \<Rightarrow> checker \<Rightarrow> sig_version \<Rightarrow> exec_data \<Rightarrow>
   script_error + (bytes list \<times> exec_data)" where
  "eval_script H stack script flags ck sigversion execdata =
     (if (sigversion = Base \<or> sigversion = WitnessV0) \<and> length script > MAX_SCRIPT_SIZE then Inl ScriptSize
      else
        let E = \<lparr>e_hashes = H, e_bytes = script, e_flags = flags, e_checker = ck, e_sigversion = sigversion\<rparr>;
            m = \<lparr>m_stack = stack, m_altstack = [], m_cond = cond_default, m_op_count = 0, m_pc = 0,
              m_pbegincodehash = 0, m_opcode_pos = 0,
              m_execdata = execdata\<lparr>codeseparator_pos := 0xFFFFFFFF, codeseparator_pos_init := True\<rparr>\<rparr>
        in res_bind (eval_loop E m) (\<lambda>m.
          if \<not> cond_is_empty (m_cond m) then Inl UnbalancedConditional
          else Inr (m_stack m, m_execdata m)))"

end
