(* ===== verification/Interp_Verify.thy ===== *)
theory Interp_Verify
  imports Interp_Run
begin

text \<open>
  Taproot hashing, witness programs and \<open>verify_script\<close> of
  \<open>src/crates/avila-consensus/src/interpreter.rs\<close>. Witness stacks come in the order of the wire, the
  machine's stack is its top first: the two are each other's \<open>rev\<close>.
\<close>

section \<open>Taproot\<close>

definition compute_tapleaf_hash :: "hash_fns \<Rightarrow> u8 \<Rightarrow> bytes \<Rightarrow> hash32" where
  "compute_tapleaf_hash H leaf_version script =
     (let tag = sha256 H (map (\<lambda>c. word_of_nat (of_char c)) ''TapLeaf'')
      in sha256 H (tag @ tag @ [leaf_version] @ write_compact_size (word_of_nat (length script)) @ script))"

definition compute_tapbranch_hash :: "hash_fns \<Rightarrow> hash32 \<Rightarrow> hash32 \<Rightarrow> hash32" where
  "compute_tapbranch_hash H a b =
     (let tag = sha256 H (map (\<lambda>c. word_of_nat (of_char c)) ''TapBranch'')
      in if cmp_bytes a b \<noteq> Greater then sha256 H (tag @ tag @ a @ b) else sha256 H (tag @ tag @ b @ a))"

text \<open>The loop over \<open>as_chunks\<close>: whole nodes only, a remainder is left out.\<close>

fun taproot_path :: "hash_fns \<Rightarrow> nat \<Rightarrow> bytes \<Rightarrow> hash32 \<Rightarrow> hash32" where
  "taproot_path H 0 nodes k = k"
| "taproot_path H (Suc n) nodes k =
     taproot_path H n (drop TAPROOT_CONTROL_NODE_SIZE nodes)
       (compute_tapbranch_hash H k (take TAPROOT_CONTROL_NODE_SIZE nodes))"

definition compute_taproot_merkle_root :: "hash_fns \<Rightarrow> bytes \<Rightarrow> hash32 \<Rightarrow> hash32" where
  "compute_taproot_merkle_root H control tapleaf =
     (let nodes = drop TAPROOT_CONTROL_BASE_SIZE control
      in taproot_path H (length nodes div TAPROOT_CONTROL_NODE_SIZE) nodes tapleaf)"

definition witness_serialized_size :: "bytes list \<Rightarrow> nat" where
  "witness_serialized_size items =
     compact_size_len (word_of_nat (length items)) +
     sum_list (map (\<lambda>i. compact_size_len (word_of_nat (length i)) + length i) items)"

section \<open>Witness programs\<close>

text \<open>The scan for OP_SUCCESSx: \<open>Some r\<close> is an early return of the caller.\<close>

function success_scan :: "bytes \<Rightarrow> script_flags \<Rightarrow> nat \<Rightarrow> (script_error + unit) option" where
  "success_scan exec_script flags pc =
     (if pc < length exec_script then
        case get_op exec_script pc of
          (None, _) \<Rightarrow> Some (Inl BadOpcode)
        | (Some (opcode, _), pc) \<Rightarrow>
            if is_op_success opcode then
              (if flag_set flags FLAG_DISCOURAGE_OP_SUCCESS then Some (Inl DiscourageOpSuccess)
               else Some (Inr ()))
            else success_scan exec_script flags pc
      else None)"
  by auto
termination
  by (relation "measure (\<lambda>(s, f, pc). length s - pc)")
    (auto dest!: sym [of _ "get_op _ _"] get_op_progress)

declare success_scan.simps [simp del]

definition execute_witness_script ::
  "hash_fns \<Rightarrow> bytes list \<Rightarrow> bytes \<Rightarrow> script_flags \<Rightarrow> sig_version \<Rightarrow> checker \<Rightarrow> exec_data \<Rightarrow> script_error + unit"
where
  "execute_witness_script H stack_items exec_script flags sigversion ck execdata =
     (let run = (\<lambda>_ :: unit.
        if \<not> list_all (\<lambda>elem. length elem \<le> MAX_SCRIPT_ELEMENT_SIZE) stack_items then Inl PushSize
        else res_bind (eval_script H (rev stack_items) exec_script flags ck sigversion execdata)
          (\<lambda>(stack, _).
            if length stack \<noteq> 1 then Inl CleanStack
            else if \<not> cast_to_bool (hd stack) then Inl EvalFalse
            else Inr ()))
      in if sigversion = Tapscript then
           (case success_scan exec_script flags 0 of
              Some r \<Rightarrow> r
            | None \<Rightarrow> if length stack_items > MAX_STACK_SIZE then Inl StackSize else run ())
         else run ())"

definition p2pkh_script :: "bytes \<Rightarrow> bytes" where
  "p2pkh_script program = [0x76, OP_HASH160, 0x14] @ program @ [0x88, OP_CHECKSIG]"

text \<open>The annex: the last of at least two items, when it starts with the tag.\<close>

definition split_annex :: "hash_fns \<Rightarrow> bytes list \<Rightarrow> exec_data \<Rightarrow> bytes list \<times> exec_data" where
  "split_annex H stack execdata =
     (if length stack \<ge> 2 \<and> last stack \<noteq> [] \<and> last stack ! 0 = ANNEX_TAG then
        let annex = last stack; annex_ser = write_compact_size (word_of_nat (length annex)) @ annex
        in (butlast stack, execdata\<lparr>annex_hash := Some (sha256 H annex_ser), annex_present := True,
             annex_init := True\<rparr>)
      else (stack, execdata\<lparr>annex_present := False, annex_init := True\<rparr>))"

definition taproot_script_path ::
  "hash_fns \<Rightarrow> witness \<Rightarrow> bytes list \<Rightarrow> bytes \<Rightarrow> script_flags \<Rightarrow> checker \<Rightarrow> exec_data \<Rightarrow> script_error + unit"
where
  "taproot_script_path H wit stack program flags ck execdata =
     (let control = stack ! (length stack - 1); script = stack ! (length stack - 2);
          stack = take (length stack - 2) stack
      in if length control < TAPROOT_CONTROL_BASE_SIZE \<or> length control > TAPROOT_CONTROL_MAX_SIZE \<or>
            (length control - TAPROOT_CONTROL_BASE_SIZE) mod TAPROOT_CONTROL_NODE_SIZE \<noteq> 0
         then Inl TaprootWrongControlSize
         else
           let tapleaf = compute_tapleaf_hash H (control ! 0 AND TAPROOT_LEAF_MASK) script;
               execdata = execdata\<lparr>tapleaf_hash := Some tapleaf\<rparr>
           in if \<not> verify_taproot_commitment ck control program tapleaf then Inl WitnessProgramMismatch
              else
                let execdata = execdata\<lparr>tapleaf_hash_init := True\<rparr> in
                if control ! 0 AND TAPROOT_LEAF_MASK = TAPROOT_LEAF_TAPSCRIPT then
                  execute_witness_script H stack script flags Tapscript ck
                    (execdata\<lparr>validation_weight_left :=
                        int (witness_serialized_size wit) + VALIDATION_WEIGHT_OFFSET,
                      validation_weight_left_init := True\<rparr>)
                else if flag_set flags FLAG_DISCOURAGE_UPGRADABLE_TAPROOT_VERSION
                  then Inl DiscourageUpgradableTaprootVersion
                else Inr ())"

definition verify_taproot ::
  "hash_fns \<Rightarrow> witness \<Rightarrow> bytes \<Rightarrow> script_flags \<Rightarrow> checker \<Rightarrow> script_error + unit" where
  "verify_taproot H wit program flags ck =
     (if \<not> flag_set flags FLAG_TAPROOT then Inr ()
      else if wit = [] then Inl WitnessProgramWitnessEmpty
      else case split_annex H wit exec_data_default of
        (stack, execdata) \<Rightarrow>
          if length stack = 1 then
            res_bind (check_schnorr_signature ck (stack ! 0) program Taproot execdata) (\<lambda>_. Inr ())
          else taproot_script_path H wit stack program flags ck execdata)"

definition verify_witness_program ::
  "hash_fns \<Rightarrow> witness \<Rightarrow> u8 \<Rightarrow> bytes \<Rightarrow> script_flags \<Rightarrow> checker \<Rightarrow> bool \<Rightarrow> script_error + unit" where
  "verify_witness_program H wit witversion program flags ck p2sh =
     (if witversion = 0 then
        if length program = WITNESS_V0_SCRIPTHASH_SIZE then
          if wit = [] then Inl WitnessProgramWitnessEmpty
          else if sha256 H (last wit) \<noteq> program then Inl WitnessProgramMismatch
          else execute_witness_script H (butlast wit) (last wit) flags WitnessV0 ck exec_data_default
        else if length program = WITNESS_V0_KEYHASH_SIZE then
          if length wit \<noteq> 2 then Inl WitnessProgramMismatch
          else execute_witness_script H wit (p2pkh_script program) flags WitnessV0 ck exec_data_default
        else Inl WitnessProgramWrongLength
      else if witversion = 1 \<and> length program = WITNESS_V1_TAPROOT_SIZE \<and> \<not> p2sh then
        verify_taproot H wit program flags ck
      else if \<not> p2sh \<and> is_pay_to_anchor witversion program then Inr ()
      else if flag_set flags FLAG_DISCOURAGE_UPGRADABLE_WITNESS_PROGRAM
        then Inl DiscourageUpgradableWitnessProgram
      else Inr ())"

section \<open>Verifying a script\<close>

text \<open>
  Each of the two witness blocks of \<open>verify_script\<close> yields whether there was a witness program and
  the stack it leaves (\<open>truncate(1)\<close> keeps the bottom element).
\<close>

definition bare_witness ::
  "hash_fns \<Rightarrow> script \<Rightarrow> script \<Rightarrow> witness \<Rightarrow> script_flags \<Rightarrow> checker \<Rightarrow> bytes list \<Rightarrow>
   script_error + (bool \<times> bytes list)" where
  "bare_witness H sig spk wit flags ck stack =
     (if flag_set flags FLAG_WITNESS then
        case witness_program spk of
          Some (witversion, program) \<Rightarrow>
            if sig \<noteq> [] then Inl WitnessMalleated
            else res_bind (verify_witness_program H wit witversion program flags ck False)
              (\<lambda>_. Inr (True, [last stack]))
        | None \<Rightarrow> Inr (False, stack)
      else Inr (False, stack))"

definition p2sh_spend ::
  "hash_fns \<Rightarrow> script \<Rightarrow> witness \<Rightarrow> script_flags \<Rightarrow> checker \<Rightarrow> bool \<Rightarrow> bytes list \<Rightarrow>
   script_error + (bool \<times> bytes list)" where
  "p2sh_spend H sig wit flags ck had_witness stack_copy =
     (if \<not> is_push_only sig then Inl SigPushOnly
      else
        let serialized = (case stack_copy of [] \<Rightarrow> [] | v # _ \<Rightarrow> v); stack = tl stack_copy in
        res_bind (eval_script H stack serialized flags ck Base exec_data_default) (\<lambda>(stack, _).
          if stack = [] \<or> \<not> cast_to_bool (hd stack) then Inl EvalFalse
          else if flag_set flags FLAG_WITNESS then
            (case witness_program serialized of
               Some (witversion, program) \<Rightarrow>
                 if sig \<noteq> push_slice serialized then Inl WitnessMalleatedP2sh
                 else res_bind (verify_witness_program H wit witversion program flags ck True)
                   (\<lambda>_. Inr (True, [last stack]))
             | None \<Rightarrow> Inr (had_witness, stack))
          else Inr (had_witness, stack)))"

definition verify_script ::
  "hash_fns \<Rightarrow> script \<Rightarrow> script \<Rightarrow> witness option \<Rightarrow> script_flags \<Rightarrow> checker \<Rightarrow> script_error + unit" where
  "verify_script H sig spk wit_opt flags ck =
     (let wit = (case wit_opt of Some w \<Rightarrow> w | None \<Rightarrow> []) in
      if flag_set flags FLAG_SIGPUSHONLY \<and> \<not> is_push_only sig then Inl SigPushOnly
      else
        res_bind (eval_script H [] sig flags ck Base exec_data_default) (\<lambda>(stack, _).
        let stack_copy = (if flag_set flags FLAG_P2SH then stack else []) in
        res_bind (eval_script H stack spk flags ck Base exec_data_default) (\<lambda>(stack, _).
        if stack = [] \<or> \<not> cast_to_bool (hd stack) then Inl EvalFalse
        else
          res_bind (bare_witness H sig spk wit flags ck stack) (\<lambda>(had_witness, stack).
          res_bind (if flag_set flags FLAG_P2SH \<and> is_p2sh spk
                    then p2sh_spend H sig wit flags ck had_witness stack_copy
                    else Inr (had_witness, stack)) (\<lambda>(had_witness, stack).
          if flag_set flags FLAG_CLEANSTACK \<and> length stack \<noteq> 1 then Inl CleanStack
          else if flag_set flags FLAG_WITNESS \<and> \<not> had_witness \<and> wit \<noteq> [] then Inl WitnessUnexpected
          else Inr ())))))"

end
