(* ===== verification/Softfork.thy ===== *)
theory Softfork
  imports Interp_Verify Sig_Encoding
begin

text \<open>
  Verification flags only restrict: what \<open>eval_script\<close> of
  \<open>src/crates/avila-consensus/src/interpreter.rs\<close> accepts under a set of flags it accepts, with the
  same stack, under every subset of them. So a rule a node enforces as policy never makes a script
  valid that the rules of the chain reject, and an upgrade that adds a flag is a soft fork.
\<close>

section \<open>Fewer flags\<close>

definition flags_le :: "script_flags \<Rightarrow> script_flags \<Rightarrow> bool" where
  "flags_le f g \<longleftrightarrow> f AND g = f"

abbreviation relax :: "eval_env \<Rightarrow> script_flags \<Rightarrow> eval_env" where
  "relax E f \<equiv> E\<lparr>e_flags := f\<rparr>"

lemma flag_set_mono: "flags_le f g \<Longrightarrow> flag_set f x \<Longrightarrow> flag_set g x"
  unfolding flags_le_def flag_set_def by (metis and.assoc and.commute)

lemma has_flag_relax: "flags_le f (e_flags E) \<Longrightarrow> has_flag (relax E f) x \<Longrightarrow> has_flag E x"
  by (auto simp: has_flag_def intro: flag_set_mono)

lemma relax_sel:
  "e_hashes (relax E f) = e_hashes E" "e_bytes (relax E f) = e_bytes E" "e_flags (relax E f) = f"
  "e_checker (relax E f) = e_checker E" "e_sigversion (relax E f) = e_sigversion E"
  by simp_all

text \<open>The order on results: a value stays, an error may become anything.\<close>

definition res_le :: "'e + 'a \<Rightarrow> 'e + 'a \<Rightarrow> bool" where
  "res_le r r' \<longleftrightarrow> (\<forall>x. r = Inr x \<longrightarrow> r' = Inr x)"

named_theorems res_le_intros \<open>the order passes through every construct of the code\<close>

lemma res_le_refl [intro!, simp]: "res_le r r"
  by (simp add: res_le_def)

lemma res_le_Inl [intro!, simp]: "res_le (Inl e) r"
  by (simp add: res_le_def)

lemma res_leD: "res_le r r' \<Longrightarrow> r = Inr x \<Longrightarrow> r' = Inr x"
  by (simp add: res_le_def)

lemma res_le_bind [res_le_intros]:
  "res_le r r' \<Longrightarrow> (\<And>x. r = Inr x \<Longrightarrow> res_le (k x) (k' x)) \<Longrightarrow> res_le (res_bind r k) (res_bind r' k')"
  by (cases r) (auto simp: res_le_def)

lemma res_le_guard [res_le_intros]:
  "(c' \<Longrightarrow> c) \<Longrightarrow> (\<not> c \<Longrightarrow> res_le a b) \<Longrightarrow> res_le (if c then Inl e else a) (if c' then Inl e else b)"
  by (auto simp: res_le_def)

lemma res_le_if [res_le_intros]:
  "(c \<Longrightarrow> res_le a a') \<Longrightarrow> (\<not> c \<Longrightarrow> res_le b b') \<Longrightarrow> res_le (if c then a else b) (if c then a' else b')"
  by simp

lemma res_le_list [res_le_intros]:
  "res_le a a' \<Longrightarrow> (\<And>x xs. res_le (g x xs) (g' x xs)) \<Longrightarrow>
   res_le (case l of [] \<Rightarrow> a | x # xs \<Rightarrow> g x xs) (case l of [] \<Rightarrow> a' | x # xs \<Rightarrow> g' x xs)"
  by (cases l) simp_all

lemma res_le_prod [res_le_intros]:
  "(\<And>a b. res_le (g a b) (g' a b)) \<Longrightarrow>
   res_le (case p of (a, b) \<Rightarrow> g a b) (case p of (a, b) \<Rightarrow> g' a b)"
  by (cases p) simp

lemma res_le_option [res_le_intros]:
  "res_le a a' \<Longrightarrow> (\<And>x. res_le (g x) (g' x)) \<Longrightarrow>
   res_le (case q of None \<Rightarrow> a | Some x \<Rightarrow> g x) (case q of None \<Rightarrow> a' | Some x \<Rightarrow> g' x)"
  by (cases q) simp_all

lemma res_le_version [res_le_intros]:
  "res_le a a' \<Longrightarrow> res_le b b' \<Longrightarrow> res_le c c' \<Longrightarrow> res_le d d' \<Longrightarrow>
   res_le (case v of Base \<Rightarrow> a | WitnessV0 \<Rightarrow> b | Taproot \<Rightarrow> c | Tapscript \<Rightarrow> d)
     (case v of Base \<Rightarrow> a' | WitnessV0 \<Rightarrow> b' | Taproot \<Rightarrow> c' | Tapscript \<Rightarrow> d')"
  by (cases v) simp_all

lemma script_num_le [res_le_intros]:
  "(r' \<Longrightarrow> r) \<Longrightarrow> res_le (script_num v r k) (script_num v r' k)"
  by (auto simp: script_num_eq res_le_def)

lemma check_signature_encoding_le [res_le_intros]:
  assumes "flags_le f g"
  shows "res_le (check_signature_encoding sig g) (check_signature_encoding sig f)"
proof -
  have "check_signature_encoding sig g = Inr () \<Longrightarrow> check_signature_encoding sig f = Inr ()"
    unfolding check_signature_encoding_ok
    using flag_set_mono [OF assms, of FLAG_DERSIG] flag_set_mono [OF assms, of FLAG_LOW_S]
      flag_set_mono [OF assms, of FLAG_STRICTENC] by blast
  then show ?thesis by (simp add: res_le_def)
qed

lemma check_pubkey_encoding_le [res_le_intros]:
  "flags_le f g \<Longrightarrow> res_le (check_pubkey_encoding k g sv) (check_pubkey_encoding k f sv)"
  unfolding check_pubkey_encoding_def by (intro res_le_intros) (auto dest: flag_set_mono)

section \<open>Operations\<close>

lemma num_le [res_le_intros]:
  "flags_le f (e_flags E) \<Longrightarrow> res_le (num E v) (num (relax E f) v)"
  unfolding num_def by (intro res_le_intros) (auto simp: require_minimal_def dest: has_flag_relax)

lemma op_locktime_le [res_le_intros]:
  assumes "flags_le f (e_flags E)"
  shows "res_le (op_locktime E opc m) (op_locktime (relax E f) opc m)"
proof -
  have "res_le (script_num v (require_minimal E) 5) (script_num v (require_minimal (relax E f)) 5)" for v
    by (intro res_le_intros) (auto simp: require_minimal_def dest: has_flag_relax [OF assms])
  then show ?thesis
    unfolding res_le_def op_locktime_def
    by (auto simp: res_bind_eq_Inr split: if_splits list.splits dest: has_flag_relax [OF assms])
qed

lemma op_if_le [res_le_intros]:
  assumes "flags_le f (e_flags E)"
  shows "res_le (op_if E x opc m) (op_if (relax E f) x opc m)"
  unfolding op_if_def Let_def relax_sel
  by (intro res_le_intros) (auto dest: has_flag_relax [OF assms])

lemma op_nums_le [res_le_intros]:
  assumes "flags_le f (e_flags E)"
  shows "res_le (op_pick_roll E opc m) (op_pick_roll (relax E f) opc m)"
    and "res_le (op_unary E opc m) (op_unary (relax E f) opc m)"
    and "res_le (op_binary E opc m) (op_binary (relax E f) opc m)"
    and "res_le (op_within E m) (op_within (relax E f) m)"
    and "res_le (op_crypto E opc m) (op_crypto (relax E f) opc m)"
  unfolding op_pick_roll_def op_unary_def op_binary_def op_within_def op_crypto_def Let_def
  by (intro res_le_intros assms; simp)+

section \<open>Signatures\<close>

lemma pre_tapscript_le [res_le_intros]:
  assumes "flags_le f (e_flags E)"
  shows "res_le (eval_checksig_pre_tapscript E sig k n) (eval_checksig_pre_tapscript (relax E f) sig k n)"
  unfolding eval_checksig_pre_tapscript_def Let_def relax_sel
  by (intro res_le_intros assms) (auto dest: has_flag_relax [OF assms])

lemma tapscript_le [res_le_intros]:
  assumes "flags_le f (e_flags E)"
  shows "res_le (eval_checksig_tapscript E sig k x) (eval_checksig_tapscript (relax E f) sig k x)"
  unfolding eval_checksig_tapscript_def Let_def relax_sel
  by (intro res_le_intros) (auto dest: has_flag_relax [OF assms])

lemma checksig_le [res_le_intros]:
  assumes "flags_le f (e_flags E)"
  shows "res_le (eval_checksig E sig k n x) (eval_checksig (relax E f) sig k n x)"
  unfolding eval_checksig_def relax_sel by (intro res_le_intros assms) simp_all

lemma op_checksigs_le [res_le_intros]:
  assumes "flags_le f (e_flags E)"
  shows "res_le (op_checksig E opc m) (op_checksig (relax E f) opc m)"
    and "res_le (op_checksigadd E m) (op_checksigadd (relax E f) m)"
  unfolding op_checksig_def op_checksigadd_def Let_def relax_sel
  by (intro res_le_intros assms; simp)+

lemma delete_sigs_le [res_le_intros]:
  assumes "flags_le f (e_flags E)"
  shows "res_le (delete_sigs E sigs sc) (delete_sigs (relax E f) sigs sc)"
proof (induction sigs arbitrary: sc)
  case (Cons sig sigs)
  show ?case
    unfolding delete_sigs.simps by (intro res_le_intros Cons.IH) (auto dest: has_flag_relax [OF assms])
qed simp

lemma multisig_loop_le [res_le_intros]:
  assumes "flags_le f (e_flags E)"
  shows "res_le (multisig_loop E st sc i k s n) (multisig_loop (relax E f) st sc i k s n)"
  using assms
proof (induction E st sc i k s n rule: multisig_loop.induct)
  case (1 E st sc i k s n)
  show ?case
    unfolding multisig_loop.simps [of E st sc i k s n] multisig_loop.simps [of "relax E f" st sc i k s n]
      Let_def relax_sel
    by (intro res_le_intros 1(2) 1(1)) simp_all
qed

lemma multisig_cleanup_le [res_le_intros]:
  assumes "flags_le f (e_flags E)"
  shows "res_le (multisig_cleanup E s i k st) (multisig_cleanup (relax E f) s i k st)"
proof (induction st arbitrary: i k)
  case (Cons v r)
  show ?case
    unfolding multisig_cleanup.simps by (intro res_le_intros Cons.IH) (auto dest: has_flag_relax [OF assms])
qed simp

lemma multisig_finish_le [res_le_intros]:
  assumes "flags_le f (e_flags E)"
  shows "res_le (multisig_finish E opc s m) (multisig_finish (relax E f) opc s m)"
  unfolding multisig_finish_def by (intro res_le_intros) (auto dest: has_flag_relax [OF assms])

lemma op_multisig_le [res_le_intros]:
  assumes "flags_le f (e_flags E)"
  shows "res_le (op_multisig E opc m) (op_multisig (relax E f) opc m)"
  unfolding op_multisig_def Let_def relax_sel
  by (intro res_le_intros assms; simp)

section \<open>The loop\<close>

lemma exec_op_le [res_le_intros]:
  assumes "flags_le f (e_flags E)"
  shows "res_le (exec_op E x opc m) (exec_op (relax E f) x opc m)"
  unfolding exec_op_def
  by (intro res_le_intros assms) (auto dest: has_flag_relax [OF assms])

lemma exec_instr_le [res_le_intros]:
  assumes "flags_le f (e_flags E)"
  shows "res_le (exec_instr E opc push m) (exec_instr (relax E f) opc push m)"
  unfolding exec_instr_def Let_def
  by (intro res_le_intros assms) (auto simp: require_minimal_def dest: has_flag_relax [OF assms])

lemma eval_step_le [res_le_intros]:
  assumes "flags_le f (e_flags E)"
  shows "res_le (eval_step E m) (eval_step (relax E f) m)"
  unfolding eval_step_def count_op_def Let_def relax_sel
  by (intro res_le_intros assms) (auto dest: has_flag_relax [OF assms])

lemma eval_loop_le [res_le_intros]:
  assumes "flags_le f (e_flags E)"
  shows "res_le (eval_loop E m) (eval_loop (relax E f) m)"
  using assms
proof (induction E m rule: eval_loop.induct)
  case (1 E m)
  show ?case
  proof (cases "m_pc m < length (e_bytes E) \<and> is_ok (eval_step E m)")
    case True
    then obtain m' where m': "eval_step E m = Inr m'" by (auto simp: is_ok_iff)
    then have "eval_step (relax E f) m = Inr m'" using eval_step_le [OF 1(2)] by (rule res_leD [rotated])
    with m' True 1 show ?thesis
      unfolding eval_loop.simps [of E m] eval_loop.simps [of "relax E f" m] by simp
  next
    case False
    then show ?thesis
      unfolding eval_loop.simps [of E m] eval_loop.simps [of "relax E f" m]
      by (cases "eval_step E m") simp_all
  qed
qed

lemma eval_script_le [res_le_intros]:
  assumes "flags_le f g"
  shows "res_le (eval_script H st s g ck sv x) (eval_script H st s f ck sv x)"
proof -
  have "res_le (eval_loop \<lparr>e_hashes = H, e_bytes = s, e_flags = g, e_checker = ck, e_sigversion = sv\<rparr> m)
    (eval_loop \<lparr>e_hashes = H, e_bytes = s, e_flags = f, e_checker = ck, e_sigversion = sv\<rparr> m)" for m
    using eval_loop_le [of f "\<lparr>e_hashes = H, e_bytes = s, e_flags = g, e_checker = ck, e_sigversion = sv\<rparr>" m]
      assms by simp
  then show ?thesis
    unfolding eval_script_def Let_def by (intro res_le_intros) simp_all
qed

section \<open>Witness programs and whole scripts\<close>

lemma res_le_unit [simp, intro!]: "res_le r (Inr ())"
  by (simp add: res_le_def)

lemma success_scan_le:
  "flags_le f g \<Longrightarrow> rel_option res_le (success_scan s g pc) (success_scan s f pc)"
proof (induction s g pc rule: success_scan.induct)
  case (1 s g pc)
  then show ?case
    unfolding success_scan.simps [of s g pc] success_scan.simps [of s f pc]
    using flag_set_mono [OF 1(2), of FLAG_DISCOURAGE_OP_SUCCESS]
    by (auto split: prod.splits option.splits)
qed

lemma execute_witness_script_le [res_le_intros]:
  assumes "flags_le f g"
  shows "res_le (execute_witness_script H st s g sv ck x) (execute_witness_script H st s f sv ck x)"
proof -
  have run: "res_le
      (if \<not> list_all (\<lambda>elem. length elem \<le> MAX_SCRIPT_ELEMENT_SIZE) st then Inl PushSize
        else res_bind (eval_script H (rev st) s g ck sv x)
          (\<lambda>(stack, _). if length stack \<noteq> 1 then Inl CleanStack
            else if \<not> cast_to_bool (hd stack) then Inl EvalFalse else Inr ()))
      (if \<not> list_all (\<lambda>elem. length elem \<le> MAX_SCRIPT_ELEMENT_SIZE) st then Inl PushSize
        else res_bind (eval_script H (rev st) s f ck sv x)
          (\<lambda>(stack, _). if length stack \<noteq> 1 then Inl CleanStack
            else if \<not> cast_to_bool (hd stack) then Inl EvalFalse else Inr ()))"
    by (intro res_le_intros assms) simp_all
  show ?thesis
    unfolding execute_witness_script_def Let_def
    using success_scan_le [OF assms, of s 0] run
    by (auto elim!: option.rel_cases intro!: res_le_if res_le_guard)
qed

lemma verify_taproot_le [res_le_intros]:
  assumes "flags_le f g"
  shows "res_le (verify_taproot H w p g ck) (verify_taproot H w p f ck)"
proof (cases "flag_set f FLAG_TAPROOT")
  case True
  then have g: "flag_set g FLAG_TAPROOT" by (rule flag_set_mono [OF assms])
  have "res_le (taproot_script_path H w st p g ck x) (taproot_script_path H w st p f ck x)" for st x
    unfolding taproot_script_path_def Let_def
    by (intro res_le_intros assms) (auto dest: flag_set_mono [OF assms])
  with True g show ?thesis
    unfolding verify_taproot_def by (auto split: prod.splits)
qed (simp add: verify_taproot_def)

lemma verify_witness_program_le [res_le_intros]:
  assumes "flags_le f g"
  shows "res_le (verify_witness_program H w v p g ck b) (verify_witness_program H w v p f ck b)"
  unfolding verify_witness_program_def
  by (intro res_le_intros assms) (auto dest: flag_set_mono [OF assms])

text \<open>The \<open>debug_assert!\<close>s of \<open>verify_script\<close>: CLEANSTACK and WITNESS come with the flags they need.\<close>

definition flags_coherent :: "script_flags \<Rightarrow> bool" where
  "flags_coherent f \<longleftrightarrow>
     (flag_set f FLAG_CLEANSTACK \<longrightarrow> flag_set f FLAG_P2SH \<and> flag_set f FLAG_WITNESS) \<and>
     (flag_set f FLAG_WITNESS \<longrightarrow> flag_set f FLAG_P2SH)"

lemma bare_witness_le [res_le_intros]:
  assumes "flags_le f g" "flag_set f FLAG_WITNESS"
  shows "res_le (bare_witness H sig spk w g ck st) (bare_witness H sig spk w f ck st)"
  unfolding bare_witness_def using flag_set_mono [OF assms] assms(2)
  by (simp, intro res_le_intros assms(1)) (simp_all add: split_def)

lemma p2sh_spend_le [res_le_intros]:
  assumes "flags_le f g" "flag_set f FLAG_WITNESS"
  shows "res_le (p2sh_spend H sig w g ck b st) (p2sh_spend H sig w f ck b st)"
  unfolding p2sh_spend_def Let_def
  by (simp only: flag_set_mono [OF assms] assms(2) if_True, intro res_le_intros assms(1)) simp_all

lemma p2sh_spend_ok:
  assumes "flags_le f g" "\<not> flag_set f FLAG_WITNESS" "p2sh_spend H sig w g ck b st = Inr r"
  shows "\<exists>r'. p2sh_spend H sig w f ck b' st = Inr r'"
  using assms res_leD [OF eval_script_le [OF assms(1)]]
  by (fastforce simp: p2sh_spend_def Let_def split: if_splits)

section \<open>Properties\<close>

text \<open>C16: What \<open>eval_script\<close> accepts under a set of flags it accepts under every subset, with the
  same final stack and execution data, in every signature version.\<close>

theorem eval_script_flags_restrict:
  assumes "flags_le f g" "eval_script H st s g ck sv x = Inr r"
  shows "eval_script H st s f ck sv x = Inr r"
  using res_leD [OF eval_script_le [OF assms(1)] assms(2)] .

text \<open>Witness of C16: a numeric script under MINIMALDATA and under no flag.\<close>

lemma eval_script_flags_restrict_witness:
  "eval_script toy_hashes [] [0x52, 0x53, 0x93] FLAG_NONE base_checker Base exec_data_default =
    Inr ([[5]], exec_data_default\<lparr>codeseparator_pos := 0xffffffff, codeseparator_pos_init := True\<rparr>)"
  by (rule eval_script_flags_restrict [of _ FLAG_MINIMALDATA]; code_simp)

text \<open>C1: Flags are soft forks: a spend \<open>verify_script\<close> accepts under a set of flags stays accepted
  under every coherent subset (WITNESS with P2SH, CLEANSTACK with both).\<close>

theorem verify_script_flags_restrict:
  assumes "flags_le f g" "flags_coherent f" "verify_script H sig spk w g ck = Inr ()"
  shows "verify_script H sig spk w f ck = Inr ()"
proof (cases "flag_set f FLAG_WITNESS")
  case True
  then have p: "flag_set f FLAG_P2SH" using assms(2) by (simp add: flags_coherent_def)
  note g = flag_set_mono [OF assms(1) True] flag_set_mono [OF assms(1) p]
  have "res_le (verify_script H sig spk w g ck) (verify_script H sig spk w f ck)"
    unfolding verify_script_def Let_def
    by (simp only: True p g if_True simp_thms, intro res_le_intros assms(1) True)
      (auto dest: flag_set_mono [OF assms(1)])
  then show ?thesis using assms(3) by (rule res_leD)
next
  case False
  then have c: "\<not> flag_set f FLAG_CLEANSTACK" using assms(2) by (simp add: flags_coherent_def)
  let ?w = "case w of Some w \<Rightarrow> w | None \<Rightarrow> []"
  note ev = res_leD [OF eval_script_le [OF assms(1)]]
  obtain st1 x1 where e1: "eval_script H [] sig g ck Base exec_data_default = Inr (st1, x1)"
    using assms(3) unfolding verify_script_def Let_def by (auto split: if_splits)
  obtain st2 x2 where e2: "eval_script H st1 spk g ck Base exec_data_default = Inr (st2, x2)"
    using assms(3) unfolding verify_script_def Let_def e1 by (auto split: if_splits)
  have top: "st2 \<noteq> []" "cast_to_bool (hd st2)"
    using assms(3) by (auto simp: verify_script_def Let_def e1 e2 split: if_splits)
  have push: "flag_set f FLAG_SIGPUSHONLY \<Longrightarrow> is_push_only sig"
    using assms(3) flag_set_mono [OF assms(1)] unfolding verify_script_def Let_def by (auto split: if_splits)
  have p2sh: "\<exists>r. p2sh_spend H sig ?w f ck False st1 = Inr r" if "flag_set f FLAG_P2SH" "is_p2sh spk"
  proof -
    have "flag_set g FLAG_P2SH" by (rule flag_set_mono [OF assms(1) that(1)])
    with that(2) obtain b q where "p2sh_spend H sig ?w g ck b st1 = Inr q"
      using assms(3) top by (auto simp: verify_script_def Let_def e1 e2 split: if_splits)
    then show ?thesis by (rule p2sh_spend_ok [OF assms(1) False])
  qed
  have bare: "bare_witness H sig spk ?w f ck st2 = Inr (False, st2)"
    using False by (simp add: bare_witness_def)
  show ?thesis
  proof (cases "flag_set f FLAG_P2SH \<and> is_p2sh spk")
    case True
    with p2sh obtain b q where "p2sh_spend H sig ?w f ck False st1 = Inr (b, q)" by fastforce
    with True show ?thesis
      unfolding verify_script_def Let_def ev [OF e1] by (simp add: ev [OF e2] top push bare False c)
  next
    case no: False
    have np: "\<not> (flag_set f FLAG_SIGPUSHONLY \<and> \<not> is_push_only sig)" using push by blast
    show ?thesis
      unfolding verify_script_def Let_def ev [OF e1]
      by (simp only: res_bind_simps prod.case if_not_P [OF np] if_not_P [OF no] ev [OF e2] bare)
        (simp add: top False c)
  qed
qed

text \<open>Witness of C1: two pushes spent by an addition, under five flags and under none.\<close>

lemma verify_script_flags_restrict_witness:
  "verify_script toy_hashes [0x52, 0x53] [0x93, 0x55, 0x87] None FLAG_NONE base_checker = Inr ()"
proof (rule verify_script_flags_restrict)
  let ?g = "FLAG_P2SH OR FLAG_WITNESS OR FLAG_CLEANSTACK OR FLAG_MINIMALDATA OR FLAG_SIGPUSHONLY"
  show "flags_le FLAG_NONE ?g" by (simp add: flags_le_def FLAG_NONE_def)
  show "flags_coherent FLAG_NONE" by code_simp
  show "verify_script toy_hashes [0x52, 0x53] [0x93, 0x55, 0x87] None ?g base_checker = Inr ()"
    by code_simp
qed

end
