(* ===== verification/Interp_Bounds.thy ===== *)
theory Interp_Bounds
  imports Interp_Verify Script_Num
begin

text \<open>
  The resource limits of \<open>eval_script\<close> (\<open>src/crates/avila-consensus/src/interpreter.rs\<close>) as an
  invariant of its loop: no element longer than 520 bytes, at most 1000 elements on the two stacks,
  at most 201 counted operations, and the code separator never past the cursor, so that the slice
  of the script that is hashed is always in range.
\<close>

definition small :: "bytes \<Rightarrow> bool" where
  "small v \<longleftrightarrow> length v \<le> MAX_SCRIPT_ELEMENT_SIZE"

definition elems_ok :: "machine \<Rightarrow> bool" where
  "elems_ok m \<longleftrightarrow> list_all small (m_stack m) \<and> list_all small (m_altstack m)"

definition machine_ok :: "eval_env \<Rightarrow> machine \<Rightarrow> bool" where
  "machine_ok E m \<longleftrightarrow> elems_ok m \<and> length (m_stack m) + length (m_altstack m) \<le> MAX_STACK_SIZE \<and>
     0 \<le> m_op_count m \<and> m_op_count m \<le> MAX_OPS_PER_SCRIPT \<and>
     m_pbegincodehash m \<le> m_pc m \<and> m_pc m \<le> length (e_bytes E)"

section \<open>Sizes of numbers\<close>

lemma magnitude_le: "magnitude v \<le> le_val v"
  by (cases v rule: rev_cases) (simp_all add: magnitude_def le_val_append mult_le_mono2)

lemma num_bound:
  assumes "num E v = Inr b"
  shows "\<bar>b\<bar> < 2 ^ 32"
proof -
  have v: "length v \<le> 4" "b = num_of v"
    using assms by (auto simp: num_def script_num_eq split: if_splits)
  have "magnitude v < 256 ^ length v" using magnitude_le [of v] le_val_bound [of v] by linarith
  also have "(256 :: nat) ^ length v \<le> 256 ^ 4" using v(1) by (intro power_increasing) simp_all
  finally have "int (magnitude v) < 2 ^ 32" by simp
  then show ?thesis using v(2) by (auto simp: num_of_def)
qed

lemma encode_small:
  assumes "\<bar>v\<bar> \<le> 2 ^ 63"
  shows "small (encode_script_num v)"
proof -
  have "nat \<bar>v\<bar> < 256 ^ 8" using assms by simp
  from length_encode_script_num [OF this] show ?thesis
    by (simp add: small_def MAX_SCRIPT_ELEMENT_SIZE_def)
qed

lemma wrapping_bound: "\<bar>wrapping_i64 x\<bar> \<le> 2 ^ 63"
proof -
  have "- (2 ^ 63) \<le> signed_take_bit 63 x" "signed_take_bit 63 x < 2 ^ 63"
    by (rule signed_take_bit_int_greater_eq_minus_exp signed_take_bit_int_less_exp)+
  then show ?thesis by (auto simp: wrapping_i64_def)
qed

lemma unary_small: "num E v = Inr b \<Longrightarrow> small (encode_script_num (unary_num opc b))"
  using num_bound [of E v b] wrapping_bound [of "b + 1"] wrapping_bound [of "b - 1"] wrapping_bound [of "- b"]
  by (intro encode_small) (auto simp: unary_num_def)

lemma binary_small:
  "num E v = Inr b \<Longrightarrow> num E' v' = Inr b' \<Longrightarrow> small (encode_script_num (binary_num opc b b'))"
  using num_bound [of E v b] num_bound [of E' v' b'] wrapping_bound [of "b + b'"] wrapping_bound [of "b - b'"]
  by (intro encode_small) (simp add: binary_num_def min_def max_def)

lemma vch_bool_small [simp]: "small (vch_bool b)"
  by (simp add: small_def vch_bool_def MAX_SCRIPT_ELEMENT_SIZE_def)

lemma length_small: "small x \<Longrightarrow> small (encode_script_num (int (length x)))"
  by (rule encode_small) (simp add: small_def MAX_SCRIPT_ELEMENT_SIZE_def)

section \<open>Operations keep the elements small\<close>

lemma set_stack_small:
  "elems_ok m \<Longrightarrow> set_stack m st = Inr m' \<Longrightarrow> list_all small st \<Longrightarrow> elems_ok m'"
  by (simp add: elems_ok_def)

lemma ops_small:
  assumes "elems_ok m"
  shows "op_locktime E opc m = Inr m' \<Longrightarrow> elems_ok m'"
    and "op_if E f opc m = Inr m' \<Longrightarrow> elems_ok m'"
    and "op_else_endif opc m = Inr m' \<Longrightarrow> elems_ok m'"
    and "op_verify m = Inr m' \<Longrightarrow> elems_ok m'"
    and "op_altstack opc m = Inr m' \<Longrightarrow> elems_ok m'"
    and "op_equal opc m = Inr m' \<Longrightarrow> elems_ok m'"
    and "op_within E m = Inr m' \<Longrightarrow> elems_ok m'"
    and "op_checksig E opc m = Inr m' \<Longrightarrow> elems_ok m'"
  using assms
  by (auto simp: op_defs elems_ok_def Let_def split: list.splits if_splits prod.splits)

lemma op_multi_small: "elems_ok m \<Longrightarrow> op_multi opc m = Inr m' \<Longrightarrow> elems_ok m'"
  by (auto simp: op_multi_def elems_ok_def Let_def split: list.splits if_splits)

lemma op_single_small:
  "elems_ok m \<Longrightarrow> length (m_stack m) \<le> MAX_STACK_SIZE \<Longrightarrow> op_single opc m = Inr m' \<Longrightarrow> elems_ok m'"
  by (auto simp: op_single_def elems_ok_def Let_def MAX_STACK_SIZE_def intro!: encode_small
      split: list.splits if_splits)

lemma op_rotate_small: "elems_ok m \<Longrightarrow> op_rotate opc m = Inr m' \<Longrightarrow> elems_ok m'"
  by (auto simp: op_rotate_def elems_ok_def Let_def intro!: length_small split: list.splits if_splits)

lemma op_pick_roll_small:
  assumes "elems_ok m" "op_pick_roll E opc m = Inr m'"
  shows "elems_ok m'"
proof -
  let ?st = "tl (m_stack m)"
  have st: "list_all small ?st" "list_all small (m_altstack m)"
    using assms(1) by (cases "m_stack m"; simp add: elems_ok_def)+
  then have "list_all small (take n ?st @ drop (Suc n) ?st)" for n
    by (auto simp: list_all_iff dest: in_set_takeD in_set_dropD)
  moreover have "n < length ?st \<Longrightarrow> small (?st ! n)" for n using st(1) by (simp add: list_all_length)
  ultimately show ?thesis
    using assms(2) st by (auto simp: op_pick_roll_def elems_ok_def Let_def nat_less_iff split: if_splits)
qed

lemma op_nums_small:
  assumes "elems_ok m"
  shows "op_unary E opc m = Inr m' \<Longrightarrow> elems_ok m'"
    and "op_binary E opc m = Inr m' \<Longrightarrow> elems_ok m'"
  using assms
  by (auto simp: op_unary_def op_binary_def elems_ok_def Let_def split: list.splits if_splits
      intro: unary_small binary_small)

lemma digest_small:
  "hash_fns_ok H \<Longrightarrow> small (sha256 H x)" "hash_fns_ok H \<Longrightarrow> small (ripemd160 H x)"
  "hash_fns_ok H \<Longrightarrow> small (sha1 H x)"
  by (simp_all add: small_def MAX_SCRIPT_ELEMENT_SIZE_def)

lemma op_crypto_small:
  assumes "hash_fns_ok (e_hashes E)" "elems_ok m" "op_crypto E opc m = Inr m'"
  shows "elems_ok m'"
  using assms(2,3) digest_small [OF assms(1)]
  by (auto simp: op_crypto_def elems_ok_def Let_def split: list.splits)

lemma op_checksigadd_small: "elems_ok m \<Longrightarrow> op_checksigadd E m = Inr m' \<Longrightarrow> elems_ok m'"
  by (auto simp: op_checksigadd_def elems_ok_def split: list.splits if_splits
      intro!: encode_small dest!: num_bound)

lemma multisig_cleanup_drop: "multisig_cleanup E s i k st = Inr st' \<Longrightarrow> \<exists>n. st' = drop n st"
proof (induction E s i k st rule: multisig_cleanup.induct)
  case (2 E s i k v r)
  show ?case
  proof (cases "i > 1")
    case True
    with 2(2) have c: "\<not> (\<not> s \<and> has_flag E FLAG_NULLFAIL \<and> k = 0 \<and> v \<noteq> [])"
      and r: "multisig_cleanup E s (i - 1) (k - 1) r = Inr st'"
      by (simp_all split: if_splits)
    then obtain n where "st' = drop n r" using 2(1) [OF True c r] by blast
    then have "st' = drop (Suc n) (v # r)" by simp
    then show ?thesis by blast
  next
    case False
    with 2(2) have "st' = drop 0 (v # r)" by simp
    then show ?thesis by blast
  qed
qed simp

lemma multisig_finish_small:
  "elems_ok m \<Longrightarrow> multisig_finish E opc s m = Inr m' \<Longrightarrow> elems_ok m'"
  by (auto simp: multisig_finish_def elems_ok_def split: list.splits if_splits)

lemma op_multisig_effect:
  assumes "op_multisig E opc m = Inr m'"
  shows "\<exists>s k n. 0 \<le> k \<and> m_op_count m + k \<le> MAX_OPS_PER_SCRIPT \<and>
    multisig_finish E opc s (m\<lparr>m_op_count := m_op_count m + k, m_stack := drop n (m_stack m)\<rparr>) = Inr m'"
proof -
  obtain v where v: "num E (m_stack m ! 0) = Inr v"
    using assms by (auto simp: op_multisig_def Let_def split: if_splits)
  have k: "0 \<le> getint v" "m_op_count m + getint v \<le> MAX_OPS_PER_SCRIPT"
    using assms by (auto simp: op_multisig_def Let_def v split: if_splits)
  have "\<exists>s i j st. multisig_cleanup E s i j (m_stack m) = Inr st \<and>
      multisig_finish E opc s (m\<lparr>m_op_count := m_op_count m + getint v, m_stack := st\<rparr>) = Inr m'"
    using assms k by (auto simp: op_multisig_def Let_def v split: if_splits; blast)
  then obtain s i j st where s: "multisig_cleanup E s i j (m_stack m) = Inr st"
    "multisig_finish E opc s (m\<lparr>m_op_count := m_op_count m + getint v, m_stack := st\<rparr>) = Inr m'"
    by blast
  obtain n where "st = drop n (m_stack m)" using multisig_cleanup_drop [OF s(1)] by blast
  with s(2) k show ?thesis by blast
qed

lemma op_multisig_small:
  assumes "elems_ok m" "op_multisig E opc m = Inr m'"
  shows "elems_ok m'"
proof -
  obtain s k n where
    "multisig_finish E opc s (m\<lparr>m_op_count := m_op_count m + k, m_stack := drop n (m_stack m)\<rparr>) = Inr m'"
    using op_multisig_effect [OF assms(2)] by blast
  moreover have "elems_ok (m\<lparr>m_op_count := m_op_count m + k, m_stack := drop n (m_stack m)\<rparr>)"
    using assms(1) by (auto simp: elems_ok_def list_all_iff dest: in_set_dropD)
  ultimately show ?thesis using multisig_finish_small by blast
qed

lemma opcode_number_small: "small (encode_script_num (int (unat (opc :: u8)) - 80))"
proof (rule encode_small)
  have "0 \<le> int (unat opc)" by (rule of_nat_0_le_iff)
  moreover have "int (unat opc) < int 256" using unat_u8_lt [of opc] by (simp only: of_nat_less_iff)
  ultimately have "\<bar>int (unat opc) - 80\<bar> \<le> 256" by linarith
  also have "(256 :: int) \<le> 2 ^ 63" by simp
  finally show "\<bar>int (unat opc) - 80\<bar> \<le> 2 ^ 63" .
qed

text \<open>Every successful opcode is one of the operations; the lemmas below go through this split.\<close>

lemma exec_op_split:
  assumes "exec_op E f opc m = Inr m'"
  shows "(m' = m\<lparr>m_stack := encode_script_num (int (unat opc) - 80) # m_stack m\<rparr> \<or> m' = m \<or>
      op_locktime E opc m = Inr m' \<or> op_if E f opc m = Inr m' \<or> op_else_endif opc m = Inr m' \<or>
      op_verify m = Inr m' \<or> op_altstack opc m = Inr m') \<or>
    (op_multi opc m = Inr m' \<or> op_single opc m = Inr m' \<or> op_pick_roll E opc m = Inr m' \<or>
      op_rotate opc m = Inr m' \<or> op_equal opc m = Inr m') \<or>
    (op_unary E opc m = Inr m' \<or> op_binary E opc m = Inr m' \<or> op_within E m = Inr m' \<or>
      op_crypto E opc m = Inr m') \<or>
    (m' = m\<lparr>m_pbegincodehash := m_pc m,
       m_execdata := (m_execdata m)\<lparr>codeseparator_pos := m_opcode_pos m\<rparr>\<rparr> \<or>
      op_checksig E opc m = Inr m' \<or> op_checksigadd E m = Inr m' \<or> op_multisig E opc m = Inr m')"
  using assms unfolding exec_op_def by (simp only: split: if_splits) (simp_all del: of_nat_unat)

lemma exec_op_small:
  assumes "hash_fns_ok (e_hashes E)" "elems_ok m" "length (m_stack m) \<le> MAX_STACK_SIZE"
    and "exec_op E f opc m = Inr m'"
  shows "elems_ok m'"
  using exec_op_split [OF assms(4)]
proof (elim disjE)
  show "elems_ok m'" if "m' = m\<lparr>m_stack := encode_script_num (int (unat opc) - 80) # m_stack m\<rparr>"
    using that assms(2) opcode_number_small [of opc] by (simp add: elems_ok_def del: of_nat_unat)
  show "elems_ok m'" if "m' = m\<lparr>m_pbegincodehash := m_pc m,
      m_execdata := (m_execdata m)\<lparr>codeseparator_pos := m_opcode_pos m\<rparr>\<rparr>"
    using that assms(2) by (simp add: elems_ok_def)
qed (use assms(2) in \<open>simp\<close> | erule ops_small [OF assms(2)] op_multi_small [OF assms(2)]
    op_single_small [OF assms(2,3)] op_rotate_small [OF assms(2)] op_pick_roll_small [OF assms(2)]
    op_nums_small [OF assms(2)] op_crypto_small [OF assms(1,2)] op_checksigadd_small [OF assms(2)]
    op_multisig_small [OF assms(2)])+

section \<open>Counters and cursors\<close>

definition same_counters :: "machine \<Rightarrow> machine \<Rightarrow> bool" where
  "same_counters m m' \<longleftrightarrow> m_op_count m' = m_op_count m \<and> m_pbegincodehash m' = m_pbegincodehash m"

lemma ops_counters:
  "op_locktime E opc m = Inr m' \<Longrightarrow> same_counters m m'"
  "op_if E f opc m = Inr m' \<Longrightarrow> same_counters m m'"
  "op_else_endif opc m = Inr m' \<Longrightarrow> same_counters m m'"
  "op_verify m = Inr m' \<Longrightarrow> same_counters m m'"
  "op_altstack opc m = Inr m' \<Longrightarrow> same_counters m m'"
  "op_pick_roll E opc m = Inr m' \<Longrightarrow> same_counters m m'"
  "op_equal opc m = Inr m' \<Longrightarrow> same_counters m m'"
  "op_unary E opc m = Inr m' \<Longrightarrow> same_counters m m'"
  "op_binary E opc m = Inr m' \<Longrightarrow> same_counters m m'"
  "op_within E m = Inr m' \<Longrightarrow> same_counters m m'"
  "op_crypto E opc m = Inr m' \<Longrightarrow> same_counters m m'"
  "op_checksig E opc m = Inr m' \<Longrightarrow> same_counters m m'"
  "op_checksigadd E m = Inr m' \<Longrightarrow> same_counters m m'"
  by (auto simp: op_defs same_counters_def Let_def split: list.splits if_splits prod.splits)

lemma op_multi_counters: "op_multi opc m = Inr m' \<Longrightarrow> same_counters m m'"
  by (auto simp: op_multi_def same_counters_def Let_def split: list.splits if_splits)

lemma op_single_counters: "op_single opc m = Inr m' \<Longrightarrow> same_counters m m'"
  by (auto simp: op_single_def same_counters_def Let_def split: list.splits if_splits)

lemma op_rotate_counters: "op_rotate opc m = Inr m' \<Longrightarrow> same_counters m m'"
  by (auto simp: op_rotate_def same_counters_def Let_def split: list.splits if_splits)

definition counters_ok :: "machine \<Rightarrow> bool" where
  "counters_ok m \<longleftrightarrow> 0 \<le> m_op_count m \<and> m_op_count m \<le> MAX_OPS_PER_SCRIPT \<and> m_pbegincodehash m \<le> m_pc m"

lemma counters_ok_same: "counters_ok m \<Longrightarrow> same_counters m m' \<Longrightarrow> m_pc m' = m_pc m \<Longrightarrow> counters_ok m'"
  by (simp add: counters_ok_def same_counters_def)

lemma op_multisig_counters:
  assumes "counters_ok m" "op_multisig E opc m = Inr m'"
  shows "counters_ok m'"
proof -
  obtain s k n where k: "0 \<le> k" "m_op_count m + k \<le> MAX_OPS_PER_SCRIPT"
    and f: "multisig_finish E opc s (m\<lparr>m_op_count := m_op_count m + k, m_stack := drop n (m_stack m)\<rparr>) = Inr m'"
    using op_multisig_effect [OF assms(2)] by blast
  have "m_op_count m' = m_op_count m + k \<and> m_pbegincodehash m' = m_pbegincodehash m \<and> m_pc m' = m_pc m"
    using f by (auto simp: multisig_finish_def split: list.splits if_splits)
  with k assms(1) show ?thesis by (simp add: counters_ok_def)
qed

lemma exec_op_counters:
  assumes "counters_ok m" "exec_op E f opc m = Inr m'"
  shows "counters_ok m'"
proof -
  note keep = counters_ok_same [OF assms(1) _ exec_op_pc [OF assms(2)]]
  show ?thesis
    using exec_op_split [OF assms(2)]
  proof (elim disjE)
    show "counters_ok m'" if "m' = m\<lparr>m_pbegincodehash := m_pc m,
        m_execdata := (m_execdata m)\<lparr>codeseparator_pos := m_opcode_pos m\<rparr>\<rparr>"
      using that assms(1) by (simp add: counters_ok_def)
    show "counters_ok m'" if "m' = m\<lparr>m_stack := encode_script_num (int (unat opc) - 80) # m_stack m\<rparr>"
      using that assms(1) by (simp add: counters_ok_def)
  qed (use assms(1) in \<open>simp\<close> | erule op_multisig_counters [OF assms(1)]
      | rule keep, erule ops_counters op_multi_counters op_single_counters op_rotate_counters)+
qed

section \<open>The invariant\<close>

lemma eval_step_ok:
  assumes "hash_fns_ok (e_hashes E)" "machine_ok E m" "eval_step E m = Inr m'"
  shows "machine_ok E m'"
proof -
  obtain opcode push pc where g: "get_op (e_bytes E) (m_pc m) = (Some (opcode, push), pc)"
    using assms(3) by (auto simp: eval_step_def split: prod.splits option.splits)
  have push: "small push" using assms(3) g by (auto simp: eval_step_def small_def split: if_splits)
  obtain m1 where c: "count_op E opcode (m\<lparr>m_pc := pc\<rparr>) = Inr m1"
    using assms(3) g by (auto simp: eval_step_def split: if_splits)
  obtain m2 where x: "exec_instr E opcode push m1 = Inr m2"
    and size: "length (m_stack m2) + length (m_altstack m2) \<le> MAX_STACK_SIZE"
    and m': "m' = m2\<lparr>m_opcode_pos := m_opcode_pos m2 + 1\<rparr>"
    using assms(3) g c by (auto simp: eval_step_def split: if_splits)
  have m1: "elems_ok m1" "length (m_stack m1) \<le> MAX_STACK_SIZE" "counters_ok m1"
    using assms(2) c get_op_progress [OF g]
    by (auto simp: machine_ok_def elems_ok_def counters_ok_def count_op_def Let_def split: if_splits)
  have "elems_ok m2 \<and> counters_ok m2"
  proof (cases "cond_all_true (m_cond m1) \<and> opcode \<le> OP_PUSHDATA4")
    case True
    with x have "m2 = m1\<lparr>m_stack := push # m_stack m1\<rparr>"
      by (simp add: exec_instr_def Let_def split: if_splits)
    with m1 push show ?thesis by (simp add: elems_ok_def counters_ok_def)
  next
    case False
    with x m1 assms(1) show ?thesis
      by (auto simp: exec_instr_def Let_def split: if_splits intro: exec_op_small exec_op_counters)
  qed
  then show ?thesis
    using size eval_step_pc [OF assms(3)] by (simp add: machine_ok_def elems_ok_def counters_ok_def m')
qed

lemma eval_loop_ok:
  "hash_fns_ok (e_hashes E) \<Longrightarrow> machine_ok E m \<Longrightarrow> eval_loop E m = Inr m' \<Longrightarrow> machine_ok E m'"
proof (induction E m rule: eval_loop.induct)
  case (1 E m)
  show ?case
  proof (cases "m_pc m < length (e_bytes E)")
    case True
    with 1(4) obtain m1 where m1: "eval_step E m = Inr m1" "eval_loop E m1 = Inr m'"
      by (subst (asm) eval_loop.simps) auto
    show ?thesis by (rule 1(1) [OF True m1(1) 1(2) eval_step_ok [OF 1(2,3) m1(1)] m1(2)])
  next
    case False
    with 1(3,4) show ?thesis by (subst (asm) eval_loop.simps) simp
  qed
qed

section \<open>Properties\<close>

text \<open>C15: One iteration of the interpreter's loop keeps its resource invariant: elements of at most
  520 bytes, at most 1000 of them on both stacks, at most 201 operations counted, and the code
  separator and the cursor inside the script.\<close>

theorem eval_step_keeps_limits:
  assumes "hash_fns_ok (e_hashes E)" "machine_ok E m" "eval_step E m = Inr m'"
  shows "machine_ok E m'"
  using assms by (rule eval_step_ok)

text \<open>Witness of C15: OP_DUP on a stack of one element.\<close>

definition sample_env :: eval_env where
  "sample_env = \<lparr>e_hashes = toy_hashes, e_bytes = [0x76, 0xaa], e_flags = FLAG_NONE,
     e_checker = base_checker, e_sigversion = Base\<rparr>"

definition sample_machine :: machine where
  "sample_machine = \<lparr>m_stack = [[7]], m_altstack = [], m_cond = cond_default, m_op_count = 0, m_pc = 0,
     m_pbegincodehash = 0, m_opcode_pos = 0, m_execdata = exec_data_default\<rparr>"

lemma eval_step_keeps_limits_witness:
  "machine_ok sample_env (sample_machine\<lparr>m_stack := [[7], [7]], m_op_count := 1, m_pc := 1, m_opcode_pos := 1\<rparr>)"
proof (rule eval_step_keeps_limits [of _ sample_machine])
  show "hash_fns_ok (e_hashes sample_env)" by (simp add: sample_env_def toy_hashes_ok)
  show "machine_ok sample_env sample_machine" by code_simp
  show "eval_step sample_env sample_machine =
      Inr (sample_machine\<lparr>m_stack := [[7], [7]], m_op_count := 1, m_pc := 1, m_opcode_pos := 1\<rparr>)"
    by code_simp
qed

text \<open>What a whole script leaves on the stack is within the limits, when what it was given is.\<close>

theorem eval_script_limits:
  assumes "hash_fns_ok H" "list_all small st" "length st \<le> MAX_STACK_SIZE"
    and "eval_script H st s flags ck sv x = Inr (st', x')"
  shows "list_all small st' \<and> length st' \<le> MAX_STACK_SIZE"
proof -
  let ?E = "\<lparr>e_hashes = H, e_bytes = s, e_flags = flags, e_checker = ck, e_sigversion = sv\<rparr>"
  let ?m = "\<lparr>m_stack = st, m_altstack = [], m_cond = cond_default, m_op_count = 0, m_pc = 0,
     m_pbegincodehash = 0, m_opcode_pos = 0,
     m_execdata = x\<lparr>codeseparator_pos := 0xFFFFFFFF, codeseparator_pos_init := True\<rparr>\<rparr>"
  obtain m' where "eval_loop ?E ?m = Inr m'" "st' = m_stack m'"
    using assms(4) unfolding eval_script_def Let_def by (auto split: if_splits)
  moreover have "machine_ok ?E ?m"
    using assms(2,3) by (simp add: machine_ok_def elems_ok_def MAX_OPS_PER_SCRIPT_def)
  ultimately show ?thesis
    using eval_loop_ok [of ?E ?m m'] assms(1) by (simp add: machine_ok_def elems_ok_def)
qed

text \<open>An instance: a push and two duplications.\<close>

lemma eval_script_limits_witness:
  "list_all small [[5], [5], [5 :: u8]] \<and> length [[5], [5], [5 :: u8]] \<le> MAX_STACK_SIZE"
proof (rule eval_script_limits [of toy_hashes "[]"])
  show "hash_fns_ok toy_hashes" by (rule toy_hashes_ok)
  show "eval_script toy_hashes [] [0x55, 0x76, 0x76] FLAG_NONE base_checker Base exec_data_default =
      Inr ([[5], [5], [5]], exec_data_default\<lparr>codeseparator_pos := 0xffffffff, codeseparator_pos_init := True\<rparr>)"
    by code_simp
qed simp_all

end
