(* ===== verification/Multisig.thy ===== *)
theory Multisig
  imports Interp_Run Script_Num "HOL-Library.Sublist"
begin

text \<open>
  OP_CHECKMULTISIG of \<open>src/crates/avila-consensus/src/interpreter.rs\<close>. The loop walks the keys once
  and never goes back; the reference is the order-preserving embedding \<open>list_emb\<close>: some subsequence
  of the keys verifies the signatures, one key each, in order.
\<close>

section \<open>The loop\<close>

definition verifies :: "eval_env \<Rightarrow> bytes \<Rightarrow> bytes \<Rightarrow> bytes \<Rightarrow> bool" where
  "verifies E script_code sig key = check_ecdsa_signature (e_checker E) sig key script_code (e_sigversion E)"

definition encodings_ok :: "eval_env \<Rightarrow> bytes list \<Rightarrow> bytes list \<Rightarrow> bool" where
  "encodings_ok E sigs keys \<longleftrightarrow>
     (\<forall>sig \<in> set sigs. check_signature_encoding sig (e_flags E) = Inr ()) \<and>
     (\<forall>key \<in> set keys. check_pubkey_encoding key (e_flags E) (e_sigversion E) = Inr ())"

lemma take_drop_Suc:
  "i < length st \<Longrightarrow> take (Suc n) (drop i st) = st ! i # take n (drop (Suc i) st)"
  by (simp flip: Cons_nth_drop_Suc)

lemma list_emb_long: "length xs > length ys \<Longrightarrow> \<not> list_emb P xs ys"
  by (auto dest: list_emb_length)

lemma multisig_loop_emb:
  "s \<le> k \<Longrightarrow> i + s \<le> length st \<Longrightarrow> j + k \<le> length st \<Longrightarrow>
   encodings_ok E (take s (drop i st)) (take k (drop j st)) \<Longrightarrow>
   multisig_loop E st sc (Suc i) (Suc j) s k =
     Inr (list_emb (verifies E sc) (take s (drop i st)) (take k (drop j st)))"
proof (induction k arbitrary: i j s)
  case 0
  then show ?case by (subst multisig_loop.simps) simp
next
  case (Suc k)
  show ?case
  proof (cases s)
    case 0
    then show ?thesis by (subst multisig_loop.simps) simp
  next
    case s: (Suc s')
    let ?sig = "st ! i" and ?key = "st ! j"
    have sigs: "take s (drop i st) = ?sig # take s' (drop (Suc i) st)"
      using Suc.prems s by (simp add: take_drop_Suc)
    have keys: "take (Suc k) (drop j st) = ?key # take k (drop (Suc j) st)"
      using Suc.prems by (simp add: take_drop_Suc)
    have enc: "check_signature_encoding ?sig (e_flags E) = Inr ()"
      "check_pubkey_encoding ?key (e_flags E) (e_sigversion E) = Inr ()"
      "encodings_ok E (take s' (drop (Suc i) st)) (take k (drop (Suc j) st))"
      "encodings_ok E (take s (drop i st)) (take k (drop (Suc j) st))"
      using Suc.prems(4) unfolding sigs keys by (auto simp: encodings_ok_def)
    have step: "multisig_loop E st sc (Suc i) (Suc j) s (Suc k) =
        (let ok = verifies E sc ?sig ?key; i' = (if ok then Suc i else i); s'' = (if ok then s' else s)
         in if s'' > k then Inr False else multisig_loop E st sc (Suc i') (Suc (Suc j)) s'' k)"
      using enc(1,2) s by (subst multisig_loop.simps) (simp add: Let_def verifies_def)
    show ?thesis
    proof (cases "verifies E sc ?sig ?key")
      case True
      have "s' \<le> k" using Suc.prems(1) s by simp
      with True show ?thesis
        using Suc.IH [of s' "Suc i" "Suc j"] Suc.prems s enc(3)
        unfolding step sigs keys by (simp add: Let_def list_emb_code)
    next
      case False
      show ?thesis
      proof (cases "s > k")
        case True
        then have "\<not> list_emb (verifies E sc) (take s (drop i st)) (take k (drop (Suc j) st))"
          using Suc.prems by (intro list_emb_long) simp
        with False True show ?thesis
          unfolding step keys sigs by (simp add: Let_def list_emb_code)
      next
        case le: False
        then have "multisig_loop E st sc (Suc i) (Suc (Suc j)) s k =
            Inr (list_emb (verifies E sc) (take s (drop i st)) (take k (drop (Suc j) st)))"
          using Suc.prems enc(4) by (intro Suc.IH) simp_all
        with False le show ?thesis
          unfolding step keys sigs by (simp add: Let_def list_emb_code)
      qed
    qed
  qed
qed

section \<open>The clean-up\<close>

lemma cleanup_skip:
  "k \<le> l \<Longrightarrow> length xs = k \<Longrightarrow> n > k \<Longrightarrow>
   multisig_cleanup E b n l (xs @ ys) = multisig_cleanup E b (n - k) (l - k) ys"
proof (induction xs arbitrary: k l n)
  case (Cons x xs)
  have "multisig_cleanup E b (n - 1) (l - 1) (xs @ ys) =
      multisig_cleanup E b (n - 1 - length xs) (l - 1 - length xs) ys"
    using Cons.prems by (intro Cons.IH) auto
  with Cons.prems show ?case by auto
qed simp

lemma cleanup_sigs:
  "multisig_cleanup E b (Suc (length sigs)) 0 (sigs @ v # r) =
    (if \<not> b \<and> has_flag E FLAG_NULLFAIL \<and> (\<exists>sig \<in> set sigs. sig \<noteq> []) then Inl SigNullFail else Inr (v # r))"
  by (induction sigs) auto

section \<open>The opcode\<close>

lemma num_encode: "\<bar>v\<bar> \<le> 20 \<Longrightarrow> num E (encode_script_num v) = Inr v"
proof -
  assume v: "\<bar>v\<bar> \<le> 20"
  then have "nat \<bar>v\<bar> < 256 ^ 1" by simp
  from length_encode_script_num [OF this] num_of_encode [of v]
  show "num E (encode_script_num v) = Inr v" by (simp add: num_def script_num_eq)
qed

lemma getint_small [simp]: "\<bar>v\<bar> \<le> 20 \<Longrightarrow> getint v = v"
  by (simp add: getint_def)

definition multisig_stack :: "bytes list \<Rightarrow> bytes list \<Rightarrow> bytes list \<Rightarrow> bytes list" where
  "multisig_stack keys sigs r =
     encode_script_num (int (length keys)) # keys @ encode_script_num (int (length sigs)) # sigs @ [] # r"

definition multisig_spec :: "eval_env \<Rightarrow> bool \<Rightarrow> bytes list \<Rightarrow> bytes list \<Rightarrow> machine \<Rightarrow> script_error + machine" where
  "multisig_spec E success sigs r m =
     (if \<not> success \<and> has_flag E FLAG_NULLFAIL \<and> (\<exists>sig \<in> set sigs. sig \<noteq> []) then Inl SigNullFail
      else set_stack m (vch_bool success # r))"

lemma op_multisig_eq:
  assumes st: "m_stack m = multisig_stack keys sigs r"
    and v0: "e_sigversion E = WitnessV0"
    and len: "length sigs \<le> length keys" "length keys \<le> 20"
    and count: "m_op_count m + int (length keys) \<le> MAX_OPS_PER_SCRIPT"
    and enc: "encodings_ok E sigs keys"
  shows "op_multisig E OP_CHECKMULTISIG m =
    multisig_spec E (list_emb (verifies E (drop (m_pbegincodehash m) (e_bytes E))) sigs keys) sigs r
      (m\<lparr>m_op_count := m_op_count m + int (length keys)\<rparr>)"
proof -
  let ?k = "length keys" and ?s = "length sigs" and ?st = "m_stack m"
  let ?sc = "drop (m_pbegincodehash m) (e_bytes E)"
  have n: "num E (encode_script_num (int ?k)) = Inr (int ?k)" "num E (encode_script_num (int ?s)) = Inr (int ?s)"
    using len by (simp_all add: num_encode)
  have at: "?st ! 0 = encode_script_num (int ?k)" "?st ! Suc ?k = encode_script_num (int ?s)"
    by (simp_all add: st multisig_stack_def nth_append)
  have L: "length ?st = 3 + ?k + ?s + length r" by (simp add: st multisig_stack_def)
  have sl: "take ?s (drop (2 + ?k) ?st) = sigs" "take ?k (drop 1 ?st) = keys"
    by (simp_all add: st multisig_stack_def)
  have loop: "multisig_loop E ?st ?sc (Suc (2 + ?k)) (Suc 1) ?s ?k = Inr (list_emb (verifies E ?sc) sigs keys)"
    using multisig_loop_emb [of ?s ?k "2 + ?k" ?st 1 E ?sc] len enc L unfolding sl by simp
  have clean: "multisig_cleanup E b (Suc (2 + ?k + ?s)) (2 + ?k) ?st =
      (if \<not> b \<and> has_flag E FLAG_NULLFAIL \<and> (\<exists>sig \<in> set sigs. sig \<noteq> []) then Inl SigNullFail else Inr ([] # r))" for b
  proof -
    have split: "?st = (encode_script_num (int ?k) # keys @ [encode_script_num (int ?s)]) @ sigs @ [] # r"
      by (simp add: st multisig_stack_def)
    show ?thesis
      unfolding split by (subst cleanup_skip [of "2 + ?k"]) (simp_all add: cleanup_sigs)
  qed
  have "getint (int ?k) = int ?k" "getint (int ?s) = int ?s" using len by simp_all
  then show ?thesis
    using v0 n at L loop clean len count
    by (auto simp: op_multisig_def Let_def multisig_spec_def multisig_finish_def MAX_PUBKEYS_PER_MULTISIG_def
        set_stack_def eval_nat_numeral)
qed

section \<open>Property\<close>

text \<open>C3: In a witness script OP_CHECKMULTISIG on well-encoded keys and signatures pushes true exactly
  when the signatures verify under a subsequence of the keys, in order; when they do not, it pushes
  false, or fails under NULLFAIL unless every signature is empty. It counts one operation per key.\<close>

theorem checkmultisig_is_embedding:
  assumes "m_stack m = multisig_stack keys sigs r" "e_sigversion E = WitnessV0"
    and "length sigs \<le> length keys" "length keys \<le> 20"
    and "m_op_count m + int (length keys) \<le> MAX_OPS_PER_SCRIPT" "encodings_ok E sigs keys"
  shows "op_multisig E OP_CHECKMULTISIG m =
    multisig_spec E (list_emb (verifies E (drop (m_pbegincodehash m) (e_bytes E))) sigs keys) sigs r
      (m\<lparr>m_op_count := m_op_count m + int (length keys)\<rparr>)"
  using assms by (rule op_multisig_eq)

text \<open>A checker that compares first bytes, for the example.\<close>

definition byte_checker :: checker where
  "byte_checker = base_checker\<lparr>check_ecdsa_signature := (\<lambda>sig key sc sv. take 1 sig = take 1 key)\<rparr>"

definition multisig_env :: eval_env where
  "multisig_env = \<lparr>e_hashes = toy_hashes, e_bytes = [0xae], e_flags = FLAG_NONE,
     e_checker = byte_checker, e_sigversion = WitnessV0\<rparr>"

definition multisig_machine :: "bytes list \<Rightarrow> machine" where
  "multisig_machine st = \<lparr>m_stack = st, m_altstack = [], m_cond = cond_default, m_op_count = 1, m_pc = 1,
     m_pbegincodehash = 0, m_opcode_pos = 0, m_execdata = exec_data_default\<rparr>"

text \<open>Witness of C3: two of three, the first key unused; a checker that compares first bytes.\<close>

lemma checkmultisig_is_embedding_witness:
  "op_multisig multisig_env OP_CHECKMULTISIG (multisig_machine (multisig_stack [[1], [2], [3]] [[2, 9], [3, 9]] [])) =
    Inr ((multisig_machine [[1]])\<lparr>m_op_count := 4\<rparr>)"
  by (subst checkmultisig_is_embedding [of _ "[[1], [2], [3]]" "[[2, 9], [3, 9]]" "[]"])
    (code_simp | simp add: multisig_machine_def)+

end
