(* ===== verification/Spend.thy ===== *)
theory Spend
  imports Interp_Verify
begin

text \<open>
  What it takes to spend a witness keyhash output, and the soft-fork behaviour of unknown witness
  programs (\<open>verify_witness_program\<close> of \<open>src/crates/avila-consensus/src/interpreter.rs\<close>).
\<close>

section \<open>Running the implied script\<close>

lemma p2pkh_get_op:
  assumes "length h = 20"
  shows "get_op (p2pkh_script h) 0 = (Some (0x76, []), 1)"
    and "get_op (p2pkh_script h) 1 = (Some (0xa9, []), 2)"
    and "get_op (p2pkh_script h) 2 = (Some (0x14, h), 23)"
    and "get_op (p2pkh_script h) 23 = (Some (0x88, []), 24)"
    and "get_op (p2pkh_script h) 24 = (Some (0xac, []), 25)"
    and "length (p2pkh_script h) = 25"
  using assms by (simp_all add: get_op_def p2pkh_script_def trailing_header_def nth_append nth_Cons')

lemma eval_loop_at:
  assumes "get_op (e_bytes E) (m_pc m) = (Some (opcode, push), pc)" "length push \<le> MAX_SCRIPT_ELEMENT_SIZE"
    and "\<not> disabled_opcode opcode" "opcode \<noteq> OP_CODESEPARATOR"
  shows "eval_loop E m =
    res_bind (count_op E opcode (m\<lparr>m_pc := pc\<rparr>)) (\<lambda>m. res_bind (exec_instr E opcode push m) (\<lambda>m.
      if length (m_stack m) + length (m_altstack m) > MAX_STACK_SIZE then Inl StackSize
      else eval_loop E (m\<lparr>m_opcode_pos := m_opcode_pos m + 1\<rparr>)))"
proof -
  have "m_pc m < length (e_bytes E)" using get_op_progress [OF assms(1)] by simp
  have assoc: "res_bind (res_bind a f) g = res_bind a (\<lambda>x. res_bind (f x) g)" for a and f g :: "machine \<Rightarrow> script_error + machine"
    by (cases a) simp_all
  have cond: "res_bind (if c then Inl e else Inr x) k = (if c then Inl e else k x)" for c e x
    and k :: "machine \<Rightarrow> script_error + machine" by simp
  show ?thesis
    using assms \<open>m_pc m < length (e_bytes E)\<close>
    by (subst eval_loop.simps) (simp add: eval_step_def assoc cond cong: if_cong)
qed

text \<open>The outcome of the implied script on a stack of two items, as one equation.\<close>

lemma p2wpkh_eval:
  assumes h: "length h = 20"
  shows "\<exists>x'. eval_script H [key, sig] (p2pkh_script h) flags ck WitnessV0 x =
    (if hash160 H key \<noteq> h then Inl EqualVerify
     else res_bind (check_signature_encoding sig flags) (\<lambda>_.
       res_bind (check_pubkey_encoding key flags WitnessV0) (\<lambda>_.
         let ok = check_ecdsa_signature ck sig key (p2pkh_script h) WitnessV0 in
         if \<not> ok \<and> flag_set flags FLAG_NULLFAIL \<and> sig \<noteq> [] then Inl SigNullFail
         else Inr ([vch_bool ok], x'))))"
proof -
  let ?E = "\<lparr>e_hashes = H, e_bytes = p2pkh_script h, e_flags = flags, e_checker = ck, e_sigversion = WitnessV0\<rparr>"
  let ?m = "\<lambda>st n pc pos x. \<lparr>m_stack = st, m_altstack = [], m_cond = cond_default, m_op_count = n, m_pc = pc,
     m_pbegincodehash = 0, m_opcode_pos = pos, m_execdata = x\<rparr>"
  have ct: "cond_all_true cond_default" by (simp add: cond_all_true_def cond_default_def)
  note run = ct disabled_opcode_def count_op_def exec_instr_def exec_op_def MAX_OPS_PER_SCRIPT_def MAX_STACK_SIZE_def MAX_SCRIPT_ELEMENT_SIZE_def set_stack_def
  note g = p2pkh_get_op [OF h, simplified]
  have push: "check_minimal_push h 0x14" using h by (auto simp: check_minimal_push_def)
  have s1: "eval_loop ?E (?m [key, sig] 0 0 0 x) = eval_loop ?E (?m [key, key, sig] 1 1 1 x)" for x
    by (subst eval_loop_at [of _ _ "0x76" "[]" 1]) (simp_all add: g run op_single_def)
  have s2: "eval_loop ?E (?m [key, key, sig] 1 1 1 x) = eval_loop ?E (?m [hash160 H key, key, sig] 2 2 2 x)" for x
    by (subst eval_loop_at [of _ _ "0xa9" "[]" 2]) (simp_all add: g run op_crypto_def hash160_def)
  have s3: "eval_loop ?E (?m [hash160 H key, key, sig] 2 2 2 x) =
      eval_loop ?E (?m [h, hash160 H key, key, sig] 2 23 3 x)" for x
    by (subst eval_loop_at [of _ _ "0x14" h 23]) (simp_all add: g run push h)
  have s4: "eval_loop ?E (?m [h, hash160 H key, key, sig] 2 23 3 x) =
      (if hash160 H key \<noteq> h then Inl EqualVerify else eval_loop ?E (?m [key, sig] 3 24 4 x))" for x
    by (subst eval_loop_at [of _ _ "0x88" "[]" 24]) (simp_all add: g run op_equal_def)
  have fin: "eval_loop ?E (?m st n 25 5 x) = Inr (?m st n 25 5 x)" for st n x
    by (subst eval_loop.simps) (simp add: g)
  have s5: "eval_loop ?E (?m [key, sig] 3 24 4 x) =
      res_bind (eval_checksig_pre_tapscript ?E sig key 0) (\<lambda>ok. Inr (?m [vch_bool ok] 4 25 5 x))" for x
    by (cases "eval_checksig_pre_tapscript ?E sig key 0"; subst eval_loop_at [of _ _ "0xac" "[]" 25])
      (simp_all add: g run op_checksig_def eval_checksig_def fin)
  have ok: "cond_is_empty cond_default" by (simp add: cond_is_empty_def cond_default_def)
  let ?x = "x\<lparr>codeseparator_pos := 0xFFFFFFFF, codeseparator_pos_init := True\<rparr>"
  have "eval_script H [key, sig] (p2pkh_script h) flags ck WitnessV0 x =
      (if hash160 H key \<noteq> h then Inl EqualVerify
       else res_bind (eval_checksig_pre_tapscript ?E sig key 0) (\<lambda>ok. Inr ([vch_bool ok], ?x)))"
    unfolding eval_script_def Let_def s1 s2 s3 s4 s5
    by (cases "eval_checksig_pre_tapscript ?E sig key 0") (simp_all add: g ok MAX_SCRIPT_SIZE_def)
  then show ?thesis
    by (intro exI [of _ ?x])
      (cases "check_signature_encoding sig flags"; cases "check_pubkey_encoding key flags WitnessV0";
        simp add: eval_checksig_pre_tapscript_def has_flag_def Let_def)
qed

section \<open>Properties\<close>

text \<open>C2: A witness keyhash output is spent exactly by a witness of a signature and a key such that
  the key hashes to the program, both are well encoded under the flags, and the checker verifies the
  signature over the implied script; nothing else spends it, under any flags.\<close>

theorem p2wpkh_spend_iff:
  assumes "length h = 20"
  shows "verify_witness_program H wit 0 h flags ck p2sh = Inr () \<longleftrightarrow>
    (\<exists>sig key. wit = [sig, key] \<and> length sig \<le> MAX_SCRIPT_ELEMENT_SIZE \<and> length key \<le> MAX_SCRIPT_ELEMENT_SIZE \<and>
      hash160 H key = h \<and> check_signature_encoding sig flags = Inr () \<and>
      check_pubkey_encoding key flags WitnessV0 = Inr () \<and>
      check_ecdsa_signature ck sig key (p2pkh_script h) WitnessV0)"
proof (cases "length wit = 2")
  case True
  then obtain sig key where w: "wit = [sig, key]"
    by (auto simp: numeral_2_eq_2 length_Suc_conv)
  obtain x' where e: "eval_script H [key, sig] (p2pkh_script h) flags ck WitnessV0 exec_data_default =
    (if hash160 H key \<noteq> h then Inl EqualVerify
     else res_bind (check_signature_encoding sig flags) (\<lambda>_.
       res_bind (check_pubkey_encoding key flags WitnessV0) (\<lambda>_.
         let ok = check_ecdsa_signature ck sig key (p2pkh_script h) WitnessV0 in
         if \<not> ok \<and> flag_set flags FLAG_NULLFAIL \<and> sig \<noteq> [] then Inl SigNullFail
         else Inr ([vch_bool ok], x'))))"
    using p2wpkh_eval [OF assms] by blast
  have b: "cast_to_bool (vch_bool b) = b" for b by (simp add: vch_bool_def)
  show ?thesis
    by (cases "check_signature_encoding sig flags"; cases "check_pubkey_encoding key flags WitnessV0")
      (auto simp: verify_witness_program_def execute_witness_script_def WITNESS_V0_SCRIPTHASH_SIZE_def
        WITNESS_V0_KEYHASH_SIZE_def assms w e b Let_def)
next
  case False
  then show ?thesis
    using assms by (auto simp: verify_witness_program_def WITNESS_V0_SCRIPTHASH_SIZE_def WITNESS_V0_KEYHASH_SIZE_def)
qed

text \<open>Witness of C2: a toy digest, an accepting checker, and no flag.\<close>

lemma p2wpkh_spend_iff_witness:
  "verify_witness_program toy_hashes [[0x30], replicate 33 2] 0 (replicate 20 2) FLAG_NONE
    (base_checker\<lparr>check_ecdsa_signature := \<lambda>_ _ _ _. True\<rparr>) False = Inr ()"
proof (subst p2wpkh_spend_iff)
  have "hash160 toy_hashes (replicate 33 2) = replicate 20 2" by code_simp
  moreover have "check_signature_encoding [0x30] FLAG_NONE = Inr ()" by code_simp
  moreover have "check_pubkey_encoding (replicate 33 2) FLAG_NONE WitnessV0 = Inr ()" by code_simp
  ultimately show "\<exists>sig key. [[0x30], replicate 33 2] = [sig, key] \<and> length sig \<le> MAX_SCRIPT_ELEMENT_SIZE \<and>
      length key \<le> MAX_SCRIPT_ELEMENT_SIZE \<and> hash160 toy_hashes key = replicate 20 2 \<and>
      check_signature_encoding sig FLAG_NONE = Inr () \<and>
      check_pubkey_encoding key FLAG_NONE WitnessV0 = Inr () \<and>
      check_ecdsa_signature (base_checker\<lparr>check_ecdsa_signature := \<lambda>_ _ _ _. True\<rparr>) sig key
        (p2pkh_script (replicate 20 2)) WitnessV0"
    by (simp add: MAX_SCRIPT_ELEMENT_SIZE_def)
qed simp

text \<open>Witness programs of a later version are unencumbered: without the flag that discourages
  them they accept every witness, with it they fail, whatever the checker says; a taproot program is
  one of them while TAPROOT is off.\<close>

theorem unknown_witness_programs:
  "(v \<noteq> 0 \<and> v \<noteq> 1 \<longrightarrow> verify_witness_program H wit v program flags ck p2sh =
      (if flag_set flags FLAG_DISCOURAGE_UPGRADABLE_WITNESS_PROGRAM
       then Inl DiscourageUpgradableWitnessProgram else Inr ())) \<and>
   (length program = 32 \<and> \<not> flag_set flags FLAG_TAPROOT \<longrightarrow>
      verify_witness_program H wit 1 program flags ck False = Inr ())"
  by (simp add: verify_witness_program_def is_pay_to_anchor_def verify_taproot_def WITNESS_V1_TAPROOT_SIZE_def)

text \<open>An instance: version two, and a taproot program without the flag.\<close>

lemma unknown_witness_programs_witness:
  "verify_witness_program toy_hashes [] 2 [1, 2] FLAG_NONE base_checker False = Inr () \<and>
   verify_witness_program toy_hashes [] 1 (replicate 32 7) FLAG_NONE base_checker False = Inr ()"
  using unknown_witness_programs [of 2 toy_hashes "[]" "[1, 2]" FLAG_NONE base_checker False]
    unknown_witness_programs [of 2 toy_hashes "[]" "replicate 32 7" FLAG_NONE base_checker False]
  by (simp add: flag_set_def FLAG_NONE_def FLAG_TAPROOT_def FLAG_DISCOURAGE_UPGRADABLE_WITNESS_PROGRAM_def)

end
