(* ===== verification/Params.thy ===== *)
theory Params
  imports Block Arith Script
begin

text \<open>
  Consensus parameters (\<open>src/crates/avila-consensus/src/params.rs\<close>): the record of a network's
  parameters, the four built-in sets, their genesis blocks, the retarget interval and the versioned
  commitment to a parameter set. \<open>&'static str\<close> fields are HOL strings (of ASCII text),
  fixed-size arrays are byte lists.

  The main result: the encoding behind \<open>swift_validation_commitment\<close> is injective, so two
  well-formed parameter sets with one commitment are equal or exhibit a SHA-256 collision.
\<close>

unbundle bit_operations_syntax

datatype network = Mainnet | Testnet4 | Signet | Regtest

definition network_name :: "network \<Rightarrow> string" where
  "network_name n = (case n of
     Mainnet \<Rightarrow> ''main'' | Testnet4 \<Rightarrow> ''testnet4'' | Signet \<Rightarrow> ''signet'' | Regtest \<Rightarrow> ''regtest'')"

definition network_all :: "network list" where
  "network_all = [Mainnet, Testnet4, Signet, Regtest]"

record assumeutxo_entry =
  au_height :: u32
  au_hash_serialized :: string
  au_n_chain_tx :: u64
  au_blockhash :: string

record bip9_deployment =
  dep_name :: string
  dep_bit :: i32
  dep_start_time :: i64
  dep_timeout :: i64
  dep_min_activation_height :: u32

definition BIP9_ALWAYS_ACTIVE :: i64 where "BIP9_ALWAYS_ACTIVE = - 1"
definition BIP9_NEVER_ACTIVE :: i64 where "BIP9_NEVER_ACTIVE = - 2"
definition BIP9_NO_TIMEOUT :: i64 where "BIP9_NO_TIMEOUT = i64_max"

record params =
  network :: network
  pow_limit :: target
  pow_target_spacing :: u64
  pow_target_timespan :: u64
  allow_min_difficulty_blocks :: bool
  enforce_bip94 :: bool
  no_retargeting :: bool
  signet_blocks :: bool
  signet_challenge :: bytes
  minimum_chain_work :: work
  assume_valid :: "hash32 option"
  message_start :: bytes
  default_port :: u16
  dns_seeds :: "string list"
  base58_pubkey_prefix :: u8
  base58_script_prefix :: u8
  base58_secret_prefix :: u8
  base58_ext_pubkey_prefix :: bytes
  base58_ext_secret_prefix :: bytes
  bech32_hrp :: string
  bip34_height :: u32
  bip66_height :: u32
  bip65_height :: u32
  csv_height :: u32
  segwit_height :: u32
  taproot_height :: u32
  subsidy_halving_interval :: u32
  bip34_hash :: "hash32 option"
  script_flag_exceptions :: "(hash32 \<times> u32) list"
  rule_change_activation_threshold :: u32
  bip9_deployments :: "bip9_deployment list"
  assumeutxo_data :: "assumeutxo_entry list"
  genesis_header :: block_header

section \<open>The built-in networks\<close>

text \<open>\<open>str::as_bytes\<close>, and \<open>BlockHash::from_str(..).ok()\<close>.\<close>

definition str_bytes :: "string \<Rightarrow> bytes" where
  "str_bytes s = map of_char s"

definition display_hash :: "string \<Rightarrow> hash32 option" where
  "display_hash s = (case parse_display_hex (str_bytes s) of Inl e \<Rightarrow> None | Inr h \<Rightarrow> Some h)"

definition pow_limit_mainnet :: target where
  "pow_limit_mainnet = from_be_bytes (replicate 4 0 @ replicate 28 0xff)"

definition pow_limit_signet :: target where
  "pow_limit_signet = from_be_bytes ((replicate 32 0)[2 := 0x03, 3 := 0x77, 4 := 0xae])"

definition pow_limit_regtest :: target where
  "pow_limit_regtest = from_be_bytes ((replicate 32 0xff)[0 := 0x7f])"

definition SHARED_GENESIS_MERKLE_ROOT :: bytes where
  "SHARED_GENESIS_MERKLE_ROOT =
    [0x3b, 0xa3, 0xed, 0xfd, 0x7a, 0x7b, 0x12, 0xb2, 0x7a, 0xc7, 0x2c, 0x3e, 0x67, 0x76, 0x8f, 0x61,
     0x7f, 0xc8, 0x1b, 0xc3, 0x88, 0x8a, 0x51, 0x32, 0x3a, 0x9f, 0xb8, 0xaa, 0x4b, 0x1e, 0x5e, 0x4a]"

definition TESTNET4_GENESIS_MERKLE_ROOT :: bytes where
  "TESTNET4_GENESIS_MERKLE_ROOT =
    [0x4e, 0x7b, 0x2b, 0x91, 0x28, 0xfe, 0x02, 0x91, 0xdb, 0x06, 0x93, 0xaf, 0x2a, 0xe4, 0x18, 0xb7,
     0x67, 0xe6, 0x57, 0xcd, 0x40, 0x7e, 0x80, 0xcb, 0x14, 0x34, 0x22, 0x1e, 0xae, 0xa7, 0xa0, 0x7a]"

definition MAINNET_BIP34_HASH :: bytes where
  "MAINNET_BIP34_HASH =
    [0xb8, 0x08, 0x08, 0x9c, 0x75, 0x6a, 0xdd, 0x15, 0x91, 0xb1, 0xd1, 0x7b, 0xab, 0x44, 0xbb, 0xa3,
     0xfe, 0xd9, 0xe0, 0x2f, 0x94, 0x2a, 0xb4, 0x89, 0x4b, 0x02, 0x00, 0x00, 0x00, 0x00, 0x00, 0x00]"

definition MINIMUM_CHAIN_WORK_MAINNET :: bytes where
  "MINIMUM_CHAIN_WORK_MAINNET =
    [0x00, 0x00, 0x00, 0x00, 0x00, 0x00, 0x00, 0x00, 0x00, 0x00, 0x00, 0x00, 0x00, 0x00, 0x00, 0x00,
     0x00, 0x00, 0x00, 0x01, 0x12, 0x87, 0x50, 0xf8, 0x2f, 0x4c, 0x36, 0x61, 0x53, 0xa3, 0xa0, 0x30]"

definition MINIMUM_CHAIN_WORK_TESTNET4 :: bytes where
  "MINIMUM_CHAIN_WORK_TESTNET4 =
    [0x00, 0x00, 0x00, 0x00, 0x00, 0x00, 0x00, 0x00, 0x00, 0x00, 0x00, 0x00, 0x00, 0x00, 0x00, 0x00,
     0x00, 0x00, 0x00, 0x00, 0x00, 0x00, 0x09, 0xa0, 0xfe, 0x15, 0xd0, 0x17, 0x7d, 0x08, 0x63, 0x04]"

definition MINIMUM_CHAIN_WORK_SIGNET :: bytes where
  "MINIMUM_CHAIN_WORK_SIGNET =
    [0x00, 0x00, 0x00, 0x00, 0x00, 0x00, 0x00, 0x00, 0x00, 0x00, 0x00, 0x00, 0x00, 0x00, 0x00, 0x00,
     0x00, 0x00, 0x00, 0x00, 0x00, 0x00, 0x00, 0x00, 0x00, 0x00, 0x0b, 0x46, 0x3e, 0xa0, 0xa4, 0xb8]"

definition SIGNET_CHALLENGE :: bytes where
  "SIGNET_CHALLENGE =
    [0x51, 0x21, 0x03, 0xad, 0x5e, 0x0e, 0xda, 0xd1, 0x8c, 0xb1, 0xf0, 0xfc, 0x0d, 0x28, 0xa3, 0xd4,
     0xf1, 0xf3, 0xe4, 0x45, 0x64, 0x03, 0x37, 0x48, 0x9a, 0xbb, 0x10, 0x40, 0x4f, 0x2d, 0x1e, 0x08,
     0x6b, 0xe4, 0x30, 0x21, 0x03, 0x59, 0xef, 0x50, 0x21, 0x96, 0x4f, 0xe2, 0x2d, 0x6f, 0x8e, 0x05,
     0xb2, 0x46, 0x3c, 0x95, 0x40, 0xce, 0x96, 0x88, 0x3f, 0xe3, 0xb2, 0x78, 0x76, 0x0f, 0x04, 0x8f,
     0x51, 0x89, 0xf2, 0xe6, 0xc4, 0x52, 0xae]"

definition MAINNET_SCRIPT_FLAG_EXCEPTIONS :: "(hash32 \<times> u32) list" where
  "MAINNET_SCRIPT_FLAG_EXCEPTIONS =
    [([0x22, 0x9c, 0x4f, 0xac, 0x88, 0xba, 0xb1, 0x94, 0xeb, 0x08, 0xf1, 0xa5, 0x28, 0xcc, 0x30, 0x8d,
       0xed, 0x23, 0x97, 0xf4, 0xf4, 0xeb, 0x6e, 0x75, 0xdc, 0x02, 0x00, 0x00, 0x00, 0x00, 0x00, 0x00], 0),
     ([0xad, 0x95, 0xe3, 0xa1, 0x5e, 0xe5, 0xff, 0xd5, 0x85, 0xc5, 0xe8, 0x1d, 0x44, 0xb5, 0x6a, 0x98,
       0x1e, 0x84, 0x2d, 0x5b, 0xc3, 0x14, 0x0f, 0x00, 0x00, 0x00, 0x00, 0x00, 0x00, 0x00, 0x00, 0x00], 0x801)]"

definition MAINNET_GENESIS :: block_header where
  "MAINNET_GENESIS = \<lparr>hdr_version = 1, prev_block_hash = hash_zero,
     hdr_merkle_root = SHARED_GENESIS_MERKLE_ROOT, hdr_time = 1231006505, hdr_bits = 0x1d00ffff,
     hdr_nonce = 2083236893\<rparr>"

definition TESTNET4_GENESIS :: block_header where
  "TESTNET4_GENESIS = \<lparr>hdr_version = 1, prev_block_hash = hash_zero,
     hdr_merkle_root = TESTNET4_GENESIS_MERKLE_ROOT, hdr_time = 1714777860, hdr_bits = 0x1d00ffff,
     hdr_nonce = 393743547\<rparr>"

definition SIGNET_GENESIS :: block_header where
  "SIGNET_GENESIS = \<lparr>hdr_version = 1, prev_block_hash = hash_zero,
     hdr_merkle_root = SHARED_GENESIS_MERKLE_ROOT, hdr_time = 1598918400, hdr_bits = 0x1e0377ae,
     hdr_nonce = 52613770\<rparr>"

definition REGTEST_GENESIS :: block_header where
  "REGTEST_GENESIS = \<lparr>hdr_version = 1, prev_block_hash = hash_zero,
     hdr_merkle_root = SHARED_GENESIS_MERKLE_ROOT, hdr_time = 1296688602, hdr_bits = 0x207fffff,
     hdr_nonce = 2\<rparr>"

definition mainnet_params :: params where
  "mainnet_params = \<lparr>
      network = Mainnet,
      pow_limit = pow_limit_mainnet,
      pow_target_spacing = 10 * 60,
      pow_target_timespan = 14 * 24 * 60 * 60,
      allow_min_difficulty_blocks = False,
      enforce_bip94 = False,
      no_retargeting = False,
      signet_blocks = False,
      signet_challenge = [],
      minimum_chain_work = from_be_bytes MINIMUM_CHAIN_WORK_MAINNET,
      assume_valid = display_hash
        ''00000000000000000000ccebd6d74d9194d8dcdc1d177c478e094bfad51ba5ac'',
      message_start = [0xf9, 0xbe, 0xb4, 0xd9],
      default_port = 8333,
      dns_seeds = [''seed.bitcoin.sipa.be'',
        ''dnsseed.bluematt.me'',
        ''seed.bitcoin.jonasschnelli.ch'',
        ''seed.btc.petertodd.net'',
        ''seed.bitcoin.sprovoost.nl'',
        ''dnsseed.emzy.de'',
        ''seed.bitcoin.wiz.biz'',
        ''seed.mainnet.achownodes.xyz''],
      base58_pubkey_prefix = 0x00,
      base58_script_prefix = 0x05,
      base58_secret_prefix = 0x80,
      base58_ext_pubkey_prefix = [0x04, 0x88, 0xb2, 0x1e],
      base58_ext_secret_prefix = [0x04, 0x88, 0xad, 0xe4],
      bech32_hrp = ''bc'',
      bip34_height = 227931,
      bip66_height = 363725,
      bip65_height = 388381,
      csv_height = 419328,
      segwit_height = 481824,
      taproot_height = 709632,
      subsidy_halving_interval = 210000,
      bip34_hash = Some MAINNET_BIP34_HASH,
      script_flag_exceptions = MAINNET_SCRIPT_FLAG_EXCEPTIONS,
      rule_change_activation_threshold = 1815,
      bip9_deployments =
        [\<lparr>dep_name = ''testdummy'', dep_bit = 28, dep_start_time = BIP9_NEVER_ACTIVE,
          dep_timeout = BIP9_NO_TIMEOUT, dep_min_activation_height = 0\<rparr>,
         \<lparr>dep_name = ''taproot'', dep_bit = 2, dep_start_time = 1619222400,
          dep_timeout = 1628640000, dep_min_activation_height = 709632\<rparr>],
      assumeutxo_data =
        [\<lparr>au_height = 840000,
          au_hash_serialized = ''a2a5521b1b5ab65f67818e5e8eccabb7171a517f9e2382208f77687310768f96'',
          au_n_chain_tx = 991032194,
          au_blockhash = ''0000000000000000000320283a032748cef8227873ff4872689bf23f1cda83a5''\<rparr>,
         \<lparr>au_height = 880000,
          au_hash_serialized = ''dbd190983eaf433ef7c15f78a278ae42c00ef52e0fd2a54953782175fbadcea9'',
          au_n_chain_tx = 1145604538,
          au_blockhash = ''000000000000000000010b17283c3c400507969a9c2afd1dcf2082ec5cca2880''\<rparr>,
         \<lparr>au_height = 910000,
          au_hash_serialized = ''4daf8a17b4902498c5787966a2b51c613acdab5df5db73f196fa59a4da2f1568'',
          au_n_chain_tx = 1226586151,
          au_blockhash = ''0000000000000000000108970acb9522ffd516eae17acddcb1bd16469194a821''\<rparr>,
         \<lparr>au_height = 935000,
          au_hash_serialized = ''e4b90ef9eae834f56c4b64d2d50143cee10ad87994c614d7d04125e2a6025050'',
          au_n_chain_tx = 1305397408,
          au_blockhash = ''0000000000000000000147034958af1652b2b91bba607beacc5e72a56f0fb5ee''\<rparr>],
      genesis_header = MAINNET_GENESIS\<rparr>"

definition testnet4_params :: params where
  "testnet4_params = \<lparr>
      network = Testnet4,
      pow_limit = pow_limit_mainnet,
      pow_target_spacing = 10 * 60,
      pow_target_timespan = 14 * 24 * 60 * 60,
      allow_min_difficulty_blocks = True,
      enforce_bip94 = True,
      no_retargeting = False,
      signet_blocks = False,
      signet_challenge = [],
      minimum_chain_work = from_be_bytes MINIMUM_CHAIN_WORK_TESTNET4,
      assume_valid = display_hash
        ''0000000002368b1e4ee27e2e85676ae6f9f9e69579b29093e9a82c170bf7cf8a'',
      message_start = [0x1c, 0x16, 0x3f, 0x28],
      default_port = 48333,
      dns_seeds = [''seed.testnet4.bitcoin.sprovoost.nl'',
        ''seed.testnet4.wiz.biz''],
      base58_pubkey_prefix = 0x6f,
      base58_script_prefix = 0xc4,
      base58_secret_prefix = 0xef,
      base58_ext_pubkey_prefix = [0x04, 0x35, 0x87, 0xcf],
      base58_ext_secret_prefix = [0x04, 0x35, 0x83, 0x94],
      bech32_hrp = ''tb'',
      bip34_height = 1,
      bip66_height = 1,
      bip65_height = 1,
      csv_height = 1,
      segwit_height = 1,
      taproot_height = 0,
      subsidy_halving_interval = 210000,
      bip34_hash = None,
      script_flag_exceptions = [],
      rule_change_activation_threshold = 1512,
      bip9_deployments =
        [\<lparr>dep_name = ''testdummy'', dep_bit = 28, dep_start_time = BIP9_NEVER_ACTIVE,
          dep_timeout = BIP9_NO_TIMEOUT, dep_min_activation_height = 0\<rparr>,
         \<lparr>dep_name = ''taproot'', dep_bit = 2, dep_start_time = BIP9_ALWAYS_ACTIVE,
          dep_timeout = BIP9_NO_TIMEOUT, dep_min_activation_height = 0\<rparr>],
      assumeutxo_data =
        [\<lparr>au_height = 90000,
          au_hash_serialized = ''784fb5e98241de66fdd429f4392155c9e7db5c017148e66e8fdbc95746f8b9b5'',
          au_n_chain_tx = 11347043,
          au_blockhash = ''0000000002ebe8bcda020e0dd6ccfbdfac531d2f6a81457191b99fc2df2dbe3b''\<rparr>,
         \<lparr>au_height = 120000,
          au_hash_serialized = ''10b05d05ad468d0971162e1b222a4aa66caca89da2bb2a93f8f37fb29c4794b0'',
          au_n_chain_tx = 14141057,
          au_blockhash = ''000000000bd2317e51b3c5794981c35ba894ce27d3e772d5c39ecd9cbce01dc8''\<rparr>],
      genesis_header = TESTNET4_GENESIS\<rparr>"

definition signet_params :: params where
  "signet_params = \<lparr>
      network = Signet,
      pow_limit = pow_limit_signet,
      pow_target_spacing = 10 * 60,
      pow_target_timespan = 14 * 24 * 60 * 60,
      allow_min_difficulty_blocks = False,
      enforce_bip94 = False,
      no_retargeting = False,
      signet_blocks = True,
      signet_challenge = SIGNET_CHALLENGE,
      minimum_chain_work = from_be_bytes MINIMUM_CHAIN_WORK_SIGNET,
      assume_valid = display_hash
        ''00000008414aab61092ef93f1aacc54cf9e9f16af29ddad493b908a01ff5c329'',
      message_start = [0x0a, 0x03, 0xcf, 0x40],
      default_port = 38333,
      dns_seeds = [''seed.signet.bitcoin.sprovoost.nl'',
        ''seed.signet.achownodes.xyz''],
      base58_pubkey_prefix = 0x6f,
      base58_script_prefix = 0xc4,
      base58_secret_prefix = 0xef,
      base58_ext_pubkey_prefix = [0x04, 0x35, 0x87, 0xcf],
      base58_ext_secret_prefix = [0x04, 0x35, 0x83, 0x94],
      bech32_hrp = ''tb'',
      bip34_height = 1,
      bip66_height = 1,
      bip65_height = 1,
      csv_height = 1,
      segwit_height = 1,
      taproot_height = 0,
      subsidy_halving_interval = 210000,
      bip34_hash = None,
      script_flag_exceptions = [],
      rule_change_activation_threshold = 1815,
      bip9_deployments =
        [\<lparr>dep_name = ''testdummy'', dep_bit = 28, dep_start_time = BIP9_NEVER_ACTIVE,
          dep_timeout = BIP9_NO_TIMEOUT, dep_min_activation_height = 0\<rparr>,
         \<lparr>dep_name = ''taproot'', dep_bit = 2, dep_start_time = BIP9_ALWAYS_ACTIVE,
          dep_timeout = BIP9_NO_TIMEOUT, dep_min_activation_height = 0\<rparr>],
      assumeutxo_data =
        [\<lparr>au_height = 160000,
          au_hash_serialized = ''fe0a44309b74d6b5883d246cb419c6221bcccf0b308c9b59b7d70783dbdf928a'',
          au_n_chain_tx = 2289496,
          au_blockhash = ''0000003ca3c99aff040f2563c2ad8f8ec88bd0fd6b8f0895cfaf1ef90353a62c''\<rparr>,
         \<lparr>au_height = 290000,
          au_hash_serialized = ''97267e000b4b876800167e71b9123f1529d13b14308abec2888bbd2160d14545'',
          au_n_chain_tx = 28547497,
          au_blockhash = ''0000000577f2741bb30cd9d39d6d71b023afbeb9764f6260786a97969d5c9ac0''\<rparr>],
      genesis_header = SIGNET_GENESIS\<rparr>"

definition regtest_params :: params where
  "regtest_params = \<lparr>
      network = Regtest,
      pow_limit = pow_limit_regtest,
      pow_target_spacing = 10 * 60,
      pow_target_timespan = 24 * 60 * 60,
      allow_min_difficulty_blocks = True,
      enforce_bip94 = False,
      no_retargeting = True,
      signet_blocks = False,
      signet_challenge = [],
      minimum_chain_work = u256_ZERO,
      assume_valid = None,
      message_start = [0xfa, 0xbf, 0xb5, 0xda],
      default_port = 18444,
      dns_seeds = [],
      base58_pubkey_prefix = 0x6f,
      base58_script_prefix = 0xc4,
      base58_secret_prefix = 0xef,
      base58_ext_pubkey_prefix = [0x04, 0x35, 0x87, 0xcf],
      base58_ext_secret_prefix = [0x04, 0x35, 0x83, 0x94],
      bech32_hrp = ''bcrt'',
      bip34_height = 1,
      bip66_height = 1,
      bip65_height = 1,
      csv_height = 1,
      segwit_height = 0,
      taproot_height = 0,
      subsidy_halving_interval = 150,
      bip34_hash = None,
      script_flag_exceptions = [],
      rule_change_activation_threshold = 108,
      bip9_deployments =
        [\<lparr>dep_name = ''testdummy'', dep_bit = 28, dep_start_time = 0,
          dep_timeout = BIP9_NO_TIMEOUT, dep_min_activation_height = 0\<rparr>,
         \<lparr>dep_name = ''taproot'', dep_bit = 2, dep_start_time = BIP9_ALWAYS_ACTIVE,
          dep_timeout = BIP9_NO_TIMEOUT, dep_min_activation_height = 0\<rparr>],
      assumeutxo_data =
        [\<lparr>au_height = 110,
          au_hash_serialized = ''6657b736d4fe4db0cbc796789e812d5dba7f5c143764b1b6905612f1830609d1'',
          au_n_chain_tx = 111,
          au_blockhash = ''696e92821f65549c7ee134edceeeeaaa4105647a3c4fd9f298c0aec0ab50425c''\<rparr>,
         \<lparr>au_height = 200,
          au_hash_serialized = ''4f34d431c3e482f6b0d67b64609ece3964dc8d7976d02ac68dd7c9c1421738f2'',
          au_n_chain_tx = 201,
          au_blockhash = ''5e93653318f294fb5aa339d00bbf8cf1c3515488ad99412c37608b139ea63b27''\<rparr>,
         \<lparr>au_height = 299,
          au_hash_serialized = ''a4bf3407ccb2cc0145c49ebba8fa91199f8a3903daf0883875941497d2493c27'',
          au_n_chain_tx = 334,
          au_blockhash = ''3bb7ce5eba0be48939b7a521ac1ba9316afee2c7bada3a0cca24188e6d7d96c0''\<rparr>],
      genesis_header = REGTEST_GENESIS\<rparr>"

definition network_params :: "network \<Rightarrow> params" where
  "network_params n = (case n of
     Mainnet \<Rightarrow> mainnet_params | Testnet4 \<Rightarrow> testnet4_params
   | Signet \<Rightarrow> signet_params | Regtest \<Rightarrow> regtest_params)"

section \<open>Derived parameters\<close>

text \<open>\<open>checked_div(..).unwrap_or(0)\<close>: a zero spacing gives a zero interval.\<close>

definition difficulty_adjustment_interval :: "params \<Rightarrow> u64" where
  "difficulty_adjustment_interval p =
     (if pow_target_spacing p = 0 then 0 else pow_target_timespan p div pow_target_spacing p)"

definition pow_limit_compact :: "params \<Rightarrow> compact_target" where
  "pow_limit_compact p = to_compact (pow_limit p)"

section \<open>Genesis blocks\<close>

definition GENESIS_HEADLINE :: bytes where
  "GENESIS_HEADLINE =
     str_bytes ''The Times 03/Jan/2009 Chancellor on brink of second bailout for banks''"

definition TESTNET4_MSG :: bytes where
  "TESTNET4_MSG = str_bytes
     ''03/May/2024 000000000000000000001ebd58c244970b3aa9d783bb001011fbe8ea8e98e00e''"

definition GENESIS_PUBKEY :: bytes where
  "GENESIS_PUBKEY =
    [0x04, 0x67, 0x8a, 0xfd, 0xb0, 0xfe, 0x55, 0x48, 0x27, 0x19, 0x67, 0xf1, 0xa6, 0x71, 0x30, 0xb7,
     0x10, 0x5c, 0xd6, 0xa8, 0x28, 0xe0, 0x39, 0x09, 0xa6, 0x79, 0x62, 0xe0, 0xea, 0x1f, 0x61, 0xde,
     0xb6, 0x49, 0xf6, 0xbc, 0x3f, 0x4c, 0xef, 0x38, 0xc4, 0xf3, 0x55, 0x04, 0xe5, 0x1e, 0xc1, 0x12,
     0xde, 0x5c, 0x38, 0x4d, 0xf7, 0xba, 0x0b, 0x8d, 0x57, 0x8a, 0x4c, 0x70, 0x2b, 0x6b, 0xf1, 0x1d,
     0x5f]"

definition genesis_block :: "hash_fns \<Rightarrow> params \<Rightarrow> block option" where
  "genesis_block H p =
     (let (message, spk) =
            (case network p of
               Testnet4 \<Rightarrow> (TESTNET4_MSG, push_slice (replicate 33 0) @ [OP_CHECKSIG])
             | _ \<Rightarrow> (GENESIS_HEADLINE, push_slice GENESIS_PUBKEY @ [OP_CHECKSIG]));
          sig = push_slice (u32_le 0x1d00ffff) @ push_slice [0x04] @ push_slice message;
          b = \<lparr>blk_header = genesis_header p,
               transactions =
                 [\<lparr>tx_version = 1,
                   inputs = [\<lparr>previous_output = NULL_OUTPOINT, script_sig = sig,
                     sequence = 0xffffffff, witness = []\<rparr>],
                   outputs = [\<lparr>out_value = 5000000000, script_pubkey = spk\<rparr>],
                   lock_time = 0\<rparr>]\<rparr>;
          (root, mutated) = block_merkle_root H b
      in if \<not> mutated \<and> root = hdr_merkle_root (blk_header b) then Some b else None)"

section \<open>The commitment to a parameter set\<close>

definition append_count :: "bytes \<Rightarrow> nat \<Rightarrow> bytes" where
  "append_count out n = out @ u64_le (word_of_nat n)"

definition append_bytes :: "bytes \<Rightarrow> bytes \<Rightarrow> bytes" where
  "append_bytes out bs = append_count out (length bs) @ bs"

text \<open>The pieces below are what the method pushes onto its buffer, in order.\<close>

definition bool_byte :: "bool \<Rightarrow> bytes" where
  "bool_byte b = [if b then 1 else 0]"

definition network_byte :: "network \<Rightarrow> bytes" where
  "network_byte n = [case n of Mainnet \<Rightarrow> 0 | Testnet4 \<Rightarrow> 1 | Signet \<Rightarrow> 2 | Regtest \<Rightarrow> 3]"

definition hash_option_bytes :: "hash32 option \<Rightarrow> bytes" where
  "hash_option_bytes h = (case h of Some x \<Rightarrow> 1 # x | None \<Rightarrow> [0])"

definition deployment_bytes :: "bip9_deployment \<Rightarrow> bytes" where
  "deployment_bytes d = append_bytes [] (str_bytes (dep_name d)) @ u32_le (dep_bit d) @
     i64_le (dep_start_time d) @ i64_le (dep_timeout d) @ u32_le (dep_min_activation_height d)"

definition assumeutxo_bytes :: "assumeutxo_entry \<Rightarrow> bytes" where
  "assumeutxo_bytes e = u32_le (au_height e) @ append_bytes [] (str_bytes (au_hash_serialized e)) @
     u64_le (au_n_chain_tx e) @ append_bytes [] (str_bytes (au_blockhash e))"

definition COMMITMENT_TAG :: bytes where
  "COMMITMENT_TAG = str_bytes ''Avila Swift validation Params v1'' @ [0]"

definition params_encoding :: "params \<Rightarrow> bytes" where
  "params_encoding p =
     COMMITMENT_TAG @ network_byte (network p) @ to_be_bytes (pow_limit p) @
     u64_le (pow_target_spacing p) @ u64_le (pow_target_timespan p) @
     bool_byte (allow_min_difficulty_blocks p) @ bool_byte (enforce_bip94 p) @
     bool_byte (no_retargeting p) @ bool_byte (signet_blocks p) @
     append_bytes [] (signet_challenge p) @ to_be_bytes (minimum_chain_work p) @
     hash_option_bytes (assume_valid p) @ message_start p @ u16_le (default_port p) @
     append_count [] (length (dns_seeds p)) @
     concat (map (\<lambda>s. append_bytes [] (str_bytes s)) (dns_seeds p)) @
     [base58_pubkey_prefix p, base58_script_prefix p, base58_secret_prefix p] @
     base58_ext_pubkey_prefix p @ base58_ext_secret_prefix p @
     append_bytes [] (str_bytes (bech32_hrp p)) @
     u32_le (bip34_height p) @ u32_le (bip66_height p) @ u32_le (bip65_height p) @
     u32_le (csv_height p) @ u32_le (segwit_height p) @ u32_le (taproot_height p) @
     u32_le (subsidy_halving_interval p) @ hash_option_bytes (bip34_hash p) @
     append_count [] (length (script_flag_exceptions p)) @
     concat (map (\<lambda>(h, f). h @ u32_le f) (script_flag_exceptions p)) @
     u32_le (rule_change_activation_threshold p) @
     concat (map deployment_bytes (bip9_deployments p)) @
     append_count [] (length (assumeutxo_data p)) @
     concat (map assumeutxo_bytes (assumeutxo_data p)) @
     header_encode (genesis_header p)"

definition swift_validation_commitment :: "hash_fns \<Rightarrow> params \<Rightarrow> hash32" where
  "swift_validation_commitment H p = sha256 H (params_encoding p)"

section \<open>Injectivity of the encoding\<close>

text \<open>What the Rust types say: array lengths, and lengths that fit \<open>u64\<close>.\<close>

definition fits_u64 :: "'a list \<Rightarrow> bool" where
  "fits_u64 xs \<longleftrightarrow> length xs < 2 ^ 64"

definition hash_option_ok :: "hash32 option \<Rightarrow> bool" where
  "hash_option_ok h \<longleftrightarrow> (case h of Some x \<Rightarrow> length x = 32 | None \<Rightarrow> True)"

definition deployment_ok :: "bip9_deployment \<Rightarrow> bool" where
  "deployment_ok d \<longleftrightarrow> fits_u64 (dep_name d) \<and> in_i64 (dep_start_time d) \<and> in_i64 (dep_timeout d)"

definition assumeutxo_ok :: "assumeutxo_entry \<Rightarrow> bool" where
  "assumeutxo_ok e \<longleftrightarrow> fits_u64 (au_hash_serialized e) \<and> fits_u64 (au_blockhash e)"

definition params_ok :: "params \<Rightarrow> bool" where
  "params_ok p \<longleftrightarrow>
     fits_u64 (signet_challenge p) \<and> hash_option_ok (assume_valid p) \<and> length (message_start p) = 4 \<and>
     fits_u64 (dns_seeds p) \<and> list_all fits_u64 (dns_seeds p) \<and>
     length (base58_ext_pubkey_prefix p) = 4 \<and> length (base58_ext_secret_prefix p) = 4 \<and>
     fits_u64 (bech32_hrp p) \<and> hash_option_ok (bip34_hash p) \<and>
     fits_u64 (script_flag_exceptions p) \<and> list_all (\<lambda>(h, f). length h = 32) (script_flag_exceptions p) \<and>
     length (bip9_deployments p) = 2 \<and> list_all deployment_ok (bip9_deployments p) \<and>
     fits_u64 (assumeutxo_data p) \<and> list_all assumeutxo_ok (assumeutxo_data p) \<and>
     header_valid (genesis_header p)"

named_theorems prefix_code \<open>encodings read back from the front of a byte string\<close>

lemma uN_le_inj [simp]:
  "u16_le a = u16_le b \<longleftrightarrow> a = b" "u32_le c = u32_le d \<longleftrightarrow> c = d" "u64_le e = u64_le f \<longleftrightarrow> e = f"
  by (metis uN_of_le_le)+

lemma i64_le_inj: "in_i64 a \<Longrightarrow> in_i64 b \<Longrightarrow> i64_le a = i64_le b \<longleftrightarrow> a = b"
  by (metis i64_of_le_le)

lemma uN_le_prefix [prefix_code]:
  "u16_le a @ r = u16_le b @ s \<longleftrightarrow> a = b \<and> r = s"
  "u32_le c @ r = u32_le d @ s \<longleftrightarrow> c = d \<and> r = s"
  "u64_le e @ r = u64_le f @ s \<longleftrightarrow> e = f \<and> r = s"
  by (simp_all add: append_eq_append_conv)

lemma i64_le_prefix [prefix_code]:
  "in_i64 a \<Longrightarrow> in_i64 b \<Longrightarrow> i64_le a @ r = i64_le b @ s \<longleftrightarrow> a = b \<and> r = s"
  by (simp add: append_eq_append_conv i64_le_inj)

lemma u256_prefix [prefix_code]:
  "to_be_bytes a @ r = to_be_bytes b @ s \<longleftrightarrow> a = b \<and> r = s"
proof -
  have "length (to_be_bytes x) = 32" for x
    by (cases x) (simp add: to_be_bytes_def length_replicate_concat [where n = 8])
  then show ?thesis by (simp add: append_eq_append_conv) (metis from_to_be_bytes)
qed

lemma flag_prefix [prefix_code]:
  "bool_byte a @ r = bool_byte b @ s \<longleftrightarrow> a = b \<and> r = s"
  "network_byte m @ r = network_byte n @ s \<longleftrightarrow> m = n \<and> r = s"
  by (auto simp: bool_byte_def network_byte_def split: network.splits if_splits)

lemma hash_option_prefix [prefix_code]:
  "hash_option_ok a \<Longrightarrow> hash_option_ok b \<Longrightarrow>
   hash_option_bytes a @ r = hash_option_bytes b @ s \<longleftrightarrow> a = b \<and> r = s"
  by (auto simp: hash_option_ok_def hash_option_bytes_def append_eq_append_conv split: option.splits)

lemma unat_of_nat_len_u64: "n < 18446744073709551616 \<Longrightarrow> unat (word_of_nat n :: u64) = n"
  by (simp add: unat_of_nat take_bit_nat_eq_self_iff)

lemma count_prefix [prefix_code]:
  "m < 2 ^ 64 \<Longrightarrow> n < 2 ^ 64 \<Longrightarrow>
   append_count [] m @ r = append_count [] n @ s \<longleftrightarrow> m = n \<and> r = s"
  by (auto simp: append_count_def append_eq_append_conv) (metis unat_of_nat_len_u64)

lemma bytes_prefix [prefix_code]:
  assumes "fits_u64 a" "fits_u64 b"
  shows "append_bytes [] a @ r = append_bytes [] b @ s \<longleftrightarrow> a = b \<and> r = s"
  using assms by (auto simp: append_bytes_def fits_u64_def count_prefix)

lemma of_char_u8 [simp]: "(of_char c :: u8) = of_char d \<longleftrightarrow> c = d"
proof -
  have "unat (of_char c :: u8) = of_char c" for c
  proof -
    have "(of_char c :: nat) < 256" by (rule nat_of_char_less_256)
    then have "unat (word_of_nat (of_char c) :: u8) = of_char c" by (simp add: unat_of_nat_u8)
    then show ?thesis by (simp only: of_nat_of_char)
  qed
  then show ?thesis by (metis of_char_eq_iff)
qed

lemma str_bytes_inj [simp]: "str_bytes a = str_bytes b \<longleftrightarrow> a = b"
  unfolding str_bytes_def
  by (rule inj_map_eq_map) (rule injI, simp)

lemma fits_str [simp]: "fits_u64 (str_bytes s) \<longleftrightarrow> fits_u64 s"
  by (simp add: fits_u64_def str_bytes_def)

lemma deployment_prefix [prefix_code]:
  assumes "deployment_ok a" "deployment_ok b"
  shows "deployment_bytes a @ r = deployment_bytes b @ s \<longleftrightarrow> a = b \<and> r = s"
  using assms
  by (auto simp: deployment_bytes_def deployment_ok_def prefix_code i64_le_inj
      intro: bip9_deployment.equality)

lemma assumeutxo_prefix [prefix_code]:
  assumes "assumeutxo_ok a" "assumeutxo_ok b"
  shows "assumeutxo_bytes a @ r = assumeutxo_bytes b @ s \<longleftrightarrow> a = b \<and> r = s"
  using assms
  by (auto simp: assumeutxo_bytes_def assumeutxo_ok_def prefix_code intro: assumeutxo_entry.equality)

text \<open>A list of known length of prefix codes is a prefix code.\<close>

lemma concat_prefix:
  assumes "\<And>a b r s. P a \<Longrightarrow> P b \<Longrightarrow> enc a @ r = enc b @ s \<longleftrightarrow> a = b \<and> r = s"
    and "length xs = length ys" "list_all P xs" "list_all P ys"
  shows "concat (map enc xs) @ r = concat (map enc ys) @ s \<longleftrightarrow> xs = ys \<and> r = s"
  using assms(2-)
  by (induction xs ys rule: list_induct2) (auto simp: assms(1))

lemma exception_prefix:
  "(case a of (h, f) \<Rightarrow> length (h :: bytes) = 32) \<Longrightarrow> (case b of (h, f) \<Rightarrow> length h = 32) \<Longrightarrow>
   (case a of (h, f) \<Rightarrow> h @ u32_le f) @ r = (case b of (h, f) \<Rightarrow> h @ u32_le f) @ s \<longleftrightarrow> a = b \<and> r = s"
  by (auto simp: append_eq_append_conv prefix_code split: prod.splits)

lemma seed_prefix:
  "fits_u64 a \<Longrightarrow> fits_u64 b \<Longrightarrow>
   append_bytes [] (str_bytes a) @ r = append_bytes [] (str_bytes b) @ s \<longleftrightarrow> a = b \<and> r = s"
  by (simp add: prefix_code)

lemma counted_prefix:
  assumes "\<And>a b r s. P a \<Longrightarrow> P b \<Longrightarrow> enc a @ r = enc b @ s \<longleftrightarrow> a = b \<and> r = s"
    and "fits_u64 xs" "fits_u64 ys" "list_all P xs" "list_all P ys"
  shows "append_count [] (length xs) @ concat (map enc xs) @ r =
     append_count [] (length ys) @ concat (map enc ys) @ s \<longleftrightarrow> xs = ys \<and> r = s"
proof -
  have "length xs = length ys \<Longrightarrow> ?thesis"
    using assms by (simp add: concat_prefix [OF assms(1)])
  moreover have "length xs \<noteq> length ys \<Longrightarrow> ?thesis"
    using assms(2,3) by (auto simp: count_prefix fits_u64_def)
  ultimately show ?thesis by blast
qed

lemmas list_prefix [prefix_code] =
  counted_prefix [of fits_u64, OF seed_prefix] counted_prefix [OF exception_prefix]
  counted_prefix [of assumeutxo_ok, OF assumeutxo_prefix]
  concat_prefix [of deployment_ok, OF deployment_prefix]

lemma header_encode_inj: "header_valid a \<Longrightarrow> header_valid b \<Longrightarrow> header_encode a = header_encode b \<longleftrightarrow> a = b"
  by (metis header_decode_iff sum.inject(2))

lemma params_encoding_inj:
  assumes "params_ok p" "params_ok q" "params_encoding p = params_encoding q"
  shows "p = q"
proof -
  note ok = assms(1,2) [unfolded params_ok_def]
  show ?thesis
    using assms(3) unfolding params_encoding_def
    by (intro params.equality) (simp_all add: ok prefix_code append_eq_append_conv header_encode_inj)
qed

lemma display_hash_ok: "hash_option_ok (display_hash s)"
  by (auto simp: hash_option_ok_def display_hash_def parse_display_hex_def split: sum.splits hex_error.splits if_splits)

lemma mainnet_assume_valid:
  "display_hash ''00000000000000000000ccebd6d74d9194d8dcdc1d177c478e094bfad51ba5ac'' \<noteq> None"
  by code_simp

lemma builtin_params_ok: "params_ok (network_params n)"
  by (cases n) (simp_all add: network_params_def mainnet_params_def testnet4_params_def
      signet_params_def regtest_params_def params_ok_def fits_u64_def hash_option_ok_def deployment_ok_def
      assumeutxo_ok_def display_hash_ok [unfolded hash_option_ok_def] MAINNET_BIP34_HASH_def MAINNET_SCRIPT_FLAG_EXCEPTIONS_def
      BIP9_NEVER_ACTIVE_def BIP9_ALWAYS_ACTIVE_def BIP9_NO_TIMEOUT_def in_i64_def i64_min_def
      i64_max_def header_valid_def hash_zero_def MAINNET_GENESIS_def TESTNET4_GENESIS_def
      SIGNET_GENESIS_def REGTEST_GENESIS_def SHARED_GENESIS_MERKLE_ROOT_def
      TESTNET4_GENESIS_MERKLE_ROOT_def SIGNET_CHALLENGE_def)

lemma builtin_interval:
  "difficulty_adjustment_interval (network_params n) = (if n = Regtest then 144 else 2016)"
  by (cases n) (simp_all add: difficulty_adjustment_interval_def network_params_def mainnet_params_def
      testnet4_params_def signet_params_def regtest_params_def)

section \<open>Properties\<close>

text \<open>C32: The validation commitment binds every field of a parameter set: two well-formed sets with one
  commitment are equal, or their two encodings are a SHA-256 collision.\<close>

theorem swift_commitment_binds:
  assumes "params_ok p" "params_ok q"
    and "swift_validation_commitment H p = swift_validation_commitment H q"
  shows "p = q \<or>
    params_encoding p \<noteq> params_encoding q \<and> sha256 H (params_encoding p) = sha256 H (params_encoding q)"
  using assms params_encoding_inj by (auto simp: swift_validation_commitment_def)

text \<open>Witness of C32: under a digest that keeps its input, mainnet with and without an assumed-valid block
  have different commitments.\<close>

lemma swift_commitment_binds_witness:
  "swift_validation_commitment (toy_hashes\<lparr>sha256 := \<lambda>x. x\<rparr>) mainnet_params \<noteq>
   swift_validation_commitment (toy_hashes\<lparr>sha256 := \<lambda>x. x\<rparr>) (mainnet_params\<lparr>assume_valid := None\<rparr>)"
proof
  let ?H = "toy_hashes\<lparr>sha256 := \<lambda>x. x\<rparr>" and ?p = "mainnet_params" and ?q = "mainnet_params\<lparr>assume_valid := None\<rparr>"
  assume eq: "swift_validation_commitment ?H ?p = swift_validation_commitment ?H ?q"
  have "params_ok ?p" using builtin_params_ok [of Mainnet] by (simp add: network_params_def)
  moreover from this have "params_ok ?q" by (simp add: params_ok_def hash_option_ok_def)
  moreover have "sha256 ?H x = x" for x by simp
  ultimately have "?p = ?q" using swift_commitment_binds [OF _ _ eq] by metis
  then have "assume_valid ?p = assume_valid ?q" by (rule arg_cong)
  moreover have "assume_valid ?p \<noteq> None"
    by (simp only: mainnet_params_def params.select_convs mainnet_assume_valid not_False_eq_True)
  ultimately show False by simp
qed

end
