(* ===== verification/Pow.thy ===== *)
theory Pow
  imports Params "HOL-Library.Multiset"
begin

text \<open>
  Proof of work (\<open>src/crates/avila-consensus/src/pow.rs\<close>), the timestamp rules
  (\<open>src/crates/avila-consensus/src/rules.rs\<close>) and the script flags of a block (\<open>block_script_flags\<close>
  of \<open>src/crates/avila-consensus/src/script.rs\<close>). The trait \<open>Ancestry\<close> is the function from
  a hash to the header stored under it. Unsigned values stay words; the timespan arithmetic is \<open>i64\<close>
  and is an integer that is clamped where the code clamps it.
\<close>

unbundle bit_operations_syntax

section \<open>Proof of work\<close>

datatype pow_error =
    NegativeTarget compact_target
  | OverflowTarget compact_target
  | ZeroTarget compact_target
  | TargetAboveLimit compact_target
  | InsufficientWork hash32 compact_target
  | UnknownAncestor hash32
  | DegenerateDifficultyParams

definition check_proof_of_work :: "hash32 \<Rightarrow> compact_target \<Rightarrow> params \<Rightarrow> pow_error + unit" where
  "check_proof_of_work hash bits p =
     (let expanded = expand bits in
      if et_negative expanded then Inl (NegativeTarget bits)
      else if et_overflow expanded then Inl (OverflowTarget bits)
      else if u256_is_zero (et_value expanded) then Inl (ZeroTarget bits)
      else if et_value expanded > pow_limit p then Inl (TargetAboveLimit bits)
      else if from_le_bytes hash > et_value expanded then Inl (InsufficientWork hash bits)
      else Inr ())"

type_synonym ancestry = "hash32 \<Rightarrow> block_header option"

definition saturating_add_u64 :: "u64 \<Rightarrow> u64 \<Rightarrow> u64" where
  "saturating_add_u64 a b = (if unat a + unat b \<ge> 2 ^ 64 then - 1 else a + b)"

definition saturating_mul_u64 :: "u64 \<Rightarrow> u64 \<Rightarrow> u64" where
  "saturating_mul_u64 a b = (if unat a * unat b \<ge> 2 ^ 64 then - 1 else a * b)"

text \<open>The walk over minimum-difficulty blocks; it stops at a boundary height, so at 0 at the latest.\<close>

function walk_back :: "ancestry \<Rightarrow> u64 \<Rightarrow> compact_target \<Rightarrow> u32 \<Rightarrow> block_header \<Rightarrow>
    pow_error + block_header" where
  "walk_back anc interval limit_bits height header =
     (if (ucast height :: u64) mod interval \<noteq> 0 \<and> hdr_bits header = limit_bits then
        case anc (prev_block_hash header) of
          None \<Rightarrow> Inl (UnknownAncestor (prev_block_hash header))
        | Some parent \<Rightarrow> walk_back anc interval limit_bits (height - 1) parent
      else Inr header)"
  by auto
termination
proof (relation "measure (\<lambda>(_, _, _, height, _). unat height)", goal_cases)
  case (2 anc interval limit_bits height header parent)
  then have "height \<noteq> 0" by (metis mod_0 ucast_0)
  then show ?case by (simp add: unat_minus_one unat_gt_0)
qed simp

declare walk_back.simps [simp del]

text \<open>The walk to the first header of the window, \<open>n\<close> parents back.\<close>

fun window_walk :: "ancestry \<Rightarrow> nat \<Rightarrow> block_header \<Rightarrow> pow_error + block_header" where
  "window_walk anc 0 header = Inr header"
| "window_walk anc (Suc n) header =
     (case anc (prev_block_hash header) of
        None \<Rightarrow> Inl (UnknownAncestor (prev_block_hash header))
      | Some parent \<Rightarrow> window_walk anc n parent)"

definition clamp_i64 :: "int \<Rightarrow> int \<Rightarrow> int \<Rightarrow> int" where
  "clamp_i64 v lo hi = (if v < lo then lo else if v > hi then hi else v)"

definition saturate_i64 :: "int \<Rightarrow> int" where
  "saturate_i64 v = clamp_i64 v i64_min i64_max"

definition retarget :: "compact_target \<Rightarrow> block_header \<Rightarrow> u32 \<Rightarrow> params \<Rightarrow> compact_target" where
  "retarget base_bits last_hdr window_first_time p =
     (if no_retargeting p then hdr_bits last_hdr
      else
        let timespan = (if in_i64 (uint (pow_target_timespan p)) then uint (pow_target_timespan p)
                        else i64_max);
            actual = uint (hdr_time last_hdr) - uint window_first_time;
            clamped = clamp_i64 actual (timespan div 4) (saturate_i64 (timespan * 4));
            new_target = wrapping_mul_u64 (et_value (expand base_bits))
              (if clamped < 0 then 0 else word_of_int clamped);
            new_target = (case div_rem new_target (from_u64 (pow_target_timespan p)) of
                Some (quot, _) \<Rightarrow> quot | None \<Rightarrow> new_target);
            new_target = (if new_target > pow_limit p then pow_limit p else new_target)
        in to_compact new_target)"

definition required_bits :: "u32 \<Rightarrow> block_header \<Rightarrow> u32 \<Rightarrow> params \<Rightarrow> ancestry \<Rightarrow>
    pow_error + compact_target" where
  "required_bits last_height last_hdr new_time p anc =
     (let interval = difficulty_adjustment_interval p in
      if interval = 0 \<or> pow_target_timespan p = 0 then Inl DegenerateDifficultyParams
      else
        let pow_limit_bits = pow_limit_compact p;
            next_height = (ucast last_height :: u64) + 1
        in
          if next_height mod interval \<noteq> 0 then
            if allow_min_difficulty_blocks p then
              if (ucast new_time :: u64) >
                  saturating_add_u64 (ucast (hdr_time last_hdr)) (saturating_mul_u64 (pow_target_spacing p) 2)
              then Inr pow_limit_bits
              else res_bind (walk_back anc interval pow_limit_bits last_height last_hdr)
                     (\<lambda>header. Inr (hdr_bits header))
            else Inr (hdr_bits last_hdr)
          else
            res_bind (window_walk anc
                (unat (min (interval - 1) ((ucast last_height :: u64) + 1))) last_hdr)
              (\<lambda>window_first.
                 let base_bits = (if enforce_bip94 p then hdr_bits window_first else hdr_bits last_hdr)
                 in Inr (retarget base_bits last_hdr (hdr_time window_first) p)))"

section \<open>Time rules\<close>

definition MEDIAN_TIME_SPAN :: nat where "MEDIAN_TIME_SPAN = 11"
definition MAX_FUTURE_BLOCK_TIME :: u32 where "MAX_FUTURE_BLOCK_TIME = 2 * 60 * 60"
definition MAX_TIMEWARP :: u32 where "MAX_TIMEWARP = 600"

text \<open>The buffer of 11 zeroed slots, its first \<open>take\<close> ones filled and sorted.\<close>

definition rules_median_time_past :: "u32 list \<Rightarrow> u32" where
  "rules_median_time_past ts =
     (let k = min (length ts) MEDIAN_TIME_SPAN;
          sorted = sort (take k ts) @ replicate (MEDIAN_TIME_SPAN - k) 0
      in sorted ! (k div 2))"

datatype time_error =
    TooOld u32 u32
  | Timewarp u32 u32
  | TooNew u32 u32

definition check_block_time :: "u32 \<Rightarrow> u32 \<Rightarrow> u32 \<Rightarrow> u32 option \<Rightarrow> time_error + unit" where
  "check_block_time time median_past now timewarp_min =
     (if time \<le> median_past then Inl (TooOld time median_past)
      else case timewarp_min of
        Some min_time \<Rightarrow>
          if time < min_time then Inl (Timewarp time min_time)
          else if (ucast time :: u64) > ucast now + ucast MAX_FUTURE_BLOCK_TIME then Inl (TooNew time now)
          else Inr ()
      | None \<Rightarrow>
          if (ucast time :: u64) > ucast now + ucast MAX_FUTURE_BLOCK_TIME then Inl (TooNew time now)
          else Inr ())"

section \<open>Script flags of a block\<close>

definition block_script_flags :: "params \<Rightarrow> u32 \<Rightarrow> hash32 \<Rightarrow> u32" where
  "block_script_flags p height bhash =
     (let flags = flag_union (flag_union FLAG_P2SH FLAG_WITNESS) FLAG_TAPROOT;
          flags = (case find (\<lambda>(hash, _). hash = bhash) (script_flag_exceptions p) of
              Some (_, exception) \<Rightarrow> exception | None \<Rightarrow> flags);
          flags = (if height \<ge> bip66_height p then flag_union flags FLAG_DERSIG else flags);
          flags = (if height \<ge> bip65_height p then flag_union flags FLAG_CHECKLOCKTIMEVERIFY else flags);
          flags = (if height \<ge> csv_height p then flag_union flags FLAG_CHECKSEQUENCEVERIFY else flags)
      in if height \<ge> segwit_height p then flag_union flags FLAG_NULLDUMMY else flags)"

section \<open>The difficulty adjustment\<close>

lemma wrapping_mul_val: "u256_val (wrapping_mul_u64 x m) = u256_val x * unat m mod 2 ^ 256"
proof -
  obtain z c where m: "mul_u64_with_carry x m = (z, c)" by fastforce
  show ?thesis using u256_modI [OF mul_val [OF m]] by (simp add: wrapping_mul_u64_def m)
qed

lemma from_u64_val: "u256_val (from_u64 w) = unat w"
  by (simp add: from_u64_def)

definition retarget_clamp :: "params \<Rightarrow> u32 \<Rightarrow> u32 \<Rightarrow> nat" where
  "retarget_clamp p last_time first_time =
     (let T = uint (pow_target_timespan p)
      in nat (max (T div 4) (min (4 * T) (uint last_time - uint first_time))))"

lemma clamp_i64_eq: "lo \<le> hi \<Longrightarrow> clamp_i64 v lo hi = max lo (min hi v)"
  by (auto simp: clamp_i64_def)

lemma retarget_value:
  assumes "\<not> no_retargeting p" and "pow_target_timespan p \<noteq> 0"
    and "4 * uint (pow_target_timespan p) \<le> i64_max"
  shows "\<exists>v. retarget b l t p = to_compact v \<and>
    u256_val v = min (u256_val (pow_limit p))
      (u256_val (et_value (expand b)) * retarget_clamp p (hdr_time l) t mod 2 ^ 256
         div unat (pow_target_timespan p))"
proof -
  let ?T = "uint (pow_target_timespan p)"
  let ?c = "max (?T div 4) (min (4 * ?T) (uint (hdr_time l) - uint t))"
  let ?x = "et_value (expand b)"
  have T: "0 \<le> ?T" by simp
  have "in_i64 T \<and> saturate_i64 (T * 4) = 4 * T" if "0 \<le> T" "4 * T \<le> i64_max" for T
    using that by (auto simp: in_i64_def i64_min_def saturate_i64_def clamp_i64_def)
  then have in64: "in_i64 ?T" "saturate_i64 (?T * 4) = 4 * ?T" using assms(3) T by blast+
  have "0 \<le> max (T div 4) (min (4 * T) d) \<and> max (T div 4) (min (4 * T) d) \<le> i64_max \<and> T div 4 \<le> 4 * T"
    if "0 \<le> T" "4 * T \<le> i64_max" for T d :: int using that by auto
  then have c: "0 \<le> ?c" "?c \<le> i64_max" and le: "?T div 4 \<le> 4 * ?T" using T assms(3) by blast+
  have cl: "clamp_i64 (uint (hdr_time l) - uint t) (?T div 4) (4 * ?T) = ?c"
    using le by (rule clamp_i64_eq)
  have uc: "unat (word_of_int ?c :: u64) = nat ?c"
    using c by (simp add: unat_eq_nat_uint uint_word_of_int i64_max_def)
  have nz: "u256_val (from_u64 (pow_target_timespan p)) \<noteq> 0"
    using assms(2) by (simp add: from_u64_val unat_eq_0)
  obtain q r where d: "div_rem (wrapping_mul_u64 ?x (word_of_int ?c)) (from_u64 (pow_target_timespan p)) = Some (q, r)"
    using div_rem_val(1) [THEN iffD1] nz by fastforce
  have q: "u256_val q = u256_val ?x * nat ?c mod 2 ^ 256 div unat (pow_target_timespan p)"
    using div_rem_val(2) [OF d] by (simp only: wrapping_mul_val from_u64_val uc)
  let ?v = "if q > pow_limit p then pow_limit p else q"
  have nc: "\<not> ?c < 0" using c(1) by (simp only: not_less)
  have "retarget b l t p = to_compact ?v"
    by (simp only: retarget_def Let_def assms(1) in64 if_True if_False cl nc d option.case prod.case)
  moreover have "u256_val ?v = min (u256_val (pow_limit p)) (u256_val q)"
    by (simp add: u256_less_val)
  ultimately show ?thesis
    using q by (intro exI [of _ ?v]) (simp only: retarget_clamp_def Let_def)
qed

lemma window_walk_nth:
  "(\<forall>i. i + 1 < length hs \<longrightarrow> anc (prev_block_hash (hs ! i)) = Some (hs ! (i + 1))) \<Longrightarrow>
   n < length hs \<Longrightarrow> window_walk anc n (hs ! 0) = Inr (hs ! n)"
proof (induction n arbitrary: hs)
  case (Suc n)
  have "window_walk anc n (tl hs ! 0) = Inr (tl hs ! n)"
  proof (rule Suc.IH)
    show "\<forall>i. i + 1 < length (tl hs) \<longrightarrow> anc (prev_block_hash (tl hs ! i)) = Some (tl hs ! (i + 1))"
      using Suc.prems(1) by (auto simp: nth_tl)
  qed (use Suc.prems in auto)
  with Suc.prems show ?case by (auto simp: nth_tl)
qed simp

section \<open>The median time past\<close>

lemma sorted_nth_less_iff:
  fixes xs :: "'a::linorder list"
  assumes "sorted xs" "i < length xs"
  shows "xs ! i < m \<longleftrightarrow> i < length (filter (\<lambda>x. x < m) xs)"
  using assms
proof (induction xs arbitrary: i)
  case (Cons x xs)
  show ?case
  proof (cases "x < m")
    case True
    with Cons show ?thesis by (cases i) auto
  next
    case False
    with Cons.prems have "filter (\<lambda>y. y < m) xs = []" by (auto simp: filter_empty_conv)
    moreover have "\<not> (x # xs) ! i < m"
      using False Cons.prems sorted_nth_mono [of "x # xs" 0 i] by (simp add: not_less)
    ultimately show ?thesis using False by simp
  qed
qed simp

lemma length_filter_sort: "length (filter P (sort xs)) = length (filter P xs)"
  by (metis mset_filter mset_sort size_mset)

lemma median_eq:
  assumes "ts \<noteq> []"
  shows "rules_median_time_past ts = sort (take 11 ts) ! (min (length ts) 11 div 2)"
proof -
  have "0 < min (length ts) 11" using assms by simp
  then have "min (length ts) 11 div 2 < min (length ts) 11" by linarith
  then show ?thesis
    by (cases "length ts \<le> 11")
      (simp_all add: rules_median_time_past_def MEDIAN_TIME_SPAN_def Let_def nth_append min_def)
qed

lemma median_less_iff:
  assumes "ts \<noteq> []"
  shows "rules_median_time_past ts < m \<longleftrightarrow>
    min (length ts) 11 div 2 < length (filter (\<lambda>x. x < m) (take 11 ts))"
proof -
  have "0 < min (length ts) 11" using assms by simp
  then have "min (length ts) 11 div 2 < min (length ts) 11" by linarith
  then have "min (length ts) 11 div 2 < length (sort (take 11 ts))" by (simp add: min.commute)
  from sorted_nth_less_iff [OF sorted_sort this, of m] show ?thesis
    by (simp add: median_eq [OF assms] length_filter_sort)
qed

text \<open>A block later than its parent's median time past never lowers the median.\<close>

lemma median_mono:
  assumes "ts \<noteq> []" and "rules_median_time_past ts < t"
  shows "rules_median_time_past ts \<le> rules_median_time_past (t # ts)"
proof (rule ccontr)
  let ?m = "rules_median_time_past ts"
  let ?c = "\<lambda>xs. length (filter (\<lambda>x. x < ?m) xs)"
  assume "\<not> ?m \<le> rules_median_time_past (t # ts)"
  then have "min (length (t # ts)) 11 div 2 < ?c (take 11 (t # ts))"
    by (simp add: not_le median_less_iff)
  moreover have "take 11 (t # ts) = t # take 10 ts" by (simp add: take_Cons')
  then have "?c (take 11 (t # ts)) = ?c (take 10 ts)" using assms(2) by simp
  moreover have "?c (take 10 ts) \<le> ?c (take 11 ts)"
  proof -
    have "take 11 ts = take 10 ts @ take 1 (drop 10 ts)" by (simp flip: take_add)
    then show ?thesis by simp
  qed
  moreover have "\<not> min (length ts) 11 div 2 < ?c (take 11 ts)"
    using median_less_iff [OF assms(1), of ?m] by simp
  moreover have "min (length ts) 11 div 2 \<le> min (length (t # ts)) 11 div 2" by (intro div_le_mono) simp
  ultimately show False by linarith
qed

section \<open>Properties\<close>

text \<open>C31: At a retarget boundary the required bits encode the target of the base header (the first of
  the window under BIP94, the last otherwise) scaled by the window's timespan over the intended one,
  the timespan clamped to a factor of four both ways, the product taken modulo \<open>2 ^ 256\<close> and
  the result capped by the network's limit.\<close>

theorem required_bits_retarget:
  assumes boundary: "(ucast h + 1) mod difficulty_adjustment_interval p = 0"
    and window: "length hs = unat (difficulty_adjustment_interval p)" "hs \<noteq> []"
    and chain: "\<forall>i. i + 1 < length hs \<longrightarrow> anc (prev_block_hash (hs ! i)) = Some (hs ! (i + 1))"
    and params: "\<not> no_retargeting p" "pow_target_timespan p \<noteq> 0"
      "4 * uint (pow_target_timespan p) \<le> i64_max"
  shows "\<exists>v. required_bits h (hs ! 0) t p anc = Inr (to_compact v) \<and>
    u256_val v = min (u256_val (pow_limit p))
      (u256_val (et_value (expand (hdr_bits (if enforce_bip94 p then last hs else hs ! 0)))) *
         retarget_clamp p (hdr_time (hs ! 0)) (hdr_time (last hs)) mod 2 ^ 256
       div unat (pow_target_timespan p))"
proof -
  let ?n = "difficulty_adjustment_interval p"
  have n: "?n \<noteq> 0" using window by auto
  have "unat h + 1 < 18446744073709551616" using unat_u32_lt [of h] by linarith
  then have "unat (ucast h + 1 :: u64) = unat h + 1" by (simp add: unat_word_ariths unat_ucast_up)
  then have h: "(ucast h + 1 :: u64) \<noteq> 0" by (auto simp: unat_eq_0 [symmetric])
  have "?n \<le> ucast h + 1"
  proof (rule ccontr)
    assume "\<not> ?n \<le> ucast h + 1"
    then have "(ucast h + 1) mod ?n = ucast h + 1"
      by (simp add: word_mod_def word_less_def not_le)
    with boundary h show False by simp
  qed
  then have m: "min (?n - 1) (ucast h + 1) = ?n - 1"
    using n by (intro min_absorb1) (simp add: word_le_nat_alt unat_minus_one)
  have lh: "hs ! (unat ?n - 1) = last hs" using window by (simp add: last_conv_nth)
  have w: "window_walk anc (unat (?n - 1)) (hs ! 0) = Inr (last hs)"
    using window_walk_nth [OF chain, of "unat ?n - 1"] window n lh [symmetric] by (simp add: unat_minus_one unat_gt_0)
  have "required_bits h (hs ! 0) t p anc =
      Inr (retarget (hdr_bits (if enforce_bip94 p then last hs else hs ! 0)) (hs ! 0) (hdr_time (last hs)) p)"
    unfolding required_bits_def Let_def m w using boundary n params(2) by auto
  then show ?thesis
    using retarget_value [OF params, of "hdr_bits (if enforce_bip94 p then last hs else hs ! 0)" "hs ! 0"
        "hdr_time (last hs)"] by simp
qed

text \<open>Witness of C31: a period of two blocks mined in no time; the target is divided by four.\<close>

definition two_block_params :: params where
  "two_block_params = mainnet_params\<lparr>pow_limit := U256 0xffffffffffffffff 0xffffffffffffffff 0xffffffffffffffff 0xffffffff,
     pow_target_spacing := 600, pow_target_timespan := 1200\<rparr>"

definition early_header :: "hash32 \<Rightarrow> block_header" where
  "early_header parent = \<lparr>hdr_version = 4, prev_block_hash = parent, hdr_merkle_root = hash_zero,
     hdr_time = 1000, hdr_bits = 0x1d00ffff, hdr_nonce = 0\<rparr>"

lemma required_bits_retarget_witness:
  "\<exists>v. required_bits 1 (early_header [1]) 1001 two_block_params (\<lambda>_. Some (early_header hash_zero)) =
      Inr (to_compact v) \<and> u256_val v = 0xffff * 2 ^ 208 div 4"
proof -
  let ?p = two_block_params
  have i: "difficulty_adjustment_interval ?p = 2"
    by (simp add: difficulty_adjustment_interval_def two_block_params_def)
  have c: "retarget_clamp ?p 1000 1000 = 300"
    by (simp add: retarget_clamp_def two_block_params_def Let_def)
  have l: "u256_val (pow_limit ?p) = 2 ^ 224 - 1"
    by (simp add: two_block_params_def mainnet_params_def)
  have t: "pow_target_timespan ?p = 1200" "\<not> enforce_bip94 ?p" "\<not> no_retargeting ?p"
    by (simp_all add: two_block_params_def mainnet_params_def)
  have "\<exists>v. required_bits 1 ([early_header [1], early_header hash_zero] ! 0) 1001 ?p
       (\<lambda>_. Some (early_header hash_zero)) = Inr (to_compact v) \<and>
     u256_val v = min (u256_val (pow_limit ?p))
      (u256_val (et_value (expand (hdr_bits (early_header [1])))) *
         retarget_clamp ?p (hdr_time (early_header [1])) (hdr_time (early_header hash_zero)) mod 2 ^ 256
       div unat (pow_target_timespan ?p))"
    using required_bits_retarget [of 1 ?p "[early_header [1], early_header hash_zero]"
        "\<lambda>_. Some (early_header hash_zero)" 1001] i t
    by (simp add: i64_max_def)
  then show ?thesis
    by (simp only: nth_Cons_0 early_header_def block_header.simps c l t expand_genesis(3)) simp
qed

end
