(* ===== verification/Chain.thy ===== *)
theory Chain
  imports Pow
begin

text \<open>
  The header tree of \<open>src/crates/avila-consensus/src/chain.rs\<close>: accepted headers with their parent
  links, heights, accumulated work and skip pointers, the failed set, the children index and the best
  tip; the operations that read it (ancestors, locators, median times) and the ones that change it
  (insertion, marking a subtree failed, clearing the marks, restoring a tip).

  A \<open>HashMap\<close> is a finite map. The code iterates over one in an order the standard library leaves
  open: that order is an argument (\<open>iter\<close>) of the operations that iterate. A loop whose end rests on
  the links of the tree is a \<open>partial_function\<close>: its \<open>None\<close> is a loop that does not end (or,
  in \<open>tree_tip\<close>, the \<open>unreachable!\<close> of the code), and that the operations return is proved for
  well-formed trees in \<open>Chain_Invariant\<close>. A stack held in a \<open>Vec\<close> is a list, its top first.
\<close>

unbundle bit_operations_syntax

section \<open>Nodes, statuses, errors\<close>

record header_node =
  node_header :: block_header
  node_height :: u32
  chainwork :: work
  n_tx :: u32
  n_chain_tx :: u64
  skip_link :: "hash32 option"

definition node_hash :: "hash_fns \<Rightarrow> header_node \<Rightarrow> hash32" where
  "node_hash H n = header_hash H (node_header n)"

abbreviation node_prev :: "header_node \<Rightarrow> hash32" where
  "node_prev n \<equiv> prev_block_hash (node_header n)"

datatype insert_status = Added u32 | AlreadyKnown u32

datatype chain_error =
    UnknownParent hash32
  | WrongBits compact_target compact_target
  | ChainPow pow_error
  | ChainTime time_error
  | BadVersion i32
  | InvalidParent
  | ChainWorkOverflow
  | HeightOverflow

definition chain_error_reason :: "chain_error \<Rightarrow> bytes" where
  "chain_error_reason e = (case e of
     UnknownParent _ \<Rightarrow> str_bytes ''prev-blk-not-found''
   | InvalidParent \<Rightarrow> str_bytes ''bad-prevblk''
   | WrongBits _ _ \<Rightarrow> str_bytes ''bad-diffbits''
   | ChainPow (UnknownAncestor _) \<Rightarrow> str_bytes ''internal''
   | ChainPow DegenerateDifficultyParams \<Rightarrow> str_bytes ''internal''
   | ChainPow _ \<Rightarrow> str_bytes ''high-hash''
   | ChainTime (TooOld _ _) \<Rightarrow> str_bytes ''time-too-old''
   | ChainTime (Timewarp _ _) \<Rightarrow> str_bytes ''time-timewarp-attack''
   | ChainTime (TooNew _ _) \<Rightarrow> str_bytes ''time-too-new''
   | BadVersion v \<Rightarrow> str_bytes ''bad-version(0x'' @ hex_encode (rev (u32_le v)) @ str_bytes '')''
   | ChainWorkOverflow \<Rightarrow> str_bytes ''internal''
   | HeightOverflow \<Rightarrow> str_bytes ''internal'')"

record header_tree =
  tree_params :: params
  nodes :: "hash32 \<rightharpoonup> header_node"
  tip :: hash32
  invalid :: "hash32 set"
  children_map :: "hash32 \<rightharpoonup> hash32 list"

section \<open>Reading the tree\<close>

definition invert_lowest_one :: "int \<Rightarrow> int" where
  "invert_lowest_one n = n AND (n - 1)"

definition get_skip_height :: "u32 \<Rightarrow> int" where
  "get_skip_height height =
     (if height < 2 then 0
      else if height AND 1 = 1 then invert_lowest_one (invert_lowest_one (uint height - 1)) + 1
      else invert_lowest_one (uint height))"

definition tree_new :: "hash_fns \<Rightarrow> params \<Rightarrow> header_tree" where
  "tree_new H p =
     (let genesis = genesis_header p;
          hash = header_hash H genesis;
          node = \<lparr>node_header = genesis, node_height = 0,
            chainwork = work_from_compact (hdr_bits genesis), n_tx = 1, n_chain_tx = 1,
            skip_link = None\<rparr>
      in \<lparr>tree_params = p, nodes = Map.empty(hash \<mapsto> node), tip = hash, invalid = {},
          children_map = Map.empty\<rparr>)"

definition tree_len :: "header_tree \<Rightarrow> nat" where
  "tree_len t = card (dom (nodes t))"

definition tree_contains :: "header_tree \<Rightarrow> hash32 \<Rightarrow> bool" where
  "tree_contains t hash \<longleftrightarrow> nodes t hash \<noteq> None"

definition tree_tip :: "header_tree \<Rightarrow> header_node option" where
  "tree_tip t = nodes t (tip t)"

definition children :: "header_tree \<Rightarrow> hash32 \<Rightarrow> hash32 list" where
  "children t hash = (case children_map t hash of None \<Rightarrow> [] | Some v \<Rightarrow> v)"

definition tree_ancestry :: "header_tree \<Rightarrow> ancestry" where
  "tree_ancestry t hash = map_option node_header (nodes t hash)"

text \<open>One step down: the skip pointer where it helps, the parent otherwise.\<close>

definition ancestor_step :: "header_tree \<Rightarrow> u32 \<Rightarrow> header_node \<Rightarrow> header_node option" where
  "ancestor_step t height node =
     (let skip_h = get_skip_height (node_height node);
          skip_prev_h = get_skip_height (node_height node - 1);
          skip_node = (case skip_link node of None \<Rightarrow> None | Some s \<Rightarrow> nodes t s)
      in case skip_node of
          Some s \<Rightarrow>
            if uint (node_height s) = uint height then Some s
            else if uint (node_height s) > uint height \<and>
                \<not> (skip_prev_h < skip_h - 2 \<and> skip_prev_h \<ge> uint height) then Some s
            else nodes t (node_prev node)
        | None \<Rightarrow> nodes t (node_prev node))"

partial_function (option) get_ancestor_loop ::
    "header_tree \<Rightarrow> u32 \<Rightarrow> header_node \<Rightarrow> header_node option option" where
  "get_ancestor_loop t height node =
     (if node_height node > height then
        (case ancestor_step t height node of
           None \<Rightarrow> Some None
         | Some n \<Rightarrow> get_ancestor_loop t height n)
      else Some (Some node))"

definition get_ancestor :: "header_tree \<Rightarrow> hash32 \<Rightarrow> u32 \<Rightarrow> header_node option option" where
  "get_ancestor t from_hash height =
     (case nodes t from_hash of None \<Rightarrow> Some None | Some node \<Rightarrow> get_ancestor_loop t height node)"

definition is_ancestor :: "hash_fns \<Rightarrow> header_tree \<Rightarrow> header_node \<Rightarrow> header_node \<Rightarrow> bool option" where
  "is_ancestor H t ancestor descendant =
     map_option (\<lambda>r. r = Some ancestor) (get_ancestor t (node_hash H descendant) (node_height ancestor))"

definition saturating_sub_u32 :: "u32 \<Rightarrow> u32 \<Rightarrow> u32" where
  "saturating_sub_u32 a b = (if a < b then 0 else a - b)"

definition saturating_mul_u32 :: "u32 \<Rightarrow> u32 \<Rightarrow> u32" where
  "saturating_mul_u32 a b = (if unat a * unat b \<ge> 2 ^ 32 then - 1 else a * b)"

partial_function (option) locator_loop ::
    "hash_fns \<Rightarrow> header_tree \<Rightarrow> hash32 list \<Rightarrow> header_node \<Rightarrow> u32 \<Rightarrow> hash32 list option" where
  "locator_loop H t so_far node step =
     (let so_far = so_far @ [node_hash H node] in
      if node_height node = 0 then Some so_far
      else (case get_ancestor t (node_hash H node) (saturating_sub_u32 (node_height node) step) of
          None \<Rightarrow> None
        | Some None \<Rightarrow> Some so_far
        | Some (Some parent) \<Rightarrow>
            locator_loop H t so_far parent
              (if length so_far > 10 then saturating_mul_u32 step 2 else step)))"

definition locator :: "hash_fns \<Rightarrow> header_tree \<Rightarrow> hash32 list option" where
  "locator H t = (case tree_tip t of None \<Rightarrow> None | Some node \<Rightarrow> locator_loop H t [] node 1)"

fun ancestor_times_loop :: "header_tree \<Rightarrow> nat \<Rightarrow> header_node \<Rightarrow> u32 list" where
  "ancestor_times_loop t 0 current = []"
| "ancestor_times_loop t (Suc k) current =
     hdr_time (node_header current) #
       (case nodes t (node_prev current) of None \<Rightarrow> [] | Some parent \<Rightarrow> ancestor_times_loop t k parent)"

definition ancestor_times :: "header_tree \<Rightarrow> header_node \<Rightarrow> u32 list" where
  "ancestor_times t node = ancestor_times_loop t MEDIAN_TIME_SPAN node"

definition tree_median_time_past :: "header_tree \<Rightarrow> hash32 \<Rightarrow> u32 option" where
  "tree_median_time_past t hash =
     (case nodes t hash of None \<Rightarrow> None
      | Some node \<Rightarrow> Some (rules_median_time_past (ancestor_times t node)))"

definition block_proof_equivalent_time :: "header_node \<Rightarrow> header_node \<Rightarrow> header_node \<Rightarrow> params \<Rightarrow> i64" where
  "block_proof_equivalent_time to_node from_node tip_node p =
     (let (r, sign) =
            (if chainwork to_node > chainwork from_node
             then (u256_wrapping_sub (chainwork to_node) (chainwork from_node), 1)
             else (u256_wrapping_sub (chainwork from_node) (chainwork to_node), - 1));
          proof_work = work_from_compact (hdr_bits (node_header tip_node))
      in case div_rem (wrapping_mul_u64 r (pow_target_spacing p)) proof_work of
          None \<Rightarrow> saturate_i64 (sign * i64_max)
        | Some (r, _) \<Rightarrow>
            if u256_bits r > 63 then saturate_i64 (sign * i64_max)
            else saturate_i64 (sign * (if in_i64 (uint (low_u64 r)) then uint (low_u64 r) else i64_max)))"

partial_function (option) best_chain_loop ::
    "hash_fns \<Rightarrow> header_tree \<Rightarrow> hash32 list \<Rightarrow> header_node \<Rightarrow> hash32 list option" where
  "best_chain_loop H t chain node =
     (let chain = chain @ [node_hash H node] in
      if node_height node = 0 then Some chain
      else case nodes t (node_prev node) of
          None \<Rightarrow> Some chain
        | Some parent \<Rightarrow> best_chain_loop H t chain parent)"

definition best_chain :: "hash_fns \<Rightarrow> header_tree \<Rightarrow> hash32 list option" where
  "best_chain H t =
     (case tree_tip t of None \<Rightarrow> None | Some node \<Rightarrow> map_option rev (best_chain_loop H t [] node))"

definition headers_by_height :: "hash32 list \<Rightarrow> header_tree \<Rightarrow> block_header list" where
  "headers_by_height iter t =
     map node_header (sort_key node_height (List.map_filter (nodes t) iter))"

section \<open>Body bookkeeping\<close>

definition note_body :: "header_tree \<Rightarrow> hash32 \<Rightarrow> u32 \<Rightarrow> header_tree" where
  "note_body t hash txs =
     (case nodes t hash of None \<Rightarrow> t
      | Some node \<Rightarrow> t\<lparr>nodes := (nodes t)(hash \<mapsto> node\<lparr>n_tx := txs\<rparr>)\<rparr>)"

definition note_connected :: "header_tree \<Rightarrow> hash32 \<Rightarrow> header_tree" where
  "note_connected t hash =
     (case nodes t hash of None \<Rightarrow> t
      | Some node \<Rightarrow>
          let prev_total = (case nodes t (node_prev node) of None \<Rightarrow> 0 | Some p \<Rightarrow> n_chain_tx p)
          in t\<lparr>nodes := (nodes t)(hash \<mapsto> node\<lparr>n_chain_tx := prev_total + ucast (n_tx node)\<rparr>)\<rparr>)"

definition apply_tx_meta :: "header_tree \<Rightarrow> hash32 \<Rightarrow> u32 \<Rightarrow> u64 \<Rightarrow> header_tree" where
  "apply_tx_meta t hash txs chain_txs =
     (case nodes t hash of None \<Rightarrow> t
      | Some node \<Rightarrow>
          t\<lparr>nodes := (nodes t)(hash \<mapsto> node\<lparr>n_tx := txs, n_chain_tx := chain_txs\<rparr>)\<rparr>)"

section \<open>Failed blocks\<close>

definition is_failed :: "header_tree \<Rightarrow> hash32 \<Rightarrow> bool" where
  "is_failed t hash \<longleftrightarrow> hash \<in> invalid t"

text \<open>The scan for the valid node of strictly greatest work, in iteration order.\<close>

definition best_scan :: "header_tree \<Rightarrow> hash32 list \<Rightarrow> (hash32 \<Rightarrow> 'b) \<Rightarrow> 'b \<times> work \<Rightarrow> 'b \<times> work" where
  "best_scan t iter wrap start =
     fold (\<lambda>h (best, best_work).
        case nodes t h of
          None \<Rightarrow> (best, best_work)
        | Some n \<Rightarrow>
            if h \<notin> invalid t \<and> chainwork n > best_work then (wrap h, chainwork n)
            else (best, best_work)) iter start"

partial_function (option) mark_loop ::
    "header_tree \<Rightarrow> hash32 list \<Rightarrow> hash32 set \<Rightarrow> hash32 set option" where
  "mark_loop t stack marks =
     (case stack of
        [] \<Rightarrow> Some marks
      | h # rest \<Rightarrow>
          if h \<in> marks then mark_loop t rest marks
          else mark_loop t (rev (children t h) @ rest) (insert h marks))"

definition mark_invalid :: "hash32 list \<Rightarrow> header_tree \<Rightarrow> hash32 \<Rightarrow> header_tree option" where
  "mark_invalid iter t hash =
     (if hash \<in> invalid t then Some t
      else case mark_loop t (rev (children t hash)) (insert hash (invalid t)) of
          None \<Rightarrow> None
        | Some marks \<Rightarrow>
            let t = t\<lparr>invalid := marks\<rparr> in
            Some (if tip t \<in> invalid t
              then t\<lparr>tip := fst (best_scan t iter (\<lambda>h. h) (tip t, u256_ZERO))\<rparr>
              else t))"

definition mark_invalid_subtree :: "hash32 list \<Rightarrow> header_tree \<Rightarrow> hash32 \<Rightarrow> header_tree option" where
  "mark_invalid_subtree iter t hash =
     (if nodes t hash = None then Some t else mark_invalid iter t hash)"

partial_function (option) subtree_loop ::
    "header_tree \<Rightarrow> hash32 list \<Rightarrow> hash32 list \<Rightarrow> hash32 list option" where
  "subtree_loop t stack to_clear =
     (case stack of
        [] \<Rightarrow> Some to_clear
      | h # rest \<Rightarrow> subtree_loop t (rev (children t h) @ rest) (to_clear @ [h]))"

partial_function (option) marked_ancestors_loop ::
    "header_tree \<Rightarrow> hash32 option \<Rightarrow> hash32 list \<Rightarrow> hash32 list option" where
  "marked_ancestors_loop t cursor to_clear =
     (case cursor of
        None \<Rightarrow> Some to_clear
      | Some h \<Rightarrow>
          marked_ancestors_loop t (map_option node_prev (nodes t h))
            (if h \<in> invalid t then to_clear @ [h] else to_clear))"

definition clear_invalid_subtree :: "hash32 list \<Rightarrow> header_tree \<Rightarrow> hash32 \<Rightarrow> header_tree option" where
  "clear_invalid_subtree iter t hash =
     (case nodes t hash of None \<Rightarrow> Some t
      | Some target \<Rightarrow>
          (case subtree_loop t (rev (children t hash)) [hash] of None \<Rightarrow> None
           | Some below \<Rightarrow>
               (case marked_ancestors_loop t (Some (node_prev target)) below of None \<Rightarrow> None
                | Some to_clear \<Rightarrow>
                    let t = t\<lparr>invalid := invalid t - set to_clear\<rparr>;
                        best = (if tip t \<notin> invalid t then Some (tip t) else None);
                        best_work = (case best of None \<Rightarrow> u256_ZERO
                          | Some h \<Rightarrow> (case nodes t h of None \<Rightarrow> u256_ZERO | Some n \<Rightarrow> chainwork n))
                    in case fst (best_scan t iter Some (best, best_work)) of
                        None \<Rightarrow> Some t
                      | Some b \<Rightarrow> Some (t\<lparr>tip := b\<rparr>))))"

definition restore_tip :: "hash32 list \<Rightarrow> header_tree \<Rightarrow> hash32 \<Rightarrow> (bool \<times> header_tree) option" where
  "restore_tip iter t hash =
     (if hash \<in> invalid t then
        (case fst (best_scan t iter Some (None, u256_ZERO)) of
           None \<Rightarrow> Some (False, t)
         | Some best \<Rightarrow> Some (True, t\<lparr>tip := best\<rparr>))
      else case nodes t hash of
          None \<Rightarrow> Some (False, t)
        | Some node \<Rightarrow>
            (case tree_tip t of None \<Rightarrow> None
             | Some tp \<Rightarrow>
                 if chainwork node < chainwork tp then Some (False, t)
                 else Some (True, t\<lparr>tip := hash\<rparr>)))"

section \<open>Insertion\<close>

definition map_err :: "('e \<Rightarrow> 'f) \<Rightarrow> 'e + 'a \<Rightarrow> 'f + 'a" where
  "map_err f r = (case r of Inl e \<Rightarrow> Inl (f e) | Inr x \<Rightarrow> Inr x)"

definition version_too_low :: "params \<Rightarrow> i32 \<Rightarrow> u64 \<Rightarrow> bool" where
  "version_too_low p version new_height \<longleftrightarrow>
     (version <s 2 \<and> new_height \<ge> ucast (bip34_height p)) \<or>
     (version <s 3 \<and> new_height \<ge> ucast (bip66_height p)) \<or>
     (version <s 4 \<and> new_height \<ge> ucast (bip65_height p))"

text \<open>The checks, in the code's order; on success the parent, the new node's work and height.\<close>

definition header_checks :: "hash_fns \<Rightarrow> header_tree \<Rightarrow> block_header \<Rightarrow> u32 \<Rightarrow>
    chain_error + (header_node \<times> work \<times> u32)" where
  "header_checks H t header now =
     (let p = tree_params t; prev = prev_block_hash header in
      res_bind (map_err ChainPow (check_proof_of_work (header_hash H header) (hdr_bits header) p)) (\<lambda>_.
      case nodes t prev of None \<Rightarrow> Inl (UnknownParent prev)
      | Some parent \<Rightarrow>
      res_bind (guard (prev \<notin> invalid t) InvalidParent) (\<lambda>_.
      res_bind (map_err ChainPow (required_bits (node_height parent) (node_header parent)
          (hdr_time header) p (tree_ancestry t))) (\<lambda>expected.
      res_bind (guard (hdr_bits header = expected) (WrongBits expected (hdr_bits header))) (\<lambda>_.
      let interval = difficulty_adjustment_interval p;
          new_height = (ucast (node_height parent) :: u64) + 1;
          timewarp_min = (if enforce_bip94 p \<and> new_height mod interval = 0
            then Some (saturating_sub_u32 (hdr_time (node_header parent)) MAX_TIMEWARP) else None)
      in
      res_bind (map_err ChainTime (check_block_time (hdr_time header)
          (rules_median_time_past (ancestor_times t parent)) now timewarp_min)) (\<lambda>_.
      res_bind (guard (\<not> version_too_low p (hdr_version header) new_height)
          (BadVersion (hdr_version header))) (\<lambda>_.
      case work_checked_add (chainwork parent) (work_from_compact (hdr_bits header)) of
        None \<Rightarrow> Inl ChainWorkOverflow
      | Some new_work \<Rightarrow>
          if node_height parent = - 1 then Inl HeightOverflow
          else Inr (parent, new_work, node_height parent + 1))))))))"

definition link_node :: "header_tree \<Rightarrow> hash32 \<Rightarrow> header_node \<Rightarrow> header_tree" where
  "link_node t hash node =
     t\<lparr>nodes := (nodes t)(hash \<mapsto> node),
       children_map := (children_map t)(node_prev node \<mapsto> children t (node_prev node) @ [hash])\<rparr>"

definition insert_header :: "hash_fns \<Rightarrow> header_tree \<Rightarrow> block_header \<Rightarrow> u32 \<Rightarrow>
    ((chain_error + insert_status) \<times> header_tree) option" where
  "insert_header H t header now =
     (let hash = header_hash H header in
      case nodes t hash of
        Some existing \<Rightarrow> Some (Inr (AlreadyKnown (node_height existing)), t)
      | None \<Rightarrow>
          (case header_checks H t header now of
             Inl e \<Rightarrow> Some (Inl e, t)
           | Inr (parent, new_work, height) \<Rightarrow>
               let skip_h = get_skip_height height in
               (case (if skip_h \<ge> 0 then get_ancestor t (prev_block_hash header) (word_of_int skip_h)
                      else Some None) of
                  None \<Rightarrow> None
                | Some anc \<Rightarrow>
                    let node = \<lparr>node_header = header, node_height = height, chainwork = new_work,
                          n_tx = 0, n_chain_tx = 0, skip_link = map_option (node_hash H) anc\<rparr>;
                        t = link_node t hash node
                    in case tree_tip t of
                        None \<Rightarrow> None
                      | Some tp \<Rightarrow>
                          Some (Inr (Added height),
                            if new_work > chainwork tp then t\<lparr>tip := hash\<rparr> else t))))"

end
