(* ===== verification/Chain_Links.thy ===== *)
theory Chain_Links
  imports Chain
begin

text \<open>
  The shape of a header tree: every node but the genesis hangs off a stored parent, one higher, with
  the parent's work plus its own, and a skip pointer to the ancestor at \<open>get_skip_height\<close>.
  On such a tree the skip-pointer descent of \<open>get_ancestor\<close> is the walk along parent links.
\<close>

unbundle bit_operations_syntax

section \<open>Walking parent links\<close>

fun walk :: "header_tree \<Rightarrow> nat \<Rightarrow> hash32 \<Rightarrow> hash32 option" where
  "walk t 0 h = (if nodes t h = None then None else Some h)"
| "walk t (Suc k) h = (case nodes t h of None \<Rightarrow> None | Some n \<Rightarrow> walk t k (node_prev n))"

lemma walk_dom: "walk t k h = Some s \<Longrightarrow> nodes t s \<noteq> None"
  by (induction k arbitrary: h) (auto split: if_splits option.splits)

lemma walk_None: "nodes t h = None \<Longrightarrow> walk t k h = None"
  by (cases k) simp_all

lemma walk_add: "walk t (j + k) h = Option.bind (walk t j h) (walk t k)"
proof (induction j arbitrary: h)
  case 0
  then show ?case by (simp add: walk_None)
next
  case (Suc j)
  then show ?case by (simp split: option.split)
qed

lemma walk_trans: "walk t j h = Some s \<Longrightarrow> walk t k s = Some r \<Longrightarrow> walk t (j + k) h = Some r"
  by (simp add: walk_add)

lemma map_leD: "m \<subseteq>\<^sub>m m' \<Longrightarrow> m x = Some y \<Longrightarrow> m' x = Some y"
  by (metis domI map_le_def)

lemma walk_mono:
  assumes "nodes t \<subseteq>\<^sub>m nodes t'"
  shows "walk t k h = Some s \<Longrightarrow> walk t' k h = Some s"
proof (induction k arbitrary: h)
  case 0
  then obtain n where n: "nodes t h = Some n" "s = h" by (cases "nodes t h") simp_all
  from map_leD [OF assms n(1)] n(2) show ?case by simp
next
  case (Suc k)
  then obtain n where n: "nodes t h = Some n" "walk t k (node_prev n) = Some s"
    by (cases "nodes t h") simp_all
  from map_leD [OF assms n(1)] Suc.IH [OF n(2)] show ?case by simp
qed

section \<open>Skip heights\<close>

lemma invert_lowest_one_bounds: "1 \<le> n \<Longrightarrow> 0 \<le> invert_lowest_one n \<and> invert_lowest_one n \<le> n - 1"
  by (simp add: invert_lowest_one_def AND_upper2')

lemma get_skip_height_bounds:
  assumes "0 < h"
  shows "0 \<le> get_skip_height h" "get_skip_height h < uint h"
proof -
  have "0 \<le> get_skip_height h \<and> get_skip_height h < uint h"
  proof (cases "h < 2")
    case True
    with assms show ?thesis by (auto simp: get_skip_height_def word_less_def)
  next
    case False
    then have h: "2 \<le> uint h" by (simp add: word_less_def not_less)
    have inv: "invert_lowest_one 0 = 0" by (simp add: invert_lowest_one_def)
    show ?thesis
    proof (cases "h AND 1 = 1")
      case odd: True
      define i where "i = invert_lowest_one (uint h - 1)"
      have i: "0 \<le> i" "i \<le> uint h - 2"
        using invert_lowest_one_bounds [of "uint h - 1"] h by (auto simp: i_def)
      have "uint h \<noteq> 2"
      proof
        assume "uint h = 2"
        then have "h = 2" by (metis word_of_int_numeral word_of_int_uint)
        with odd show False by simp
      qed
      moreover have "0 \<le> invert_lowest_one i \<and> invert_lowest_one i \<le> max 0 (i - 1)"
        using invert_lowest_one_bounds [of i] inv i(1) by (cases "i = 0") auto
      ultimately show ?thesis
        using False odd i h by (simp add: get_skip_height_def flip: i_def) linarith
    next
      case False
      then show ?thesis
        using invert_lowest_one_bounds [of "uint h"] h \<open>\<not> h < 2\<close> by (auto simp: get_skip_height_def)
    qed
  qed
  then show "0 \<le> get_skip_height h" "get_skip_height h < uint h" by auto
qed

section \<open>The shape of a tree\<close>

definition genesis_hash :: "hash_fns \<Rightarrow> header_tree \<Rightarrow> hash32" where
  "genesis_hash H t = header_hash H (genesis_header (tree_params t))"

definition node_linked :: "header_tree \<Rightarrow> header_node \<Rightarrow> bool" where
  "node_linked t n \<longleftrightarrow> (\<exists>p s. nodes t (node_prev n) = Some p \<and>
     unat (node_height n) = Suc (unat (node_height p)) \<and>
     u256_val (chainwork n) = u256_val (chainwork p) + u256_val (work_from_compact (hdr_bits (node_header n))) \<and>
     0 < u256_val (work_from_compact (hdr_bits (node_header n))) \<and>
     skip_link n = Some s \<and>
     walk t (unat (node_height p) - nat (get_skip_height (node_height n))) (node_prev n) = Some s)"

definition tree_shape :: "hash_fns \<Rightarrow> header_tree \<Rightarrow> bool" where
  "tree_shape H t \<longleftrightarrow>
     finite (dom (nodes t)) \<and>
     nodes t (prev_block_hash (genesis_header (tree_params t))) = None \<and>
     (\<exists>n. nodes t (genesis_hash H t) = Some n \<and> node_header n = genesis_header (tree_params t) \<and>
        node_height n = 0 \<and> 0 < u256_val (chainwork n) \<and> skip_link n = None) \<and>
     (\<forall>h n. nodes t h = Some n \<longrightarrow> node_hash H n = h) \<and>
     (\<forall>h n. nodes t h = Some n \<longrightarrow> h \<noteq> genesis_hash H t \<longrightarrow> node_linked t n)"

lemma tree_shapeD:
  assumes "tree_shape H t"
  shows "finite (dom (nodes t))"
    and "nodes t (prev_block_hash (genesis_header (tree_params t))) = None"
    and "nodes t h = Some n \<Longrightarrow> node_hash H n = h"
    and "nodes t h = Some n \<Longrightarrow> h \<noteq> genesis_hash H t \<Longrightarrow> node_linked t n"
  using assms by (auto simp: tree_shape_def)

lemma genesis_node:
  assumes "tree_shape H t"
  obtains g where "nodes t (genesis_hash H t) = Some g" "node_header g = genesis_header (tree_params t)"
    "node_height g = 0" "0 < u256_val (chainwork g)" "skip_link g = None"
  using assms by (auto simp: tree_shape_def)

lemma positive_height_linked:
  assumes "tree_shape H t" "nodes t h = Some n" "0 < unat (node_height n)"
  shows "node_linked t n"
proof (rule tree_shapeD(4) [OF assms(1,2)])
  obtain g where "nodes t (genesis_hash H t) = Some g" "node_height g = 0"
    using genesis_node [OF assms(1)] .
  with assms(2,3) show "h \<noteq> genesis_hash H t" by auto
qed

lemma walk_height:
  assumes "tree_shape H t"
  shows "nodes t h = Some n \<Longrightarrow> k \<le> unat (node_height n) \<Longrightarrow>
    \<exists>s m. walk t k h = Some s \<and> nodes t s = Some m \<and> unat (node_height m) = unat (node_height n) - k"
proof (induction k arbitrary: h n)
  case (Suc k)
  then have "node_linked t n" using positive_height_linked [OF assms] by simp
  then obtain p where p: "nodes t (node_prev n) = Some p" "unat (node_height n) = Suc (unat (node_height p))"
    by (auto simp: node_linked_def)
  with Suc.IH [OF p(1)] Suc.prems show ?case by auto
qed auto

lemma height_zero_genesis:
  assumes "tree_shape H t" "nodes t h = Some n" "node_height n = 0"
  shows "h = genesis_hash H t"
  using tree_shapeD(4) [OF assms(1,2)] assms(3) by (auto simp: node_linked_def)

section \<open>The skip list\<close>

lemma skip_node:
  assumes "tree_shape H t" "nodes t h = Some n" "0 < unat (node_height n)"
  obtains s m where "skip_link n = Some s" "nodes t s = Some m"
    "uint (node_height m) = get_skip_height (node_height n)"
    "unat (node_height m) < unat (node_height n)"
    "walk t (unat (node_height n) - unat (node_height m)) h = Some s"
proof -
  from positive_height_linked [OF assms] obtain p s where
    p: "nodes t (node_prev n) = Some p" "unat (node_height n) = Suc (unat (node_height p))"
      "skip_link n = Some s"
      "walk t (unat (node_height p) - nat (get_skip_height (node_height n))) (node_prev n) = Some s"
    by (auto simp: node_linked_def)
  have "0 < node_height n" using assms(3) by (simp add: word_less_nat_alt)
  from get_skip_height_bounds [OF this]
  have k: "nat (get_skip_height (node_height n)) \<le> unat (node_height p)"
    and nn: "0 \<le> get_skip_height (node_height n)"
    using p(2) unfolding uint_nat by linarith+
  obtain m where m: "nodes t s = Some m"
    "unat (node_height m) = nat (get_skip_height (node_height n))"
    using walk_height [OF assms(1) p(1), of "unat (node_height p) - nat (get_skip_height (node_height n))"]
      p(4) k by auto
  have "walk t (Suc (unat (node_height p) - unat (node_height m))) h = Some s"
    using p(1,4) assms(2) m(2) by simp
  moreover have "Suc (unat (node_height p) - unat (node_height m)) = unat (node_height n) - unat (node_height m)"
    using p(2) m(2) k by simp
  ultimately have "walk t (unat (node_height n) - unat (node_height m)) h = Some s" by (simp only:)
  moreover have "uint (node_height m) = get_skip_height (node_height n)"
    using m(2) nn unfolding uint_nat by linarith
  moreover have "unat (node_height m) < unat (node_height n)" using m(2) k p(2) by linarith
  ultimately show ?thesis using that [OF p(3) m(1)] by blast
qed

lemma ancestor_step_walk:
  assumes "tree_shape H t" "nodes t h = Some n" "height < node_height n"
  obtains s m where "ancestor_step t height n = Some m" "nodes t s = Some m"
    "unat height \<le> unat (node_height m)" "unat (node_height m) < unat (node_height n)"
    "walk t (unat (node_height n) - unat (node_height m)) h = Some s"
proof -
  have pos: "0 < unat (node_height n)" and le: "unat height < unat (node_height n)"
    using assms(3) by (auto simp: word_less_nat_alt)
  obtain s m where s: "skip_link n = Some s" "nodes t s = Some m"
    "unat (node_height m) < unat (node_height n)"
    "walk t (unat (node_height n) - unat (node_height m)) h = Some s"
    using skip_node [OF assms(1,2) pos] by blast
  obtain p where p: "nodes t (node_prev n) = Some p" "unat (node_height n) = Suc (unat (node_height p))"
    using positive_height_linked [OF assms(1,2) pos] by (auto simp: node_linked_def)
  have wp: "walk t (unat (node_height n) - unat (node_height p)) h = Some (node_prev n)"
    using p assms(2) by simp
  show ?thesis
  proof (cases "ancestor_step t height n = Some m \<and> unat height \<le> unat (node_height m)")
    case True
    with that s show ?thesis by blast
  next
    case False
    have "uint height \<le> uint (node_height m) \<longleftrightarrow> unat height \<le> unat (node_height m)"
      by (simp only: word_le_def [symmetric] word_le_nat_alt)
    with False have "ancestor_step t height n = Some p"
      unfolding ancestor_step_def Let_def s(1) option.case s(2) p(1) by (auto split: if_splits)
    moreover have "unat height \<le> unat (node_height p)" "unat (node_height p) < unat (node_height n)"
      using p(2) le by linarith+
    ultimately show ?thesis using that p(1) wp by blast
  qed
qed

lemma get_ancestor_loop_walk:
  assumes "tree_shape H t"
  shows "nodes t h = Some n \<Longrightarrow> unat height \<le> unat (node_height n) \<Longrightarrow>
    \<exists>s. walk t (unat (node_height n) - unat height) h = Some s \<and>
      get_ancestor_loop t height n = Some (nodes t s)"
proof (induction "unat (node_height n)" arbitrary: h n rule: less_induct)
  case less
  show ?case
  proof (cases "height < node_height n")
    case True
    obtain s m where s: "ancestor_step t height n = Some m" "nodes t s = Some m"
      "unat height \<le> unat (node_height m)" "unat (node_height m) < unat (node_height n)"
      "walk t (unat (node_height n) - unat (node_height m)) h = Some s"
      using ancestor_step_walk [OF assms less.prems(1) True] .
    from less.hyps [OF s(4,2,3)] obtain r where
      r: "walk t (unat (node_height m) - unat height) s = Some r"
        "get_ancestor_loop t height m = Some (nodes t r)" by blast
    have "walk t (unat (node_height n) - unat height) h = Some r"
      using walk_trans [OF s(5) r(1)] s(3,4) by simp
    then show ?thesis using True s(1) r(2) by (subst get_ancestor_loop.simps) simp
  next
    case False
    then have "unat (node_height n) = unat height"
      using less.prems(2) by (simp add: word_less_nat_alt)
    then show ?thesis using False less.prems(1) by (subst get_ancestor_loop.simps) simp
  qed
qed

lemma get_ancestor_walk:
  assumes "tree_shape H t" "nodes t h = Some n" "unat height \<le> unat (node_height n)"
  obtains s m where "walk t (unat (node_height n) - unat height) h = Some s" "nodes t s = Some m"
    "unat (node_height m) = unat height" "get_ancestor t h height = Some (Some m)"
proof -
  obtain s where s: "walk t (unat (node_height n) - unat height) h = Some s"
    "get_ancestor_loop t height n = Some (nodes t s)"
    using get_ancestor_loop_walk [OF assms] by blast
  moreover obtain m where "nodes t s = Some m" "unat (node_height m) = unat height"
    using walk_height [OF assms(1,2), of "unat (node_height n) - unat height"] s(1) assms(3) by auto
  ultimately show ?thesis using that assms(2) by (simp add: get_ancestor_def)
qed

text \<open>Above the node the loop does not start: the node itself is returned.\<close>

lemma get_ancestor_above:
  "nodes t h = Some n \<Longrightarrow> node_height n \<le> height \<Longrightarrow> get_ancestor t h height = Some (Some n)"
  by (simp add: get_ancestor_def get_ancestor_loop.simps [of t height n] leD)

end
