(* ===== verification/Chain_Marks.thy ===== *)
theory Chain_Marks
  imports Chain_Links
begin

text \<open>
  Failed subtrees of the header tree: the children index, the closure of the failed set under
  children, and what the loops of \<open>mark_invalid\<close> and \<open>clear_invalid_subtree\<close> compute. That
  every loop returns is part of each result: the value is \<open>Some\<close>.
\<close>

section \<open>Children and descendants\<close>

definition kids :: "hash_fns \<Rightarrow> header_tree \<Rightarrow> hash32 \<Rightarrow> hash32 set" where
  "kids H t p = {c. c \<noteq> genesis_hash H t \<and> (\<exists>n. nodes t c = Some n \<and> node_prev n = p)}"

definition child_rel :: "hash_fns \<Rightarrow> header_tree \<Rightarrow> (hash32 \<times> hash32) set" where
  "child_rel H t = {(p, c). c \<in> kids H t p}"

definition descendants :: "hash_fns \<Rightarrow> header_tree \<Rightarrow> hash32 \<Rightarrow> hash32 set" where
  "descendants H t h = (child_rel H t)\<^sup>* `` {h}"

definition ancestors :: "header_tree \<Rightarrow> hash32 \<Rightarrow> hash32 set" where
  "ancestors t h = {a. \<exists>k. walk t k h = Some a}"

definition index_ok :: "hash_fns \<Rightarrow> header_tree \<Rightarrow> bool" where
  "index_ok H t \<longleftrightarrow> (\<forall>p. set (children t p) = kids H t p)"

definition marks_ok :: "hash_fns \<Rightarrow> header_tree \<Rightarrow> bool" where
  "marks_ok H t \<longleftrightarrow> invalid t \<subseteq> dom (nodes t) \<and> (\<forall>p \<in> invalid t. kids H t p \<subseteq> invalid t)"

lemma kids_nodes:
  assumes "tree_shape H t" "c \<in> kids H t p"
  obtains n m where "nodes t c = Some n" "nodes t p = Some m" "node_prev n = p"
    "unat (node_height n) = Suc (unat (node_height m))"
  using assms tree_shapeD(4) [OF assms(1)] unfolding kids_def node_linked_def by blast

lemma child_rel_height:
  assumes "tree_shape H t" "(p, c) \<in> (child_rel H t)\<^sup>+"
  shows "\<exists>n m. nodes t c = Some n \<and> nodes t p = Some m \<and> unat (node_height m) < unat (node_height n)"
  using assms(2)
proof (induction rule: trancl_induct)
  case (base c)
  then have "c \<in> kids H t p" by (simp add: child_rel_def)
  with kids_nodes [OF assms(1)] show ?case by (metis lessI)
next
  case (step b c)
  then have "c \<in> kids H t b" by (simp add: child_rel_def)
  then obtain n m where "nodes t c = Some n" "nodes t b = Some m"
    "unat (node_height n) = Suc (unat (node_height m))" using kids_nodes [OF assms(1)] by metis
  with step.IH show ?case by fastforce
qed

lemma child_rel_wf:
  assumes "tree_shape H t"
  shows "acyclic (child_rel H t)" and "wf ((child_rel H t)\<inverse>)"
proof -
  show ac: "acyclic (child_rel H t)"
    using child_rel_height [OF assms] unfolding acyclic_def by fastforce
  have "child_rel H t \<subseteq> dom (nodes t) \<times> dom (nodes t)"
    using kids_nodes [OF assms] unfolding child_rel_def by blast
  with tree_shapeD(1) [OF assms] have "finite (child_rel H t)"
    by (meson finite_SigmaI finite_subset)
  with ac show "wf ((child_rel H t)\<inverse>)" by (rule finite_acyclic_wf_converse [rotated])
qed

lemma descendants_unfold: "descendants H t h = insert h (\<Union>c \<in> kids H t h. descendants H t c)"
  unfolding descendants_def child_rel_def
  by (auto elim: converse_rtranclE intro: converse_rtrancl_into_rtrancl)

lemma descendants_self [simp]: "h \<in> descendants H t h"
  by (simp add: descendants_def)

lemma descendants_trans: "x \<in> descendants H t h \<Longrightarrow> descendants H t x \<subseteq> descendants H t h"
  by (auto simp: descendants_def)

section \<open>The marking loop\<close>

definition settled :: "hash_fns \<Rightarrow> header_tree \<Rightarrow> hash32 set \<Rightarrow> hash32 \<Rightarrow> bool" where
  "settled H t marks h \<longleftrightarrow> (\<forall>x \<in> marks. x \<in> descendants H t h \<longrightarrow> descendants H t x \<subseteq> marks)"

lemma mark_loop_list:
  assumes "\<And>c marks rest. c \<in> set cs \<Longrightarrow> settled H t marks c \<Longrightarrow>
      mark_loop t (c # rest) marks = mark_loop t rest (marks \<union> descendants H t c)"
    and "\<And>c. c \<in> set cs \<Longrightarrow> settled H t marks c"
  shows "mark_loop t (cs @ rest) marks = mark_loop t rest (marks \<union> (\<Union>c \<in> set cs. descendants H t c))"
  using assms
proof (induction cs arbitrary: marks)
  case (Cons c cs)
  have "mark_loop t ((c # cs) @ rest) marks = mark_loop t (cs @ rest) (marks \<union> descendants H t c)"
    using Cons.prems by simp
  also have "\<dots> = mark_loop t rest (marks \<union> descendants H t c \<union> (\<Union>c \<in> set cs. descendants H t c))"
  proof (rule Cons.IH)
    fix d assume d: "d \<in> set cs"
    then have "settled H t marks d" using Cons.prems(2) by simp
    then show "settled H t (marks \<union> descendants H t c) d"
      using descendants_trans [of _ H t c] by (auto simp: settled_def subset_iff)
  qed (use Cons.prems(1) in simp)
  finally show ?case by (simp add: Un_assoc)
qed simp

lemma settled_child:
  assumes "tree_shape H t" "settled H t marks h" "c \<in> kids H t h"
  shows "settled H t (insert h marks) c"
proof -
  have hc: "(h, c) \<in> child_rel H t" using assms(3) by (simp add: child_rel_def)
  have "h \<notin> descendants H t c"
  proof
    assume "h \<in> descendants H t c"
    then have "(c, h) \<in> (child_rel H t)\<^sup>*" by (simp add: descendants_def)
    then have "(h, h) \<in> (child_rel H t)\<^sup>+" by (rule rtrancl_into_trancl2 [OF hc])
    with child_rel_wf(1) [OF assms(1)] show False by (simp add: acyclic_def)
  qed
  moreover have "x \<in> descendants H t h" if "x \<in> descendants H t c" for x
    using that hc unfolding descendants_def by (auto intro: converse_rtrancl_into_rtrancl)
  ultimately show ?thesis using assms(2) unfolding settled_def by blast
qed

lemma mark_loop_node:
  assumes "tree_shape H t" "index_ok H t"
  shows "settled H t marks h \<Longrightarrow>
    mark_loop t (h # rest) marks = mark_loop t rest (marks \<union> descendants H t h)"
proof (induction h arbitrary: marks rest rule: wf_induct_rule [OF child_rel_wf(2) [OF assms(1)]])
  case (1 h)
  show ?case
  proof (cases "h \<in> marks")
    case True
    then have "descendants H t h \<subseteq> marks" using 1(2) by (simp add: settled_def)
    then have "marks \<union> descendants H t h = marks" by blast
    then show ?thesis using True by (subst mark_loop.simps) simp
  next
    case False
    have set: "set (rev (children t h)) = kids H t h" using assms(2) by (simp add: index_ok_def)
    have "mark_loop t (h # rest) marks = mark_loop t (rev (children t h) @ rest) (insert h marks)"
      using False by (subst mark_loop.simps) simp
    also have "\<dots> = mark_loop t rest (insert h marks \<union> (\<Union>c \<in> set (rev (children t h)). descendants H t c))"
    proof (rule mark_loop_list)
      fix c marks rest assume "c \<in> set (rev (children t h))" "settled H t marks c"
      then show "mark_loop t (c # rest) marks = mark_loop t rest (marks \<union> descendants H t c)"
        using 1(1) [of c] by (simp add: set child_rel_def del: set_rev)
    qed (use settled_child [OF assms(1) 1(2)] set in blast)
    also have "insert h marks \<union> (\<Union>c \<in> set (rev (children t h)). descendants H t c) =
        marks \<union> descendants H t h"
      unfolding set using descendants_unfold [of H t h] by auto
    finally show ?thesis .
  qed
qed

lemma marks_closed:
  assumes "marks_ok H t" "x \<in> invalid t"
  shows "descendants H t x \<subseteq> invalid t"
proof
  fix y assume "y \<in> descendants H t x"
  then have "(x, y) \<in> (child_rel H t)\<^sup>*" by (simp add: descendants_def)
  then show "y \<in> invalid t"
  proof (induction rule: rtrancl_induct)
    case (step y z)
    then show ?case using assms(1) unfolding marks_ok_def child_rel_def by blast
  qed (rule assms(2))
qed

lemma mark_loop_invalid:
  assumes "tree_shape H t" "index_ok H t" "marks_ok H t"
  shows "mark_loop t (rev (children t h)) (insert h (invalid t)) = Some (invalid t \<union> descendants H t h)"
proof -
  have set: "set (rev (children t h)) = kids H t h" using assms(2) by (simp add: index_ok_def)
  have st: "settled H t (invalid t) h" using marks_closed [OF assms(3)] by (simp add: settled_def)
  have "mark_loop t (rev (children t h) @ []) (insert h (invalid t)) =
    mark_loop t [] (insert h (invalid t) \<union> (\<Union>c \<in> set (rev (children t h)). descendants H t c))"
    by (rule mark_loop_list [OF mark_loop_node [OF assms(1,2)]])
      (use settled_child [OF assms(1) st] set in blast)+
  also have "insert h (invalid t) \<union> (\<Union>c \<in> set (rev (children t h)). descendants H t c) =
      invalid t \<union> descendants H t h"
    unfolding set using descendants_unfold [of H t h] by auto
  finally show ?thesis by (simp add: mark_loop.simps)
qed

section \<open>The clearing loops\<close>

lemma subtree_loop_node:
  assumes "tree_shape H t" "index_ok H t"
  shows "\<exists>ds. set ds = descendants H t h \<and>
    (\<forall>rest acc. subtree_loop t (h # rest) acc = subtree_loop t rest (acc @ ds))"
proof (induction h rule: wf_induct_rule [OF child_rel_wf(2) [OF assms(1)]])
  case (1 h)
  have set: "set (rev (children t h)) = kids H t h" using assms(2) by (simp add: index_ok_def)
  have "\<exists>ds. set ds = (\<Union>c \<in> set cs. descendants H t c) \<and>
      (\<forall>rest acc. subtree_loop t (cs @ rest) acc = subtree_loop t rest (acc @ ds))"
    if "set cs \<subseteq> kids H t h" for cs
    using that
  proof (induction cs)
    case (Cons c cs)
    then obtain ds where ds: "set ds = (\<Union>c \<in> set cs. descendants H t c)"
      "\<And>rest acc. subtree_loop t (cs @ rest) acc = subtree_loop t rest (acc @ ds)" by auto
    obtain es where es: "set es = descendants H t c"
      "\<And>rest acc. subtree_loop t (c # rest) acc = subtree_loop t rest (acc @ es)"
      using 1 [of c] Cons.prems by (auto simp: child_rel_def)
    show ?case by (rule exI [of _ "es @ ds"]) (simp add: ds es)
  qed simp
  from this [of "rev (children t h)"] obtain ds where
    ds: "set ds = (\<Union>c \<in> kids H t h. descendants H t c)"
      "\<And>rest acc. subtree_loop t (rev (children t h) @ rest) acc = subtree_loop t rest (acc @ ds)"
    unfolding set by blast
  have "subtree_loop t (h # rest) acc = subtree_loop t rest (acc @ h # ds)" for rest acc
    by (subst subtree_loop.simps) (simp add: ds(2))
  moreover have "set (h # ds) = descendants H t h" using ds(1) descendants_unfold [of H t h] by simp
  ultimately show ?case by blast
qed

lemma subtree_loop_descendants:
  assumes "tree_shape H t" "index_ok H t"
  obtains ds where "subtree_loop t (rev (children t h)) [h] = Some ds" "set ds = descendants H t h"
proof -
  obtain ds where ds: "set ds = descendants H t h"
    "subtree_loop t [h] [] = subtree_loop t [] ds"
    using subtree_loop_node [OF assms, of h] by fastforce
  have "subtree_loop t [h] [] = subtree_loop t (rev (children t h)) [h]"
    by (subst subtree_loop.simps) simp
  with ds that show ?thesis by (simp add: subtree_loop.simps [of t "[]"])
qed

lemma ancestors_unfold:
  "nodes t h = Some n \<Longrightarrow> ancestors t h = insert h (ancestors t (node_prev n))"
proof -
  assume n: "nodes t h = Some n"
  have "walk t k h = Some a \<longleftrightarrow> (k = 0 \<and> a = h) \<or> (\<exists>j. k = Suc j \<and> walk t j (node_prev n) = Some a)" for k a
    using n by (cases k) auto
  then show ?thesis unfolding ancestors_def by auto
qed

lemma ancestors_None: "nodes t h = None \<Longrightarrow> ancestors t h = {}"
  by (simp add: ancestors_def walk_None)

lemma marked_ancestors_end:
  assumes "nodes t h = None" "marks_ok H t"
  shows "marked_ancestors_loop t (Some h) acc = Some acc"
proof -
  have "h \<notin> invalid t" using assms by (auto simp: marks_ok_def)
  then show ?thesis using assms(1)
    by (subst marked_ancestors_loop.simps) (simp add: marked_ancestors_loop.simps [of t None])
qed

lemma marked_ancestors_node:
  assumes "tree_shape H t" "marks_ok H t"
  shows "nodes t h = Some n \<Longrightarrow>
    \<exists>as. marked_ancestors_loop t (Some h) acc = Some (acc @ as) \<and> set as = ancestors t h \<inter> invalid t"
proof (induction "unat (node_height n)" arbitrary: h n acc)
  case 0
  then have "h = genesis_hash H t" using height_zero_genesis [OF assms(1)] by (simp add: unat_eq_0)
  with 0 genesis_node [OF assms(1)] tree_shapeD(2) [OF assms(1)]
  have p: "nodes t (node_prev n) = None" by (metis option.sel)
  show ?case using 0(2) marked_ancestors_end [OF p assms(2)]
    by (subst marked_ancestors_loop.simps)
      (auto simp: ancestors_unfold ancestors_None [OF p])
next
  case (Suc k)
  then obtain p where p: "nodes t (node_prev n) = Some p" "k = unat (node_height p)"
    using positive_height_linked [OF assms(1) Suc(3)] by (auto simp: node_linked_def)
  let ?acc = "if h \<in> invalid t then acc @ [h] else acc"
  obtain as where as: "marked_ancestors_loop t (Some (node_prev n)) ?acc = Some (?acc @ as)"
    "set as = ancestors t (node_prev n) \<inter> invalid t"
    using Suc(1) [OF p(2,1)] by blast
  have "marked_ancestors_loop t (Some h) acc = Some (?acc @ as)"
    using as(1) Suc(3) by (subst marked_ancestors_loop.simps) simp
  then show ?case using as(2)
    by (intro exI [of _ "(if h \<in> invalid t then [h] else []) @ as"])
      (auto simp: ancestors_unfold [OF Suc(3)])
qed

lemma marked_ancestors:
  assumes "tree_shape H t" "marks_ok H t"
  obtains as where "marked_ancestors_loop t (Some h) acc = Some (acc @ as)" "set as = ancestors t h \<inter> invalid t"
proof (cases "nodes t h")
  case None
  with that [of "[]"] marked_ancestors_end [OF None assms(2)] show ?thesis by (simp add: ancestors_None)
next
  case (Some n)
  with marked_ancestors_node [OF assms] that show ?thesis by blast
qed

end
