(* ===== verification/Chain_Invariant.thy ===== *)
theory Chain_Invariant
  imports Chain_Marks
begin

text \<open>
  The invariant of the header tree and its preservation: the shape, the children index, a failed set
  closed under descendants, a best tip, and the consensus rules every stored header passed when it was
  inserted, which stay true as the tree grows.
\<close>

unbundle bit_operations_syntax

section \<open>Trees with the same links\<close>

definition core :: "header_node \<Rightarrow> block_header \<times> u32 \<times> work \<times> hash32 option" where
  "core n = (node_header n, node_height n, chainwork n, skip_link n)"

definition same_links :: "header_tree \<Rightarrow> header_tree \<Rightarrow> bool" where
  "same_links t t' \<longleftrightarrow> tree_params t' = tree_params t \<and> children_map t' = children_map t \<and>
     (\<forall>h. map_option core (nodes t' h) = map_option core (nodes t h))"

lemma same_linksD:
  assumes "same_links t t'"
  shows "tree_params t' = tree_params t" "children t' = children t"
    and "nodes t h = None \<longleftrightarrow> nodes t' h = None"
    and "nodes t h = Some n \<Longrightarrow> \<exists>n'. nodes t' h = Some n' \<and> core n' = core n"
    and "nodes t' h = Some n' \<Longrightarrow> \<exists>n. nodes t h = Some n \<and> core n' = core n"
proof -
  show "tree_params t' = tree_params t" using assms by (simp add: same_links_def)
  show "children t' = children t" using assms by (simp add: same_links_def children_def fun_eq_iff)
  have e: "map_option core (nodes t' h) = map_option core (nodes t h)"
    using assms by (simp add: same_links_def)
  show "nodes t h = None \<longleftrightarrow> nodes t' h = None"
    using e by (cases "nodes t h"; cases "nodes t' h") simp_all
  show "nodes t h = Some n \<Longrightarrow> \<exists>n'. nodes t' h = Some n' \<and> core n' = core n"
    using e by (cases "nodes t' h") simp_all
  show "nodes t' h = Some n' \<Longrightarrow> \<exists>n. nodes t h = Some n \<and> core n' = core n"
    using e by (cases "nodes t h") simp_all
qed

lemma coreD:
  "core n' = core n \<Longrightarrow> node_header n' = node_header n \<and> node_height n' = node_height n \<and>
     chainwork n' = chainwork n \<and> skip_link n' = skip_link n \<and> node_hash H n' = node_hash H n"
  by (simp add: core_def node_hash_def)

lemma walk_same: "same_links t t' \<Longrightarrow> walk t' k h = walk t k h"
proof (induction k arbitrary: h)
  case 0
  then show ?case using same_linksD(3) by simp
next
  case (Suc k)
  show ?case
  proof (cases "nodes t h")
    case None
    moreover have "nodes t' h = None" using None same_linksD(3) [OF Suc.prems, of h] by simp
    ultimately show ?thesis by simp
  next
    case (Some n)
    then obtain n' where "nodes t' h = Some n'" "core n' = core n"
      using same_linksD(4) [OF Suc.prems] by blast
    then show ?thesis using Some Suc by (auto dest: coreD)
  qed
qed

lemma tree_ancestry_same: "same_links t t' \<Longrightarrow> tree_ancestry t' = tree_ancestry t"
proof
  fix h assume s: "same_links t t'"
  show "tree_ancestry t' h = tree_ancestry t h"
    using same_linksD(3) [OF s, of h] same_linksD(4) [OF s, of h]
    by (cases "nodes t h") (auto simp: tree_ancestry_def dest: coreD)
qed

lemma ancestor_times_same:
  "same_links t t' \<Longrightarrow> core n' = core n \<Longrightarrow> ancestor_times_loop t' k n' = ancestor_times_loop t k n"
proof (induction k arbitrary: n n')
  case (Suc k)
  show ?case
  proof (cases "nodes t (node_prev n)")
    case None
    moreover have "nodes t' (node_prev n) = None"
      using None same_linksD(3) [OF Suc.prems(1), of "node_prev n"] by simp
    ultimately show ?thesis using coreD [OF Suc.prems(2)] by simp
  next
    case (Some p)
    then obtain p' where "nodes t' (node_prev n) = Some p'" "core p' = core p"
      using same_linksD(4) [OF Suc.prems(1)] by blast
    then show ?thesis using Some Suc.IH [OF Suc.prems(1), of p' p] Suc.prems(2) by (auto dest: coreD)
  qed
qed simp

lemma node_linked_same:
  assumes "same_links t t'" "core n' = core n" "node_linked t n"
  shows "node_linked t' n'"
proof -
  from assms(3) obtain p s where p: "nodes t (node_prev n) = Some p"
    "unat (node_height n) = Suc (unat (node_height p))"
    "u256_val (chainwork n) = u256_val (chainwork p) + u256_val (work_from_compact (hdr_bits (node_header n)))"
    "0 < u256_val (work_from_compact (hdr_bits (node_header n)))" "skip_link n = Some s"
    "walk t (unat (node_height p) - nat (get_skip_height (node_height n))) (node_prev n) = Some s"
    unfolding node_linked_def by blast
  obtain p' where "nodes t' (node_prev n) = Some p'" "core p' = core p"
    using same_linksD(4) [OF assms(1) p(1)] by blast
  then show ?thesis
    using coreD [OF assms(2)] coreD [of p' p] p unfolding node_linked_def walk_same [OF assms(1)]
    by (intro exI [of _ p'] exI [of _ s]) simp
qed

lemma tree_shape_same:
  assumes "same_links t t'" "tree_shape H t"
  shows "tree_shape H t'"
proof -
  note s = same_linksD [OF assms(1)]
  have g: "genesis_hash H t' = genesis_hash H t" by (simp add: genesis_hash_def s(1))
  have "dom (nodes t') = dom (nodes t)" using s(3) by (auto simp: dom_def)
  then have "finite (dom (nodes t'))" using tree_shapeD(1) [OF assms(2)] by simp
  moreover have "nodes t' (prev_block_hash (genesis_header (tree_params t'))) = None"
    using tree_shapeD(2) [OF assms(2)] s(1,3) by simp
  moreover obtain n where n: "nodes t (genesis_hash H t) = Some n"
    "node_header n = genesis_header (tree_params t)" "node_height n = 0" "0 < u256_val (chainwork n)"
    "skip_link n = None" using genesis_node [OF assms(2)] .
  then have "\<exists>n. nodes t' (genesis_hash H t') = Some n \<and> node_header n = genesis_header (tree_params t') \<and>
        node_height n = 0 \<and> 0 < u256_val (chainwork n) \<and> skip_link n = None"
    using s(4) [OF n(1)] coreD g s(1) by metis
  moreover have "node_hash H n' = h" if "nodes t' h = Some n'" for h n'
    using s(5) [OF that] tree_shapeD(3) [OF assms(2)] coreD by metis
  moreover have "node_linked t' n'" if "nodes t' h = Some n'" "h \<noteq> genesis_hash H t'" for h n'
    using s(5) [OF that(1)] tree_shapeD(4) [OF assms(2)] node_linked_same [OF assms(1)] that(2) g by metis
  ultimately show ?thesis unfolding tree_shape_def by blast
qed

lemma kids_same: "same_links t t' \<Longrightarrow> kids H t' p = kids H t p"
  unfolding kids_def genesis_hash_def
  by (auto simp: same_linksD(1), (metis same_linksD(4,5) coreD)+)

lemma index_ok_same: "same_links t t' \<Longrightarrow> index_ok H t \<Longrightarrow> index_ok H t'"
  by (simp add: index_ok_def kids_same same_linksD(2))

section \<open>The consensus rules of stored headers\<close>

definition rules_ok :: "hash_fns \<Rightarrow> header_tree \<Rightarrow> bool" where
  "rules_ok H t \<longleftrightarrow> (\<forall>h n. nodes t h = Some n \<longrightarrow> h \<noteq> genesis_hash H t \<longrightarrow>
     check_proof_of_work h (hdr_bits (node_header n)) (tree_params t) = Inr () \<and>
     (\<exists>p. nodes t (node_prev n) = Some p \<and>
        required_bits (node_height p) (node_header p) (hdr_time (node_header n)) (tree_params t)
          (tree_ancestry t) = Inr (hdr_bits (node_header n)) \<and>
        rules_median_time_past (ancestor_times t p) < hdr_time (node_header n) \<and>
        \<not> version_too_low (tree_params t) (hdr_version (node_header n)) (ucast (node_height p) + 1)))"

lemma rules_ok_same:
  assumes "same_links t t'" "rules_ok H t"
  shows "rules_ok H t'"
  unfolding rules_ok_def
proof (intro allI impI)
  fix h n' assume n': "nodes t' h = Some n'" "h \<noteq> genesis_hash H t'"
  note s = same_linksD [OF assms(1)]
  obtain n where n: "nodes t h = Some n" "core n' = core n" using s(5) [OF n'(1)] by blast
  have "h \<noteq> genesis_hash H t" using n'(2) s(1) by (simp add: genesis_hash_def)
  with assms(2) n(1) obtain p where p: "nodes t (node_prev n) = Some p"
    and r: "check_proof_of_work h (hdr_bits (node_header n)) (tree_params t) = Inr ()"
      "required_bits (node_height p) (node_header p) (hdr_time (node_header n)) (tree_params t)
          (tree_ancestry t) = Inr (hdr_bits (node_header n))"
      "rules_median_time_past (ancestor_times t p) < hdr_time (node_header n)"
      "\<not> version_too_low (tree_params t) (hdr_version (node_header n)) (ucast (node_height p) + 1)"
    unfolding rules_ok_def by blast
  obtain p' where p': "nodes t' (node_prev n) = Some p'" "core p' = core p" using s(4) [OF p] by blast
  have "ancestor_times t' p' = ancestor_times t p"
    unfolding ancestor_times_def by (rule ancestor_times_same [OF assms(1) p'(2)])
  then show "check_proof_of_work h (hdr_bits (node_header n')) (tree_params t') = Inr () \<and>
     (\<exists>p. nodes t' (node_prev n') = Some p \<and>
        required_bits (node_height p) (node_header p) (hdr_time (node_header n')) (tree_params t')
          (tree_ancestry t') = Inr (hdr_bits (node_header n')) \<and>
        rules_median_time_past (ancestor_times t' p) < hdr_time (node_header n') \<and>
        \<not> version_too_low (tree_params t') (hdr_version (node_header n')) (ucast (node_height p) + 1))"
    using r p' coreD [OF n(2)] coreD [OF p'(2)] by (simp add: s(1) tree_ancestry_same [OF assms(1)])
qed

lemma walk_back_mono:
  assumes "anc \<subseteq>\<^sub>m anc'"
  shows "walk_back anc i l h hdr = Inr r \<Longrightarrow> walk_back anc' i l h hdr = Inr r"
proof (induction "unat h" arbitrary: h hdr rule: less_induct)
  case less
  show ?case
  proof (cases "(ucast h :: u64) mod i \<noteq> 0 \<and> hdr_bits hdr = l")
    case True
    then obtain p where p: "anc (prev_block_hash hdr) = Some p" "walk_back anc i l (h - 1) p = Inr r"
      using less.prems by (cases "anc (prev_block_hash hdr)") (simp_all add: walk_back.simps [of anc i l h])
    have "h \<noteq> 0" using True by (metis mod_0 ucast_0)
    then have "unat (h - 1) < unat h" by (simp add: unat_minus_one unat_gt_0)
    with less.hyps p(2) have "walk_back anc' i l (h - 1) p = Inr r" by blast
    with True map_leD [OF assms p(1)] show ?thesis by (simp add: walk_back.simps [of anc' i l h])
  next
    case False
    with less.prems show ?thesis by (auto simp: walk_back.simps [of _ i l h])
  qed
qed

lemma window_walk_mono:
  assumes "anc \<subseteq>\<^sub>m anc'"
  shows "window_walk anc n hdr = Inr r \<Longrightarrow> window_walk anc' n hdr = Inr r"
proof (induction n arbitrary: hdr)
  case (Suc n)
  then obtain p where "anc (prev_block_hash hdr) = Some p" "window_walk anc n p = Inr r"
    by (cases "anc (prev_block_hash hdr)") simp_all
  with Suc.IH map_leD [OF assms] show ?case by simp
qed simp

lemma required_bits_mono:
  assumes "anc \<subseteq>\<^sub>m anc'" "required_bits h l t p anc = Inr b"
  shows "required_bits h l t p anc' = Inr b"
  using assms(2) walk_back_mono [OF assms(1)] window_walk_mono [OF assms(1)]
  unfolding required_bits_def Let_def by (auto split: if_splits)

section \<open>The best tip\<close>

definition best_tip :: "header_tree \<Rightarrow> hash32 \<Rightarrow> bool" where
  "best_tip t h \<longleftrightarrow> h \<notin> invalid t \<and> (\<exists>n. nodes t h = Some n \<and>
     (\<forall>h' n'. nodes t h' = Some n' \<longrightarrow> h' \<notin> invalid t \<longrightarrow> chainwork n' \<le> chainwork n))"

definition tip_ok :: "header_tree \<Rightarrow> bool" where
  "tip_ok t \<longleftrightarrow> nodes t (tip t) \<noteq> None \<and>
     ((\<exists>h. nodes t h \<noteq> None \<and> h \<notin> invalid t) \<longrightarrow> best_tip t (tip t))"

definition tree_ok :: "hash_fns \<Rightarrow> header_tree \<Rightarrow> bool" where
  "tree_ok H t \<longleftrightarrow> tree_shape H t \<and> index_ok H t \<and> rules_ok H t \<and> marks_ok H t \<and> tip_ok t"

lemma positive_chainwork:
  assumes "tree_shape H t"
  shows "nodes t h = Some n \<Longrightarrow> u256_ZERO < chainwork n"
proof (induction "unat (node_height n)" arbitrary: h n)
  case 0
  then have "h = genesis_hash H t" using height_zero_genesis [OF assms] by (simp add: unat_eq_0)
  with 0 genesis_node [OF assms] show ?case by (metis option.inject u256_less_val u256_ZERO_val)
next
  case (Suc k)
  then have "node_linked t n" using positive_height_linked [OF assms] by simp
  then show ?case by (auto simp: node_linked_def u256_less_val)
qed

lemma best_scan_result:
  assumes "best_scan t iter wrap (b0, w0) = (b, w)"
  shows "w0 \<le> w"
    and "h \<in> set iter \<Longrightarrow> nodes t h = Some n \<Longrightarrow> h \<notin> invalid t \<Longrightarrow> chainwork n \<le> w"
    and "(b = b0 \<and> w = w0) \<or>
      (\<exists>h n. nodes t h = Some n \<and> h \<notin> invalid t \<and> b = wrap h \<and> w = chainwork n \<and> w0 < w)"
proof -
  have "w0 \<le> w \<and> (\<forall>h n. h \<in> set iter \<longrightarrow> nodes t h = Some n \<longrightarrow> h \<notin> invalid t \<longrightarrow> chainwork n \<le> w) \<and>
    ((b = b0 \<and> w = w0) \<or>
      (\<exists>h n. nodes t h = Some n \<and> h \<notin> invalid t \<and> b = wrap h \<and> w = chainwork n \<and> w0 < w))"
    using assms
  proof (induction iter arbitrary: b0 w0)
    case Nil
    then show ?case by (simp add: best_scan_def)
  next
    case (Cons x iter)
    show ?case
    proof (cases "\<exists>n. nodes t x = Some n \<and> x \<notin> invalid t \<and> chainwork n > w0")
      case True
      then obtain n where n: "nodes t x = Some n" "x \<notin> invalid t" "w0 < chainwork n" by blast
      then have "best_scan t iter wrap (wrap x, chainwork n) = (b, w)"
        using Cons.prems by (simp add: best_scan_def)
      note ih = Cons.IH [OF this]
      then have le: "chainwork n \<le> w" by blast
      have "\<exists>h n. nodes t h = Some n \<and> h \<notin> invalid t \<and> b = wrap h \<and> w = chainwork n \<and> w0 < w"
        using ih n le order_less_le_trans [OF n(3) le] by blast
      then show ?thesis using ih n le order_less_le_trans [OF n(3) le] by auto
    next
      case False
      then have "best_scan t iter wrap (b0, w0) = (b, w)"
        using Cons.prems by (auto simp: best_scan_def split: option.splits)
      from Cons.IH [OF this] False show ?thesis by (auto simp: not_less intro: order_trans)
    qed
  qed
  then show "w0 \<le> w"
    and "h \<in> set iter \<Longrightarrow> nodes t h = Some n \<Longrightarrow> h \<notin> invalid t \<Longrightarrow> chainwork n \<le> w"
    and "(b = b0 \<and> w = w0) \<or>
      (\<exists>h n. nodes t h = Some n \<and> h \<notin> invalid t \<and> b = wrap h \<and> w = chainwork n \<and> w0 < w)" by auto
qed

text \<open>From zero the scan finds a best node when there is a valid one, and keeps the start otherwise.\<close>

lemma best_scan_from_zero:
  assumes "tree_shape H t" "set iter = dom (nodes t)"
    and "best_scan t iter wrap (b0, u256_ZERO) = (b, w)"
  shows "(\<exists>h. b = wrap h \<and> best_tip t h) \<or>
    (b = b0 \<and> (\<forall>h. nodes t h \<noteq> None \<longrightarrow> h \<in> invalid t))"
proof (cases "\<exists>h n. nodes t h = Some n \<and> h \<notin> invalid t")
  case True
  then obtain h n where h: "nodes t h = Some n" "h \<notin> invalid t" by blast
  have le: "chainwork n \<le> w" if "nodes t h = Some n" "h \<notin> invalid t" for h n
    using best_scan_result(2) [OF assms(3) _ that] that(1) assms(2) by auto
  have "u256_ZERO < w" using positive_chainwork [OF assms(1) h(1)] le [OF h] by (rule order_less_le_trans)
  with best_scan_result(3) [OF assms(3)] obtain m k where
    "nodes t k = Some m" "k \<notin> invalid t" "b = wrap k" "w = chainwork m" by auto
  then show ?thesis using le unfolding best_tip_def by blast
next
  case False
  then have "\<not> (\<exists>h n. nodes t h = Some n \<and> h \<notin> invalid t)" .
  then show ?thesis using best_scan_result(3) [OF assms(3)] by (metis option.exhaust)
qed

lemma same_links_marks: "same_links t (t\<lparr>invalid := I, tip := x\<rparr>)" "same_links t (t\<lparr>invalid := I\<rparr>)"
  "same_links t (t\<lparr>tip := x\<rparr>)"
  by (simp_all add: same_links_def)

lemma tree_ok_parts:
  assumes "tree_ok H t" "same_links t t'" "marks_ok H t'" "tip_ok t'"
  shows "tree_ok H t'"
  using assms tree_shape_same index_ok_same rules_ok_same by (auto simp: tree_ok_def)

section \<open>Marking and clearing\<close>

lemma descendants_nodes:
  assumes "tree_shape H t" "nodes t h \<noteq> None" "x \<in> descendants H t h"
  shows "nodes t x \<noteq> None"
proof -
  have "(h, x) \<in> (child_rel H t)\<^sup>*" using assms(3) by (simp add: descendants_def)
  then show ?thesis
    by (cases rule: rtranclE) (use assms(2) in \<open>auto simp: child_rel_def kids_def\<close>)
qed

lemma mark_invalid_ok:
  assumes ok: "tree_ok H t" and known: "nodes t hash \<noteq> None" and iter: "set iter = dom (nodes t)"
  obtains t' where "mark_invalid iter t hash = Some t'" "tree_ok H t'"
    "invalid t' = invalid t \<union> descendants H t hash" "same_links t t'"
proof (cases "hash \<in> invalid t")
  case True
  then have "descendants H t hash \<subseteq> invalid t" using marks_closed ok by (auto simp: tree_ok_def)
  then have "invalid t = invalid t \<union> descendants H t hash" by blast
  then show ?thesis using that [of t] True ok by (simp add: mark_invalid_def same_links_def)
next
  case False
  have shape: "tree_shape H t" "index_ok H t" "marks_ok H t" "tip_ok t"
    using ok by (auto simp: tree_ok_def)
  define I where "I = invalid t \<union> descendants H t hash"
  define t1 where "t1 = t\<lparr>invalid := I\<rparr>"
  define x where "x = (if tip t \<in> I then fst (best_scan t1 iter (\<lambda>h. h) (tip t, u256_ZERO)) else tip t)"
  define t2 where "t2 = t\<lparr>invalid := I, tip := x\<rparr>"
  have m: "mark_invalid iter t hash = Some t2"
    using mark_loop_invalid [OF shape(1,2,3), of hash] False
    by (simp add: mark_invalid_def Let_def I_def t1_def t2_def x_def)
  have same: "same_links t t2" "same_links t t1" by (simp_all add: t2_def t1_def same_links_marks)
  have "kids H t p \<subseteq> I" if "p \<in> I" for p
  proof (cases "p \<in> invalid t")
    case True
    then show ?thesis using shape(3) by (auto simp: marks_ok_def I_def)
  next
    case False
    then have "p \<in> descendants H t hash" using that by (simp add: I_def)
    then have "descendants H t p \<subseteq> I" using descendants_trans [of p H t hash] by (auto simp: I_def)
    then show ?thesis using descendants_unfold [of H t p] descendants_self by blast
  qed
  moreover have "I \<subseteq> dom (nodes t)"
    using shape(3) descendants_nodes [OF shape(1) known] by (auto simp: marks_ok_def I_def)
  ultimately have marks: "marks_ok H t2"
    using kids_same [OF same(1)] by (simp add: marks_ok_def t2_def)
  have tips: "tip_ok t2"
  proof (cases "tip t \<in> I")
    case True
    obtain b w where bw: "best_scan t1 iter (\<lambda>h. h) (tip t, u256_ZERO) = (b, w)" by fastforce
    have "x = b" using True bw by (simp add: x_def)
    moreover have "best_tip t1 b \<or> (b = tip t \<and> (\<forall>h. nodes t1 h \<noteq> None \<longrightarrow> h \<in> invalid t1))"
      using best_scan_from_zero [OF tree_shape_same [OF same(2) shape(1)] _ bw] iter
      by (auto simp: t1_def)
    moreover have "best_tip t2 h = best_tip t1 h" for h by (simp add: best_tip_def t1_def t2_def)
    ultimately show ?thesis using shape(4)
      by (auto simp: tip_ok_def t2_def t1_def) (auto simp: best_tip_def)
  next
    case False
    then have "best_tip t (tip t)" using shape(4) by (auto simp: tip_ok_def I_def)
    then show ?thesis using False shape(4) by (auto simp: tip_ok_def best_tip_def t2_def x_def I_def)
  qed
  show ?thesis
    by (rule that [OF m tree_ok_parts [OF ok same(1) marks tips] _ same(1)]) (simp add: t2_def I_def)
qed

lemma kids_parent_unique: "c \<in> kids H t p \<Longrightarrow> c \<in> kids H t q \<Longrightarrow> p = q"
  by (auto simp: kids_def)

lemma clear_invalid_ok:
  assumes ok: "tree_ok H t" and iter: "set iter = dom (nodes t)"
  obtains t' where "clear_invalid_subtree iter t hash = Some t'" "tree_ok H t'" "same_links t t'"
    "nodes t hash \<noteq> None \<longrightarrow> invalid t' = invalid t - descendants H t hash - ancestors t hash"
proof (cases "nodes t hash")
  case None
  with that [of t] ok show ?thesis by (simp add: clear_invalid_subtree_def same_links_def)
next
  case (Some target)
  have shape: "tree_shape H t" "index_ok H t" "marks_ok H t" "tip_ok t"
    using ok by (auto simp: tree_ok_def)
  obtain ds where ds: "subtree_loop t (rev (children t hash)) [hash] = Some ds" "set ds = descendants H t hash"
    using subtree_loop_descendants [OF shape(1,2)] .
  obtain as where as: "marked_ancestors_loop t (Some (node_prev target)) ds = Some (ds @ as)"
    "set as = ancestors t (node_prev target) \<inter> invalid t" using marked_ancestors [OF shape(1,3)] .
  define I where "I = invalid t - set (ds @ as)"
  have I: "I = invalid t - descendants H t hash - ancestors t hash"
    using ds(2) as(2) ancestors_unfold [OF Some] by (auto simp: I_def)
  define t1 where "t1 = t\<lparr>invalid := I\<rparr>"
  define best where "best = (if tip t \<notin> I then Some (tip t) else None)"
  define best_work where "best_work = (case best of None \<Rightarrow> u256_ZERO
    | Some h \<Rightarrow> (case nodes t h of None \<Rightarrow> u256_ZERO | Some n \<Rightarrow> chainwork n))"
  obtain b w where bw: "best_scan t1 iter Some (best, best_work) = (b, w)" by fastforce
  define x where "x = (case b of None \<Rightarrow> tip t | Some h \<Rightarrow> h)"
  define t2 where "t2 = t\<lparr>invalid := I, tip := x\<rparr>"
  have c: "clear_invalid_subtree iter t hash = Some t2"
  proof -
    have "clear_invalid_subtree iter t hash = (case fst (best_scan t1 iter Some (best, best_work)) of
        None \<Rightarrow> Some t1 | Some b \<Rightarrow> Some (t1\<lparr>tip := b\<rparr>))"
      unfolding clear_invalid_subtree_def Some option.case ds(1) as(1) Let_def t1_def I_def
        best_work_def best_def by simp
    also have "\<dots> = Some t2" unfolding bw fst_conv by (cases b) (simp_all add: t1_def t2_def x_def)
    finally show ?thesis .
  qed
  have same: "same_links t t2" "same_links t t1" by (simp_all add: t2_def t1_def same_links_marks)
  have "kids H t p \<subseteq> I" if p: "p \<in> I" for p
  proof
    fix c assume k: "c \<in> kids H t p"
    have "c \<in> invalid t" using shape(3) k p by (auto simp: marks_ok_def I_def)
    moreover have "c \<notin> descendants H t hash"
    proof
      assume "c \<in> descendants H t hash"
      then have "(hash, c) \<in> (child_rel H t)\<^sup>*" by (simp add: descendants_def)
      then show False
      proof (cases rule: rtranclE)
        case base
        then have "p \<in> ancestors t hash" using k Some ancestors_unfold [OF Some]
          kids_nodes [OF shape(1) k] ancestors_unfold
          by (metis insertCI kids_def mem_Collect_eq option.inject)
        with p I show False by blast
      next
        case (step q)
        then have "q = p" using kids_parent_unique k by (simp add: child_rel_def)
        with step(1) p I show False by (simp add: descendants_def)
      qed
    qed
    moreover have "c \<notin> ancestors t hash"
    proof
      assume "c \<in> ancestors t hash"
      then obtain j where j: "walk t j hash = Some c" by (auto simp: ancestors_def)
      obtain n m where "nodes t c = Some n" "nodes t p = Some m" "node_prev n = p"
        using kids_nodes [OF shape(1) k] .
      then have "walk t 1 c = Some p" by simp
      from walk_trans [OF j this] have "p \<in> ancestors t hash" unfolding ancestors_def by blast
      with p I show False by blast
    qed
    ultimately show "c \<in> I" by (simp add: I)
  qed
  then have marks: "marks_ok H t2"
    using kids_same [OF same(1)] shape(3) by (auto simp: marks_ok_def t2_def I_def)
  have bt: "best_tip t2 h = best_tip t1 h" for h by (simp add: best_tip_def t1_def t2_def)
  have tips: "tip_ok t2"
  proof (cases "tip t \<in> I")
    case True
    then have "best_scan t1 iter Some (None, u256_ZERO) = (b, w)"
      using bw by (simp add: best_def best_work_def)
    from best_scan_from_zero [OF tree_shape_same [OF same(2) shape(1)] _ this] iter
    have "(\<exists>h. b = Some h \<and> best_tip t1 h) \<or> (b = None \<and> (\<forall>h. nodes t1 h \<noteq> None \<longrightarrow> h \<in> invalid t1))"
      by (simp add: t1_def)
    then show ?thesis
    proof (elim disjE exE conjE)
      fix h assume "b = Some h" "best_tip t1 h"
      moreover from this have "nodes t2 h \<noteq> None" by (auto simp: best_tip_def t1_def t2_def)
      ultimately show ?thesis using bt by (simp add: tip_ok_def t2_def x_def)
    next
      assume "b = None" "\<forall>h. nodes t1 h \<noteq> None \<longrightarrow> h \<in> invalid t1"
      then show ?thesis using shape(4) by (auto simp: tip_ok_def t2_def x_def t1_def)
    qed
  next
    case False
    obtain tn where tn: "nodes t (tip t) = Some tn" using shape(4) by (auto simp: tip_ok_def)
    then have "best_scan t1 iter Some (Some (tip t), chainwork tn) = (b, w)"
      using bw False by (simp add: best_def best_work_def)
    note r = best_scan_result [OF this]
    have le: "chainwork n \<le> w" if "nodes t h = Some n" "h \<notin> I" for h n
      using r(2) [of h n] that iter by (auto simp: t1_def)
    have "\<exists>h n. b = Some h \<and> nodes t h = Some n \<and> h \<notin> I \<and> w = chainwork n"
      using r(3) False tn by (auto simp: t1_def)
    then obtain h n where h: "b = Some h" "nodes t h = Some n" "h \<notin> I" "w = chainwork n" by blast
    then have "best_tip t1 h" using le by (auto simp: best_tip_def t1_def)
    then show ?thesis using h bt by (auto simp: tip_ok_def t2_def x_def)
  qed
  show ?thesis
    by (rule that [OF c tree_ok_parts [OF ok same(1) marks tips] same(1)]) (simp add: t2_def I)
qed

lemma restore_tip_ok:
  assumes ok: "tree_ok H t" and iter: "set iter = dom (nodes t)"
  obtains b t' where "restore_tip iter t hash = Some (b, t')" "tree_ok H t'" "same_links t t'"
    "invalid t' = invalid t"
proof -
  have shape: "tree_shape H t" "marks_ok H t" "tip_ok t"
    using ok by (auto simp: tree_ok_def)
  have upd: "tree_ok H (t\<lparr>tip := x\<rparr>)" if "best_tip t x" for x
  proof (rule tree_ok_parts [OF ok])
    have s: "same_links t (t\<lparr>tip := x\<rparr>)" by (simp add: same_links_marks)
    show "same_links t (t\<lparr>tip := x\<rparr>)" by (rule s)
    show "marks_ok H (t\<lparr>tip := x\<rparr>)" using shape(2) kids_same [OF s] by (simp add: marks_ok_def)
    show "tip_ok (t\<lparr>tip := x\<rparr>)" using that by (auto simp: tip_ok_def best_tip_def)
  qed
  show ?thesis
  proof (cases "hash \<in> invalid t")
    case True
    obtain b w where bw: "best_scan t iter Some (None, u256_ZERO) = (b, w)" by fastforce
    from best_scan_from_zero [OF shape(1) iter bw] that upd True bw ok show ?thesis
      by (force simp: restore_tip_def same_links_def)
  next
    case False
    show ?thesis
    proof (cases "nodes t hash")
      case None
      then show ?thesis using that [of False t] False ok by (simp add: restore_tip_def same_links_def)
    next
      case (Some n)
      obtain tn where tn: "nodes t (tip t) = Some tn" using shape(3) by (auto simp: tip_ok_def)
      have bt: "best_tip t (tip t)" using shape(3) Some False by (auto simp: tip_ok_def)
      show ?thesis
      proof (cases "chainwork n < chainwork tn")
        case True
        then show ?thesis using that [of False t] False Some tn ok
          by (simp add: restore_tip_def same_links_def tree_tip_def)
      next
        case le: False
        then have "best_tip t hash" using bt tn Some False
          by (auto simp: best_tip_def not_less intro: order_trans)
        then show ?thesis using that [of True "t\<lparr>tip := hash\<rparr>"] upd False Some tn le
          by (simp add: restore_tip_def same_links_def tree_tip_def)
      qed
    qed
  qed
qed

section \<open>Insertion\<close>

lemma header_checks_ok:
  assumes "header_checks H t header now = Inr (parent, w, height)"
  shows "nodes t (prev_block_hash header) = Some parent"
    and "prev_block_hash header \<notin> invalid t"
    and "check_proof_of_work (header_hash H header) (hdr_bits header) (tree_params t) = Inr ()"
    and "required_bits (node_height parent) (node_header parent) (hdr_time header) (tree_params t)
      (tree_ancestry t) = Inr (hdr_bits header)"
    and "rules_median_time_past (ancestor_times t parent) < hdr_time header"
    and "\<not> version_too_low (tree_params t) (hdr_version header) (ucast (node_height parent) + 1)"
    and "work_checked_add (chainwork parent) (work_from_compact (hdr_bits header)) = Some w"
    and "node_height parent \<noteq> - 1" "height = node_height parent + 1"
proof -
  obtain p where p: "nodes t (prev_block_hash header) = Some p"
    using assms by (auto simp: header_checks_def Let_def split: option.splits)
  have err: "map_err f r = Inr x \<longleftrightarrow> r = Inr x" for f r x by (simp add: map_err_def split: sum.split)
  have time: "check_block_time a b c d = Inr u \<Longrightarrow> b < a" for a b c d u
    by (auto simp: check_block_time_def split: if_splits)
  show "nodes t (prev_block_hash header) = Some parent"
    and "prev_block_hash header \<notin> invalid t"
    and "check_proof_of_work (header_hash H header) (hdr_bits header) (tree_params t) = Inr ()"
    and "required_bits (node_height parent) (node_header parent) (hdr_time header) (tree_params t)
      (tree_ancestry t) = Inr (hdr_bits header)"
    and "rules_median_time_past (ancestor_times t parent) < hdr_time header"
    and "\<not> version_too_low (tree_params t) (hdr_version header) (ucast (node_height parent) + 1)"
    and "work_checked_add (chainwork parent) (work_from_compact (hdr_bits header)) = Some w"
    and "node_height parent \<noteq> - 1" "height = node_height parent + 1"
    using assms p unfolding header_checks_def Let_def
    by (auto simp: res_bind_eq_Inr err split: option.splits if_splits dest: time)
qed

lemma pow_positive_work:
  assumes "check_proof_of_work hash bits p = Inr ()"
  shows "0 < u256_val (work_from_compact bits)"
proof -
  have e: "\<not> et_negative (expand bits)" "\<not> et_overflow (expand bits)" "u256_val (et_value (expand bits)) \<noteq> 0"
    using assms by (auto simp: check_proof_of_work_def Let_def split: if_splits)
  have "u256_val (et_value (expand bits)) + 1 \<le> 2 ^ 256"
    using u256_val_bound [of "et_value (expand bits)"] by simp
  then show ?thesis
    using work_from_compact_val [OF e] div_greater_zero_iff by (metis add_gr_0 zero_less_one)
qed

lemma children_link:
  "children (link_node t hash node) p =
     (if p = node_prev node then children t p @ [hash] else children t p)"
  by (simp add: children_def link_node_def)

lemma ancestor_times_grow:
  assumes "tree_shape H t" "nodes t \<subseteq>\<^sub>m nodes t'"
    and "nodes t' (prev_block_hash (genesis_header (tree_params t))) = None"
  shows "nodes t h = Some n \<Longrightarrow> ancestor_times_loop t' k n = ancestor_times_loop t k n"
proof (induction k arbitrary: h n)
  case (Suc k)
  show ?case
  proof (cases "nodes t (node_prev n)")
    case None
    then have "h = genesis_hash H t"
      using tree_shapeD(4) [OF assms(1) Suc.prems] by (auto simp: node_linked_def)
    then have "node_header n = genesis_header (tree_params t)"
      using genesis_node [OF assms(1)] Suc.prems by (metis option.inject)
    then show ?thesis using None assms(3) by simp
  next
    case (Some p)
    with Suc.IH [OF Some] map_leD [OF assms(2) Some] show ?thesis by simp
  qed
qed simp

definition linked_node :: "hash_fns \<Rightarrow> header_tree \<Rightarrow> hash32 \<Rightarrow> header_node \<Rightarrow> bool" where
  "linked_node H t hash node \<longleftrightarrow> nodes t hash = None \<and> node_hash H node = hash \<and>
     hash \<noteq> prev_block_hash (genesis_header (tree_params t)) \<and> node_linked t node \<and>
     node_prev node \<notin> invalid t \<and>
     check_proof_of_work hash (hdr_bits (node_header node)) (tree_params t) = Inr () \<and>
     (\<forall>p. nodes t (node_prev node) = Some p \<longrightarrow>
        required_bits (node_height p) (node_header p) (hdr_time (node_header node)) (tree_params t)
          (tree_ancestry t) = Inr (hdr_bits (node_header node)) \<and>
        rules_median_time_past (ancestor_times t p) < hdr_time (node_header node) \<and>
        \<not> version_too_low (tree_params t) (hdr_version (node_header node)) (ucast (node_height p) + 1))"

lemma node_linked_mono:
  assumes "nodes t \<subseteq>\<^sub>m nodes t'" "node_linked t n"
  shows "node_linked t' n"
  using assms(2) map_leD [OF assms(1)] walk_mono [OF assms(1)] unfolding node_linked_def by metis

lemma link_nodes: "nodes (link_node t hash node) = (nodes t)(hash \<mapsto> node)" "tree_params (link_node t hash node) = tree_params t"
  "invalid (link_node t hash node) = invalid t" "tip (link_node t hash node) = tip t" "genesis_hash H (link_node t hash node) = genesis_hash H t"
  by (simp_all add: link_node_def genesis_hash_def)

lemma link_grows:
  assumes ok: "tree_ok H t" and new: "linked_node H t hash node"
  shows "nodes t \<subseteq>\<^sub>m nodes (link_node t hash node)"
  using new by (auto simp: link_nodes map_le_def linked_node_def)

lemma link_shape:
  assumes ok: "tree_ok H t" and new: "linked_node H t hash node"
  shows "tree_shape H (link_node t hash node)"
proof -
  have shape: "tree_shape H t" using ok by (simp add: tree_ok_def)
  obtain g where g: "nodes t (genesis_hash H t) = Some g" "node_header g = genesis_header (tree_params t)"
    "node_height g = 0" "0 < u256_val (chainwork g)" "skip_link g = None" using genesis_node [OF shape] .
  have "hash \<noteq> genesis_hash H t" using g(1) new by (auto simp: linked_node_def)
  moreover have "node_linked (link_node t hash node) n" if "nodes (link_node t hash node) h = Some n" "h \<noteq> genesis_hash H t" for h n
    using that node_linked_mono [OF link_grows [OF ok new]] tree_shapeD(4) [OF shape] new
    by (cases "h = hash") (auto simp: link_nodes linked_node_def)
  ultimately show ?thesis
    using tree_shapeD [OF shape] g new unfolding tree_shape_def link_nodes
    by (auto simp: linked_node_def)
qed

lemma link_kids:
  assumes ok: "tree_ok H t" and new: "linked_node H t hash node"
  shows "kids H (link_node t hash node) p = (if p = node_prev node then insert hash (kids H t p) else kids H t p)"
proof -
  have "tree_shape H t" using ok by (simp add: tree_ok_def)
  then obtain g where "nodes t (genesis_hash H t) = Some g" by (rule genesis_node)
  then have "hash \<noteq> genesis_hash H t" using new by (auto simp: linked_node_def)
  then show ?thesis using new by (auto simp: kids_def link_nodes linked_node_def)
qed

lemma link_index:
  assumes ok: "tree_ok H t" and new: "linked_node H t hash node"
  shows "index_ok H (link_node t hash node)"
  using ok children_link [of t hash node] by (auto simp: index_ok_def link_kids [OF ok new] tree_ok_def)

lemma link_rules:
  assumes ok: "tree_ok H t" and new: "linked_node H t hash node"
  shows "rules_ok H (link_node t hash node)"
  unfolding rules_ok_def link_nodes(2,5)
proof (intro allI impI)
  fix h n assume n: "nodes (link_node t hash node) h = Some n" "h \<noteq> genesis_hash H t"
  have shape: "tree_shape H t" "tree_shape H (link_node t hash node)" using ok link_shape [OF ok new] by (simp_all add: tree_ok_def)
  have anc: "tree_ancestry t \<subseteq>\<^sub>m tree_ancestry (link_node t hash node)"
    using map_leD [OF link_grows [OF ok new]] by (auto simp: map_le_def tree_ancestry_def dom_def)
  have times: "ancestor_times (link_node t hash node) p = ancestor_times t p" if "nodes t h = Some p" for h p
    unfolding ancestor_times_def
    using ancestor_times_grow [OF shape(1) link_grows [OF ok new] _ that] tree_shapeD(2) [OF shape(2)]
    by (simp add: link_nodes)
  show "check_proof_of_work h (hdr_bits (node_header n)) (tree_params t) = Inr () \<and>
     (\<exists>p. nodes (link_node t hash node) (node_prev n) = Some p \<and>
        required_bits (node_height p) (node_header p) (hdr_time (node_header n)) (tree_params t)
          (tree_ancestry (link_node t hash node)) = Inr (hdr_bits (node_header n)) \<and>
        rules_median_time_past (ancestor_times (link_node t hash node) p) < hdr_time (node_header n) \<and>
        \<not> version_too_low (tree_params t) (hdr_version (node_header n)) (ucast (node_height p) + 1))"
  proof (cases "h = hash")
    case True
    then have "n = node" using n(1) by (simp add: link_nodes)
    moreover obtain p where "nodes t (node_prev node) = Some p"
      using new by (auto simp: linked_node_def node_linked_def)
    ultimately show ?thesis
      using True new map_leD [OF link_grows [OF ok new]] required_bits_mono [OF anc] times
      unfolding linked_node_def by metis
  next
    case False
    then have "nodes t h = Some n" using n(1) by (simp add: link_nodes)
    moreover have "rules_ok H t" using ok by (simp add: tree_ok_def)
    ultimately obtain p where p: "nodes t (node_prev n) = Some p"
      and r: "check_proof_of_work h (hdr_bits (node_header n)) (tree_params t) = Inr ()"
        "required_bits (node_height p) (node_header p) (hdr_time (node_header n)) (tree_params t)
          (tree_ancestry t) = Inr (hdr_bits (node_header n))"
        "rules_median_time_past (ancestor_times t p) < hdr_time (node_header n)"
        "\<not> version_too_low (tree_params t) (hdr_version (node_header n)) (ucast (node_height p) + 1)"
      using n(2) unfolding rules_ok_def by blast
    show ?thesis
      using r(1,3,4) map_leD [OF link_grows [OF ok new] p] required_bits_mono [OF anc r(2)] times [OF p] by simp
  qed
qed

lemma link_marks:
  assumes ok: "tree_ok H t" and new: "linked_node H t hash node"
  shows "marks_ok H (link_node t hash node)"
  using ok new by (auto simp: marks_ok_def tree_ok_def link_nodes link_kids [OF ok new] linked_node_def)

lemma link_tip:
  assumes ok: "tree_ok H t" and new: "linked_node H t hash node" and tp: "nodes t (tip t) = Some tp"
  shows "tree_ok H (if chainwork node > chainwork tp then (link_node t hash node)\<lparr>tip := hash\<rparr> else (link_node t hash node))"
proof -
  have tips: "tip_ok t" "marks_ok H t" using ok by (simp_all add: tree_ok_def)
  have hi: "hash \<notin> invalid t" using tips(2) new by (auto simp: marks_ok_def linked_node_def)
  obtain p where p: "nodes t (node_prev node) = Some p" "node_prev node \<notin> invalid t"
    using new by (auto simp: linked_node_def node_linked_def)
  then have bt: "best_tip t (tip t)" using tips(1) by (auto simp: tip_ok_def)
  define x where "x = (if chainwork node > chainwork tp then hash else tip t)"
  have eq: "(if chainwork node > chainwork tp then (link_node t hash node)\<lparr>tip := hash\<rparr> else (link_node t hash node)) = (link_node t hash node)\<lparr>tip := x\<rparr>"
    by (simp add: x_def) (simp add: link_node_def)
  have "tip t \<noteq> hash" using tp new by (auto simp: linked_node_def)
  then have best: "best_tip ((link_node t hash node)\<lparr>tip := x\<rparr>) x"
    using bt tp hi by (auto simp: best_tip_def x_def link_nodes not_less) (meson less_imp_le order_trans)
  have s: "same_links (link_node t hash node) ((link_node t hash node)\<lparr>tip := x\<rparr>)" by (simp add: same_links_marks)
  have "marks_ok H ((link_node t hash node)\<lparr>tip := x\<rparr>)" using link_marks [OF ok new] kids_same [OF s] by (simp add: marks_ok_def)
  moreover have "tip_ok ((link_node t hash node)\<lparr>tip := x\<rparr>)" using best by (auto simp: tip_ok_def best_tip_def)
  ultimately show ?thesis unfolding eq tree_ok_def
    using tree_shape_same [OF s link_shape [OF ok new]] index_ok_same [OF s link_index [OF ok new]] rules_ok_same [OF s link_rules [OF ok new]]
    by blast
qed


lemma insert_header_ok:
  assumes ok: "tree_ok H t" and fresh: "header_hash H header \<noteq> prev_block_hash (genesis_header (tree_params t))"
  obtains r t' where "insert_header H t header now = Some (r, t')" "tree_ok H t'"
proof (cases "nodes t (header_hash H header)")
  case (Some n)
  then show ?thesis using that ok by (simp add: insert_header_def)
next
  case None
  show ?thesis
  proof (cases "header_checks H t header now")
    case (Inl e)
    with None that ok show ?thesis by (simp add: insert_header_def Let_def)
  next
    case (Inr v)
    obtain parent w height where v: "v = (parent, w, height)" by (cases v)
    note c = header_checks_ok [OF Inr [unfolded v]]
    have shape: "tree_shape H t" "tip_ok t" using ok by (simp_all add: tree_ok_def)
    have hh: "unat height = Suc (unat (node_height parent))"
      using c(8,9) by (metis add.commute unatSuc add.inverse_inverse eq_neg_iff_add_eq_0)
    then have pos: "0 < height" by (simp add: word_less_nat_alt)
    note sk = get_skip_height_bounds [OF pos]
    let ?k = "word_of_int (get_skip_height height) :: u32"
    have "get_skip_height height < 2 ^ 32" using sk(2) uint_lt2p [of height] by simp
    then have k: "unat ?k = nat (get_skip_height height)"
      using sk(1) by (simp add: unat_eq_nat_uint uint_word_of_int)
    then have "unat ?k \<le> unat (node_height parent)" using sk hh unfolding uint_nat by linarith
    then obtain s m where s: "walk t (unat (node_height parent) - unat ?k) (prev_block_hash header) = Some s"
      "nodes t s = Some m" "get_ancestor t (prev_block_hash header) ?k = Some (Some m)"
      using get_ancestor_walk [OF shape(1) c(1)] by metis
    define node where "node = \<lparr>node_header = header, node_height = height, chainwork = w,
                          n_tx = 0, n_chain_tx = 0, skip_link = map_option (node_hash H) (Some m)\<rparr>"
    have "u256_val w = u256_val (chainwork parent) + u256_val (work_from_compact (hdr_bits header))"
      using c(7) by (auto simp: work_checked_add_def u256_checked_add_val split: if_splits)
    then have "linked_node H t (header_hash H header) node"
      using None fresh c hh s k tree_shapeD(3) [OF shape(1) s(2)] pow_positive_work [OF c(3)]
      unfolding linked_node_def node_linked_def
      by (auto simp: node_def node_hash_def)
    note lk = link_tip [OF ok this]
    obtain tp where tp: "nodes t (tip t) = Some tp" using shape(2) by (auto simp: tip_ok_def)
    then have "tree_tip (link_node t (header_hash H header) node) = Some tp"
      using None by (auto simp: tree_tip_def link_node_def)
    then have "insert_header H t header now = Some (Inr (Added height),
        if chainwork node > chainwork tp
        then (link_node t (header_hash H header) node)\<lparr>tip := header_hash H header\<rparr>
        else link_node t (header_hash H header) node)"
      using None Inr v sk(1) s(3) by (simp add: insert_header_def Let_def node_def)
    with that lk [OF tp] show ?thesis by blast
  qed
qed

end
