(* ===== verification/Chain_Props.thy ===== *)
theory Chain_Props
  imports Chain_Invariant
begin

text \<open>
  What the header tree promises: every tree reached by its operations satisfies the invariant, its
  operations return, its tip is a valid header of most work, ancestor queries are walks along parent
  links, failed marks are exactly subtrees, the median time never falls along a chain, and a locator is
  a short descending sample of the best chain.
\<close>

section \<open>Reachable trees\<close>

text \<open>The genesis header has positive work and is not its own parent. That no accepted header hashes
  to the genesis header's parent (the all-zero hash) is the hypothesis on the hash of \<open>insert\<close>.\<close>

definition genesis_ok :: "hash_fns \<Rightarrow> params \<Rightarrow> bool" where
  "genesis_ok H p \<longleftrightarrow>
     header_hash H (genesis_header p) \<noteq> prev_block_hash (genesis_header p) \<and>
     0 < u256_val (work_from_compact (hdr_bits (genesis_header p)))"

inductive tree_reach :: "hash_fns \<Rightarrow> params \<Rightarrow> header_tree \<Rightarrow> bool" for H p where
  new: "tree_reach H p (tree_new H p)"
| insert: "tree_reach H p t \<Longrightarrow> header_hash H header \<noteq> prev_block_hash (genesis_header p) \<Longrightarrow>
     insert_header H t header now = Some (r, t') \<Longrightarrow> tree_reach H p t'"
| mark: "tree_reach H p t \<Longrightarrow> nodes t hash \<noteq> None \<Longrightarrow> set iter = dom (nodes t) \<Longrightarrow>
     mark_invalid iter t hash = Some t' \<Longrightarrow> tree_reach H p t'"
| mark_subtree: "tree_reach H p t \<Longrightarrow> set iter = dom (nodes t) \<Longrightarrow>
     mark_invalid_subtree iter t hash = Some t' \<Longrightarrow> tree_reach H p t'"
| clear: "tree_reach H p t \<Longrightarrow> set iter = dom (nodes t) \<Longrightarrow>
     clear_invalid_subtree iter t hash = Some t' \<Longrightarrow> tree_reach H p t'"
| restore: "tree_reach H p t \<Longrightarrow> set iter = dom (nodes t) \<Longrightarrow>
     restore_tip iter t hash = Some (b, t') \<Longrightarrow> tree_reach H p t'"
| body: "tree_reach H p t \<Longrightarrow> tree_reach H p (note_body t hash txs)"
| connected: "tree_reach H p t \<Longrightarrow> tree_reach H p (note_connected t hash)"
| tx_meta: "tree_reach H p t \<Longrightarrow> tree_reach H p (apply_tx_meta t hash txs chain_txs)"

inductive_cases tree_reachE: "tree_reach H p t"

lemma tree_new_ok:
  assumes "genesis_ok H p"
  shows "tree_ok H (tree_new H p)"
proof -
  let ?t = "tree_new H p"
  have n: "nodes ?t h = Some n \<longleftrightarrow> h = genesis_hash H ?t \<and>
      n = \<lparr>node_header = genesis_header p, node_height = 0,
            chainwork = work_from_compact (hdr_bits (genesis_header p)), n_tx = 1, n_chain_tx = 1,
            skip_link = None\<rparr>" for h n
    by (auto simp: tree_new_def Let_def genesis_hash_def)
  have f: "invalid ?t = {}" "tree_params ?t = p" "children ?t q = []" "tip ?t = genesis_hash H ?t"
    "genesis_hash H ?t = header_hash H (genesis_header p)" for q
    by (simp_all add: tree_new_def Let_def children_def genesis_hash_def)
  have d: "dom (nodes ?t) = {genesis_hash H ?t}" using n by (auto simp: dom_def)
  have "nodes ?t (prev_block_hash (genesis_header p)) = None"
    using assms n f(5) unfolding genesis_ok_def by (metis not_None_eq)
  then have "tree_shape H ?t"
    using assms unfolding tree_shape_def n d f(2) by (auto simp: genesis_ok_def node_hash_def f)
  moreover have "index_ok H ?t" by (auto simp: index_ok_def kids_def n f(3))
  moreover have "rules_ok H ?t" by (auto simp: rules_ok_def n)
  moreover have "marks_ok H ?t" by (simp add: marks_ok_def f)
  moreover have "tip_ok ?t" by (auto simp: tip_ok_def best_tip_def n f(1,4))
  ultimately show ?thesis by (simp add: tree_ok_def)
qed

lemma tree_ok_meta:
  assumes ok: "tree_ok H t" and n: "nodes t hash = Some n" and "core n' = core n"
  shows "tree_ok H (t\<lparr>nodes := (nodes t)(hash \<mapsto> n')\<rparr>)"
proof -
  let ?t = "t\<lparr>nodes := (nodes t)(hash \<mapsto> n')\<rparr>"
  have s: "same_links t ?t" using assms by (simp add: same_links_def)
  have "marks_ok H t" "tip_ok t" using ok by (simp_all add: tree_ok_def)
  have "dom (nodes ?t) = dom (nodes t)" using n by auto
  then have marks: "marks_ok H ?t" using \<open>marks_ok H t\<close> kids_same [OF s] by (simp add: marks_ok_def)
  have work: "nodes ?t h = Some m' \<Longrightarrow> \<exists>m. nodes t h = Some m \<and> chainwork m' = chainwork m" for h m'
    using same_linksD(5) [OF s, of h m'] coreD [of m'] by blast
  have work': "nodes t h = Some m \<Longrightarrow> \<exists>m'. nodes ?t h = Some m' \<and> chainwork m' = chainwork m" for h m
    using same_linksD(4) [OF s, of h m] coreD by blast
  have best: "best_tip ?t h" if "best_tip t h" for h
  proof -
    from that obtain m where m: "h \<notin> invalid t" "nodes t h = Some m"
      "\<And>h' n'. nodes t h' = Some n' \<Longrightarrow> h' \<notin> invalid t \<Longrightarrow> chainwork n' \<le> chainwork m"
      unfolding best_tip_def by blast
    obtain m' where m': "nodes ?t h = Some m'" "chainwork m' = chainwork m" using work' [OF m(2)] by blast
    have "chainwork k' \<le> chainwork m'" if k': "nodes ?t h' = Some k'" "h' \<notin> invalid ?t" for h' k'
    proof -
      obtain k where "nodes t h' = Some k" "chainwork k' = chainwork k" using work [OF k'(1)] by blast
      with k'(2) m(3) [of h' k] m'(2) show ?thesis by simp
    qed
    then show ?thesis unfolding best_tip_def using m(1) m'(1) by auto
  qed
  have "\<exists>h. nodes t h \<noteq> None \<and> h \<notin> invalid t" if "\<exists>h. nodes ?t h \<noteq> None \<and> h \<notin> invalid ?t"
    using that same_linksD(3) [OF s] by auto
  with \<open>tip_ok t\<close> best same_linksD(3) [OF s, of "tip t"] have "tip_ok ?t" unfolding tip_ok_def by auto
  with tree_ok_parts [OF ok s marks] show ?thesis by blast
qed

lemma tree_ok_notes:
  assumes "tree_ok H t"
  shows "tree_ok H (note_body t hash txs)" "tree_ok H (note_connected t hash)"
    "tree_ok H (apply_tx_meta t hash txs chain_txs)"
  using assms tree_ok_meta [OF assms]
  by (auto simp: note_body_def note_connected_def apply_tx_meta_def Let_def core_def split: option.split)

lemma params_same: "same_links t t' \<Longrightarrow> tree_params t' = tree_params t"
  by (simp add: same_links_def)

lemma insert_header_params:
  "insert_header H t header now = Some (r, t') \<Longrightarrow> tree_params t' = tree_params t"
  by (auto simp: insert_header_def Let_def link_node_def split: option.splits sum.splits if_splits)

lemma tree_reach_ok:
  assumes "genesis_ok H p" "tree_reach H p t"
  shows "tree_ok H t \<and> tree_params t = p"
  using assms(2)
proof (induction rule: tree_reach.induct)
  case new
  then show ?case using tree_new_ok [OF assms(1)] by (simp add: tree_new_def Let_def)
next
  case (insert t header now r t')
  then have "tree_ok H t" "header_hash H header \<noteq> prev_block_hash (genesis_header (tree_params t))" by simp_all
  then obtain r2 t2 where "insert_header H t header now = Some (r2, t2)" "tree_ok H t2"
    using insert_header_ok by blast
  with insert insert_header_params show ?case by fastforce
next
  case (mark t hash iter t')
  then obtain t2 where "mark_invalid iter t hash = Some t2" "tree_ok H t2" "same_links t t2"
    using mark_invalid_ok [of H t hash iter] by blast
  with mark params_same show ?case by fastforce
next
  case (mark_subtree t iter hash t')
  show ?case
  proof (cases "nodes t hash = None")
    case True
    with mark_subtree show ?thesis by (simp add: mark_invalid_subtree_def)
  next
    case False
    then obtain t2 where "mark_invalid iter t hash = Some t2" "tree_ok H t2" "same_links t t2"
      using mark_subtree mark_invalid_ok [of H t hash iter] by blast
    with mark_subtree False params_same show ?thesis by (fastforce simp: mark_invalid_subtree_def)
  qed
next
  case (clear t iter hash t')
  then obtain t2 where "clear_invalid_subtree iter t hash = Some t2" "tree_ok H t2" "same_links t t2"
    using clear_invalid_ok [of H t iter hash] by blast
  with clear params_same show ?case by fastforce
next
  case (restore t iter hash b t')
  then have ok: "tree_ok H t" "set iter = dom (nodes t)" by simp_all
  obtain b2 t2 where "restore_tip iter t hash = Some (b2, t2)" "tree_ok H t2" "same_links t t2"
    "invalid t2 = invalid t" by (rule restore_tip_ok [OF ok])
  with restore params_same show ?case by fastforce
next
  case (body t hash txs)
  then show ?case using tree_ok_notes(1) by (auto simp: note_body_def split: option.split)
next
  case (connected t hash)
  then show ?case using tree_ok_notes(2) by (auto simp: note_connected_def Let_def split: option.split)
next
  case (tx_meta t hash txs chain_txs)
  then show ?case using tree_ok_notes(3) by (auto simp: apply_tx_meta_def split: option.split)
qed

section \<open>Walks to the genesis\<close>

lemma best_chain_loop_walk:
  assumes "tree_shape H t"
  shows "nodes t h = Some n \<Longrightarrow> best_chain_loop H t acc n =
    Some (acc @ map (\<lambda>k. the (walk t k h)) [0..<Suc (unat (node_height n))])"
proof (induction "unat (node_height n)" arbitrary: h n acc)
  case 0
  then show ?case using tree_shapeD(3) [OF assms 0(2)]
    by (subst best_chain_loop.simps) (simp add: unat_eq_0)
next
  case (Suc k)
  then obtain p where p: "nodes t (node_prev n) = Some p" "k = unat (node_height p)"
    using positive_height_linked [OF assms Suc(3)] by (auto simp: node_linked_def)
  have "node_height n \<noteq> 0" using Suc(2) by (metis unat_0 Zero_not_Suc)
  then have "best_chain_loop H t acc n = best_chain_loop H t (acc @ [h]) p"
    using tree_shapeD(3) [OF assms Suc(3)] p(1) by (subst best_chain_loop.simps) (simp add: Let_def)
  also have "\<dots> = Some (acc @ [h] @ map (\<lambda>k. the (walk t k (node_prev n))) [0..<Suc k])"
    using Suc(1) [OF p(2,1)] p(2) by simp
  also have "[h] @ map (\<lambda>k. the (walk t k (node_prev n))) [0..<Suc k] =
      map (\<lambda>k. the (walk t k h)) [0..<Suc (unat (node_height n))]"
    unfolding Suc(2) [symmetric] map_upt_Suc [of _ "Suc k"] using Suc(3) by simp
  finally show ?case .
qed

lemma walk_to_genesis:
  assumes "tree_shape H t" "nodes t h = Some n"
  shows "walk t (unat (node_height n)) h = Some (genesis_hash H t)"
proof -
  obtain s m where s: "walk t (unat (node_height n)) h = Some s" "nodes t s = Some m" "node_height m = 0"
    using walk_height [OF assms, of "unat (node_height n)"] by (auto simp: unat_eq_0)
  with height_zero_genesis [OF assms(1) s(2,3)] show ?thesis by simp
qed

section \<open>Locators\<close>

definition node_height_at :: "header_tree \<Rightarrow> hash32 \<Rightarrow> nat" where
  "node_height_at t h = (case nodes t h of None \<Rightarrow> 0 | Some n \<Rightarrow> unat (node_height n))"

definition locator_step :: "nat \<Rightarrow> nat" where
  "locator_step len = (if len \<le> 10 then 1 else min (2 ^ (len - 10)) (2 ^ 32 - 1))"

lemma locator_step_Suc:
  assumes "unat s = locator_step (len - 1)" "0 < len"
  shows "unat (if len > 10 then saturating_mul_u32 s 2 else s) = locator_step len"
proof (cases "len > 10")
  case True
  show ?thesis
  proof (cases "len = 11")
    case True
    then have "unat s = 1" using assms(1) by (simp add: locator_step_def)
    then have "s = 1" by (simp add: word_unat_eq_iff)
    then show ?thesis using True by (simp add: saturating_mul_u32_def locator_step_def)
  next
    case False
    define k where "k = len - 11"
    have k: "len = k + 11" "0 < k" using True False by (auto simp: k_def)
    have s: "unat s = min (2 ^ k) (2 ^ 32 - 1)" using assms(1) k by (simp add: locator_step_def)
    have goal: "locator_step len = min (2 * 2 ^ k) (2 ^ 32 - 1)" using k by (simp add: locator_step_def)
    show ?thesis
    proof (cases "k < 31")
      case True
      then have "(2 :: nat) ^ k \<le> 2 ^ 30" by (intro power_increasing) auto
      then have "(2 :: nat) ^ k \<le> 1073741824" by simp
      then show ?thesis
        using s goal k by (simp add: saturating_mul_u32_def unat_word_ariths)
    next
      case False
      then have "(2 :: nat) ^ 31 \<le> 2 ^ k" by (intro power_increasing) auto
      then have "(2147483648 :: nat) \<le> 2 ^ k" by simp
      then show ?thesis
        using s goal k by (simp add: saturating_mul_u32_def unsigned_minus_1_eq_mask mask_eq_exp_minus_1 min_def)
    qed
  qed
next
  case False
  then show ?thesis using assms by (simp add: locator_step_def)
qed

lemma locator_loop_walk:
  assumes "tree_shape H t"
  shows "nodes t h = Some n \<Longrightarrow> unat step = locator_step (length acc) \<Longrightarrow>
    length acc \<le> 42 \<or> (length acc = 43 \<and> node_height n = 0) \<Longrightarrow>
    \<exists>hs. locator_loop H t acc n step = Some (acc @ h # hs) \<and>
      last (h # hs) = genesis_hash H t \<and> (\<forall>x \<in> set hs. x \<in> ancestors t h) \<and>
      sorted_wrt (\<lambda>x y. node_height_at t y < node_height_at t x) (h # hs) \<and>
      length acc + length hs < 44"
proof (induction "unat (node_height n)" arbitrary: h n acc step rule: less_induct)
  case less
  have hash: "node_hash H n = h" using tree_shapeD(3) [OF assms less.prems(1)] .
  show ?case
  proof (cases "node_height n = 0")
    case True
    then have "h = genesis_hash H t" using height_zero_genesis [OF assms less.prems(1)] by simp
    then show ?thesis using True hash less.prems(3)
      by (intro exI [of _ "[]"]) (subst locator_loop.simps, auto)
  next
    case False
    let ?k = "saturating_sub_u32 (node_height n) step"
    have step: "1 \<le> unat step" using less.prems(2) by (simp add: locator_step_def)
    have k: "unat ?k = unat (node_height n) - unat step"
      by (simp add: saturating_sub_u32_def word_less_nat_alt unat_sub_if_size)
    have kl: "unat ?k < unat (node_height n)"
    proof -
      have "0 < unat (node_height n)" using False by (simp add: unat_gt_0)
      with step k show ?thesis by linarith
    qed
    obtain s m where s: "walk t (unat (node_height n) - unat ?k) h = Some s" "nodes t s = Some m"
      "unat (node_height m) = unat ?k" "get_ancestor t h ?k = Some (Some m)"
      using get_ancestor_walk [OF assms less.prems(1)] kl less_imp_le by metis
    let ?acc = "acc @ [h]"
    let ?step = "if length ?acc > 10 then saturating_mul_u32 step 2 else step"
    have st: "unat ?step = locator_step (length ?acc)"
      using locator_step_Suc [of step "length ?acc"] less.prems(2) by simp
    have len: "length ?acc \<le> 42 \<or> (length ?acc = 43 \<and> node_height m = 0)"
    proof (cases "length acc = 42")
      case True
      then have "unat step = 4294967295" using less.prems(2) by (simp add: locator_step_def)
      then have "unat ?k = 0" using k unat_u32_lt [of "node_height n"] by linarith
      then show ?thesis using True s(3) by (simp add: unat_eq_0)
    qed (use less.prems(3) False in auto)
    obtain hs where hs: "locator_loop H t ?acc m ?step = Some (?acc @ s # hs)"
      "last (s # hs) = genesis_hash H t" "\<forall>x \<in> set hs. x \<in> ancestors t s"
      "sorted_wrt (\<lambda>x y. node_height_at t y < node_height_at t x) (s # hs)"
      "length ?acc + length hs < 44"
      using less.hyps [OF _ s(2) st len] kl s(3) by auto
    have "locator_loop H t acc n step = Some (acc @ h # s # hs)"
      using False hash s(4) hs(1) by (subst locator_loop.simps) (simp add: Let_def)
    moreover have anc: "x \<in> ancestors t h" if "x = s \<or> x \<in> ancestors t s" for x
      using that s(1) walk_trans [OF s(1)] unfolding ancestors_def by blast
    moreover have "node_height_at t x < node_height_at t h" if "x \<in> set (s # hs)" for x
    proof -
      have "node_height_at t s < node_height_at t h"
        using s(2,3) kl less.prems(1) by (simp add: node_height_at_def)
      with hs(4) that show ?thesis by (auto intro: less_trans)
    qed
    ultimately show ?thesis using hs by (intro exI [of _ "s # hs"]) auto
  qed
qed

section \<open>The median time along a chain\<close>

lemma ancestor_times_take:
  "j \<le> k \<Longrightarrow> ancestor_times_loop t j n = take j (ancestor_times_loop t k n)"
proof (induction j arbitrary: k n)
  case (Suc j)
  then obtain k' where "k = Suc k'" "j \<le> k'" by (cases k) auto
  with Suc.IH show ?case by (simp split: option.split)
qed simp

lemma median_take: "rules_median_time_past (take 11 ts) = rules_median_time_past ts"
  by (simp add: rules_median_time_past_def MEDIAN_TIME_SPAN_def min.commute)

lemma median_child:
  assumes "tree_ok H t" "nodes t c = Some n" "c \<noteq> genesis_hash H t"
  obtains p where "nodes t (node_prev n) = Some p"
    "rules_median_time_past (ancestor_times t p) \<le> rules_median_time_past (ancestor_times t n)"
proof -
  have "rules_ok H t" using assms(1) by (simp add: tree_ok_def)
  with assms(2,3) obtain p where p: "nodes t (node_prev n) = Some p"
    "rules_median_time_past (ancestor_times t p) < hdr_time (node_header n)"
    unfolding rules_ok_def by blast
  have n: "ancestor_times t n = take 11 (hdr_time (node_header n) # ancestor_times t p)"
    using p(1) ancestor_times_take [of 10 11 t p]
    by (simp add: ancestor_times_def MEDIAN_TIME_SPAN_def numeral_eq_Suc)
  have "ancestor_times t p \<noteq> []" by (simp add: ancestor_times_def MEDIAN_TIME_SPAN_def numeral_eq_Suc)
  then have "rules_median_time_past (ancestor_times t p) \<le>
      rules_median_time_past (hdr_time (node_header n) # ancestor_times t p)" using median_mono [OF _ p(2)] by blast
  then show ?thesis using that [OF p(1)] by (simp only: n median_take)
qed

section \<open>A tree of two headers\<close>

text \<open>Under the digest that keeps its first bytes, a header hashes to its version and the first 28
  bytes of its parent.\<close>

definition sample_params :: params where
  "sample_params = mainnet_params\<lparr>pow_limit := U256 0xffffffffffffffff 0xffffffffffffffff 0xffffffffffffffff 0xffffffff\<rparr>"

definition sample_genesis_hash :: hash32 where
  "sample_genesis_hash = 1 # replicate 31 0"

definition sample_child :: block_header where
  "sample_child = \<lparr>hdr_version = 4, prev_block_hash = sample_genesis_hash, hdr_merkle_root = hash_zero,
     hdr_time = 1231007105, hdr_bits = 0x1d00ffff, hdr_nonce = 0\<rparr>"

definition sample_child_hash :: hash32 where
  "sample_child_hash = [4, 0, 0, 0, 1] @ replicate 27 0"

definition sample_node :: header_node where
  "sample_node = \<lparr>node_header = sample_child, node_height = 1,
     chainwork = u256_wrapping_add (work_from_compact 0x1d00ffff) (work_from_compact 0x1d00ffff),
     n_tx = 0, n_chain_tx = 0, skip_link = Some sample_genesis_hash\<rparr>"

definition sample_tree :: header_tree where
  "sample_tree = (link_node (tree_new toy_hashes sample_params) sample_child_hash sample_node)
     \<lparr>tip := sample_child_hash\<rparr>"

lemma toy_header_hash:
  "length (prev_block_hash h) = 32 \<Longrightarrow>
   header_hash toy_hashes h = u32_le (hdr_version h) @ take 28 (prev_block_hash h)"
  by (simp add: header_hash_def sha256d_def toy_hashes_def toy_digest_def header_encode_def header_write_def)

lemma sample_hashes:
  "header_hash toy_hashes MAINNET_GENESIS = sample_genesis_hash"
  "header_hash toy_hashes sample_child = sample_child_hash"
proof -
  have "header_hash toy_hashes MAINNET_GENESIS = u32_le 1 @ take 28 hash_zero"
    by (subst toy_header_hash) (simp_all add: MAINNET_GENESIS_def hash_zero_def)
  also have "\<dots> = sample_genesis_hash" by code_simp
  finally show "header_hash toy_hashes MAINNET_GENESIS = sample_genesis_hash" .
  have "header_hash toy_hashes sample_child = u32_le 4 @ take 28 sample_genesis_hash"
    by (subst toy_header_hash) (simp_all add: sample_child_def sample_genesis_hash_def)
  also have "\<dots> = sample_child_hash" by code_simp
  finally show "header_hash toy_hashes sample_child = sample_child_hash" .
qed

lemma sample_params_sel:
  "genesis_header sample_params = MAINNET_GENESIS" "enforce_bip94 sample_params = False"
  "allow_min_difficulty_blocks sample_params = False" "pow_target_timespan sample_params = 1209600"
  "pow_target_spacing sample_params = 600" "bip34_height sample_params = 227931"
  "bip66_height sample_params = 363725" "bip65_height sample_params = 388381"
  "pow_limit sample_params = U256 0xffffffffffffffff 0xffffffffffffffff 0xffffffffffffffff 0xffffffff"
  by (simp_all add: sample_params_def mainnet_params_def)

lemma sample_work: "u256_val (work_from_compact 0x1d00ffff) = 4295032833"
  by (subst work_from_compact_val) (simp_all add: expand_genesis)

lemma sample_genesis_not_zero: "sample_genesis_hash \<noteq> hash_zero" "sample_child_hash \<noteq> hash_zero"
    "sample_child_hash \<noteq> sample_genesis_hash"
  by (simp_all add: sample_genesis_hash_def sample_child_hash_def hash_zero_def numeral_eq_Suc)

lemma sample_genesis_ok: "genesis_ok toy_hashes sample_params"
  by (simp add: genesis_ok_def sample_params_sel sample_hashes sample_work)
    (simp add: MAINNET_GENESIS_def sample_work sample_genesis_not_zero)

lemma sample_interval: "difficulty_adjustment_interval sample_params = 2016"
  by (simp add: difficulty_adjustment_interval_def sample_params_sel)

lemma le_val_zeros: "le_val (replicate n 0) = 0"
  by (induction n) simp_all

lemma sample_pow: "check_proof_of_work sample_child_hash 0x1d00ffff sample_params = Inr ()"
proof -
  have "\<not> et_value (expand 0x1d00ffff) > pow_limit sample_params"
    by (simp add: u256_less_val expand_genesis sample_params_sel)
  moreover have "le_val sample_child_hash = 4294967300"
    by (simp add: sample_child_hash_def le_val_append le_val_zeros)
  then have "\<not> from_le_bytes sample_child_hash > et_value (expand 0x1d00ffff)"
    by (simp add: u256_less_val expand_genesis from_le_bytes_val sample_child_hash_def)
  ultimately show ?thesis
    by (simp add: check_proof_of_work_def Let_def expand_genesis(1,2)) (simp add: expand_genesis)
qed

lemma sample_genesis_tree:
  "nodes (tree_new toy_hashes sample_params) = Map.empty(sample_genesis_hash \<mapsto>
     \<lparr>node_header = MAINNET_GENESIS, node_height = 0, chainwork = work_from_compact 0x1d00ffff,
       n_tx = 1, n_chain_tx = 1, skip_link = None\<rparr>)"
  "tip (tree_new toy_hashes sample_params) = sample_genesis_hash"
  "invalid (tree_new toy_hashes sample_params) = {}"
  "tree_params (tree_new toy_hashes sample_params) = sample_params"
  by (simp_all add: tree_new_def sample_params_sel sample_hashes) (simp_all add: MAINNET_GENESIS_def)

lemma sample_checks:
  "header_checks toy_hashes (tree_new toy_hashes sample_params) sample_child 0xffffffff =
   Inr (\<lparr>node_header = MAINNET_GENESIS, node_height = 0, chainwork = work_from_compact 0x1d00ffff,
       n_tx = 1, n_chain_tx = 1, skip_link = None\<rparr>, chainwork sample_node, 1)"
proof -
  let ?n = "\<lparr>node_header = MAINNET_GENESIS, node_height = 0, chainwork = work_from_compact 0x1d00ffff,
       n_tx = 1, n_chain_tx = 1, skip_link = None\<rparr>"
  have c: "prev_block_hash sample_child = sample_genesis_hash" "hdr_bits sample_child = 0x1d00ffff"
    "hdr_time sample_child = 1231007105" "hdr_version sample_child = 4"
    by (simp_all add: sample_child_def)
  have g: "prev_block_hash MAINNET_GENESIS = hash_zero" "hdr_bits MAINNET_GENESIS = 0x1d00ffff"
    "hdr_time MAINNET_GENESIS = 1231006505" by (simp_all add: MAINNET_GENESIS_def)
  have times: "ancestor_times (tree_new toy_hashes sample_params) ?n = [1231006505]"
    by (simp add: ancestor_times_def MEDIAN_TIME_SPAN_def numeral_eq_Suc sample_genesis_tree g
        sample_genesis_not_zero [symmetric])
  have med: "rules_median_time_past [1231006505] = 1231006505"
    by (simp add: rules_median_time_past_def MEDIAN_TIME_SPAN_def)
  have req: "required_bits 0 MAINNET_GENESIS t sample_params anc = Inr 0x1d00ffff" for t anc
    by (simp add: required_bits_def sample_interval sample_params_sel g)
  have time: "check_block_time 1231007105 1231006505 0xffffffff None = Inr ()"
    by (simp add: check_block_time_def MAX_FUTURE_BLOCK_TIME_def)
  have ver: "\<not> version_too_low sample_params 4 1"
    by (simp add: version_too_low_def sample_params_sel)
  have work: "work_checked_add (work_from_compact 0x1d00ffff) (work_from_compact 0x1d00ffff) = Some (chainwork sample_node)"
    by (simp add: work_checked_add_def u256_checked_add_val sample_work sample_node_def)
  show ?thesis
    unfolding header_checks_def Let_def
    by (simp add: c sample_hashes sample_genesis_tree sample_pow map_err_def req times med time ver work
        sample_params_sel)
qed

lemma sample_insert:
  "insert_header toy_hashes (tree_new toy_hashes sample_params) sample_child 0xffffffff =
   Some (Inr (Added 1), sample_tree)"
proof -
  have skip: "get_skip_height 1 = 0" by (simp add: get_skip_height_def)
  have anc: "get_ancestor (tree_new toy_hashes sample_params) sample_genesis_hash 0 =
      Some (nodes (tree_new toy_hashes sample_params) sample_genesis_hash)"
    by (simp add: get_ancestor_def get_ancestor_loop.simps sample_genesis_tree)
  have w: "work_from_compact 0x1d00ffff < chainwork sample_node"
    by (simp add: u256_less_val sample_node_def u256_checked_add_val sample_work)
  have node: "sample_node = \<lparr>node_header = sample_child, node_height = 1, chainwork = chainwork sample_node,
      n_tx = 0, n_chain_tx = 0, skip_link = Some sample_genesis_hash\<rparr>"
    by (simp add: sample_node_def)
  have hash: "node_hash toy_hashes \<lparr>node_header = MAINNET_GENESIS, node_height = 0,
      chainwork = work_from_compact 0x1d00ffff, n_tx = 1, n_chain_tx = 1, skip_link = None\<rparr> = sample_genesis_hash"
    by (simp add: node_hash_def sample_hashes)
  have prev: "prev_block_hash sample_child = sample_genesis_hash" by (simp add: sample_child_def)
  have tip: "tree_tip (link_node (tree_new toy_hashes sample_params) sample_child_hash sample_node) =
      nodes (tree_new toy_hashes sample_params) sample_genesis_hash"
    by (simp add: tree_tip_def link_node_def sample_genesis_tree sample_genesis_not_zero [symmetric])
  show ?thesis
    unfolding insert_header_def Let_def sample_hashes sample_checks
    by (simp add: sample_genesis_tree sample_genesis_not_zero skip prev anc hash flip: node)
      (simp add: tip sample_genesis_tree w sample_tree_def hash flip: node)
qed

lemma sample_reach: "tree_reach toy_hashes sample_params sample_tree"
  by (rule tree_reach.insert [OF tree_reach.new _ sample_insert])
    (simp add: sample_hashes sample_params_sel, simp add: MAINNET_GENESIS_def sample_genesis_not_zero)

lemma sample_tree_nodes:
  "nodes sample_tree sample_child_hash = Some sample_node" "tip sample_tree = sample_child_hash"
  "nodes sample_tree sample_genesis_hash = nodes (tree_new toy_hashes sample_params) sample_genesis_hash"
  "invalid sample_tree = {}" "dom (nodes sample_tree) = {sample_genesis_hash, sample_child_hash}"
  "node_height sample_node = 1" "node_prev sample_node = sample_genesis_hash"
  using sample_genesis_not_zero
  by (auto simp: sample_tree_def link_node_def sample_genesis_tree sample_node_def sample_child_def)

lemma sample_ok: "tree_ok toy_hashes sample_tree" "genesis_hash toy_hashes sample_tree = sample_genesis_hash"
  using tree_reach_ok [OF sample_genesis_ok sample_reach]
  by (auto simp: genesis_hash_def sample_params_sel sample_hashes)

section \<open>Properties\<close>

text \<open>C18: Every tree reached from the genesis by insertions, failure marks and their clearing, tip
  restoration and body bookkeeping is well formed: parents are stored one lower with less work, skip
  pointers point to the ancestor at their height, the children index is exact, the failed set is closed
  under descendants, and every stored header carries valid work, the required bits, a time above the
  median of its ancestors and an allowed version. The hash of an inserted header is assumed not to be
  the genesis header's (all-zero) parent.\<close>

theorem reachable_trees_ok:
  assumes "genesis_ok H p" "tree_reach H p t"
  shows "tree_ok H t"
  using tree_reach_ok [OF assms] by simp

text \<open>Witness of C18: the tree of two headers.\<close>

lemma reachable_trees_ok_witness: "tree_ok toy_hashes sample_tree"
  by (rule reachable_trees_ok [OF sample_genesis_ok sample_reach])

text \<open>C19: The tip of a reachable tree is a most-work valid header: while any stored header is not marked
  failed, the tip is one that is not, and no valid header has more work.\<close>

theorem tip_is_most_work:
  assumes "genesis_ok H p" "tree_reach H p t" "nodes t h = Some n" "\<not> is_failed t h"
  shows "\<exists>tn. tree_tip t = Some tn \<and> \<not> is_failed t (tip t) \<and> chainwork n \<le> chainwork tn"
  using tree_reach_ok [OF assms(1,2)] assms(3,4)
  by (fastforce simp: tree_ok_def tip_ok_def best_tip_def is_failed_def tree_tip_def)

text \<open>Witness of C19: the genesis has no more work than the tip.\<close>

lemma tip_is_most_work_witness:
  "\<exists>g tn. nodes sample_tree sample_genesis_hash = Some g \<and> tree_tip sample_tree = Some tn \<and>
     chainwork g \<le> chainwork tn"
proof -
  obtain g where g: "nodes sample_tree sample_genesis_hash = Some g"
    by (simp add: sample_tree_nodes sample_genesis_tree)
  with tip_is_most_work [OF sample_genesis_ok sample_reach g]
  show ?thesis by (auto simp: is_failed_def sample_tree_nodes)
qed

text \<open>C22: On a reachable tree every operation returns: insertion, marking, clearing and restoring, the
  ancestor query from any hash to any height, the locator and the best chain. None of their loops runs
  forever and \<open>tip\<close> never meets its \<open>unreachable!\<close>.\<close>

theorem tree_operations_return:
  assumes "genesis_ok H p" "tree_reach H p t" "set iter = dom (nodes t)"
    and "header_hash H header \<noteq> prev_block_hash (genesis_header p)" "nodes t known \<noteq> None"
  shows "insert_header H t header now \<noteq> None \<and> mark_invalid iter t known \<noteq> None \<and>
    clear_invalid_subtree iter t hash \<noteq> None \<and> restore_tip iter t hash \<noteq> None \<and>
    get_ancestor t hash height \<noteq> None \<and> locator H t \<noteq> None \<and> best_chain H t \<noteq> None"
proof -
  have ok: "tree_ok H t" "tree_params t = p" using tree_reach_ok [OF assms(1,2)] by auto
  then have shape: "tree_shape H t" "tip_ok t" by (simp_all add: tree_ok_def)
  obtain tn where tn: "nodes t (tip t) = Some tn" using shape(2) by (auto simp: tip_ok_def)
  obtain r t' where "insert_header H t header now = Some (r, t')"
    using insert_header_ok [OF ok(1)] ok(2) assms(4) by metis
  moreover obtain t1 where "mark_invalid iter t known = Some t1"
    using mark_invalid_ok [OF ok(1) assms(5,3)] by metis
  moreover obtain t2 where "clear_invalid_subtree iter t hash = Some t2"
    using clear_invalid_ok [OF ok(1) assms(3)] by metis
  moreover obtain b t3 where "restore_tip iter t hash = Some (b, t3)"
    using restore_tip_ok [OF ok(1) assms(3)] by metis
  moreover have "get_ancestor t hash height \<noteq> None"
  proof (cases "nodes t hash")
    case (Some n)
    then show ?thesis
      using get_ancestor_walk [OF shape(1) Some, of height] get_ancestor_above [OF Some, of height]
      by (cases "unat height \<le> unat (node_height n)") (auto simp: word_le_nat_alt)
  qed (simp add: get_ancestor_def)
  moreover have "locator H t \<noteq> None"
    using locator_loop_walk [OF shape(1) tn, of 1 "[]"] tn
    by (auto simp: locator_def tree_tip_def locator_step_def)
  moreover have "best_chain H t \<noteq> None"
    using best_chain_loop_walk [OF shape(1) tn] tn by (simp add: best_chain_def tree_tip_def)
  ultimately show ?thesis by simp
qed

text \<open>Witness of C22: on the tree of two headers, the child inserted again.\<close>

lemma tree_operations_return_witness:
  "insert_header toy_hashes sample_tree sample_child 0 \<noteq> None \<and> locator toy_hashes sample_tree \<noteq> None"
  using tree_operations_return [OF sample_genesis_ok sample_reach,
      of "[sample_genesis_hash, sample_child_hash]" sample_child sample_child_hash 0]
  by (simp add: sample_tree_nodes sample_hashes sample_params_sel MAINNET_GENESIS_def
      sample_genesis_not_zero)

text \<open>C21: The skip-list descent of \<open>get_ancestor\<close> finds what the walk along parent links finds: the
  node so many parents up, whose height is the one asked for.\<close>

theorem get_ancestor_is_walk:
  assumes "genesis_ok H p" "tree_reach H p t" "nodes t h = Some n" "height \<le> node_height n"
  shows "\<exists>s m. walk t (unat (node_height n) - unat height) h = Some s \<and> nodes t s = Some m \<and>
    node_height m = height \<and> get_ancestor t h height = Some (Some m)"
proof -
  have "tree_shape H t" using tree_reach_ok [OF assms(1,2)] by (simp add: tree_ok_def)
  from get_ancestor_walk [OF this assms(3)] assms(4) show ?thesis
    by (metis word_le_nat_alt word_unat_eq_iff)
qed

text \<open>Witness of C21: the ancestor of the child at height 0.\<close>

lemma get_ancestor_is_walk_witness:
  "\<exists>m. get_ancestor sample_tree sample_child_hash 0 = Some (Some m) \<and> node_height m = 0"
  using get_ancestor_is_walk [OF sample_genesis_ok sample_reach sample_tree_nodes(1), of 0] by auto

text \<open>C20: Marking a block failed marks exactly its stored descendants, and clearing the marks of a block
  clears its descendants and its ancestors and nothing else.\<close>

theorem failure_marks_exact:
  assumes "genesis_ok H p" "tree_reach H p t" "nodes t h \<noteq> None" "set iter = dom (nodes t)"
  shows "\<exists>t1 t2. mark_invalid iter t h = Some t1 \<and> clear_invalid_subtree iter t h = Some t2 \<and>
    (\<forall>x. is_failed t1 x \<longleftrightarrow> is_failed t x \<or> x \<in> descendants H t h) \<and>
    (\<forall>x. is_failed t2 x \<longleftrightarrow> is_failed t x \<and> x \<notin> descendants H t h \<and> x \<notin> ancestors t h)"
proof -
  have ok: "tree_ok H t" using tree_reach_ok [OF assms(1,2)] by simp
  obtain t1 where t1: "mark_invalid iter t h = Some t1" "invalid t1 = invalid t \<union> descendants H t h"
    using mark_invalid_ok [OF ok assms(3,4)] by metis
  obtain t2 where t2: "clear_invalid_subtree iter t h = Some t2"
    "invalid t2 = invalid t - descendants H t h - ancestors t h"
    using clear_invalid_ok [OF ok assms(4), of h] assms(3) by metis
  show ?thesis
    using t1 t2 by (intro exI [of _ t1] exI [of _ t2]) (simp add: is_failed_def)
qed

text \<open>Witness of C20: marking the genesis fails the child too.\<close>

lemma failure_marks_exact_witness:
  "\<exists>t1. mark_invalid [sample_genesis_hash, sample_child_hash] sample_tree sample_genesis_hash = Some t1 \<and>
     is_failed t1 sample_child_hash"
proof -
  have "sample_child_hash \<in> kids toy_hashes sample_tree sample_genesis_hash"
    using sample_genesis_not_zero(3) by (simp add: kids_def sample_ok(2) sample_tree_nodes)
  then have "sample_child_hash \<in> descendants toy_hashes sample_tree sample_genesis_hash"
    unfolding descendants_unfold [of toy_hashes sample_tree sample_genesis_hash]
    using descendants_self by blast
  with failure_marks_exact [OF sample_genesis_ok sample_reach,
      of sample_genesis_hash "[sample_genesis_hash, sample_child_hash]"]
  show ?thesis by (auto simp: sample_tree_nodes sample_genesis_tree)
qed

text \<open>C23: The median time past never falls along a chain: a stored child's is at least its parent's.\<close>

theorem median_time_monotone:
  assumes "genesis_ok H p" "tree_reach H p t" "nodes t c = Some n" "node_prev n = h" "nodes t h = Some m"
  shows "\<exists>a b. tree_median_time_past t h = Some a \<and> tree_median_time_past t c = Some b \<and> a \<le> b"
proof -
  have ok: "tree_ok H t" "tree_shape H t" using tree_reach_ok [OF assms(1,2)] by (auto simp: tree_ok_def)
  have "c \<noteq> genesis_hash H t"
  proof
    assume "c = genesis_hash H t"
    with genesis_node [OF ok(2)] assms(3) have "node_header n = genesis_header (tree_params t)"
      by (metis option.inject)
    with tree_shapeD(2) [OF ok(2)] assms(4,5) show False by simp
  qed
  from median_child [OF ok(1) assms(3) this] assms(3-5) show ?thesis
    by (auto simp: tree_median_time_past_def)
qed

text \<open>Witness of C23: the genesis and its child.\<close>

lemma median_time_monotone_witness:
  "\<exists>a b. tree_median_time_past sample_tree sample_genesis_hash = Some a \<and>
     tree_median_time_past sample_tree sample_child_hash = Some b \<and> a \<le> b"
proof -
  obtain g where "nodes sample_tree sample_genesis_hash = Some g"
    by (simp add: sample_tree_nodes sample_genesis_tree)
  with median_time_monotone [OF sample_genesis_ok sample_reach sample_tree_nodes(1,7)] show ?thesis by blast
qed

text \<open>The locator of a reachable tree starts at the tip, ends at the genesis, lists ancestors of the
  tip in strictly falling height, and has at most 44 entries, whatever the length of the chain.\<close>

theorem locator_is_short:
  assumes "genesis_ok H p" "tree_reach H p t"
  shows "\<exists>hs. locator H t = Some (tip t # hs) \<and> last (tip t # hs) = genesis_hash H t \<and>
    (\<forall>x \<in> set hs. x \<in> ancestors t (tip t)) \<and>
    sorted_wrt (\<lambda>x y. node_height_at t y < node_height_at t x) (tip t # hs) \<and>
    length (tip t # hs) \<le> 44"
proof -
  have ok: "tree_shape H t" "tip_ok t" using tree_reach_ok [OF assms] by (auto simp: tree_ok_def)
  obtain tn where tn: "nodes t (tip t) = Some tn" using ok(2) by (auto simp: tip_ok_def)
  from locator_loop_walk [OF ok(1) tn, of 1 "[]"] tn show ?thesis
    by (auto simp: locator_def tree_tip_def locator_step_def)
qed

text \<open>An instance: the locator of the tree of two headers.\<close>

lemma locator_is_short_witness: "\<exists>hs. locator toy_hashes sample_tree = Some (sample_child_hash # hs)"
  using locator_is_short [OF sample_genesis_ok sample_reach] by (auto simp: sample_tree_nodes)

end
