(* ===== verification/Sighash.thy ===== *)
theory Sighash
  imports Interp_Verify Params
begin

text \<open>
  The transaction-dependent half of script verification, \<open>sigchecker.rs\<close> and \<open>secp_fast.rs\<close>:
  the digests a signature commits to (legacy, BIP143, BIP341), the caches they share, the signature
  checker the interpreter runs against, and \<open>check_input_scripts\<close>. libsecp256k1 is not in the
  repository; the record \<open>secp\<close> holds the functions the code calls. The cache of parsed public keys
  returns what the parser returned, and is left out, as are the timing counters.
\<close>

section \<open>Constants\<close>

definition SIGHASH_DEFAULT :: u8 where "SIGHASH_DEFAULT = 0"
definition SIGHASH_NONE :: u8 where "SIGHASH_NONE = 2"
definition SIGHASH_OUTPUT_MASK :: u8 where "SIGHASH_OUTPUT_MASK = 3"
definition SIGHASH_INPUT_MASK :: u8 where "SIGHASH_INPUT_MASK = 0x80"
definition LOCKTIME_THRESHOLD :: u32 where "LOCKTIME_THRESHOLD = 500000000"
definition SEQUENCE_FINAL :: u32 where "SEQUENCE_FINAL = 0xffffffff"
definition SEQUENCE_LOCKTIME_TYPE_FLAG :: u32 where "SEQUENCE_LOCKTIME_TYPE_FLAG = 0x400000"
definition SEQUENCE_LOCKTIME_MASK :: u32 where "SEQUENCE_LOCKTIME_MASK = 0xffff"
definition SEQUENCE_LOCKS_MIN_VERSION :: u32 where "SEQUENCE_LOCKS_MIN_VERSION = 2"

section \<open>libsecp256k1\<close>

record ('pk, 'sig, 'xpk, 'ssig) secp =
  pubkey_compressed :: "bytes \<Rightarrow> 'pk option"
  pubkey_uncompressed :: "bytes \<Rightarrow> 'pk option"
  sig_from_der_lax :: "bytes \<Rightarrow> 'sig option"
  normalize_s :: "'sig \<Rightarrow> 'sig"
  ecdsa_verify :: "'sig \<Rightarrow> bytes \<Rightarrow> 'pk \<Rightarrow> bool"
  xonly_from_bytes :: "bytes \<Rightarrow> 'xpk option"
  schnorr_from_bytes :: "bytes \<Rightarrow> 'ssig"
  schnorr_verify :: "'ssig \<Rightarrow> bytes \<Rightarrow> 'xpk \<Rightarrow> bool"
  xonly_add_tweak :: "'xpk \<Rightarrow> bytes \<Rightarrow> ('xpk \<times> bool) option"
  xonly_serialize :: "'xpk \<Rightarrow> bytes"

definition parse_public_key :: "('pk, 'sig, 'xpk, 'ssig) secp \<Rightarrow> bytes \<Rightarrow> 'pk option" where
  "parse_public_key S bs =
     (if length bs = 33 then pubkey_compressed S bs
      else if length bs = 65 then pubkey_uncompressed S bs
      else None)"

definition parse_xonly_public_key :: "('pk, 'sig, 'xpk, 'ssig) secp \<Rightarrow> bytes \<Rightarrow> 'xpk option" where
  "parse_xonly_public_key S bs = (if length bs = 32 then xonly_from_bytes S bs else None)"

definition parse_schnorr_signature :: "('pk, 'sig, 'xpk, 'ssig) secp \<Rightarrow> bytes \<Rightarrow> 'ssig option" where
  "parse_schnorr_signature S bs = (if length bs = 64 then Some (schnorr_from_bytes S bs) else None)"

section \<open>Precomputed hashes\<close>

text \<open>\<open>tagged_hasher\<close> returns a hasher; here, the bytes it has been given.\<close>

definition tagged_hasher :: "hash_fns \<Rightarrow> string \<Rightarrow> bytes" where
  "tagged_hasher H tag = (let tag_hash = sha256 H (str_bytes tag) in tag_hash @ tag_hash)"

definition outpoint_bytes :: "out_point \<Rightarrow> bytes" where
  "outpoint_bytes p = op_txid p @ u32_le (op_vout p)"

definition prevouts_single_hash :: "hash_fns \<Rightarrow> transaction \<Rightarrow> hash32" where
  "prevouts_single_hash H tx = sha256 H (concat (map (\<lambda>i. outpoint_bytes (previous_output i)) (inputs tx)))"

definition sequences_single_hash :: "hash_fns \<Rightarrow> transaction \<Rightarrow> hash32" where
  "sequences_single_hash H tx = sha256 H (concat (map (\<lambda>i. u32_le (sequence i)) (inputs tx)))"

definition outputs_single_hash :: "hash_fns \<Rightarrow> transaction \<Rightarrow> hash32" where
  "outputs_single_hash H tx = sha256 H (concat (map write_txout (outputs tx)))"

definition spent_amounts_single_hash :: "hash_fns \<Rightarrow> tx_out list \<Rightarrow> hash32" where
  "spent_amounts_single_hash H spent = sha256 H (concat (map (\<lambda>out. i64_le (out_value out)) spent))"

definition spent_scripts_single_hash :: "hash_fns \<Rightarrow> tx_out list \<Rightarrow> hash32" where
  "spent_scripts_single_hash H spent =
     sha256 H (concat (map (\<lambda>out. write_var_bytes (script_pubkey out)) spent))"

record precomputed =
  spent_outputs :: "tx_out list"
  spent_outputs_ready :: bool
  bip143_segwit_ready :: bool
  bip341_taproot_ready :: bool
  pc_prevouts_single :: hash32
  pc_sequences_single :: hash32
  pc_outputs_single :: hash32
  pc_spent_amounts_single :: hash32
  pc_spent_scripts_single :: hash32
  pc_hash_prevouts :: hash32
  pc_hash_sequence :: hash32
  pc_hash_outputs :: hash32

definition precomputed_default :: precomputed where
  "precomputed_default = \<lparr>spent_outputs = [], spent_outputs_ready = False, bip143_segwit_ready = False,
     bip341_taproot_ready = False, pc_prevouts_single = hash_zero, pc_sequences_single = hash_zero,
     pc_outputs_single = hash_zero, pc_spent_amounts_single = hash_zero,
     pc_spent_scripts_single = hash_zero, pc_hash_prevouts = hash_zero, pc_hash_sequence = hash_zero,
     pc_hash_outputs = hash_zero\<rparr>"

text \<open>The scan for the features the witnesses use; it stops once both are found.\<close>

fun feature_scan :: "precomputed \<Rightarrow> (nat \<times> tx_in) list \<Rightarrow> bool \<Rightarrow> bool \<Rightarrow> bool \<times> bool" where
  "feature_scan this [] uses_bip143 uses_bip341 = (uses_bip143, uses_bip341)"
| "feature_scan this ((inpos, input) # rest) uses_bip143 uses_bip341 =
     (if uses_bip143 \<and> uses_bip341 then (uses_bip143, uses_bip341)
      else if witness input = [] then feature_scan this rest uses_bip143 uses_bip341
      else
        let is_taproot_spk = spent_outputs_ready this \<and>
              length (script_pubkey (spent_outputs this ! inpos)) = 2 + 32 \<and>
              script_pubkey (spent_outputs this ! inpos) ! 0 = OP_1
        in if is_taproot_spk then feature_scan this rest uses_bip143 True
           else feature_scan this rest True uses_bip341)"

definition precomputed_new :: "hash_fns \<Rightarrow> transaction \<Rightarrow> tx_out list option \<Rightarrow> bool \<Rightarrow> precomputed" where
  "precomputed_new H tx spent force =
     (let this = precomputed_default;
          this = (case spent of None \<Rightarrow> this
            | Some outs \<Rightarrow> this\<lparr>spent_outputs := outs, spent_outputs_ready := outs \<noteq> []\<rparr>);
          (uses_bip143, uses_bip341) = feature_scan this (enumerate 0 (inputs tx)) force force;
          this = (if uses_bip143 \<or> uses_bip341
            then this\<lparr>pc_prevouts_single := prevouts_single_hash H tx,
                      pc_sequences_single := sequences_single_hash H tx,
                      pc_outputs_single := outputs_single_hash H tx\<rparr>
            else this);
          this = (if uses_bip143
            then this\<lparr>pc_hash_prevouts := sha256 H (pc_prevouts_single this),
                      pc_hash_sequence := sha256 H (pc_sequences_single this),
                      pc_hash_outputs := sha256 H (pc_outputs_single this),
                      bip143_segwit_ready := True\<rparr>
            else this)
      in if uses_bip341 \<and> spent_outputs_ready this
         then this\<lparr>pc_spent_amounts_single := spent_amounts_single_hash H (spent_outputs this),
                   pc_spent_scripts_single := spent_scripts_single_hash H (spent_outputs this),
                   bip341_taproot_ready := True\<rparr>
         else this)"

section \<open>Legacy digest\<close>

text \<open>The two passes of \<open>write_script_code\<close>. The second returns the segments written, where the
  last one starts, and where the walk ended.\<close>

function count_separators :: "bytes \<Rightarrow> nat \<Rightarrow> nat" where
  "count_separators script_code pc =
     (case get_op script_code pc of
        (None, _) \<Rightarrow> 0
      | (Some (opcode, _), pc) \<Rightarrow>
          (if opcode = OP_CODESEPARATOR then 1 else 0) + count_separators script_code pc)"
  by auto
termination
  by (relation "measure (\<lambda>(s, pc). length s - pc)")
    (auto dest!: sym [of _ "get_op _ _"] get_op_progress)

declare count_separators.simps [simp del]

function script_segments :: "bytes \<Rightarrow> nat \<Rightarrow> nat \<Rightarrow> bytes \<Rightarrow> bytes \<times> nat \<times> nat" where
  "script_segments script_code pc seg_start out =
     (case get_op script_code pc of
        (None, pc) \<Rightarrow> (out, seg_start, pc)
      | (Some (opcode, _), pc) \<Rightarrow>
          if opcode = OP_CODESEPARATOR
          then script_segments script_code pc pc
                 (out @ take (pc - 1 - seg_start) (drop seg_start script_code))
          else script_segments script_code pc seg_start out)"
  by auto
termination
  by (relation "measure (\<lambda>(s, pc, seg, out). length s - pc)")
    (auto dest!: sym [of _ "get_op _ _"] get_op_progress)

declare script_segments.simps [simp del]

definition write_script_code :: "bytes \<Rightarrow> bytes" where
  "write_script_code script_code =
     write_compact_size (word_of_nat (length script_code - count_separators script_code 0)) @
     (case script_segments script_code 0 0 [] of
        (out, seg_start, pc) \<Rightarrow>
          if seg_start \<noteq> length script_code then out @ take (pc - seg_start) (drop seg_start script_code)
          else out)"

definition hash_type_single :: "u32 \<Rightarrow> bool" where
  "hash_type_single hash_type \<longleftrightarrow> hash_type AND 0x1f = ucast SIGHASH_SINGLE"

definition hash_type_none :: "u32 \<Rightarrow> bool" where
  "hash_type_none hash_type \<longleftrightarrow> hash_type AND 0x1f = ucast SIGHASH_NONE"

definition hash_type_acp :: "u32 \<Rightarrow> bool" where
  "hash_type_acp hash_type \<longleftrightarrow> hash_type AND ucast SIGHASH_ANYONECANPAY \<noteq> 0"

definition legacy_input :: "transaction \<Rightarrow> script \<Rightarrow> nat \<Rightarrow> i32 \<Rightarrow> nat \<Rightarrow> bytes" where
  "legacy_input tx script_code n_in hash_type idx =
     (let input = inputs tx ! idx in
      outpoint_bytes (previous_output input) @
      (if idx \<noteq> n_in then write_compact_size 0 else write_script_code script_code) @
      (if idx \<noteq> n_in \<and> (hash_type_single hash_type \<or> hash_type_none hash_type) then u32_le 0
       else u32_le (sequence input)))"

definition legacy_output :: "transaction \<Rightarrow> nat \<Rightarrow> i32 \<Rightarrow> nat \<Rightarrow> bytes" where
  "legacy_output tx n_in hash_type n_output =
     (if hash_type_single hash_type \<and> n_output \<noteq> n_in then i64_le (- 1) @ write_compact_size 0
      else write_txout (outputs tx ! n_output))"

definition write_legacy_sighash_preimage :: "transaction \<Rightarrow> script \<Rightarrow> nat \<Rightarrow> i32 \<Rightarrow> bytes" where
  "write_legacy_sighash_preimage tx script_code n_in hash_type =
     (let anyone_can_pay = hash_type_acp hash_type;
          hash_single = hash_type_single hash_type;
          hash_none = hash_type_none hash_type;
          n_inputs = (if anyone_can_pay then 1 else length (inputs tx));
          n_outputs = (if hash_none then 0 else if hash_single then n_in + 1 else length (outputs tx))
      in u32_le (tx_version tx) @
         write_compact_size (word_of_nat n_inputs) @
         concat (map (\<lambda>n_input. legacy_input tx script_code n_in hash_type
           (if anyone_can_pay then n_in else n_input)) [0..<n_inputs]) @
         write_compact_size (word_of_nat n_outputs) @
         concat (map (legacy_output tx n_in hash_type) [0..<n_outputs]) @
         u32_le (lock_time tx))"

section \<open>Signature hash: legacy and BIP143\<close>

text \<open>The three hashes of BIP143, from the cache when it is ready.\<close>

definition bip143_hashes :: "hash_fns \<Rightarrow> transaction \<Rightarrow> nat \<Rightarrow> i32 \<Rightarrow> precomputed option \<Rightarrow>
    hash32 \<times> hash32 \<times> hash32" where
  "bip143_hashes H tx n_in hash_type cache =
     (let cache = (case cache of None \<Rightarrow> None
            | Some c \<Rightarrow> if bip143_segwit_ready c then Some c else None);
          acp = hash_type_acp hash_type;
          single = hash_type_single hash_type;
          hnone = hash_type_none hash_type;
          hash_prevouts = (if \<not> acp then
              (case cache of Some c \<Rightarrow> pc_hash_prevouts c
               | None \<Rightarrow> sha256 H (prevouts_single_hash H tx))
            else hash_zero);
          hash_sequence = (if \<not> acp \<and> \<not> single \<and> \<not> hnone then
              (case cache of Some c \<Rightarrow> pc_hash_sequence c
               | None \<Rightarrow> sha256 H (sequences_single_hash H tx))
            else hash_zero);
          hash_outputs = (if \<not> single \<and> \<not> hnone then
              (case cache of Some c \<Rightarrow> pc_hash_outputs c
               | None \<Rightarrow> sha256 H (outputs_single_hash H tx))
            else if single \<and> n_in < length (outputs tx) then sha256d H (write_txout (outputs tx ! n_in))
            else hash_zero)
      in (hash_prevouts, hash_sequence, hash_outputs))"

definition bip143_preimage :: "hash_fns \<Rightarrow> script \<Rightarrow> transaction \<Rightarrow> nat \<Rightarrow> i32 \<Rightarrow> i64 \<Rightarrow>
    precomputed option \<Rightarrow> bytes" where
  "bip143_preimage H script_code tx n_in hash_type amount cache =
     (case bip143_hashes H tx n_in hash_type cache of
        (hash_prevouts, hash_sequence, hash_outputs) \<Rightarrow>
          u32_le (tx_version tx) @ hash_prevouts @ hash_sequence @
          outpoint_bytes (previous_output (inputs tx ! n_in)) @
          write_var_bytes script_code @ i64_le amount @
          u32_le (sequence (inputs tx ! n_in)) @
          hash_outputs @ u32_le (lock_time tx) @ u32_le hash_type)"

definition signature_hash :: "hash_fns \<Rightarrow> script \<Rightarrow> transaction \<Rightarrow> nat \<Rightarrow> i32 \<Rightarrow> i64 \<Rightarrow> sig_version \<Rightarrow>
    precomputed option \<Rightarrow> hash32" where
  "signature_hash H script_code tx n_in hash_type amount sigversion cache =
     (if sigversion = WitnessV0 then
        sha256d H (bip143_preimage H script_code tx n_in hash_type amount cache)
      else if hash_type_single hash_type \<and> n_in \<ge> length (outputs tx) then 1 # replicate 31 0
      else sha256d H (write_legacy_sighash_preimage tx script_code n_in hash_type @ u32_le hash_type))"

section \<open>Signature hash: BIP341\<close>

text \<open>The message fed to the tagged hasher, and the execution data with the memoised hash of the
  single output. The code reaches it for taproot and tapscript only, and panics otherwise.\<close>

definition schnorr_message :: "hash_fns \<Rightarrow> transaction \<Rightarrow> nat \<Rightarrow> u8 \<Rightarrow> sig_version \<Rightarrow> precomputed \<Rightarrow>
    exec_data \<Rightarrow> bytes option \<times> exec_data" where
  "schnorr_message H tx n_in hash_type sigversion cache execdata =
     (let ext_flag = (if sigversion = Tapscript then 1 else 0 :: u8); key_version = 0 :: u8 in
      if \<not> (bip341_taproot_ready cache \<and> spent_outputs_ready cache) then (None, execdata)
      else
      let output_type = (if hash_type = SIGHASH_DEFAULT then SIGHASH_ALL
            else hash_type AND SIGHASH_OUTPUT_MASK);
          input_type = hash_type AND SIGHASH_INPUT_MASK
      in if \<not> (hash_type \<le> 0x03 \<or> 0x81 \<le> hash_type \<and> hash_type \<le> 0x83) then (None, execdata)
      else
      let have_annex = annex_present execdata;
          spend_type = push_bit 1 ext_flag OR (if have_annex then 1 else 0);
          ss = [0 :: u8] @ [hash_type] @ u32_le (tx_version tx) @ u32_le (lock_time tx) @
            (if input_type \<noteq> SIGHASH_ANYONECANPAY
             then pc_prevouts_single cache @ pc_spent_amounts_single cache @
               pc_spent_scripts_single cache @ pc_sequences_single cache
             else []) @
            (if output_type = SIGHASH_ALL then pc_outputs_single cache else []) @
            [spend_type] @
            (if input_type = SIGHASH_ANYONECANPAY
             then outpoint_bytes (previous_output (inputs tx ! n_in)) @
               write_txout (spent_outputs cache ! n_in) @ u32_le (sequence (inputs tx ! n_in))
             else u32_le (word_of_nat n_in))
      in if have_annex \<and> annex_hash execdata = None then (None, execdata)
      else
      let ss = ss @ (if have_annex then the (annex_hash execdata) else [])
      in if output_type = SIGHASH_SINGLE \<and> n_in \<ge> length (outputs tx) then (None, execdata)
      else
      let (ss, execdata) =
            (if output_type = SIGHASH_SINGLE then
               let single = (case output_hash execdata of Some h \<Rightarrow> h
                     | None \<Rightarrow> sha256 H (write_txout (outputs tx ! n_in)))
               in (ss @ single, execdata\<lparr>output_hash := Some single\<rparr>)
             else (ss, execdata))
      in if sigversion = Tapscript then
           (case tapleaf_hash execdata of
              None \<Rightarrow> (None, execdata)
            | Some leaf_hash \<Rightarrow>
                (Some (ss @ leaf_hash @ [key_version] @ u32_le (codeseparator_pos execdata)), execdata))
         else (Some ss, execdata))"

definition signature_hash_schnorr :: "hash_fns \<Rightarrow> transaction \<Rightarrow> nat \<Rightarrow> u8 \<Rightarrow> sig_version \<Rightarrow> precomputed \<Rightarrow>
    exec_data \<Rightarrow> hash32 option \<times> exec_data" where
  "signature_hash_schnorr H tx n_in hash_type sigversion cache execdata =
     (case schnorr_message H tx n_in hash_type sigversion cache execdata of
        (m, execdata) \<Rightarrow>
          (map_option (\<lambda>ss. sha256 H (tagged_hasher H ''TapSighash'' @ ss)) m, execdata))"

section \<open>The transaction's signature checker\<close>

definition verify_ecdsa_signature :: "('pk, 'sig, 'xpk, 'ssig) secp \<Rightarrow> bytes \<Rightarrow> bytes \<Rightarrow> hash32 \<Rightarrow> bool" where
  "verify_ecdsa_signature S sig pubkey sighash =
     (case parse_public_key S pubkey of
        None \<Rightarrow> False
      | Some pk \<Rightarrow>
          (case sig_from_der_lax S sig of
             None \<Rightarrow> False
           | Some signature \<Rightarrow> ecdsa_verify S (normalize_s S signature) sighash pk))"

definition verify_schnorr_signature :: "('pk, 'sig, 'xpk, 'ssig) secp \<Rightarrow> bytes \<Rightarrow> bytes \<Rightarrow> hash32 \<Rightarrow> bool" where
  "verify_schnorr_signature S sig pubkey sighash =
     (case parse_xonly_public_key S pubkey of
        None \<Rightarrow> False
      | Some pk \<Rightarrow>
          (case parse_schnorr_signature S sig of
             None \<Rightarrow> False
           | Some signature \<Rightarrow> schnorr_verify S signature sighash pk))"

definition tx_check_ecdsa :: "hash_fns \<Rightarrow> ('pk, 'sig, 'xpk, 'ssig) secp \<Rightarrow> transaction \<Rightarrow> nat \<Rightarrow> i64 \<Rightarrow>
    precomputed option \<Rightarrow> bytes \<Rightarrow> bytes \<Rightarrow> bytes \<Rightarrow> sig_version \<Rightarrow> bool" where
  "tx_check_ecdsa H S tx n_in amount txdata sig pubkey script_code sigversion =
     (if pubkey = [] then False
      else if sig = [] then False
      else
        let hash_type = ucast (last sig); sig = take (length sig - 1) sig
        in if sigversion = WitnessV0 \<and> amount < 0 then False
           else verify_ecdsa_signature S sig pubkey
                  (signature_hash H script_code tx n_in hash_type amount sigversion txdata))"

definition tx_check_schnorr :: "hash_fns \<Rightarrow> ('pk, 'sig, 'xpk, 'ssig) secp \<Rightarrow> transaction \<Rightarrow> nat \<Rightarrow>
    precomputed option \<Rightarrow> bytes \<Rightarrow> bytes \<Rightarrow> sig_version \<Rightarrow> exec_data \<Rightarrow> script_error + exec_data" where
  "tx_check_schnorr H S tx n_in txdata sig pubkey sigversion execdata =
     (if length sig \<noteq> 64 \<and> length sig \<noteq> 65 then Inl SchnorrSigSize
      else if length sig = 65 \<and> last sig = SIGHASH_DEFAULT then Inl SchnorrSigHashType
      else
        let hash_type = (if length sig = 65 then last sig else SIGHASH_DEFAULT);
            sig = (if length sig = 65 then take (length sig - 1) sig else sig)
        in case txdata of
             None \<Rightarrow> Inl SchnorrSigHashType
           | Some txdata \<Rightarrow>
               (case signature_hash_schnorr H tx n_in hash_type sigversion txdata execdata of
                  (None, execdata) \<Rightarrow> Inl SchnorrSigHashType
                | (Some sighash, execdata) \<Rightarrow>
                    if verify_schnorr_signature S sig pubkey sighash then Inr execdata
                    else Inl SchnorrSig))"

definition tx_check_locktime :: "transaction \<Rightarrow> nat \<Rightarrow> i64 \<Rightarrow> bool" where
  "tx_check_locktime tx n_in locktime =
     (let tx_locktime = int (unat (lock_time tx)); threshold = int (unat LOCKTIME_THRESHOLD)
      in if \<not> (tx_locktime < threshold \<and> locktime < threshold \<or>
               tx_locktime \<ge> threshold \<and> locktime \<ge> threshold) then False
         else if locktime > tx_locktime then False
         else if sequence (inputs tx ! n_in) = SEQUENCE_FINAL then False
         else True)"

definition tx_check_sequence :: "transaction \<Rightarrow> nat \<Rightarrow> i64 \<Rightarrow> bool" where
  "tx_check_sequence tx n_in seq =
     (let tx_sequence = int (unat (sequence (inputs tx ! n_in)))
      in if tx_version tx < SEQUENCE_LOCKS_MIN_VERSION then False
         else if tx_sequence AND int (unat SEQUENCE_LOCKTIME_DISABLE_FLAG) \<noteq> 0 then False
         else
           let mask = int (unat (SEQUENCE_LOCKTIME_TYPE_FLAG OR SEQUENCE_LOCKTIME_MASK));
               type_flag = int (unat SEQUENCE_LOCKTIME_TYPE_FLAG);
               tx_sequence_masked = tx_sequence AND mask;
               sequence_masked = seq AND mask
           in if \<not> (tx_sequence_masked < type_flag \<and> sequence_masked < type_flag \<or>
                    tx_sequence_masked \<ge> type_flag \<and> sequence_masked \<ge> type_flag) then False
              else if sequence_masked > tx_sequence_masked then False
              else True)"

definition check_tap_tweak :: "hash_fns \<Rightarrow> ('pk, 'sig, 'xpk, 'ssig) secp \<Rightarrow> bytes \<Rightarrow> bytes \<Rightarrow> hash32 \<Rightarrow> bool" where
  "check_tap_tweak H S control program tapleaf =
     (let internal_bytes = take 32 (drop 1 control)
      in case xonly_from_bytes S internal_bytes of
           None \<Rightarrow> False
         | Some internal \<Rightarrow>
             let root = compute_taproot_merkle_root H control tapleaf;
                 tweak = sha256 H (tagged_hasher H ''TapTweak'' @ internal_bytes @ root)
             in (case xonly_add_tweak S internal tweak of
                   None \<Rightarrow> False
                 | Some (xonly, odd_parity) \<Rightarrow>
                     odd_parity = (control ! 0 AND 1 = 1) \<and> xonly_serialize S xonly = program))"

definition tx_checker :: "hash_fns \<Rightarrow> ('pk, 'sig, 'xpk, 'ssig) secp \<Rightarrow> transaction \<Rightarrow> nat \<Rightarrow> i64 \<Rightarrow>
    precomputed \<Rightarrow> checker" where
  "tx_checker H S tx n_in amount txdata =
     \<lparr>check_ecdsa_signature = tx_check_ecdsa H S tx n_in amount (Some txdata),
      check_schnorr_signature = tx_check_schnorr H S tx n_in (Some txdata),
      check_locktime = tx_check_locktime tx n_in,
      check_sequence = tx_check_sequence tx n_in,
      verify_taproot_commitment = check_tap_tweak H S\<rparr>"

section \<open>Every input of a transaction\<close>

fun check_inputs_loop :: "hash_fns \<Rightarrow> ('pk, 'sig, 'xpk, 'ssig) secp \<Rightarrow> transaction \<Rightarrow> tx_out list \<Rightarrow>
    script_flags \<Rightarrow> precomputed \<Rightarrow> (nat \<times> tx_in) list \<Rightarrow> script_error + unit" where
  "check_inputs_loop H S tx spent flags txdata [] = Inr ()"
| "check_inputs_loop H S tx spent flags txdata ((i, input) # rest) =
     res_bind (verify_script H (script_sig input) (script_pubkey (spent ! i)) (Some (witness input)) flags
         (tx_checker H S tx i (out_value (spent ! i)) txdata))
       (\<lambda>_. check_inputs_loop H S tx spent flags txdata rest)"

definition check_input_scripts :: "hash_fns \<Rightarrow> ('pk, 'sig, 'xpk, 'ssig) secp \<Rightarrow> transaction \<Rightarrow> tx_out list \<Rightarrow>
    script_flags \<Rightarrow> script_error + unit" where
  "check_input_scripts H S tx spent flags =
     (if is_coinbase tx then Inr ()
      else check_inputs_loop H S tx spent flags (precomputed_new H tx (Some spent) False)
             (enumerate 0 (inputs tx)))"

end
