(* ===== verification/Sighash_Props.thy ===== *)
theory Sighash_Props
  imports Sighash Find_Delete
begin

text \<open>
  What a signature commits to. The caches never change a digest; the legacy digest is that of the
  modified copy of the transaction the original client built; the BIP143 and BIP341 digests bind the
  transaction they are made for, BIP341 also the outputs it spends, up to an explicit collision of
  SHA-256 between two different strings hashed for the two digests.
\<close>

section \<open>Scripts of whole instructions without their separators\<close>

definition strip_separators :: "bytes list \<Rightarrow> bytes" where
  "strip_separators is = concat (filter (\<lambda>i. i \<noteq> [OP_CODESEPARATOR]) is)"

lemma get_op_instr_at:
  assumes "instr i"
  shows "\<exists>d. get_op (pre @ i @ post) (length pre) = (Some (i ! 0, d), length pre + length i)"
proof -
  obtain r where r: "get_op i 0 = (Some r, length i)"
    using assms by (auto simp: instr_def split: prod.splits option.splits)
  moreover from this have "fst r = i ! 0"
    by (auto simp: get_op_def Let_def split: if_splits option.splits prod.splits)
  ultimately show ?thesis using get_op_at [OF r, of pre post] by (cases r) auto
qed

lemma separator_instr: "instr i \<Longrightarrow> i ! 0 = OP_CODESEPARATOR \<longleftrightarrow> i = [OP_CODESEPARATOR]"
  by (cases i) (auto simp: instr_def get_op_def)

lemma get_op_end: "get_op s (length s) = (None, length s)"
  by (simp add: get_op_def)

lemma count_separators_instrs:
  "\<forall>i \<in> set is. instr i \<Longrightarrow>
   count_separators (pre @ concat is) (length pre) = count_list is [OP_CODESEPARATOR]"
proof (induction "is" arbitrary: pre)
  case Nil
  show ?case by (subst count_separators.simps) (simp add: get_op_end)
next
  case (Cons i "is")
  obtain d where d: "get_op (pre @ i @ concat is) (length pre) = (Some (i ! 0, d), length pre + length i)"
    using get_op_instr_at [of i pre "concat is"] Cons.prems by auto
  have "count_separators (pre @ i @ concat is) (length (pre @ i)) = count_list is [OP_CODESEPARATOR]"
    using Cons.IH [of "pre @ i"] Cons.prems by simp
  then show ?case
    using separator_instr [of i] Cons.prems
    by (subst count_separators.simps) (auto simp: d)
qed

lemma script_segments_instrs:
  assumes "\<forall>i \<in> set is. instr i" "seg \<le> length pre" "s = pre @ concat is"
  shows "\<exists>out' seg'. script_segments s (length pre) seg out = (out', seg', length s) \<and>
    seg' \<le> length s \<and> out' @ drop seg' s = out @ drop seg pre @ strip_separators is"
  using assms
proof (induction "is" arbitrary: pre seg out)
  case Nil
  then show ?case by (subst script_segments.simps) (auto simp: get_op_end strip_separators_def)
next
  case (Cons i "is")
  obtain d where d: "get_op s (length pre) = (Some (i ! 0, d), length pre + length i)"
    using get_op_instr_at [of i pre "concat is"] Cons.prems by auto
  have s: "s = (pre @ i) @ concat is" using Cons.prems(3) by simp
  show ?case
  proof (cases "i = [OP_CODESEPARATOR]")
    case True
    have cut: "take (length pre - seg) (drop seg s) = drop seg pre"
      using Cons.prems(2,3) by simp
    from Cons.IH [where pre = "pre @ i" and seg = "length (pre @ i)" and out = "out @ drop seg pre"] Cons.prems(1) s
    show ?thesis using True d cut
      by (subst script_segments.simps) (auto simp: strip_separators_def)
  next
    case False
    then have "i ! 0 \<noteq> OP_CODESEPARATOR" using separator_instr [of i] Cons.prems(1) by simp
    with Cons.IH [where pre = "pre @ i" and seg = seg and out = out] Cons.prems(1,2) s False d show ?thesis
      by (subst script_segments.simps) (auto simp: strip_separators_def)
  qed
qed

lemma length_strip_separators:
  "length (strip_separators is) + count_list is [OP_CODESEPARATOR] = length (concat is)"
  by (induction "is") (auto simp: strip_separators_def)

lemma write_script_code_instrs:
  assumes "\<forall>i \<in> set is. instr i"
  shows "write_script_code (concat is) = write_var_bytes (strip_separators is)"
proof -
  obtain out' seg' where *: "script_segments (concat is) 0 0 [] = (out', seg', length (concat is))"
      "seg' \<le> length (concat is)" "out' @ drop seg' (concat is) = strip_separators is"
    using script_segments_instrs [OF assms, of 0 "[]" "concat is" "[]"] by auto
  have "length (concat is) - count_separators (concat is) 0 = length (strip_separators is)"
    using count_separators_instrs [OF assms, of "[]"] length_strip_separators [of "is"] by simp
  with * show ?thesis
    by (auto simp: write_script_code_def write_var_bytes_def len_u64_def)
qed

section \<open>The legacy digest as the hash of a modified copy\<close>

text \<open>The copy the original client made: other inputs' scripts blank, the script code in the signed
  one; for NONE no outputs, for SINGLE null outputs before the signed one, and for both other inputs'
  sequence numbers zero; for ANYONECANPAY only the signed input.\<close>

definition legacy_copy :: "transaction \<Rightarrow> bytes \<Rightarrow> nat \<Rightarrow> i32 \<Rightarrow> transaction" where
  "legacy_copy tx code n_in hash_type =
     (let blank = (\<lambda>(idx, i). if idx = n_in then i\<lparr>script_sig := code\<rparr>
            else i\<lparr>script_sig := [], sequence :=
              (if hash_type_single hash_type \<or> hash_type_none hash_type then 0 else sequence i)\<rparr>);
          ins = map blank (enumerate 0 (inputs tx))
      in tx\<lparr>inputs := (if hash_type_acp hash_type then [ins ! n_in] else ins),
            outputs := (if hash_type_none hash_type then []
              else if hash_type_single hash_type
              then replicate n_in \<lparr>out_value = - 1, script_pubkey = []\<rparr> @ [outputs tx ! n_in]
              else outputs tx)\<rparr>)"

lemma single_not_none: "hash_type_single ht \<Longrightarrow> \<not> hash_type_none ht"
  by (simp add: hash_type_single_def hash_type_none_def SIGHASH_SINGLE_def SIGHASH_NONE_def)

lemma legacy_input_blank:
  assumes "idx < length (inputs tx)" "\<forall>i \<in> set is. instr i"
  shows "legacy_input tx (concat is) n_in ht idx =
    write_txin_no_witness (map (\<lambda>(idx, i). if idx = n_in then i\<lparr>script_sig := strip_separators is\<rparr>
            else i\<lparr>script_sig := [], sequence :=
              (if hash_type_single ht \<or> hash_type_none ht then 0 else sequence i)\<rparr>)
      (enumerate 0 (inputs tx)) ! idx)"
  using assms
  by (simp add: legacy_input_def write_txin_no_witness_def outpoint_bytes_def write_script_code_instrs
      nth_enumerate_eq)
    (simp add: write_var_bytes_def len_u64_def Let_def)

lemma concat_map_nth: "concat (map f [0..<length xs]) = concat (map g xs)"
  if "\<And>k. k < length xs \<Longrightarrow> f k = g (xs ! k)"
proof -
  have "map f [0..<length xs] = map g xs" by (rule nth_equalityI) (simp_all add: that)
  then show ?thesis by simp
qed

lemma legacy_outputs_single:
  assumes "hash_type_single ht"
  shows "concat (map (legacy_output tx n_in ht) [0..<n_in + 1]) =
    concat (map write_txout (replicate n_in \<lparr>out_value = - 1, script_pubkey = []\<rparr> @ [outputs tx ! n_in]))"
proof -
  have "map (legacy_output tx n_in ht) [0..<n_in] = replicate n_in (write_txout \<lparr>out_value = - 1, script_pubkey = []\<rparr>)"
    by (rule nth_equalityI)
      (use assms in \<open>simp_all add: legacy_output_def write_txout_def write_var_bytes_def len_u64_def\<close>)
  then show ?thesis by (simp add: legacy_output_def)
qed

lemma legacy_preimage_copy:
  assumes "\<forall>i \<in> set is. instr i" "n_in < length (inputs tx)"
  shows "write_legacy_sighash_preimage tx (concat is) n_in ht =
    write_without_witness (legacy_copy tx (strip_separators is) n_in ht)"
proof -
  let ?ins = "map (\<lambda>(idx, i). if idx = n_in then i\<lparr>script_sig := strip_separators is\<rparr>
            else i\<lparr>script_sig := [], sequence :=
              (if hash_type_single ht \<or> hash_type_none ht then 0 else sequence i)\<rparr>)
      (enumerate 0 (inputs tx))"
  have ins: "concat (map (legacy_input tx (concat is) n_in ht) [0..<length (inputs tx)]) =
      concat (map write_txin_no_witness ?ins)"
    using concat_map_nth [of ?ins "legacy_input tx (concat is) n_in ht" write_txin_no_witness]
      legacy_input_blank [OF _ assms(1)] by simp
  have one: "legacy_input tx (concat is) n_in ht n_in = write_txin_no_witness (?ins ! n_in)"
    using legacy_input_blank [OF assms(2,1)] by simp
  have outs: "\<not> hash_type_single ht \<Longrightarrow>
      concat (map (legacy_output tx n_in ht) [0..<length (outputs tx)]) = concat (map write_txout (outputs tx))"
    by (rule concat_map_nth) (simp add: legacy_output_def)
  show ?thesis
    using ins one outs legacy_outputs_single [of ht tx n_in] single_not_none [of ht]
    by (cases "hash_type_acp ht"; cases "hash_type_none ht"; cases "hash_type_single ht")
      (simp_all add: write_legacy_sighash_preimage_def write_without_witness_def legacy_copy_def
        write_vec_def len_u64_def)
qed

section \<open>The caches\<close>

lemma precomputed_fields:
  fixes H tx spent force
  defines "c \<equiv> precomputed_new H tx spent force"
  shows "bip143_segwit_ready c \<Longrightarrow> pc_hash_prevouts c = sha256 H (prevouts_single_hash H tx)"
    "bip143_segwit_ready c \<Longrightarrow> pc_hash_sequence c = sha256 H (sequences_single_hash H tx)"
    "bip143_segwit_ready c \<Longrightarrow> pc_hash_outputs c = sha256 H (outputs_single_hash H tx)"
    "bip341_taproot_ready c \<Longrightarrow> pc_prevouts_single c = prevouts_single_hash H tx"
    "bip341_taproot_ready c \<Longrightarrow> pc_sequences_single c = sequences_single_hash H tx"
    "bip341_taproot_ready c \<Longrightarrow> pc_outputs_single c = outputs_single_hash H tx"
    "bip341_taproot_ready c \<Longrightarrow> \<exists>outs. spent = Some outs \<and> spent_outputs c = outs \<and>
       pc_spent_amounts_single c = spent_amounts_single_hash H outs \<and>
       pc_spent_scripts_single c = spent_scripts_single_hash H outs"
  by (auto simp: c_def precomputed_new_def precomputed_default_def Let_def
      split: prod.splits option.splits if_splits)

lemma bip143_hashes_cache:
  "bip143_hashes H tx n_in ht (Some (precomputed_new H tx spent force)) = bip143_hashes H tx n_in ht None"
  by (simp add: bip143_hashes_def Let_def precomputed_fields)

lemma signature_hash_cache:
  "signature_hash H code tx n_in ht amount sv (Some (precomputed_new H tx spent force)) =
   signature_hash H code tx n_in ht amount sv None"
  by (simp add: signature_hash_def bip143_preimage_def bip143_hashes_cache)

section \<open>Reading encodings back\<close>

lemma outpoint_prefix [prefix_code]:
  assumes "length (op_txid p) = 32" "length (op_txid q) = 32"
  shows "outpoint_bytes p @ r = outpoint_bytes q @ s \<longleftrightarrow> p = q \<and> r = s"
  using assms by (cases p; cases q) (auto simp: outpoint_bytes_def append_eq_append_conv prefix_code)

lemma var_bytes_prefix [prefix_code]:
  "fits a \<Longrightarrow> fits b \<Longrightarrow> write_var_bytes a @ r = write_var_bytes b @ s \<longleftrightarrow> a = b \<and> r = s"
  using var_bytes.write_prefix_free [of a b r s] by blast

lemma txout_prefix [prefix_code]:
  "txout_valid a \<Longrightarrow> txout_valid b \<Longrightarrow> write_txout a @ r = write_txout b @ s \<longleftrightarrow> a = b \<and> r = s"
  using txout.write_prefix_free [of a b r s] by blast

lemma hash_prefix:
  "length a = 32 \<Longrightarrow> length b = 32 \<Longrightarrow> a @ r = b @ s \<longleftrightarrow> a = b \<and> r = (s :: bytes)"
  by (simp add: append_eq_append_conv)

lemma concat_map_inj:
  assumes prefix: "\<And>x y r s. P x \<Longrightarrow> P y \<Longrightarrow> f x @ r = f y @ s \<Longrightarrow> x = y \<and> r = s"
    and ne: "\<And>x. P x \<Longrightarrow> f x \<noteq> []"
    and "\<forall>x \<in> set xs. P x" "\<forall>y \<in> set ys. P y" "concat (map f xs) = concat (map f ys)"
  shows "xs = ys"
  using assms(3-)
proof (induction xs arbitrary: ys)
  case Nil
  then show ?case by (cases ys) (auto dest: ne)
next
  case (Cons x xs)
  from Cons.prems obtain y ys' where ys: "ys = y # ys'" by (cases ys) (auto dest: ne)
  with Cons.prems have "f x @ concat (map f xs) = f y @ concat (map f ys')" by simp
  then have "x = y \<and> concat (map f xs) = concat (map f ys')"
    using prefix Cons.prems ys by (meson list.set_intros(1))
  with Cons.IH [of ys'] Cons.prems ys show ?case by simp
qed

lemma fixed_ne [simp]: "u32_le w \<noteq> []" "i64_le i \<noteq> []" "write_compact_size v \<noteq> []"
proof -
  show "u32_le w \<noteq> []" using length_uN_le(2) [of w] by force
  show "i64_le i \<noteq> []" using length_uN_le(4) [of i] by force
  show "write_compact_size v \<noteq> []" by (simp add: write_compact_size_def)
qed

lemma write_ne [simp]: "write_var_bytes b \<noteq> []" "write_txout out \<noteq> []" "outpoint_bytes p \<noteq> []"
  by (simp_all add: write_var_bytes_def write_txout_def outpoint_bytes_def)

text \<open>The lists of the fields the digests bind.\<close>

lemma prevouts_inj:
  assumes "\<forall>i \<in> set is. txin_valid i" "\<forall>i \<in> set js. txin_valid i"
    and "concat (map (\<lambda>i. outpoint_bytes (previous_output i)) is) =
      concat (map (\<lambda>i. outpoint_bytes (previous_output i)) js)"
  shows "map previous_output is = map previous_output js"
  using assms
  by (intro concat_map_inj [where f = outpoint_bytes and P = "\<lambda>p. length (op_txid p) = 32"])
    (auto simp: prefix_code txin_valid_def comp_def)

lemma sequences_inj:
  assumes "concat (map (\<lambda>i. u32_le (sequence i)) is) = concat (map (\<lambda>i. u32_le (sequence i)) js)"
  shows "map sequence is = map sequence js"
  using assms
  by (intro concat_map_inj [where f = u32_le and P = "\<lambda>_. True"]) (auto simp: prefix_code comp_def)

lemma outputs_inj:
  assumes "\<forall>o1 \<in> set os. txout_valid o1" "\<forall>o1 \<in> set ps. txout_valid o1"
    and "concat (map write_txout os) = concat (map write_txout ps)"
  shows "os = ps"
  using assms by (intro concat_map_inj [where f = write_txout and P = txout_valid]) (auto simp: prefix_code)

lemma txouts_eqI:
  "map out_value os = map out_value ps \<Longrightarrow> map script_pubkey os = map script_pubkey ps \<Longrightarrow> os = (ps :: tx_out list)"
  by (induction os arbitrary: ps) (auto simp: Cons_eq_map_conv)

lemma spent_inj:
  assumes "\<forall>o1 \<in> set os. txout_valid o1" "\<forall>o1 \<in> set ps. txout_valid o1"
    and "concat (map (\<lambda>o1. i64_le (out_value o1)) os) = concat (map (\<lambda>o1. i64_le (out_value o1)) ps)"
    and "concat (map (\<lambda>o1. write_var_bytes (script_pubkey o1)) os) =
      concat (map (\<lambda>o1. write_var_bytes (script_pubkey o1)) ps)"
  shows "os = ps"
proof -
  have "map out_value os = map out_value ps"
    using assms by (intro concat_map_inj [where f = i64_le and P = in_i64])
      (auto simp: prefix_code i64_le_inj comp_def txout_valid_def)
  moreover have "map script_pubkey os = map script_pubkey ps"
    using assms by (intro concat_map_inj [where f = write_var_bytes and P = fits])
      (auto simp: prefix_code comp_def txout_valid_def)
  ultimately show ?thesis by (rule txouts_eqI)
qed

section \<open>BIP143\<close>

definition sha_collision :: "hash_fns \<Rightarrow> bytes list \<Rightarrow> bytes list \<Rightarrow> bool" where
  "sha_collision H us vs \<longleftrightarrow> list_ex (\<lambda>u. list_ex (\<lambda>v. u \<noteq> v \<and> sha256 H u = sha256 H v) vs) us"

lemma no_collisionD:
  "\<not> sha_collision H us vs \<Longrightarrow> u \<in> set us \<Longrightarrow> v \<in> set vs \<Longrightarrow> sha256 H u = sha256 H v \<Longrightarrow> u = v"
  by (auto simp: sha_collision_def list_ex_iff)

definition prevouts_bytes :: "transaction \<Rightarrow> bytes" where
  "prevouts_bytes tx = concat (map (\<lambda>i. outpoint_bytes (previous_output i)) (inputs tx))"

definition sequences_bytes :: "transaction \<Rightarrow> bytes" where
  "sequences_bytes tx = concat (map (\<lambda>i. u32_le (sequence i)) (inputs tx))"

definition outputs_bytes :: "transaction \<Rightarrow> bytes" where
  "outputs_bytes tx = concat (map write_txout (outputs tx))"

lemma single_hashes:
  "prevouts_single_hash H tx = sha256 H (prevouts_bytes tx)"
  "sequences_single_hash H tx = sha256 H (sequences_bytes tx)"
  "outputs_single_hash H tx = sha256 H (outputs_bytes tx)"
  by (simp_all add: prevouts_single_hash_def sequences_single_hash_def outputs_single_hash_def
      prevouts_bytes_def sequences_bytes_def outputs_bytes_def)

text \<open>Every string hashed for a BIP143 digest.\<close>

definition bip143_strings :: "hash_fns \<Rightarrow> script \<Rightarrow> transaction \<Rightarrow> nat \<Rightarrow> i32 \<Rightarrow> i64 \<Rightarrow> bytes list" where
  "bip143_strings H code tx n_in ht amount =
     (let pre = bip143_preimage H code tx n_in ht amount None in
      [pre, sha256 H pre, prevouts_bytes tx, sha256 H (prevouts_bytes tx),
       sequences_bytes tx, sha256 H (sequences_bytes tx), outputs_bytes tx, sha256 H (outputs_bytes tx)])"

definition commits_all :: "i32 \<Rightarrow> bool" where
  "commits_all ht \<longleftrightarrow> \<not> hash_type_acp ht \<and> \<not> hash_type_single ht \<and> \<not> hash_type_none ht"

text \<open>What the two digests share: everything of the transaction but its scripts and witnesses.\<close>

definition same_body :: "transaction \<Rightarrow> transaction \<Rightarrow> bool" where
  "same_body tx tx' \<longleftrightarrow>
     tx_version tx = tx_version tx' \<and>
     map previous_output (inputs tx) = map previous_output (inputs tx') \<and>
     map sequence (inputs tx) = map sequence (inputs tx') \<and>
     outputs tx = outputs tx' \<and> lock_time tx = lock_time tx'"

lemma u32_le_suffix:
  "length a = length b \<Longrightarrow> a @ u32_le c = b @ u32_le d \<longleftrightarrow> a = b \<and> c = d"
  by (simp add: append_eq_append_conv)

lemma bip143_preimage_inj:
  assumes eq: "bip143_preimage H code tx n ht amount None = bip143_preimage H code' tx' n' ht' amount' None"
    and valid: "tx_valid tx" "tx_valid tx'" "n < length (inputs tx)" "n' < length (inputs tx')"
    "Encode.fits code" "Encode.fits code'" "in_i64 amount" "in_i64 amount'" "\<And>x. length (sha256 H x) = 32"
  shows "tx_version tx = tx_version tx' \<and> lock_time tx = lock_time tx' \<and> ht = ht' \<and> code = code' \<and>
    amount = amount' \<and> previous_output (inputs tx ! n) = previous_output (inputs tx' ! n') \<and>
    bip143_hashes H tx n ht None = bip143_hashes H tx' n' ht' None"
proof -
  obtain a b c where h: "bip143_hashes H tx n ht None = (a, b, c)" by (metis prod_cases3)
  obtain a' b' c' where h': "bip143_hashes H tx' n' ht' None = (a', b', c')" by (metis prod_cases3)
  have len: "length a = 32" "length b = 32" "length c = 32" "length a' = 32" "length b' = 32" "length c' = 32"
    using h h' valid(9)
    by (auto simp: bip143_hashes_def Let_def sha256d_def hash_zero_def split: if_splits)
  have ids: "length (op_txid (previous_output (inputs tx ! n))) = 32"
      "length (op_txid (previous_output (inputs tx' ! n'))) = 32"
    using valid by (auto simp: tx_valid_def txin_valid_def)
  have inj: "write_var_bytes code = write_var_bytes code' \<Longrightarrow> code = code'"
      "i64_le amount = i64_le amount' \<Longrightarrow> amount = amount'"
    by (rule var_bytes.write_inj [OF valid(5,6)]) (simp_all add: i64_le_inj valid(7,8))
  from eq h h' len ids have "tx_version tx = tx_version tx' \<and> a = a' \<and> b = b' \<and>
      previous_output (inputs tx ! n) = previous_output (inputs tx' ! n') \<and>
      write_var_bytes code = write_var_bytes code' \<and> i64_le amount = i64_le amount' \<and>
      sequence (inputs tx ! n) = sequence (inputs tx' ! n') \<and> c = c' \<and> lock_time tx = lock_time tx' \<and>
      ht = ht'"
    using valid(5-8) by (simp add: bip143_preimage_def prefix_code hash_prefix)
  with inj h h' show ?thesis by simp
qed

lemma bip143_all_eq:
  assumes "bip143_hashes H tx n ht None = bip143_hashes H tx' n' ht None" "commits_all ht"
    and "\<not> sha_collision H (bip143_strings H code tx n ht amount) (bip143_strings H code' tx' n' ht amount')"
  shows "prevouts_bytes tx = prevouts_bytes tx' \<and> sequences_bytes tx = sequences_bytes tx' \<and>
    outputs_bytes tx = outputs_bytes tx'"
proof -
  note nc = no_collisionD [OF assms(3)]
  have "sha256 H (sha256 H (prevouts_bytes tx)) = sha256 H (sha256 H (prevouts_bytes tx'))"
    "sha256 H (sha256 H (sequences_bytes tx)) = sha256 H (sha256 H (sequences_bytes tx'))"
    "sha256 H (sha256 H (outputs_bytes tx)) = sha256 H (sha256 H (outputs_bytes tx'))"
    using assms(1,2) by (auto simp: bip143_hashes_def commits_all_def Let_def single_hashes)
  then have "sha256 H (prevouts_bytes tx) = sha256 H (prevouts_bytes tx')"
    "sha256 H (sequences_bytes tx) = sha256 H (sequences_bytes tx')"
    "sha256 H (outputs_bytes tx) = sha256 H (outputs_bytes tx')"
    by (auto intro!: nc simp: bip143_strings_def Let_def)
  then show ?thesis by (auto intro!: nc simp: bip143_strings_def Let_def)
qed

lemma same_bodyI:
  assumes "tx_valid tx" "tx_valid tx'" "tx_version tx = tx_version tx'" "lock_time tx = lock_time tx'"
    "prevouts_bytes tx = prevouts_bytes tx'" "sequences_bytes tx = sequences_bytes tx'"
    "outputs_bytes tx = outputs_bytes tx'"
  shows "same_body tx tx'"
  using assms prevouts_inj [of "inputs tx" "inputs tx'"] sequences_inj [of "inputs tx" "inputs tx'"]
    outputs_inj [of "outputs tx" "outputs tx'"]
  by (simp add: same_body_def prevouts_bytes_def sequences_bytes_def outputs_bytes_def tx_valid_def)

lemma bip143_binding:
  assumes eq: "signature_hash H code tx n ht amount WitnessV0 None =
      signature_hash H code' tx' n' ht' amount' WitnessV0 None"
    and valid: "tx_valid tx" "tx_valid tx'" "n < length (inputs tx)" "n' < length (inputs tx')"
    "Encode.fits code" "Encode.fits code'" "in_i64 amount" "in_i64 amount'" "\<And>x. length (sha256 H x) = 32"
    and all: "commits_all ht"
    and nc: "\<not> sha_collision H (bip143_strings H code tx n ht amount) (bip143_strings H code' tx' n' ht' amount')"
  shows "same_body tx tx' \<and> previous_output (inputs tx ! n) = previous_output (inputs tx' ! n') \<and>
    code = code' \<and> amount = amount' \<and> ht = ht'"
proof -
  let ?p = "bip143_preimage H code tx n ht amount None" and ?q = "bip143_preimage H code' tx' n' ht' amount' None"
  have "sha256 H (sha256 H ?p) = sha256 H (sha256 H ?q)"
    using eq by (simp add: signature_hash_def sha256d_def)
  then have "sha256 H ?p = sha256 H ?q"
    by (rule no_collisionD [OF nc, rotated 2]) (simp_all add: bip143_strings_def Let_def)
  then have "?p = ?q"
    by (rule no_collisionD [OF nc, rotated 2]) (simp_all add: bip143_strings_def Let_def)
  from bip143_preimage_inj [OF this valid] have *: "tx_version tx = tx_version tx'" "lock_time tx = lock_time tx'"
    "ht = ht'" "code = code'" "amount = amount'"
    "previous_output (inputs tx ! n) = previous_output (inputs tx' ! n')"
    "bip143_hashes H tx n ht None = bip143_hashes H tx' n' ht None" by auto
  with bip143_all_eq [OF *(7) all] nc same_bodyI [OF valid(1,2)] show ?thesis by blast
qed

section \<open>BIP341\<close>

text \<open>The hash type that covers every input and output, for which the message has a plain form.\<close>

definition annex_bytes :: "exec_data \<Rightarrow> bytes" where
  "annex_bytes ed = (if annex_present ed then the (annex_hash ed) else [])"

definition leaf_bytes :: "sig_version \<Rightarrow> exec_data \<Rightarrow> bytes" where
  "leaf_bytes sv ed =
     (if sv = Tapscript then the (tapleaf_hash ed) @ [0] @ u32_le (codeseparator_pos ed) else [])"

definition spend_byte :: "sig_version \<Rightarrow> exec_data \<Rightarrow> u8" where
  "spend_byte sv ed = push_bit 1 (if sv = Tapscript then 1 else 0) OR (if annex_present ed then 1 else 0)"

lemma spend_byte_inj:
  "sv \<in> {Taproot, Tapscript} \<Longrightarrow> sv' \<in> {Taproot, Tapscript} \<Longrightarrow> spend_byte sv ed = spend_byte sv' ed' \<Longrightarrow>
   sv = sv' \<and> annex_present ed = annex_present ed'"
  by (auto simp: spend_byte_def split: if_splits)

definition exec_data_ok :: "exec_data \<Rightarrow> bool" where
  "exec_data_ok ed \<longleftrightarrow> pred_option (\<lambda>h. length h = 32) (annex_hash ed) \<and>
     pred_option (\<lambda>h. length h = 32) (tapleaf_hash ed)"

lemma schnorr_message_all:
  assumes "schnorr_message H tx n ht sv (precomputed_new H tx (Some spent) force) ed = (Some m, ed')"
    and "ht = SIGHASH_DEFAULT \<or> ht = SIGHASH_ALL"
  shows "m = [0, ht] @ u32_le (tx_version tx) @ u32_le (lock_time tx) @
      prevouts_single_hash H tx @ spent_amounts_single_hash H spent @ spent_scripts_single_hash H spent @
      sequences_single_hash H tx @ outputs_single_hash H tx @ [spend_byte sv ed] @ u32_le (word_of_nat n) @
      annex_bytes ed @ leaf_bytes sv ed"
    and "annex_present ed \<longrightarrow> annex_hash ed \<noteq> None" and "sv = Tapscript \<longrightarrow> tapleaf_hash ed \<noteq> None"
proof -
  let ?c = "precomputed_new H tx (Some spent) force"
  have ready: "bip341_taproot_ready ?c"
    using assms(1) by (auto simp: schnorr_message_def Let_def split: if_splits)
  note f = precomputed_fields(4-6) [OF ready] precomputed_fields(7) [OF ready]
  have types: "(if ht = SIGHASH_DEFAULT then SIGHASH_ALL else ht AND SIGHASH_OUTPUT_MASK) = SIGHASH_ALL"
      "ht AND SIGHASH_INPUT_MASK \<noteq> SIGHASH_ANYONECANPAY" "SIGHASH_ALL \<noteq> SIGHASH_SINGLE"
    using assms(2) by (auto simp: SIGHASH_DEFAULT_def SIGHASH_ALL_def SIGHASH_OUTPUT_MASK_def
        SIGHASH_INPUT_MASK_def SIGHASH_ANYONECANPAY_def SIGHASH_SINGLE_def)
  from assms(1) ready f types show
    "m = [0, ht] @ u32_le (tx_version tx) @ u32_le (lock_time tx) @
      prevouts_single_hash H tx @ spent_amounts_single_hash H spent @ spent_scripts_single_hash H spent @
      sequences_single_hash H tx @ outputs_single_hash H tx @ [spend_byte sv ed] @ u32_le (word_of_nat n) @
      annex_bytes ed @ leaf_bytes sv ed"
    "annex_present ed \<longrightarrow> annex_hash ed \<noteq> None" "sv = Tapscript \<longrightarrow> tapleaf_hash ed \<noteq> None"
    by (auto simp: schnorr_message_def Let_def spend_byte_def annex_bytes_def leaf_bytes_def
        split: if_splits option.splits)
qed

definition amounts_bytes :: "tx_out list \<Rightarrow> bytes" where
  "amounts_bytes spent = concat (map (\<lambda>out. i64_le (out_value out)) spent)"

definition scripts_bytes :: "tx_out list \<Rightarrow> bytes" where
  "scripts_bytes spent = concat (map (\<lambda>out. write_var_bytes (script_pubkey out)) spent)"

text \<open>Every string hashed for a BIP341 digest under the caches of \<open>check_input_scripts\<close>, the tag apart.\<close>

definition tap_message :: "hash_fns \<Rightarrow> transaction \<Rightarrow> nat \<Rightarrow> u8 \<Rightarrow> sig_version \<Rightarrow> tx_out list \<Rightarrow> exec_data \<Rightarrow>
    bytes option" where
  "tap_message H tx n_in ht sv spent ed =
     fst (schnorr_message H tx n_in ht sv (precomputed_new H tx (Some spent) False) ed)"

definition bip341_strings :: "hash_fns \<Rightarrow> transaction \<Rightarrow> nat \<Rightarrow> u8 \<Rightarrow> sig_version \<Rightarrow> tx_out list \<Rightarrow> exec_data \<Rightarrow>
    bytes list" where
  "bip341_strings H tx n_in ht sv spent ed =
     [tagged_hasher H ''TapSighash'' @ the (tap_message H tx n_in ht sv spent ed),
      prevouts_bytes tx, sequences_bytes tx, outputs_bytes tx, amounts_bytes spent, scripts_bytes spent]"

definition tap_sighash :: "hash_fns \<Rightarrow> transaction \<Rightarrow> nat \<Rightarrow> u8 \<Rightarrow> sig_version \<Rightarrow> tx_out list \<Rightarrow> exec_data \<Rightarrow>
    hash32 option" where
  "tap_sighash H tx n_in ht sv spent ed =
     fst (signature_hash_schnorr H tx n_in ht sv (precomputed_new H tx (Some spent) False) ed)"

lemma tap_sighash_message:
  "tap_sighash H tx n_in ht sv spent ed = map_option (\<lambda>m. sha256 H (tagged_hasher H ''TapSighash'' @ m))
     (tap_message H tx n_in ht sv spent ed)"
  by (simp add: tap_sighash_def tap_message_def signature_hash_schnorr_def split: prod.splits)

lemma tap_tail_inj:
  assumes eq: "annex_bytes ed @ leaf_bytes sv ed = annex_bytes ed' @ leaf_bytes sv ed'"
    and ok: "exec_data_ok ed" "exec_data_ok ed'" "annex_present ed = annex_present ed'"
    and some: "annex_present ed \<longrightarrow> annex_hash ed \<noteq> None" "annex_present ed' \<longrightarrow> annex_hash ed' \<noteq> None"
      "sv = Tapscript \<longrightarrow> tapleaf_hash ed \<noteq> None" "sv = Tapscript \<longrightarrow> tapleaf_hash ed' \<noteq> None"
  shows "(annex_present ed \<longrightarrow> annex_hash ed = annex_hash ed') \<and>
    (sv = Tapscript \<longrightarrow> tapleaf_hash ed = tapleaf_hash ed' \<and> codeseparator_pos ed = codeseparator_pos ed')"
proof -
  have "length (annex_bytes ed) = length (annex_bytes ed')"
    using ok some by (auto simp: annex_bytes_def exec_data_ok_def)
  with eq have a: "annex_bytes ed = annex_bytes ed'" and l: "leaf_bytes sv ed = leaf_bytes sv ed'" by auto
  from a ok(3) some(1,2) have "annex_present ed \<longrightarrow> annex_hash ed = annex_hash ed'"
    by (auto simp: annex_bytes_def)
  moreover from l some(3,4) ok(1,2) have
    "sv = Tapscript \<longrightarrow> tapleaf_hash ed = tapleaf_hash ed' \<and> codeseparator_pos ed = codeseparator_pos ed'"
    by (auto simp: leaf_bytes_def exec_data_ok_def append_eq_append_conv)
  ultimately show ?thesis by blast
qed

lemma tap_message_inj:
  assumes "tap_message H tx n ht sv spent ed = Some m" "tap_message H tx' n' ht' sv' spent' ed' = Some m"
    and sv: "sv \<in> {Taproot, Tapscript}" "sv' \<in> {Taproot, Tapscript}"
    and all: "ht = SIGHASH_DEFAULT \<or> ht = SIGHASH_ALL" "ht' = SIGHASH_DEFAULT \<or> ht' = SIGHASH_ALL"
    and ok: "exec_data_ok ed" "exec_data_ok ed'" "\<And>x. length (sha256 H x) = 32"
  shows "ht = ht' \<and> sv = sv' \<and> tx_version tx = tx_version tx' \<and> lock_time tx = lock_time tx' \<and>
    prevouts_single_hash H tx = prevouts_single_hash H tx' \<and>
    sequences_single_hash H tx = sequences_single_hash H tx' \<and>
    outputs_single_hash H tx = outputs_single_hash H tx' \<and>
    spent_amounts_single_hash H spent = spent_amounts_single_hash H spent' \<and>
    spent_scripts_single_hash H spent = spent_scripts_single_hash H spent' \<and>
    (word_of_nat n :: u32) = word_of_nat n' \<and> annex_present ed = annex_present ed' \<and>
    (annex_present ed \<longrightarrow> annex_hash ed = annex_hash ed') \<and>
    (sv = Tapscript \<longrightarrow> tapleaf_hash ed = tapleaf_hash ed' \<and> codeseparator_pos ed = codeseparator_pos ed')"
proof -
  obtain e where s: "schnorr_message H tx n ht sv (precomputed_new H tx (Some spent) False) ed = (Some m, e)"
    using assms(1) by (metis prod.collapse tap_message_def)
  obtain e' where s': "schnorr_message H tx' n' ht' sv' (precomputed_new H tx' (Some spent') False) ed' = (Some m, e')"
    using assms(2) by (metis prod.collapse tap_message_def)
  note f = schnorr_message_all [OF s all(1)] and f' = schnorr_message_all [OF s' all(2)]
  have lens: "length (prevouts_single_hash H y) = 32" "length (sequences_single_hash H y) = 32"
    "length (outputs_single_hash H y) = 32" "length (spent_amounts_single_hash H z) = 32"
    "length (spent_scripts_single_hash H z) = 32" for y z
    by (simp_all add: prevouts_single_hash_def sequences_single_hash_def outputs_single_hash_def
        spent_amounts_single_hash_def spent_scripts_single_hash_def ok(3))
  from f(1) f'(1) have heads: "ht = ht' \<and> tx_version tx = tx_version tx' \<and> lock_time tx = lock_time tx' \<and>
      prevouts_single_hash H tx = prevouts_single_hash H tx' \<and>
      spent_amounts_single_hash H spent = spent_amounts_single_hash H spent' \<and>
      spent_scripts_single_hash H spent = spent_scripts_single_hash H spent' \<and>
      sequences_single_hash H tx = sequences_single_hash H tx' \<and>
      outputs_single_hash H tx = outputs_single_hash H tx' \<and>
      spend_byte sv ed = spend_byte sv' ed' \<and> (word_of_nat n :: u32) = word_of_nat n' \<and>
      annex_bytes ed @ leaf_bytes sv ed = annex_bytes ed' @ leaf_bytes sv' ed'"
    by (simp add: prefix_code hash_prefix lens)
  then have sv_eq: "sv = sv'" and ap: "annex_present ed = annex_present ed'"
    using spend_byte_inj [OF sv] by blast+
  have tail: "annex_bytes ed @ leaf_bytes sv ed = annex_bytes ed' @ leaf_bytes sv ed'"
    using heads sv_eq by simp
  from tap_tail_inj [OF tail ok(1,2) ap f(2) f'(2) f(3)] f'(3) sv_eq heads ap show ?thesis by auto
qed

lemma tap_binding:
  assumes h: "tap_sighash H tx n ht sv spent ed = Some h" "tap_sighash H tx' n' ht' sv' spent' ed' = Some h"
    and sv: "sv \<in> {Taproot, Tapscript}" "sv' \<in> {Taproot, Tapscript}"
    and all: "ht = SIGHASH_DEFAULT \<or> ht = SIGHASH_ALL" "ht' = SIGHASH_DEFAULT \<or> ht' = SIGHASH_ALL"
    and ok: "exec_data_ok ed" "exec_data_ok ed'" "\<And>x. length (sha256 H x) = 32"
    and valid: "tx_valid tx" "tx_valid tx'" "\<forall>o1 \<in> set spent. txout_valid o1" "\<forall>o1 \<in> set spent'. txout_valid o1"
    and nc: "\<not> sha_collision H (bip341_strings H tx n ht sv spent ed) (bip341_strings H tx' n' ht' sv' spent' ed')"
  shows "same_body tx tx' \<and> spent = spent' \<and> ht = ht' \<and> sv = sv' \<and>
    (word_of_nat n :: u32) = word_of_nat n' \<and> annex_present ed = annex_present ed' \<and>
    (annex_present ed \<longrightarrow> annex_hash ed = annex_hash ed') \<and>
    (sv = Tapscript \<longrightarrow> tapleaf_hash ed = tapleaf_hash ed' \<and> codeseparator_pos ed = codeseparator_pos ed')"
proof -
  obtain m m' where m: "tap_message H tx n ht sv spent ed = Some m" "tap_message H tx' n' ht' sv' spent' ed' = Some m'"
    and eq: "sha256 H (tagged_hasher H ''TapSighash'' @ m) = sha256 H (tagged_hasher H ''TapSighash'' @ m')"
    using h by (auto simp: tap_sighash_message)
  have "tagged_hasher H ''TapSighash'' @ m = tagged_hasher H ''TapSighash'' @ m'"
    by (rule no_collisionD [OF nc]) (use m eq in \<open>simp_all add: bip341_strings_def\<close>)
  then have m': "tap_message H tx' n' ht' sv' spent' ed' = Some m" using m(2) by simp
  note inj = tap_message_inj [OF m(1) m' sv all ok]
  have "prevouts_bytes tx = prevouts_bytes tx'" "sequences_bytes tx = sequences_bytes tx'"
    "outputs_bytes tx = outputs_bytes tx'" "amounts_bytes spent = amounts_bytes spent'"
    "scripts_bytes spent = scripts_bytes spent'"
    by (rule no_collisionD [OF nc];
        use inj in \<open>simp add: bip341_strings_def single_hashes spent_amounts_single_hash_def
          spent_scripts_single_hash_def amounts_bytes_def scripts_bytes_def\<close>)+
  then have "same_body tx tx'" "spent = spent'"
    using same_bodyI [OF valid(1,2)] inj spent_inj [OF valid(3,4)]
    by (simp_all add: amounts_bytes_def scripts_bytes_def)
  with inj show ?thesis by blast
qed

section \<open>What a digest does not depend on\<close>

lemma same_body_nth:
  assumes "same_body tx tx'" "n < length (inputs tx)"
  shows "previous_output (inputs tx ! n) = previous_output (inputs tx' ! n)"
    "sequence (inputs tx ! n) = sequence (inputs tx' ! n)"
  using assms by (metis length_map nth_map same_body_def)+

lemma same_body_bytes:
  assumes "same_body tx tx'"
  shows "prevouts_bytes tx = prevouts_bytes tx'" "sequences_bytes tx = sequences_bytes tx'"
    "outputs_bytes tx = outputs_bytes tx'"
proof -
  have "prevouts_bytes t = concat (map outpoint_bytes (map previous_output (inputs t)))"
    "sequences_bytes t = concat (map u32_le (map sequence (inputs t)))" for t
    by (simp_all add: prevouts_bytes_def sequences_bytes_def comp_def)
  then show "prevouts_bytes tx = prevouts_bytes tx'" "sequences_bytes tx = sequences_bytes tx'"
    "outputs_bytes tx = outputs_bytes tx'"
    using assms by (simp_all add: same_body_def outputs_bytes_def del: map_map)
qed

lemma bip143_ignores_unlocking:
  assumes "same_body tx tx'" "n < length (inputs tx)"
  shows "signature_hash H code tx n ht amount WitnessV0 None = signature_hash H code tx' n ht amount WitnessV0 None"
proof -
  have "bip143_hashes H tx n ht None = bip143_hashes H tx' n ht None"
    using assms(1) same_body_bytes [OF assms(1)]
    by (simp add: bip143_hashes_def Let_def single_hashes same_body_def)
  then show ?thesis
    using assms(1) same_body_nth [OF assms]
    by (simp add: signature_hash_def bip143_preimage_def same_body_def)
qed

lemma tap_sighash_default:
  assumes "\<not> annex_present ed"
    and "bip341_taproot_ready (precomputed_new H tx (Some spent) False)"
      "spent_outputs_ready (precomputed_new H tx (Some spent) False)"
  shows "tap_sighash H tx n 0 Taproot spent ed = Some (sha256 H (tagged_hasher H ''TapSighash'' @
      [0, 0] @ u32_le (tx_version tx) @ u32_le (lock_time tx) @ sha256 H (prevouts_bytes tx) @
      spent_amounts_single_hash H spent @ spent_scripts_single_hash H spent @
      sha256 H (sequences_bytes tx) @ sha256 H (outputs_bytes tx) @ [0] @ u32_le (word_of_nat n)))"
  using assms precomputed_fields(4-7) [OF assms(2)]
  by (auto simp: tap_sighash_message tap_message_def schnorr_message_def single_hashes
      SIGHASH_DEFAULT_def SIGHASH_ALL_def SIGHASH_SINGLE_def SIGHASH_INPUT_MASK_def SIGHASH_ANYONECANPAY_def)

section \<open>Properties\<close>

text \<open>C27: The caches are transparent: whatever of them is filled in, for whatever features the scan
  found, the digest an ECDSA signature commits to is the one computed without them.\<close>

theorem sighash_cache_transparent:
  "signature_hash H code tx n ht amount sv (Some (precomputed_new H tx spent force)) =
   signature_hash H code tx n ht amount sv None"
  by (rule signature_hash_cache)

text \<open>C26: On a script code of whole instructions the legacy digest is the one of the original client:
  the double hash of a copy of the transaction, modified for the hash type, serialized, with the hash
  type behind it; the script code goes in without its code separators. The single hash type without a
  matching output is the exception, whose digest is the number one.\<close>

theorem legacy_sighash_is_modified_copy:
  assumes "\<forall>i \<in> set is. instr i" "n < length (inputs tx)" "sv \<noteq> WitnessV0"
  shows "signature_hash H (concat is) tx n ht amount sv cache =
    (if hash_type_single ht \<and> length (outputs tx) \<le> n then 1 # replicate 31 0
     else sha256d H (write_without_witness (legacy_copy tx (strip_separators is) n ht) @ u32_le ht))"
  using assms(3) by (simp add: signature_hash_def legacy_preimage_copy [OF assms(1,2)])

text \<open>Witness of C26: a script code with a separator, hash type SINGLE and ANYONECANPAY.\<close>

lemma legacy_sighash_is_modified_copy_witness:
  "signature_hash toy_hashes [0xab, 0x76, 0x01, 0xab] segwit_sample 0 0x83 0 Base None =
   sha256d toy_hashes (write_without_witness (legacy_copy segwit_sample [0x76, 0x01, 0xab] 0 0x83) @ u32_le 0x83)"
  using legacy_sighash_is_modified_copy [of "[[0xab], [0x76], [0x01, 0xab]]" 0 segwit_sample Base toy_hashes "0x83" 0 None]
  by (simp add: instr_def get_op_def trailing_header_def segwit_sample_def strip_separators_def
      hash_type_single_def SIGHASH_SINGLE_def)

text \<open>C25: A segwit version 0 digest that covers every input and output binds them: two equal digests
  were made for transactions with the same version, previous outputs, sequence numbers, outputs and
  lock time, for the same signed output, script code, amount and hash type, or two different strings
  hashed for them collide.\<close>

theorem bip143_sighash_binds:
  assumes "hash_fns_ok H" "tx_valid tx" "tx_valid tx'" "n < length (inputs tx)" "n' < length (inputs tx')"
    and "Encode.fits code" "Encode.fits code'" "in_i64 amount" "in_i64 amount'" "commits_all ht"
    and "signature_hash H code tx n ht amount WitnessV0 None =
      signature_hash H code' tx' n' ht' amount' WitnessV0 None"
  shows "same_body tx tx' \<and> previous_output (inputs tx ! n) = previous_output (inputs tx' ! n') \<and>
      code = code' \<and> amount = amount' \<and> ht = ht' \<or>
    sha_collision H (bip143_strings H code tx n ht amount) (bip143_strings H code' tx' n' ht' amount')"
proof -
  have "\<And>x. length (sha256 H x) = 32" using assms(1) unfolding hash_fns_ok_def by blast
  from bip143_binding [OF assms(11,2-9) this assms(10)] show ?thesis by (rule disjCI)
qed

text \<open>Witness of C25: the digest of the sample, and that of the sample stripped of its witness.\<close>

definition stripped_sample :: transaction where
  "stripped_sample = segwit_sample\<lparr>inputs := map no_wit (inputs segwit_sample)\<rparr>"

lemma bip143_sighash_binds_witness:
  "same_body segwit_sample stripped_sample \<or>
   sha_collision toy_hashes (bip143_strings toy_hashes [0xac] segwit_sample 0 1 7000)
     (bip143_strings toy_hashes [0xac] stripped_sample 0 1 7000)"
proof -
  have "tx_valid segwit_sample" "tx_valid stripped_sample"
    by (simp_all add: stripped_sample_def segwit_sample_def no_wit_def tx_valid_def txin_valid_def
        txout_valid_def witness_valid_def Encode.fits_def in_i64_def i64_min_def i64_max_def)
  moreover have "same_body segwit_sample stripped_sample" "0 < length (inputs segwit_sample)"
      "0 < length (inputs stripped_sample)"
    by (simp_all add: same_body_def stripped_sample_def segwit_sample_def no_wit_def)
  moreover from bip143_ignores_unlocking [OF this(1,2)] have
    "signature_hash toy_hashes [0xac] segwit_sample 0 1 7000 WitnessV0 None =
      signature_hash toy_hashes [0xac] stripped_sample 0 1 7000 WitnessV0 None" .
  moreover have "commits_all 1"
    by (simp add: commits_all_def hash_type_acp_def hash_type_single_def hash_type_none_def
        SIGHASH_ANYONECANPAY_def SIGHASH_SINGLE_def SIGHASH_NONE_def)
  moreover have "Encode.fits [0xac :: u8]" "in_i64 7000"
    by (simp_all add: Encode.fits_def in_i64_def i64_min_def i64_max_def)
  ultimately show ?thesis using bip143_sighash_binds [OF toy_hashes_ok] by blast
qed

text \<open>C24: A taproot or tapscript digest that covers every input and output binds the transaction, and
  the amount and script of every output it spends, the input's position, the annex and, in a
  tapscript, the leaf and the position of the last separator, up to two different hashed strings that
  collide.\<close>

theorem bip341_sighash_binds:
  assumes "hash_fns_ok H" "sv \<in> {Taproot, Tapscript}" "sv' \<in> {Taproot, Tapscript}"
    and "ht = SIGHASH_DEFAULT \<or> ht = SIGHASH_ALL" "ht' = SIGHASH_DEFAULT \<or> ht' = SIGHASH_ALL"
    and "exec_data_ok ed" "exec_data_ok ed'" "tx_valid tx" "tx_valid tx'"
    and "\<forall>out \<in> set spent. txout_valid out" "\<forall>out \<in> set spent'. txout_valid out"
    and "tap_sighash H tx n ht sv spent ed = Some h" "tap_sighash H tx' n' ht' sv' spent' ed' = Some h"
  shows "same_body tx tx' \<and> spent = spent' \<and> ht = ht' \<and> sv = sv' \<and>
      (word_of_nat n :: u32) = word_of_nat n' \<and> annex_present ed = annex_present ed' \<and>
      (annex_present ed \<longrightarrow> annex_hash ed = annex_hash ed') \<and>
      (sv = Tapscript \<longrightarrow> tapleaf_hash ed = tapleaf_hash ed' \<and> codeseparator_pos ed = codeseparator_pos ed') \<or>
    sha_collision H (bip341_strings H tx n ht sv spent ed) (bip341_strings H tx' n' ht' sv' spent' ed')"
proof -
  have "\<And>x. length (sha256 H x) = 32" using assms(1) unfolding hash_fns_ok_def by blast
  from tap_binding [OF assms(12,13,2-7) this assms(8-11)] show ?thesis by (rule disjCI)
qed

text \<open>Witness of C24: the sample spends a taproot output; its witness stripped to one item.\<close>

definition taproot_spent :: tx_out where
  "taproot_spent = \<lparr>out_value = 7000, script_pubkey = 0x51 # 32 # replicate 32 9\<rparr>"

definition keypath_sample :: transaction where
  "keypath_sample = segwit_sample\<lparr>inputs := map (\<lambda>i. i\<lparr>witness := [replicate 64 1]\<rparr>) (inputs segwit_sample)\<rparr>"

lemma bip341_sighash_binds_witness:
  "\<exists>h. tap_sighash toy_hashes segwit_sample 0 0 Taproot [taproot_spent] exec_data_default = Some h \<and>
   (same_body segwit_sample keypath_sample \<or>
    sha_collision toy_hashes (bip341_strings toy_hashes segwit_sample 0 0 Taproot [taproot_spent] exec_data_default)
      (bip341_strings toy_hashes keypath_sample 0 0 Taproot [taproot_spent] exec_data_default))"
proof -
  let ?s = "\<lambda>tx. tap_sighash toy_hashes tx 0 0 Taproot [taproot_spent] exec_data_default"
  have ready: "bip341_taproot_ready (precomputed_new toy_hashes tx (Some [taproot_spent]) False)"
      "spent_outputs_ready (precomputed_new toy_hashes tx (Some [taproot_spent]) False)"
    if "tx = segwit_sample \<or> tx = keypath_sample" for tx
    using that by (auto simp: precomputed_new_def precomputed_default_def segwit_sample_def
        keypath_sample_def taproot_spent_def Let_def split: prod.splits)
  have na: "\<not> annex_present exec_data_default" by (simp add: exec_data_default_def)
  have body: "same_body keypath_sample segwit_sample"
    by (simp add: same_body_def keypath_sample_def segwit_sample_def)
  obtain h where h: "?s segwit_sample = Some h"
    using tap_sighash_default [OF na ready] by blast
  have eq: "?s keypath_sample = ?s segwit_sample"
    using tap_sighash_default [OF na ready] same_body_bytes [OF body] body by (simp add: same_body_def)
  have valid: "tx_valid segwit_sample" "tx_valid keypath_sample" "txout_valid taproot_spent"
    by (simp_all add: keypath_sample_def segwit_sample_def taproot_spent_def tx_valid_def txin_valid_def
        txout_valid_def witness_valid_def Encode.fits_def in_i64_def i64_min_def i64_max_def)
  have "exec_data_ok exec_data_default" by (simp add: exec_data_ok_def exec_data_default_def)
  then have "same_body segwit_sample keypath_sample \<or>
    sha_collision toy_hashes (bip341_strings toy_hashes segwit_sample 0 0 Taproot [taproot_spent] exec_data_default)
      (bip341_strings toy_hashes keypath_sample 0 0 Taproot [taproot_spent] exec_data_default)"
    using bip341_sighash_binds [OF toy_hashes_ok _ _ _ _ _ _ valid(1,2) _ _ h [folded SIGHASH_DEFAULT_def]
        eq [unfolded h, folded SIGHASH_DEFAULT_def]] valid(3)
    unfolding SIGHASH_DEFAULT_def by auto
  with h show ?thesis by blast
qed

end
