(* ===== verification/Signet.thy ===== *)
theory Signet
  imports Sighash Block
begin

text \<open>
  BIP325 block solutions, \<open>signet.rs\<close>: the section of the coinbase's witness commitment that holds
  the solution, the two synthetic transactions, and the check. A Rust slice index out of range
  panics; \<open>signet_txs\<close> reaches its indexings only with a coinbase and a commitment output present.
\<close>

definition SIGNET_HEADER :: bytes where "SIGNET_HEADER = [0xec, 0xc7, 0xda, 0xa2]"

definition BLOCK_SCRIPT_VERIFY_FLAGS :: script_flags where
  "BLOCK_SCRIPT_VERIFY_FLAGS =
     flag_union (flag_union (flag_union FLAG_P2SH FLAG_WITNESS) FLAG_DERSIG) FLAG_NULLDUMMY"

text \<open>The scan; it ends at the first opcode that does not parse.\<close>

function clear_loop :: "bytes \<Rightarrow> bytes \<Rightarrow> nat \<Rightarrow> bytes \<Rightarrow> bytes option \<Rightarrow> bytes \<times> bytes option" where
  "clear_loop header commitment pc replacement found =
     (case get_op commitment pc of
        (None, _) \<Rightarrow> (replacement, found)
      | (Some (opcode, pushdata), pc) \<Rightarrow>
          let hit = found = None \<and> length pushdata > length header \<and> take (length header) pushdata = header
          in clear_loop header commitment pc
               (replacement @ (if pushdata = [] then [opcode]
                 else if hit then push_slice (take (length header) pushdata) else push_slice pushdata))
               (if pushdata \<noteq> [] \<and> hit then Some (drop (length header) pushdata) else found))"
  by auto
termination
  by (relation "measure (\<lambda>(h, s, pc, r, f). length s - pc)")
    (auto dest!: sym [of _ "get_op _ _"] get_op_progress)

declare clear_loop.simps [simp del]

text \<open>The payload, and the commitment as rewritten.\<close>

definition fetch_and_clear_commitment_section :: "bytes \<Rightarrow> bytes \<Rightarrow> bytes option \<times> bytes" where
  "fetch_and_clear_commitment_section header commitment =
     (case clear_loop header commitment 0 [] None of
        (replacement, Some r) \<Rightarrow> (Some r, replacement)
      | (_, None) \<Rightarrow> (None, commitment))"

definition compute_modified_merkle_root :: "hash_fns \<Rightarrow> transaction \<Rightarrow> block \<Rightarrow> hash32" where
  "compute_modified_merkle_root H modified_cb b =
     fst (merkle_root H (txid H modified_cb # map (txid H) (drop 1 (transactions b))))"

record signet_pair =
  to_spend :: transaction
  to_sign :: transaction

text \<open>The decoding of the solution: \<open>None\<close> where the code's \<open>ok()?\<close> gives up.\<close>

definition read_solution :: "bytes \<Rightarrow> (script \<times> witness) option" where
  "read_solution solution =
     (case rd_bind read_var_bytes (\<lambda>sig. rd_bind read_compact_size (\<lambda>count.
         rd_bind (read_items read_var_bytes (unat count)) (\<lambda>stack. rd_return (sig, stack))))
         (decoder_new solution) of
        (Inl e, d) \<Rightarrow> None
      | (Inr r, d) \<Rightarrow> if is_finished d then Some r else None)"

definition blank_input :: "out_point \<Rightarrow> script \<Rightarrow> witness \<Rightarrow> tx_in" where
  "blank_input prev sig wit = \<lparr>previous_output = prev, script_sig = sig, sequence = 0, witness = wit\<rparr>"

definition one_in_one_out :: "tx_in \<Rightarrow> script \<Rightarrow> transaction" where
  "one_in_one_out i spk = \<lparr>tx_version = 0, inputs = [i],
     outputs = [\<lparr>out_value = 0, script_pubkey = spk\<rparr>], lock_time = 0\<rparr>"

definition signet_txs :: "hash_fns \<Rightarrow> block \<Rightarrow> script \<Rightarrow> signet_pair option" where
  "signet_txs H b challenge =
     (case transactions b of
        [] \<Rightarrow> None
      | coinbase # _ \<Rightarrow>
        (case witness_commitment_output b of
           None \<Rightarrow> None
         | Some cidx \<Rightarrow>
           let finish = (\<lambda>modified_cb sig stack.
                 let signet_merkle = compute_modified_merkle_root H modified_cb b;
                     h = blk_header b;
                     block_data = u32_le (hdr_version h) @ prev_block_hash h @ signet_merkle @ u32_le (hdr_time h);
                     spend = one_in_one_out (blank_input NULL_OUTPOINT ([0x00] @ push_slice block_data) []) challenge;
                     sign = one_in_one_out
                       (blank_input \<lparr>op_txid = txid H spend, op_vout = 0\<rparr> sig stack) [0x6a]
                 in Some \<lparr>to_spend = spend, to_sign = sign\<rparr>)
           in (case fetch_and_clear_commitment_section SIGNET_HEADER (script_pubkey (outputs coinbase ! cidx)) of
                 (Some solution, commitment) \<Rightarrow>
                   (case read_solution solution of
                      None \<Rightarrow> None
                    | Some (sig, stack) \<Rightarrow>
                        finish (coinbase\<lparr>outputs := (outputs coinbase)[cidx :=
                            (outputs coinbase ! cidx)\<lparr>script_pubkey := commitment\<rparr>]\<rparr>) sig stack)
               | (None, _) \<Rightarrow> finish coinbase [] [])))"

definition check_signet_block_solution :: "hash_fns \<Rightarrow> ('pk, 'sig, 'xpk, 'ssig) secp \<Rightarrow> block \<Rightarrow> params \<Rightarrow> bool" where
  "check_signet_block_solution H S b p =
     (if block_hash H b = header_hash H (genesis_header p) then True
      else
        let challenge = signet_challenge p in
        case signet_txs H b challenge of
          None \<Rightarrow> False
        | Some txs \<Rightarrow>
            let sign = to_sign txs; spent = outputs (to_spend txs) ! 0;
                txdata = precomputed_new H sign (Some [spent]) False
            in is_ok (verify_script H (script_sig (inputs sign ! 0)) challenge (Some (witness (inputs sign ! 0)))
                 BLOCK_SCRIPT_VERIFY_FLAGS (tx_checker H S sign 0 (out_value spent) txdata)))"

end
