(* ===== verification/Check.thy ===== *)
theory Check
  imports Signet Pow
begin

text \<open>
  The context-free transaction and block checks and the header-context block checks of
  \<open>check.rs\<close>, in the code's order. Sums of \<open>u64\<close> sigop counts are naturals: a block of at most
  four million weight holds far fewer than \<open>2 ^ 64\<close> of them.
\<close>

definition MAX_MONEY :: i64 where "MAX_MONEY = 21000000 * 100000000"
definition MAX_BLOCK_SIGOPS_COST :: nat where "MAX_BLOCK_SIGOPS_COST = 80000"

datatype tx_rule_error =
  VinEmpty | VoutEmpty | Oversize | VoutNegative | VoutTooLarge | TxOutTotalTooLarge |
  InputsDuplicate | BadCbLength | PrevoutNull

fun tx_rule_reason :: "tx_rule_error \<Rightarrow> string" where
  "tx_rule_reason VinEmpty = ''bad-txns-vin-empty''"
| "tx_rule_reason VoutEmpty = ''bad-txns-vout-empty''"
| "tx_rule_reason Oversize = ''bad-txns-oversize''"
| "tx_rule_reason VoutNegative = ''bad-txns-vout-negative''"
| "tx_rule_reason VoutTooLarge = ''bad-txns-vout-toolarge''"
| "tx_rule_reason TxOutTotalTooLarge = ''bad-txns-txouttotal-toolarge''"
| "tx_rule_reason InputsDuplicate = ''bad-txns-inputs-duplicate''"
| "tx_rule_reason BadCbLength = ''bad-cb-length''"
| "tx_rule_reason PrevoutNull = ''bad-txns-prevout-null''"

datatype block_rule_error =
  HighHashRule | BadSignetBlkSig | BadTxnMerkleRoot | BadTxnsDuplicate | BadBlkLength | BadCbMissing |
  BadCbMultiple | TxRule tx_rule_error | BadBlkSigops

fun block_rule_reason :: "block_rule_error \<Rightarrow> string" where
  "block_rule_reason HighHashRule = ''high-hash''"
| "block_rule_reason BadSignetBlkSig = ''bad-signet-blksig''"
| "block_rule_reason BadTxnMerkleRoot = ''bad-txnmrklroot''"
| "block_rule_reason BadTxnsDuplicate = ''bad-txns-duplicate''"
| "block_rule_reason BadBlkLength = ''bad-blk-length''"
| "block_rule_reason BadCbMissing = ''bad-cb-missing''"
| "block_rule_reason BadCbMultiple = ''bad-cb-multiple''"
| "block_rule_reason (TxRule e) = tx_rule_reason e"
| "block_rule_reason BadBlkSigops = ''bad-blk-sigops''"

datatype contextual_block_error =
  MissingMedianTimePast | TxNonFinal | BadCbHeight | BadWitnessNonceSize | BadWitnessMerkleMatch |
  UnexpectedWitness | BadBlkWeight

fun contextual_reason :: "contextual_block_error \<Rightarrow> string" where
  "contextual_reason MissingMedianTimePast = ''missing-mtp-context''"
| "contextual_reason TxNonFinal = ''bad-txns-nonfinal''"
| "contextual_reason BadCbHeight = ''bad-cb-height''"
| "contextual_reason BadWitnessNonceSize = ''bad-witness-nonce-size''"
| "contextual_reason BadWitnessMerkleMatch = ''bad-witness-merkle-match''"
| "contextual_reason UnexpectedWitness = ''unexpected-witness''"
| "contextual_reason BadBlkWeight = ''bad-blk-weight''"

record block_context =
  ctx_params :: params
  ctx_height :: u32
  parent_median_time_past :: "u32 option"

section \<open>Transactions\<close>

fun value_loop :: "tx_out list \<Rightarrow> i64 \<Rightarrow> tx_rule_error + i64" where
  "value_loop [] value_out = Inr value_out"
| "value_loop (out # rest) value_out =
     (if out_value out < 0 then Inl VoutNegative
      else if out_value out > MAX_MONEY then Inl VoutTooLarge
      else case checked_add_i64 value_out (out_value out) of
          Some sum_out \<Rightarrow> if sum_out \<le> MAX_MONEY then value_loop rest sum_out else Inl TxOutTotalTooLarge
        | None \<Rightarrow> Inl TxOutTotalTooLarge)"

fun duplicate_loop :: "tx_in list \<Rightarrow> out_point set \<Rightarrow> tx_rule_error + unit" where
  "duplicate_loop [] seen = Inr ()"
| "duplicate_loop (i # rest) seen =
     (if previous_output i \<in> seen then Inl InputsDuplicate
      else duplicate_loop rest (insert (previous_output i) seen))"

definition check_transaction :: "transaction \<Rightarrow> tx_rule_error + unit" where
  "check_transaction tx =
     (if inputs tx = [] then Inl VinEmpty
      else if outputs tx = [] then Inl VoutEmpty
      else if size_without_witness tx * WITNESS_SCALE_FACTOR > MAX_BLOCK_WEIGHT then Inl Oversize
      else
        res_bind (value_loop (outputs tx) 0) (\<lambda>_.
        res_bind (duplicate_loop (inputs tx) {}) (\<lambda>_.
        if is_coinbase tx then
          (let len = length (script_sig (inputs tx ! 0))
           in if \<not> (2 \<le> len \<and> len \<le> 100) then Inl BadCbLength else Inr ())
        else if list_ex (\<lambda>i. is_null (previous_output i)) (inputs tx) then Inl PrevoutNull
        else Inr ())))"

definition is_final_tx :: "transaction \<Rightarrow> u32 \<Rightarrow> u32 \<Rightarrow> bool" where
  "is_final_tx tx block_height locktime_cutoff =
     (if lock_time tx = 0 then True
      else
        let threshold = (if lock_time tx < LOCKTIME_THRESHOLD then block_height else locktime_cutoff)
        in if lock_time tx < threshold then True
           else list_all (\<lambda>i. sequence i = SEQUENCE_FINAL) (inputs tx))"

section \<open>Blocks\<close>

definition legacy_sig_op_count :: "transaction \<Rightarrow> nat" where
  "legacy_sig_op_count tx =
     sum_list (map (\<lambda>i. sig_ops (script_sig i) False) (inputs tx)) +
     sum_list (map (\<lambda>out. sig_ops (script_pubkey out) False) (outputs tx))"

fun check_transactions :: "transaction list \<Rightarrow> block_rule_error + unit" where
  "check_transactions [] = Inr ()"
| "check_transactions (tx # rest) =
     res_bind (map_sum TxRule id (check_transaction tx)) (\<lambda>_. check_transactions rest)"

definition check_block :: "hash_fns \<Rightarrow> ('pk, 'sig, 'xpk, 'ssig) secp \<Rightarrow> block \<Rightarrow> params \<Rightarrow>
    block_rule_error + unit" where
  "check_block H S b p =
     (if \<not> is_ok (check_proof_of_work (block_hash H b) (hdr_bits (blk_header b)) p) then Inl HighHashRule
      else if signet_blocks p \<and> \<not> check_signet_block_solution H S b p then Inl BadSignetBlkSig
      else
        let (root, mutated) = block_merkle_root H b
        in if root \<noteq> hdr_merkle_root (blk_header b) then Inl BadTxnMerkleRoot
           else if mutated then Inl BadTxnsDuplicate
           else if transactions b = [] \<or>
               length (transactions b) * WITNESS_SCALE_FACTOR > MAX_BLOCK_WEIGHT \<or>
               block_size_without_witness b * WITNESS_SCALE_FACTOR > MAX_BLOCK_WEIGHT
             then Inl BadBlkLength
           else if \<not> is_coinbase (transactions b ! 0) then Inl BadCbMissing
           else if list_ex is_coinbase (drop 1 (transactions b)) then Inl BadCbMultiple
           else res_bind (check_transactions (transactions b)) (\<lambda>_.
             if sum_list (map legacy_sig_op_count (transactions b)) * WITNESS_SCALE_FACTOR > MAX_BLOCK_SIGOPS_COST
             then Inl BadBlkSigops
             else Inr ()))"

definition bip34_prefix_ok :: "block \<Rightarrow> u32 \<Rightarrow> bool" where
  "bip34_prefix_ok b height =
     (let expect = push_int (int (unat height));
          sig = (case transactions b of [] \<Rightarrow> []
            | coinbase # _ \<Rightarrow> (case inputs coinbase of [] \<Rightarrow> [] | i # _ \<Rightarrow> script_sig i))
      in \<not> (length sig < length expect \<or> \<not> starts_with sig expect))"

definition witness_rules :: "hash_fns \<Rightarrow> block \<Rightarrow> bool \<Rightarrow> contextual_block_error + unit" where
  "witness_rules H b segwit_active =
     (case (if segwit_active then witness_commitment_output b else None) of
        Some commitpos \<Rightarrow>
          (case expected_witness_commitment H b of
             None \<Rightarrow> Inl BadWitnessNonceSize
           | Some expected \<Rightarrow>
               let output_script = script_pubkey (outputs (transactions b ! 0) ! commitpos)
               in if take 32 (drop 6 output_script) \<noteq> expected then Inl BadWitnessMerkleMatch else Inr ())
      | None \<Rightarrow> if list_ex has_witness (transactions b) then Inl UnexpectedWitness else Inr ())"

definition contextual_check_block :: "hash_fns \<Rightarrow> block \<Rightarrow> block_context \<Rightarrow> contextual_block_error + unit" where
  "contextual_check_block H b ctx =
     (let p = ctx_params ctx; height = ctx_height ctx in
      res_bind (if height \<ge> csv_height p
          then (case parent_median_time_past ctx of None \<Rightarrow> Inl MissingMedianTimePast | Some t \<Rightarrow> Inr t)
          else Inr (hdr_time (blk_header b)))
      (\<lambda>locktime_cutoff.
        if list_ex (\<lambda>tx. \<not> is_final_tx tx height locktime_cutoff) (transactions b) then Inl TxNonFinal
        else if height \<ge> bip34_height p \<and> \<not> bip34_prefix_ok b height then Inl BadCbHeight
        else res_bind (witness_rules H b (height \<ge> segwit_height p)) (\<lambda>_.
          if block_weight b > MAX_BLOCK_WEIGHT then Inl BadBlkWeight else Inr ())))"

end
