(* ===== verification/Check_Props.thy ===== *)
theory Check_Props
  imports Check Script_Num Chain_Props
begin

text \<open>
  What the block and transaction checks guarantee: \<open>check_transaction\<close> against its rules in the plain,
  and that a block hash determines the block, transactions and witnesses, among the blocks the two
  checks accept.
\<close>

section \<open>Transactions\<close>

lemma value_loop_iff:
  assumes "0 \<le> acc" "acc \<le> MAX_MONEY"
  shows "is_ok (value_loop outs acc) \<longleftrightarrow>
    (\<forall>out \<in> set outs. 0 \<le> out_value out \<and> out_value out \<le> MAX_MONEY) \<and>
    acc + sum_list (map out_value outs) \<le> MAX_MONEY"
  using assms
proof (induction outs arbitrary: acc)
  case (Cons out rest)
  show ?case
  proof (cases "0 \<le> out_value out \<and> out_value out \<le> MAX_MONEY")
    case True
    with Cons.prems have i64: "in_i64 (acc + out_value out)"
      by (auto simp: in_i64_def i64_min_def i64_max_def MAX_MONEY_def)
    show ?thesis
    proof (cases "acc + out_value out \<le> MAX_MONEY")
      case le: True
      then show ?thesis
        using Cons.IH [of "acc + out_value out"] Cons.prems True i64
        by (auto simp: checked_add_i64_def add.assoc)
    next
      case False
      have "(\<forall>o1 \<in> set rest. 0 \<le> out_value o1) \<Longrightarrow> 0 \<le> sum_list (map out_value rest)"
        by (rule sum_list_nonneg) auto
      with False True i64 show ?thesis by (auto simp: checked_add_i64_def)
    qed
  qed auto
qed simp

lemma duplicate_loop_iff:
  "is_ok (duplicate_loop is seen) \<longleftrightarrow>
   distinct (map previous_output is) \<and> set (map previous_output is) \<inter> seen = {}"
  by (induction "is" arbitrary: seen) auto

lemma is_ok_res_bind: "is_ok (res_bind r (\<lambda>_. s)) \<longleftrightarrow> is_ok r \<and> is_ok s"
  by (cases r) auto

definition tx_rules :: "transaction \<Rightarrow> bool" where
  "tx_rules tx \<longleftrightarrow>
     inputs tx \<noteq> [] \<and> outputs tx \<noteq> [] \<and>
     length (write_without_witness tx) * WITNESS_SCALE_FACTOR \<le> MAX_BLOCK_WEIGHT \<and>
     (\<forall>out \<in> set (outputs tx). 0 \<le> out_value out \<and> out_value out \<le> MAX_MONEY) \<and>
     sum_list (map out_value (outputs tx)) \<le> MAX_MONEY \<and>
     distinct (map previous_output (inputs tx)) \<and>
     (if is_coinbase tx
      then 2 \<le> length (script_sig (inputs tx ! 0)) \<and> length (script_sig (inputs tx ! 0)) \<le> 100
      else \<forall>i \<in> set (inputs tx). \<not> is_null (previous_output i))"

lemma check_transaction_rules:
  assumes "tx_valid tx"
  shows "is_ok (check_transaction tx) \<longleftrightarrow> tx_rules tx"
proof -
  have "size_without_witness tx = length (write_without_witness tx)"
    using assms by (intro size_without_witness_length) (auto simp: tx_valid_def txin_valid_def)
  then show ?thesis
    by (auto simp: check_transaction_def tx_rules_def is_ok_res_bind value_loop_iff duplicate_loop_iff
        MAX_MONEY_def list_ex_iff Let_def)
qed

section \<open>Roots of lists of any length\<close>

lemma next_level_inj_len:
  assumes "hash_apart H (level_inputs xs) (level_inputs ys)" "all32 xs" "all32 ys"
    and "length xs = length ys" "next_level H xs = next_level H ys"
  shows "xs = ys"
proof -
  have "as_pairs (pad_odd xs) = as_pairs (pad_odd ys)"
    using assms by (intro map_hash_pair_inj [of H])
      (simp_all add: next_level_def level_inputs_def pairs32_as_pairs all32_pad_odd
        del: pairs32.simps)
  then have "pad_odd xs = pad_odd ys" by (simp add: as_pairs_inj)
  then show ?thesis using assms(4) by (auto simp: pad_odd_def split: if_splits)
qed

lemma ref_root_same_length:
  assumes "hash_fns_ok H"
  shows "hash_apart H (merkle_inputs H xs) (merkle_inputs H ys) \<Longrightarrow> all32 xs \<Longrightarrow> all32 ys \<Longrightarrow>
    length xs = length ys \<Longrightarrow> fst (ref_root H xs) = fst (ref_root H ys) \<Longrightarrow> xs = ys"
proof (induction "length xs" arbitrary: xs ys rule: less_induct)
  case less
  show ?case
  proof (cases "length xs > 1")
    case True
    with less.prems have apart: "hash_apart H (level_inputs xs) (level_inputs ys)"
      "hash_apart H (merkle_inputs H (next_level H xs)) (merkle_inputs H (next_level H ys))"
      using hash_apart_append [of H "level_inputs xs" _ "level_inputs ys"]
      by (simp_all add: merkle_inputs.simps [of H xs] merkle_inputs.simps [of H ys])
    have "next_level H xs = next_level H ys"
      by (rule less.hyps [OF _ apart(2)])
        (use True less.prems all32_next_level [OF assms] in
          \<open>simp_all add: ref_root.simps [of H xs] ref_root.simps [of H ys] case_prod_beta\<close>)
    then show ?thesis using next_level_inj_len apart(1) less.prems(2-4) by blast
  next
    case False
    with less.prems(4,5) show ?thesis
      by (cases xs; cases ys) (auto simp: ref_root.simps)
  qed
qed

text \<open>A root reached over more levels makes the shorter list's first leaf the hash of an inner node.\<close>

lemma ref_root_taller:
  assumes "hash_fns_ok H" "all32 ys" "ys \<noteq> []" "ref_root H ys = (r, False)"
  shows "hash_apart H (merkle_inputs H xs) (merkle_inputs H ys) \<Longrightarrow> all32 xs \<Longrightarrow> xs \<noteq> [] \<Longrightarrow>
    levels (length xs) = k + levels (length ys) \<Longrightarrow> ref_root H xs = (r, False) \<Longrightarrow>
    k = 0 \<and> xs = ys \<or> (\<exists>u \<in> set (merkle_inputs H xs). length u = 64 \<and> hd ys = sha256d H u)"
proof (induction k arbitrary: xs)
  case 0
  then show ?case using ref_root_binding [OF assms(1), of xs ys r] assms by auto
next
  case (Suc k)
  have len: "length xs > 1"
  proof (rule ccontr)
    assume "\<not> length xs > 1"
    with Suc.prems(4) show False by simp
  qed
  have sub: "set (merkle_inputs H xs) = set (level_inputs xs) \<union> set (merkle_inputs H (next_level H xs))"
    using len by (simp add: merkle_inputs.simps [of H xs])
  have apart: "hash_apart H (merkle_inputs H (next_level H xs)) (merkle_inputs H ys)"
    using Suc.prems(1) sub by (auto simp: hash_apart_def)
  have ne: "next_level H xs \<noteq> []" using len by (auto simp flip: length_0_conv)
  have n: "levels (length (next_level H xs)) = k + levels (length ys)" using Suc.prems(4) len by simp
  have root: "ref_root H (next_level H xs) = (r, False)"
    using Suc.prems(5) len by (auto simp: ref_root.simps [of H xs] Let_def split: prod.splits)
  from Suc.IH [OF apart all32_next_level [OF assms(1)] ne n root] show ?case
  proof
    assume *: "k = 0 \<and> next_level H xs = ys"
    obtain a b ps where ps: "as_pairs (pad_odd xs) = (a, b) # ps"
      using ne by (cases "as_pairs (pad_odd xs)") (auto simp: next_level_def)
    have "pairs32 (as_pairs (pad_odd xs))" using Suc.prems(2) by (intro pairs32_as_pairs all32_pad_odd)
    with ps have "length (a @ b) = 64" "a @ b \<in> set (level_inputs xs)"
      by (simp_all add: level_inputs_def)
    moreover have "hd ys = sha256d H (a @ b)"
      using * ps by (auto simp: next_level_def hash_merkle_pair_def)
    ultimately show ?thesis using sub by blast
  next
    assume "\<exists>u \<in> set (merkle_inputs H (next_level H xs)). length u = 64 \<and> hd ys = sha256d H u"
    then show ?thesis using sub by blast
  qed
qed

section \<open>A block hash determines the block\<close>

definition strip_tx :: "transaction \<Rightarrow> transaction" where
  "strip_tx tx = tx\<lparr>inputs := map no_wit (inputs tx)\<rparr>"

lemma strip_tx_valid: "tx_valid tx \<Longrightarrow> tx_valid (strip_tx tx)"
  by (auto simp: tx_valid_def strip_tx_def no_wit_def txin_valid_def witness_valid_def fits_def)

lemma strip_tx_encode: "write_with_witness (strip_tx tx) = write_without_witness tx"
proof -
  have "\<not> has_witness (strip_tx tx)" by (auto simp: has_witness_def strip_tx_def no_wit_def list_ex_iff)
  moreover have "write_without_witness (strip_tx tx) = write_without_witness tx"
    by (simp add: write_without_witness_def strip_tx_def)
  ultimately show ?thesis by (simp add: write_with_witness_def)
qed

lemma write_without_witness_inj:
  assumes "tx_valid tx" "tx_valid tx'" "write_without_witness tx = write_without_witness tx'"
  shows "strip_tx tx = strip_tx tx'"
  using tx.write_inj [of "strip_tx tx" "strip_tx tx'"] assms by (simp add: strip_tx_valid strip_tx_encode)

lemma strip_tx_id: "\<not> has_witness tx \<Longrightarrow> strip_tx tx = tx"
proof -
  assume "\<not> has_witness tx"
  then have "map no_wit (inputs tx) = inputs tx"
    by (intro map_idI) (auto simp: has_witness_def no_wit_def list_ex_iff)
  then show ?thesis by (simp add: strip_tx_def)
qed

lemma map_hash_inj:
  "hash_apart H (map w xs) (map w ys) \<Longrightarrow> map (\<lambda>x. sha256d H (w x)) xs = map (\<lambda>x. sha256d H (w x)) ys \<Longrightarrow>
   map w xs = map w ys"
proof (induction xs arbitrary: ys)
  case (Cons x xs)
  then obtain y ys' where ys: "ys = y # ys'" by (cases ys) auto
  with Cons.prems have "sha256d H (w x) = sha256d H (w y)" "hash_apart H (map w xs) (map w ys')"
    "w x = w y" by (auto dest!: hash_apart_Cons)
  with Cons.IH [of ys'] Cons.prems(2) ys show ?case by simp
qed auto

text \<open>Every string hashed to tie a block to its hash: the header, the two trees and their leaves, the
  witness commitment.\<close>

definition witness_leaves :: "hash_fns \<Rightarrow> block \<Rightarrow> hash32 list" where
  "witness_leaves H b = replicate 32 0 # map (wtxid H) (drop 1 (transactions b))"

definition reserved_value :: "block \<Rightarrow> bytes" where
  "reserved_value b = witness (inputs (transactions b ! 0) ! 0) ! 0"

definition block_strings :: "hash_fns \<Rightarrow> block \<Rightarrow> bytes list" where
  "block_strings H b =
     header_write (blk_header b) # map write_without_witness (transactions b) @
     merkle_inputs H (map (txid H) (transactions b)) @ map tx_encode (drop 1 (transactions b)) @
     merkle_inputs H (witness_leaves H b) @ [witness_merkle_root H b @ reserved_value b]"

lemma hash_apart_sym: "hash_apart H us vs \<Longrightarrow> hash_apart H vs us"
  unfolding hash_apart_def by metis

lemma hash_apartD:
  "hash_apart H us vs \<Longrightarrow> u \<in> set us \<Longrightarrow> v \<in> set vs \<Longrightarrow> sha256d H u = sha256d H v \<Longrightarrow> u = v"
  by (auto simp: hash_apart_def)

lemma block_strings_apart:
  assumes "hash_apart H (block_strings H b) (block_strings H b')"
  shows "header_hash H (blk_header b) = header_hash H (blk_header b') \<Longrightarrow>
      header_write (blk_header b) = header_write (blk_header b')"
    and "hash_apart H (map write_without_witness (transactions b) @ merkle_inputs H (map (txid H) (transactions b)))
      (map write_without_witness (transactions b') @ merkle_inputs H (map (txid H) (transactions b')))"
    and "hash_apart H (map tx_encode (drop 1 (transactions b))) (map tx_encode (drop 1 (transactions b')))"
    and "hash_apart H (merkle_inputs H (witness_leaves H b)) (merkle_inputs H (witness_leaves H b'))"
    and "sha256d H (witness_merkle_root H b @ reserved_value b) = sha256d H (witness_merkle_root H b' @ reserved_value b') \<Longrightarrow>
      witness_merkle_root H b @ reserved_value b = witness_merkle_root H b' @ reserved_value b'"
proof -
  show "header_write (blk_header b) = header_write (blk_header b')"
    if "header_hash H (blk_header b) = header_hash H (blk_header b')"
    by (rule hash_apartD [OF assms])
      (use that in \<open>simp_all add: block_strings_def header_hash_def header_encode_def\<close>)
  show "witness_merkle_root H b @ reserved_value b = witness_merkle_root H b' @ reserved_value b'"
    if "sha256d H (witness_merkle_root H b @ reserved_value b) = sha256d H (witness_merkle_root H b' @ reserved_value b')"
    by (rule hash_apartD [OF assms _ _ that]) (simp_all add: block_strings_def)
qed (auto simp: block_strings_def intro!: hash_apart_sub [OF assms])

text \<open>The transactions without their witnesses: two trees of one root over transactions none of which
  is as long as an inner node.\<close>

lemma txids_bind:
  assumes "hash_fns_ok H"
    and apart: "hash_apart H (map write_without_witness txs @ merkle_inputs H (map (txid H) txs))
      (map write_without_witness txs' @ merkle_inputs H (map (txid H) txs'))"
    and root: "merkle_root H (map (txid H) txs) = (r, False)" "merkle_root H (map (txid H) txs') = (r, False)"
    and ne: "txs \<noteq> []" "txs' \<noteq> []"
    and long: "\<forall>tx \<in> set txs \<union> set txs'. length (write_without_witness tx) \<noteq> 64"
    and valid: "\<forall>tx \<in> set txs \<union> set txs'. tx_valid tx"
  shows "map strip_tx txs = map strip_tx txs'"
proof -
  have ref: "ref_root H (map (txid H) txs) = (r, False)" "ref_root H (map (txid H) txs') = (r, False)"
    using root by (simp_all add: merkle_root_def merkle_root_ref [OF assms(1)])
  have a32: "all32 (map (txid H) ts)" for ts
    by (auto simp: all32_def txid_def hash_lengths [OF assms(1)])
  have apart_t: "hash_apart H (merkle_inputs H (map (txid H) txs)) (merkle_inputs H (map (txid H) txs'))"
    "hash_apart H (merkle_inputs H (map (txid H) txs')) (merkle_inputs H (map (txid H) txs))"
    using hash_apart_sub [OF apart] hash_apart_sub [OF hash_apart_sym [OF apart]] by auto
  have short: False if "u \<in> set (merkle_inputs H (map (txid H) ts))" "length u = 64"
      "hd (map (txid H) us) = sha256d H u" "us \<noteq> []"
      and t: "ts = txs \<and> us = txs' \<or> ts = txs' \<and> us = txs" for ts us u
  proof -
    have *: "sha256d H u = sha256d H (write_without_witness (hd us))" "hd us \<in> set us"
      using that by (simp_all add: txid_def hd_map)
    moreover from t consider "ts = txs" "us = txs'" | "ts = txs'" "us = txs" by blast
    then have "hash_apart H (merkle_inputs H (map (txid H) ts)) (map write_without_witness us)"
      by cases (use hash_apart_sub [OF apart] hash_apart_sub [OF hash_apart_sym [OF apart]] in auto)
    ultimately have "u = write_without_witness (hd us)"
      using hash_apartD [of H "merkle_inputs H (map (txid H) ts)" "map write_without_witness us" u] that(1) by simp
    with long t that(2) *(2) show False by auto
  qed
  have "map (txid H) txs = map (txid H) txs'"
  proof (cases "levels (length txs') \<le> levels (length txs)")
    case True
    then obtain k where "levels (length txs) = k + levels (length txs')" by (metis add.commute le_Suc_ex)
    with ref_root_taller [OF assms(1) a32 _ ref(2) apart_t(1) a32 _ _ ref(1), of k] ne short [of _ txs txs']
    show ?thesis by auto
  next
    case False
    then obtain k where "levels (length txs') = k + levels (length txs)" by (metis add.commute le_Suc_ex nat_le_linear)
    with ref_root_taller [OF assms(1) a32 _ ref(1) apart_t(2) a32 _ _ ref(2), of k] ne short [of _ txs' txs]
    show ?thesis by auto
  qed
  then have ids: "map (\<lambda>x. sha256d H (write_without_witness x)) txs = map (\<lambda>x. sha256d H (write_without_witness x)) txs'"
    by (simp add: txid_def [abs_def])
  have "hash_apart H (map write_without_witness txs) (map write_without_witness txs')"
    by (rule hash_apart_sub [OF apart]) auto
  from map_hash_inj [OF this ids] have w: "map write_without_witness txs = map write_without_witness txs'" .
  show ?thesis
  proof (rule nth_equalityI)
    show "length (map strip_tx txs) = length (map strip_tx txs')" using w by (metis length_map)
    fix i assume "i < length (map strip_tx txs)"
    moreover from this w have "write_without_witness (txs ! i) = write_without_witness (txs' ! i)" "i < length txs'"
      by (metis length_map nth_map)+
    ultimately show "map strip_tx txs ! i = map strip_tx txs' ! i"
      using write_without_witness_inj [of "txs ! i" "txs' ! i"] valid by simp
  qed
qed

lemma check_block_facts:
  assumes "check_block H S b p = Inr ()"
  shows "merkle_root H (map (txid H) (transactions b)) = (hdr_merkle_root (blk_header b), False)"
    and "transactions b \<noteq> []" and "is_coinbase (transactions b ! 0)"
  using assms
  by (auto simp: check_block_def block_merkle_root_def Let_def split: if_splits prod.splits)

lemma contextual_facts:
  assumes "contextual_check_block H b ctx = Inr ()"
  shows "witness_rules H b (ctx_height ctx \<ge> segwit_height (ctx_params ctx)) = Inr ()"
  using assms
  by (auto simp: contextual_check_block_def Let_def res_bind_eq_Inr split: if_splits option.splits)

lemma strip_tx_eq_fields:
  "strip_tx tx = strip_tx tx' \<Longrightarrow> outputs tx = outputs tx'"
  "strip_tx tx = strip_tx tx' \<Longrightarrow> length (inputs tx) = length (inputs tx')"
  by (auto simp: strip_tx_def dest: arg_cong [where f = outputs] arg_cong [where f = "length \<circ> inputs"])

lemma coinbase_eq:
  assumes "strip_tx tx = strip_tx tx'" "is_coinbase tx"
    and "witness (inputs tx ! 0) = witness (inputs tx' ! 0)"
  shows "tx = tx'"
proof -
  obtain i where i: "inputs tx = [i]" using assms(2) by (auto simp: is_coinbase_def length_Suc_conv)
  with strip_tx_eq_fields(2) [OF assms(1)] obtain j where j: "inputs tx' = [j]"
    by (cases "inputs tx'"; cases "tl (inputs tx')") auto
  have "no_wit i = no_wit j"
    using arg_cong [OF assms(1), of inputs] i j by (simp add: strip_tx_def)
  with assms(3) i j have "i = j" by (cases i; cases j) (simp add: no_wit_def)
  with i j arg_cong [OF assms(1), of tx_version] arg_cong [OF assms(1), of lock_time] strip_tx_eq_fields(1) [OF assms(1)]
  show ?thesis by (cases tx; cases tx') (simp add: strip_tx_def)
qed

lemma commitment_same:
  assumes "map strip_tx (transactions b) = map strip_tx (transactions b')"
  shows "witness_commitment_output b = witness_commitment_output b'"
  using assms by (cases "transactions b"; cases "transactions b'")
    (auto simp: witness_commitment_output_def dest: strip_tx_eq_fields(1))

lemma expected_commitment_Some:
  "expected_witness_commitment H b = Some e \<Longrightarrow> transactions b \<noteq> [] \<and>
   length (witness (inputs (transactions b ! 0) ! 0)) = 1 \<and> length (reserved_value b) = 32 \<and>
   e = sha256d H (witness_merkle_root H b @ reserved_value b)"
  by (auto simp: expected_witness_commitment_def reserved_value_def Let_def
      split: list.splits if_splits)

lemma witness_bind:
  assumes H: "hash_fns_ok H"
    and strips: "map strip_tx (transactions b) = map strip_tx (transactions b')"
    and rules: "witness_rules H b seg = Inr ()" "witness_rules H b' seg = Inr ()"
    and cb: "transactions b \<noteq> []" "is_coinbase (transactions b ! 0)"
    and valid: "\<forall>tx \<in> set (transactions b). tx_valid tx" "\<forall>tx \<in> set (transactions b'). tx_valid tx"
    and apart: "hash_apart H (block_strings H b) (block_strings H b')"
  shows "transactions b = transactions b'"
proof (cases "seg \<and> witness_commitment_output b \<noteq> None")
  case False
  with rules commitment_same [OF strips] have "\<forall>tx \<in> set (transactions b) \<union> set (transactions b'). \<not> has_witness tx"
    by (auto simp: witness_rules_def list_ex_iff split: option.splits if_splits)
  then have "map strip_tx (transactions b) = transactions b" "map strip_tx (transactions b') = transactions b'"
    by (auto intro: map_idI strip_tx_id)
  with strips show ?thesis by simp
next
  case True
  then obtain pos where pos: "witness_commitment_output b = Some pos" "witness_commitment_output b' = Some pos"
    using commitment_same [OF strips] by auto
  obtain tx ts where ts: "transactions b = tx # ts" using cb(1) by (cases "transactions b") auto
  with strips obtain tx' ts' where ts': "transactions b' = tx' # ts'" by (cases "transactions b'") auto
  have st: "strip_tx tx = strip_tx tx'" "map strip_tx ts = map strip_tx ts'" using strips ts ts' by simp_all
  obtain e where e: "expected_witness_commitment H b = Some e" "expected_witness_commitment H b' = Some e"
    using rules True pos strip_tx_eq_fields(1) [OF st(1)] ts ts'
    by (auto simp: witness_rules_def Let_def split: option.splits if_splits)
  note f = expected_commitment_Some [OF e(1)] and f' = expected_commitment_Some [OF e(2)]
  have "witness_merkle_root H b @ reserved_value b = witness_merkle_root H b' @ reserved_value b'"
    using block_strings_apart(5) [OF apart] f f' by simp
  then have root: "witness_merkle_root H b = witness_merkle_root H b'" and res: "reserved_value b = reserved_value b'"
    using f f' by simp_all
  have leaves: "all32 (witness_leaves H c)" for c
    by (auto simp: all32_def witness_leaves_def wtxid_def hash_lengths [OF H])
  have "length (witness_leaves H b) = length (witness_leaves H b')"
    using strips by (simp add: witness_leaves_def) (metis length_map)
  with root have "witness_leaves H b = witness_leaves H b'"
    by (intro ref_root_same_length [OF H block_strings_apart(4) [OF apart] leaves leaves])
      (simp_all add: witness_merkle_root_def witness_leaves_def merkle_root_def merkle_root_ref [OF H])
  then have ids: "map (\<lambda>x. sha256d H (tx_encode x)) ts = map (\<lambda>x. sha256d H (tx_encode x)) ts'"
    by (simp add: witness_leaves_def ts ts' wtxid_def [abs_def])
  have "hash_apart H (map tx_encode ts) (map tx_encode ts')"
    using block_strings_apart(3) [OF apart] ts ts' by simp
  from map_hash_inj [OF this ids] have enc: "map tx_encode ts = map tx_encode ts'" .
  have "ts = ts'"
  proof (rule nth_equalityI)
    show "length ts = length ts'" using enc by (metis length_map)
    fix i assume "i < length ts"
    moreover from this enc have "tx_encode (ts ! i) = tx_encode (ts' ! i)" "i < length ts'"
      by (metis length_map nth_map)+
    ultimately show "ts ! i = ts' ! i"
      using tx.write_inj [of "ts ! i" "ts' ! i"] valid ts ts' by (simp add: tx_encode_def)
  qed
  moreover have "tx = tx'"
  proof (rule coinbase_eq [OF st(1)])
    show "is_coinbase tx" using cb ts by simp
    obtain w w' where "witness (inputs tx ! 0) = [w]" "witness (inputs tx' ! 0) = [w']"
      using f f' ts ts' by (auto simp: length_Suc_conv)
    with res ts ts' show "witness (inputs tx ! 0) = witness (inputs tx' ! 0)" by (simp add: reserved_value_def)
  qed
  ultimately show ?thesis using ts ts' by simp
qed

section \<open>Heights in coinbases\<close>

lemma encode_num_small:
  assumes "17 \<le> v" "v < 2 ^ 32"
  shows "1 \<le> length (encode_script_num v)" "length (encode_script_num v) \<le> 5"
proof -
  have "encode_script_num v \<noteq> []" using num_of_encode [of v] assms by (auto simp: num_of_def magnitude_def)
  then show "1 \<le> length (encode_script_num v)" by (cases "encode_script_num v") auto
  show "length (encode_script_num v) \<le> 5"
    using length_encode_script_num [of v 4] assms by simp
qed

lemma push_int_large:
  assumes "17 \<le> v" "v < 2 ^ 32"
  shows "push_int v = word_of_nat (length (encode_script_num v)) # encode_script_num v"
  using encode_num_small [OF assms] assms
  by (auto simp: push_int_def push_slice_def Let_def MAX_DIRECT_PUSH_def)

lemma hd_push_int:
  assumes "0 \<le> v" "v < 2 ^ 32"
  shows "unat (hd (push_int v)) =
    (if v = 0 then 0 else if v \<le> 16 then 80 + nat v else length (encode_script_num v))"
proof (cases "17 \<le> v")
  case True
  then show ?thesis
    using encode_num_small [OF True assms(2)] assms
    by (simp add: push_int_large unat_of_nat_u8)
next
  case False
  with assms have "v = 0 \<or> v = 1 \<or> v = 2 \<or> v = 3 \<or> v = 4 \<or> v = 5 \<or> v = 6 \<or> v = 7 \<or> v = 8 \<or>
      v = 9 \<or> v = 10 \<or> v = 11 \<or> v = 12 \<or> v = 13 \<or> v = 14 \<or> v = 15 \<or> v = 16" by presburger
  then show ?thesis by (elim disjE) (simp_all add: push_int_def)
qed

lemma push_int_prefix:
  assumes "0 \<le> v" "v < 2 ^ 32" "0 \<le> w" "w < 2 ^ 32"
    and pre: "starts_with s (push_int v)" "starts_with s (push_int w)"
  shows "v = w"
proof -
  have ne: "push_int u \<noteq> []" if "0 \<le> u" "u < 2 ^ 32" for u
    using push_int_large [of u] that by (cases "17 \<le> u") (auto simp: push_int_def)
  have hd: "hd (push_int u) = hd s" if "0 \<le> u" "u < 2 ^ 32" "starts_with s (push_int u)" for u
    using ne [OF that(1,2)] that(3) by (cases s; cases "push_int u") (auto simp: starts_with_def)
  then have heads: "unat (hd (push_int v)) = unat (hd (push_int w))" using assms by metis
  show ?thesis
  proof (cases "17 \<le> v \<and> 17 \<le> w")
    case True
    then have v: "17 \<le> v" and w: "17 \<le> w" by simp_all
    have "length (encode_script_num v) = length (encode_script_num w)"
      using heads v w assms(2,4) by (simp add: hd_push_int)
    then have "length (push_int v) = length (push_int w)"
      by (simp add: push_int_large [OF v assms(2)] push_int_large [OF w assms(4)])
    with pre have "push_int v = push_int w" unfolding starts_with_def by metis
    then have "encode_script_num v = encode_script_num w"
      by (simp add: push_int_large [OF v assms(2)] push_int_large [OF w assms(4)])
    then show ?thesis by (metis num_of_encode)
  next
    case False
    have len: "1 \<le> length (encode_script_num u) \<and> length (encode_script_num u) \<le> 5"
      if "\<not> u \<le> 16" "u < 2 ^ 32" for u
      using encode_num_small [of u] that by simp
    have "(if v = 0 then 0 else if v \<le> 16 then 80 + nat v else length (encode_script_num v)) =
        (if w = 0 then 0 else if w \<le> 16 then 80 + nat w else length (encode_script_num w))"
      using heads hd_push_int [OF assms(1,2)] hd_push_int [OF assms(3,4)] by simp
    with False assms(1,3) len [OF _ assms(2)] len [OF _ assms(4)] show ?thesis
      by (cases "v \<le> 16"; cases "w \<le> 16"; cases "v = 0"; cases "w = 0") simp_all
  qed
qed

lemma contextual_height:
  assumes "contextual_check_block H b ctx = Inr ()" "bip34_height (ctx_params ctx) \<le> ctx_height ctx"
    and "transactions b = tx # txs" "inputs tx = i # is"
  shows "starts_with (script_sig i) (push_int (int (unat (ctx_height ctx))))"
  using assms
  by (auto simp: contextual_check_block_def bip34_prefix_ok_def Let_def res_bind_eq_Inr split: if_splits option.splits)

section \<open>A sample block\<close>

definition toy_secp :: "(bytes, bytes, bytes, bytes) secp" where
  "toy_secp = \<lparr>pubkey_compressed = Some, pubkey_uncompressed = Some, sig_from_der_lax = Some,
     normalize_s = id, ecdsa_verify = (\<lambda>sg msg key. sg = msg), xonly_from_bytes = Some,
     schnorr_from_bytes = id, schnorr_verify = (\<lambda>sg msg key. sg = msg),
     xonly_add_tweak = (\<lambda>key t. Some (t, True)), xonly_serialize = id\<rparr>"

definition sample_coinbase :: "u8 \<Rightarrow> i64 \<Rightarrow> transaction" where
  "sample_coinbase op v = \<lparr>tx_version = 1,
     inputs = [\<lparr>previous_output = \<lparr>op_txid = replicate 32 0, op_vout = 0xffffffff\<rparr>, script_sig = [op, 1],
       sequence = 0xffffffff, witness = []\<rparr>],
     outputs = [\<lparr>out_value = v, script_pubkey = []\<rparr>], lock_time = 0\<rparr>"

definition coinbase_block :: "u8 \<Rightarrow> i64 \<Rightarrow> block" where
  "coinbase_block op v = \<lparr>blk_header = sample_child\<lparr>hdr_merkle_root := [1, 0, 0, 0, 1] @ replicate 27 0\<rparr>,
     transactions = [sample_coinbase op v]\<rparr>"

definition early_context :: "u32 \<Rightarrow> block_context" where
  "early_context h = \<lparr>ctx_params = sample_params\<lparr>bip34_height := 1\<rparr>, ctx_height = h, parent_median_time_past = None\<rparr>"

lemma coinbase_bytes:
  "write_without_witness (sample_coinbase op v) =
   u32_le 1 @ [1] @ replicate 32 0 @ u32_le 0xffffffff @ [2, op, 1] @ u32_le 0xffffffff @ [1] @ i64_le v @
   [0] @ u32_le 0"
proof -
  have "write_compact_size 1 = [1]" "write_compact_size 2 = [2]" "write_compact_size 0 = [0]"
    by (simp_all add: write_compact_size_def)
  then show ?thesis
    by (simp add: write_without_witness_def sample_coinbase_def write_vec_def write_txin_no_witness_def
        write_txout_def write_var_bytes_def len_u64_def)
qed

lemma coinbase_txid: "txid toy_hashes (sample_coinbase op v) = [1, 0, 0, 0, 1] @ replicate 27 0"
proof -
  have "u32_le 1 = [1, 0, 0, 0]" by code_simp
  then show ?thesis
    by (simp add: txid_def coinbase_bytes sha256d_def toy_hashes_def toy_digest_def)
qed

lemma coinbase_valid: "in_i64 v \<Longrightarrow> tx_valid (sample_coinbase op v)"
  by (simp add: sample_coinbase_def tx_valid_def txin_valid_def txout_valid_def witness_valid_def
      Encode.fits_def)

lemma coinbase_no_witness: "\<not> has_witness (sample_coinbase op v)"
  by (simp add: has_witness_def sample_coinbase_def)

lemma coinbase_size:
  assumes "in_i64 v"
  shows "length (write_without_witness (sample_coinbase op v)) = 62"
    and "size_without_witness (sample_coinbase op v) = 62"
    and "size_with_witness (sample_coinbase op v) = 62"
proof -
  show w: "length (write_without_witness (sample_coinbase op v)) = 62"
    by (simp add: coinbase_bytes size_simps)
  show "size_without_witness (sample_coinbase op v) = 62"
    using size_without_witness_length [of "sample_coinbase op v"] coinbase_valid [OF assms] w
    by (simp add: tx_valid_def txin_valid_def)
  show "size_with_witness (sample_coinbase op v) = 62"
    using size_with_witness_length [of "sample_coinbase op v"] coinbase_valid [OF assms] w coinbase_no_witness
    by (simp add: tx_encode_def write_with_witness_def tx_valid_def txin_valid_def)
qed

lemma coinbase_sigops:
  assumes "op \<in> {0x51, 0x52}"
  shows "legacy_sig_op_count (sample_coinbase op v) = 0"
proof -
  have "sig_ops [0x51, 1] False = 0" "sig_ops [0x52, 1] False = 0" "sig_ops [] False = 0" by code_simp+
  with assms show ?thesis by (auto simp: legacy_sig_op_count_def sample_coinbase_def)
qed

lemma coinbase_is: "is_coinbase (sample_coinbase op v)"
  by (simp add: is_coinbase_def is_null_def sample_coinbase_def hash_is_zero_def)

lemma coinbase_rules: "0 \<le> v \<Longrightarrow> v \<le> MAX_MONEY \<Longrightarrow> tx_rules (sample_coinbase op v)"
  unfolding tx_rules_def coinbase_bytes
  by (simp add: size_simps MAX_BLOCK_WEIGHT_def WITNESS_SCALE_FACTOR_def coinbase_is)
    (simp add: sample_coinbase_def)

lemma coinbase_block_hash: "header_hash toy_hashes (blk_header (coinbase_block op v)) = sample_child_hash"
proof -
  have "header_hash toy_hashes (blk_header (coinbase_block op v)) = header_hash toy_hashes sample_child"
    by (subst (1 2) toy_header_hash) (simp_all add: coinbase_block_def sample_child_def sample_genesis_hash_def)
  then show ?thesis by (simp add: sample_hashes)
qed

lemma coinbase_block_checks:
  assumes "0 \<le> v" "v \<le> MAX_MONEY" "h = 1 \<and> op = 0x51 \<or> h = 2 \<and> op = 0x52"
  shows "block_valid (coinbase_block op v)"
    and "check_block toy_hashes toy_secp (coinbase_block op v) sample_params = Inr ()"
    and "contextual_check_block toy_hashes (coinbase_block op v) (early_context h) = Inr ()"
proof -
  have v: "in_i64 v" using assms by (simp add: in_i64_def i64_min_def i64_max_def MAX_MONEY_def)
  have heights: "signet_blocks sample_params = False" "csv_height sample_params = 419328"
    "segwit_height sample_params = 481824"
    by (simp_all add: sample_params_def mainnet_params_def)
  have early: "\<not> 419328 \<le> h" "\<not> 481824 \<le> h" using assms(3) by (auto simp: word_le_nat_alt)
  have sigops0: "legacy_sig_op_count (sample_coinbase op v) = 0"
    using coinbase_sigops [of op v] assms(3) by auto
  have prefix_ok: "bip34_prefix_ok (coinbase_block op v) h"
  proof -
    have "push_int 1 = [0x51]" "push_int 2 = [0x52]" by (simp_all add: push_int_def)
    with assms(3) show ?thesis
      by (auto simp: bip34_prefix_ok_def coinbase_block_def sample_coinbase_def starts_with_def)
  qed
  have b: "transactions (coinbase_block op v) = [sample_coinbase op v]" "hdr_bits (blk_header (coinbase_block op v)) = 0x1d00ffff"
    "hdr_merkle_root (blk_header (coinbase_block op v)) = [1, 0, 0, 0, 1] @ replicate 27 0"
    "length (header_write (blk_header (coinbase_block op v))) = 80"
    by (simp_all add: coinbase_block_def sample_child_def header_write_def sample_genesis_hash_def)
  show valid: "block_valid (coinbase_block op v)"
    using coinbase_valid [OF v]
    by (simp add: block_valid_def b Encode.fits_def header_valid_def)
      (simp add: coinbase_block_def sample_child_def sample_genesis_hash_def)
  have sizes: "block_size_without_witness (coinbase_block op v) \<le> 1000" "block_size_with_witness (coinbase_block op v) \<le> 1000"
    by (simp_all add: block_size_without_witness_def block_size_with_witness_def b coinbase_size [OF v]
        HEADER_SIZE_def compact_size_len_def len_u64_def)
  have root: "block_merkle_root toy_hashes (coinbase_block op v) = ([1, 0, 0, 0, 1] @ replicate 27 0, False)"
    by (simp add: block_merkle_root_def b coinbase_txid merkle_root_def merkle_root_ref [OF toy_hashes_ok]
        ref_root.simps)
  have tx: "check_transaction (sample_coinbase op v) = Inr ()"
    using check_transaction_rules [OF coinbase_valid [OF v]] coinbase_rules [OF assms(1,2)] by (auto simp: is_ok_iff)
  show "check_block toy_hashes toy_secp (coinbase_block op v) sample_params = Inr ()"
    using sizes(1)
    by (simp add: check_block_def block_hash_def coinbase_block_hash b sample_pow heights root tx coinbase_is sigops0
        WITNESS_SCALE_FACTOR_def MAX_BLOCK_WEIGHT_def)
  show "contextual_check_block toy_hashes (coinbase_block op v) (early_context h) = Inr ()"
    using sizes assms(3)
    by (simp add: contextual_check_block_def early_context_def heights b witness_rules_def coinbase_no_witness
        is_final_tx_def block_weight_def MAX_BLOCK_WEIGHT_def Let_def early prefix_ok)
      (simp add: sample_coinbase_def)
qed

section \<open>Properties\<close>

text \<open>C29: \<open>check_transaction\<close> accepts exactly the transactions that have inputs and outputs, fit a
  block without their witnesses, pay amounts in range that sum up in range, spend no output twice, and
  whose null outpoints are a coinbase's with a script of 2 to 100 bytes.\<close>

theorem check_transaction_iff:
  assumes "tx_valid tx"
  shows "check_transaction tx = Inr () \<longleftrightarrow> tx_rules tx"
  using check_transaction_rules [OF assms] by (auto simp: is_ok_iff)

text \<open>Witness of C29: the sample spends one output; doubling its input is refused.\<close>

lemma check_transaction_iff_witness:
  "check_transaction segwit_sample = Inr () \<and>
   check_transaction (segwit_sample\<lparr>inputs := inputs segwit_sample @ inputs segwit_sample\<rparr>) \<noteq> Inr ()"
proof -
  let ?twice = "segwit_sample\<lparr>inputs := inputs segwit_sample @ inputs segwit_sample\<rparr>"
  have "tx_valid segwit_sample" "tx_valid ?twice"
    by (simp_all add: segwit_sample_def tx_valid_def txin_valid_def txout_valid_def witness_valid_def
        fits_def in_i64_def i64_min_def i64_max_def)
  moreover have "tx_rules segwit_sample"
    by (simp add: tx_rules_def segwit_sample_def write_without_witness_def write_vec_def
        write_txin_no_witness_def write_txout_def length_write_var_bytes size_simps compact_size_len_def
        len_u64_def WITNESS_SCALE_FACTOR_def MAX_BLOCK_WEIGHT_def MAX_MONEY_def is_coinbase_def is_null_def)
  moreover have "\<not> tx_rules ?twice" by (simp add: tx_rules_def segwit_sample_def)
  ultimately show ?thesis using check_transaction_iff [of segwit_sample] check_transaction_iff [of ?twice] by simp
qed

text \<open>C28: A block hash determines the block. Two well-formed blocks of one hash that the context-free
  and the header-context checks accept at one position, none of whose transactions is exactly as long
  as an inner node of the tree, are the same block, header, transactions and witnesses, or one string
  hashed for the one collides with a different string hashed for the other.\<close>

theorem block_hash_determines_block:
  assumes "hash_fns_ok H" "block_valid b" "block_valid b'" "block_hash H b = block_hash H b'"
    and "check_block H S b p = Inr ()" "check_block H S b' p = Inr ()"
    and "contextual_check_block H b ctx = Inr ()" "contextual_check_block H b' ctx = Inr ()"
    and "\<forall>tx \<in> set (transactions b) \<union> set (transactions b'). length (write_without_witness tx) \<noteq> 64"
  shows "b = b' \<or> \<not> hash_apart H (block_strings H b) (block_strings H b')"
proof (rule disjCI)
  assume "\<not> \<not> hash_apart H (block_strings H b) (block_strings H b')"
  then have apart: "hash_apart H (block_strings H b) (block_strings H b')" by simp
  have valid: "\<forall>tx \<in> set (transactions b) \<union> set (transactions b'). tx_valid tx"
    using assms(2,3) by (auto simp: block_valid_def)
  have "header_write (blk_header b) = header_write (blk_header b')"
    using block_strings_apart(1) [OF apart] assms(4) by (simp add: block_hash_def)
  then have h: "blk_header b = blk_header b'"
    using header.write_inj assms(2,3) by (simp add: block_valid_def)
  note f = check_block_facts [OF assms(5)] and f' = check_block_facts [OF assms(6)]
  have "map strip_tx (transactions b) = map strip_tx (transactions b')"
    by (rule txids_bind [OF assms(1) block_strings_apart(2) [OF apart] f(1) _ f(2) f'(2) assms(9) valid])
      (use f'(1) h in simp)
  then have "transactions b = transactions b'"
    using witness_bind [OF assms(1) _ contextual_facts [OF assms(7)] contextual_facts [OF assms(8)] f(2,3) _ _ apart]
      assms(2,3) by (simp add: block_valid_def)
  with h show "b = b'" by simp
qed

text \<open>Witness of C28: two blocks of one coinbase each, which differ in its amount alone; under the toy
  digest, which keeps the first 32 bytes, they have one hash, and so a collision.\<close>

lemma block_hash_determines_block_witness:
  "block_hash toy_hashes (coinbase_block 0x51 0) = block_hash toy_hashes (coinbase_block 0x51 1) \<and>
   check_block toy_hashes toy_secp (coinbase_block 0x51 0) sample_params = Inr () \<and>
   \<not> hash_apart toy_hashes (block_strings toy_hashes (coinbase_block 0x51 0)) (block_strings toy_hashes (coinbase_block 0x51 1))"
proof -
  note c = coinbase_block_checks [of 0 1 "0x51"] coinbase_block_checks [of 1 1 "0x51"]
  have eq: "block_hash toy_hashes (coinbase_block 0x51 0) = block_hash toy_hashes (coinbase_block 0x51 1)"
    by (simp add: block_hash_def coinbase_block_hash)
  have len: "\<forall>tx \<in> set (transactions (coinbase_block 0x51 0)) \<union> set (transactions (coinbase_block 0x51 1)).
      length (write_without_witness tx) \<noteq> 64"
    by (simp add: coinbase_block_def coinbase_size in_i64_def i64_min_def i64_max_def)
  have "coinbase_block 0x51 0 \<noteq> coinbase_block 0x51 1" by (simp add: coinbase_block_def sample_coinbase_def)
  with block_hash_determines_block [OF toy_hashes_ok c(1,4) eq c(2,5,3,6) len] eq c(2)
  show ?thesis by (simp add: MAX_MONEY_def)
qed

text \<open>C30: Heights in coinbases (BIP34). Two accepted blocks at or above the activation height whose
  coinbases have one transaction identifier are at one height, or the identifiers are a collision.\<close>

theorem bip34_unique_height:
  assumes "hash_fns_ok H" "block_valid b" "block_valid b'"
    and "check_block H S b p = Inr ()" "check_block H S b' p' = Inr ()"
    and "contextual_check_block H b ctx = Inr ()" "contextual_check_block H b' ctx' = Inr ()"
    and "bip34_height (ctx_params ctx) \<le> ctx_height ctx" "bip34_height (ctx_params ctx') \<le> ctx_height ctx'"
    and "txid H (transactions b ! 0) = txid H (transactions b' ! 0)"
  shows "ctx_height ctx = ctx_height ctx' \<or>
    \<not> hash_apart H [write_without_witness (transactions b ! 0)] [write_without_witness (transactions b' ! 0)]"
proof (rule disjCI)
  assume "\<not> \<not> hash_apart H [write_without_witness (transactions b ! 0)] [write_without_witness (transactions b' ! 0)]"
  then have w: "write_without_witness (transactions b ! 0) = write_without_witness (transactions b' ! 0)"
    using assms(10) by (auto simp: hash_apart_def txid_def)
  have ne: "transactions b \<noteq> []" "transactions b' \<noteq> []"
    using check_block_facts(2) [OF assms(4)] check_block_facts(2) [OF assms(5)] by simp_all
  then obtain tx txs tx' txs' where ts: "transactions b = tx # txs" "transactions b' = tx' # txs'"
    by (metis neq_Nil_conv)
  have strip: "strip_tx tx = strip_tx tx'"
    using write_without_witness_inj [of tx tx'] w ts assms(2,3) by (simp add: block_valid_def)
  obtain i "is" where i: "inputs tx = i # is"
    using check_block_facts(3) [OF assms(4)] ts by (cases "inputs tx") (auto simp: is_coinbase_def)
  obtain i' is' where i': "inputs tx' = i' # is'"
    using check_block_facts(3) [OF assms(5)] ts by (cases "inputs tx'") (auto simp: is_coinbase_def)
  have "script_sig i = script_sig i'"
    using arg_cong [OF strip, of inputs] i i'
    by (cases i; cases i') (simp add: strip_tx_def no_wit_def)
  moreover have "int (unat w) < 2 ^ 32" for w :: u32 using uint_bounded [of w] by simp
  ultimately have "int (unat (ctx_height ctx)) = int (unat (ctx_height ctx'))"
    using contextual_height [OF assms(6,8) ts(1) i] contextual_height [OF assms(7,9) ts(2) i']
    by (intro push_int_prefix) simp_all
  then show "ctx_height ctx = ctx_height ctx'" by (simp add: word_uint_eq_iff)
qed

text \<open>Witness of C30: two blocks of one coinbase, at heights 1 and 2; under the toy digest their
  coinbases collide.\<close>

lemma bip34_unique_height_witness:
  "txid toy_hashes (transactions (coinbase_block 0x51 0) ! 0) = txid toy_hashes (transactions (coinbase_block 0x52 1) ! 0) \<and>
   ctx_height (early_context 1) \<noteq> ctx_height (early_context 2) \<and>
   \<not> hash_apart toy_hashes [write_without_witness (transactions (coinbase_block 0x51 0) ! 0)]
      [write_without_witness (transactions (coinbase_block 0x52 1) ! 0)]"
proof -
  note c = coinbase_block_checks [of 0 1 "0x51"] coinbase_block_checks [of 1 2 "0x52"]
  have eq: "txid toy_hashes (transactions (coinbase_block 0x51 0) ! 0) = txid toy_hashes (transactions (coinbase_block 0x52 1) ! 0)"
    by (simp add: coinbase_block_def coinbase_txid)
  have bip34: "bip34_height (ctx_params (early_context h)) \<le> ctx_height (early_context h)" if "h = 1 \<or> h = 2" for h
    using that by (auto simp: early_context_def)
  have "ctx_height (early_context 1) \<noteq> ctx_height (early_context 2)" by (simp add: early_context_def)
  with bip34_unique_height [OF toy_hashes_ok c(1,4,2,5,3,6) bip34 bip34 eq] eq show ?thesis
    by (simp add: MAX_MONEY_def)
qed

end
