(* ===== verification/Coin_Cache.thy ===== *)
theory Coin_Cache
  imports Transaction "HOL-Library.Monad_Syntax"
begin

text \<open>
  Coins, and the bounded cache of clean ones that \<open>UtxoSet\<close> of \<open>connect.rs\<close> keeps in front of
  its backend (\<open>CleanCoinCache\<close>): a map with a queue of insertions and a budget of bytes, entries and
  queue length. Its eviction loop ends because every cached coin is somewhere in the queue.
\<close>

section \<open>Computations that return\<close>

text \<open>Where a loop may not end, a computation is an option and \<open>None\<close> stands for the loop. That it
  returns, and with what, is one statement.\<close>

definition returns :: "'a option \<Rightarrow> ('a \<Rightarrow> bool) \<Rightarrow> bool" where
  "returns m Q \<longleftrightarrow> (case m of None \<Rightarrow> False | Some x \<Rightarrow> Q x)"

lemma returns_Some [simp]: "returns (Some x) Q \<longleftrightarrow> Q x"
  by (simp add: returns_def)

lemma returns_None [simp]: "\<not> returns None Q"
  by (simp add: returns_def)

lemma returns_bind [simp]: "returns (m \<bind> f) Q \<longleftrightarrow> returns m (\<lambda>x. returns (f x) Q)"
  by (cases m) simp_all

lemma returns_mono: "returns m P \<Longrightarrow> (\<And>x. P x \<Longrightarrow> Q x) \<Longrightarrow> returns m Q"
  by (cases m) simp_all

lemma returns_conj: "returns m P \<Longrightarrow> returns m Q \<Longrightarrow> returns m (\<lambda>x. P x \<and> Q x)"
  by (cases m) simp_all

lemma returnsE:
  assumes "returns m Q"
  obtains x where "m = Some x" "Q x"
  using assms by (cases m) simp_all

lemma returnsI: "m = Some x \<Longrightarrow> Q x \<Longrightarrow> returns m Q"
  by simp

lemma returns_eqD: "returns m Q \<Longrightarrow> m = Some x \<Longrightarrow> Q x"
  by simp

section \<open>Coins\<close>

record coin =
  coin_out :: tx_out
  coin_height :: u32
  coin_coinbase :: bool

definition entry_bytes :: "coin option \<Rightarrow> nat" where
  "entry_bytes c = 36 + 8 + (case c of None \<Rightarrow> 32 | Some c \<Rightarrow> length (script_pubkey (coin_out c))) + 64"

section \<open>The clean cache\<close>

record clean_entry =
  entry_coin :: coin
  entry_generation :: u64
  entry_size :: nat

record clean_cache =
  cc_coins :: "out_point \<Rightarrow> clean_entry option"
  cc_order :: "(out_point \<times> u64) list"
  cc_bytes :: nat
  cc_next_generation :: u64

definition clean_empty :: clean_cache where
  "clean_empty = \<lparr>cc_coins = Map.empty, cc_order = [], cc_bytes = 0, cc_next_generation = 0\<rparr>"

definition BYTE_BUDGET :: nat where "BYTE_BUDGET = 16 * 1024 * 1024"
definition ENTRY_BUDGET :: nat where "ENTRY_BUDGET = 4096"
definition QUEUE_BUDGET :: nat where "QUEUE_BUDGET = ENTRY_BUDGET * 2"

definition clean_get :: "clean_cache \<Rightarrow> out_point \<Rightarrow> coin option" where
  "clean_get c outpoint = map_option entry_coin (cc_coins c outpoint)"

definition clean_invalidate :: "clean_cache \<Rightarrow> out_point \<Rightarrow> clean_cache" where
  "clean_invalidate c outpoint =
     (case cc_coins c outpoint of
        None \<Rightarrow> c
      | Some old \<Rightarrow> c\<lparr>cc_coins := (cc_coins c)(outpoint := None), cc_bytes := cc_bytes c - entry_size old\<rparr>)"

definition clean_take :: "clean_cache \<Rightarrow> out_point \<Rightarrow> coin option \<times> clean_cache" where
  "clean_take c outpoint =
     (case cc_coins c outpoint of
        None \<Rightarrow> (None, c)
      | Some e \<Rightarrow> (Some (entry_coin e),
          c\<lparr>cc_coins := (cc_coins c)(outpoint := None), cc_bytes := cc_bytes c - entry_size e\<rparr>))"

text \<open>The condition and the body of the eviction loop. The loop runs on an empty queue too.\<close>

definition over_budgets :: "clean_cache \<Rightarrow> bool" where
  "over_budgets c \<longleftrightarrow> cc_bytes c > BYTE_BUDGET \<or> card (dom (cc_coins c)) > ENTRY_BUDGET \<or>
     length (cc_order c) > QUEUE_BUDGET"

definition evict_one :: "clean_cache \<Rightarrow> clean_cache" where
  "evict_one c =
     (case cc_order c of
        [] \<Rightarrow> c
      | (oldest, generation) # rest \<Rightarrow>
          let c = c\<lparr>cc_order := rest\<rparr>
          in (case cc_coins c oldest of
                None \<Rightarrow> c
              | Some removed \<Rightarrow>
                  if entry_generation removed = generation
                  then c\<lparr>cc_coins := (cc_coins c)(oldest := None), cc_bytes := cc_bytes c - entry_size removed\<rparr>
                  else c))"

partial_function (option) evict_loop :: "clean_cache \<Rightarrow> clean_cache option" where
  "evict_loop c = (if over_budgets c then evict_loop (evict_one c) else Some c)"

definition clean_insert :: "clean_cache \<Rightarrow> out_point \<Rightarrow> coin \<Rightarrow> clean_cache option" where
  "clean_insert c outpoint coin =
     (let c = clean_invalidate c outpoint;
          bs = entry_bytes (Some coin)
      in if bs > BYTE_BUDGET then Some c
         else
           let generation = max (cc_next_generation c + 1) 1
           in evict_loop (c\<lparr>cc_next_generation := generation, cc_bytes := cc_bytes c + bs,
                cc_coins := (cc_coins c)(outpoint \<mapsto> \<lparr>entry_coin = coin, entry_generation = generation, entry_size = bs\<rparr>),
                cc_order := cc_order c @ [(outpoint, generation)]\<rparr>))"

section \<open>The cache's invariant\<close>

definition cached_bytes :: "clean_cache \<Rightarrow> nat" where
  "cached_bytes c = (\<Sum>op \<in> dom (cc_coins c). entry_size (the (cc_coins c op)))"

text \<open>Every cached coin waits in the queue under its generation, and the byte count covers the cached
  bytes. It may be larger: attaching a backend empties the cache and keeps its count. What does not
  belong to cached coins fits the budget, so that an empty cache is within it.\<close>

definition clean_inv :: "clean_cache \<Rightarrow> bool" where
  "clean_inv c \<longleftrightarrow> finite (dom (cc_coins c)) \<and>
     (\<forall>op e. cc_coins c op = Some e \<longrightarrow> (op, entry_generation e) \<in> set (cc_order c)) \<and>
     cached_bytes c \<le> cc_bytes c \<and> cc_bytes c \<le> cached_bytes c + BYTE_BUDGET"

definition clean_ok :: "clean_cache \<Rightarrow> bool" where
  "clean_ok c \<longleftrightarrow> clean_inv c \<and> \<not> over_budgets c"

lemma clean_empty_ok [simp]: "clean_ok clean_empty"
  by (simp add: clean_ok_def clean_inv_def cached_bytes_def clean_empty_def over_budgets_def
      ENTRY_BUDGET_def QUEUE_BUDGET_def)

lemma clean_inv_dest:
  assumes "clean_inv c"
  shows "finite (dom (cc_coins c))"
    and "cc_coins c op = Some e \<Longrightarrow> (op, entry_generation e) \<in> set (cc_order c)"
    and "cached_bytes c \<le> cc_bytes c" "cc_bytes c \<le> cached_bytes c + BYTE_BUDGET"
  using assms by (auto simp: clean_inv_def)

lemma cached_bytes_remove:
  assumes "finite (dom (cc_coins c))" "cc_coins c op = Some e"
    and "cc_coins c' = (cc_coins c)(op := None)"
  shows "cached_bytes c = entry_size e + cached_bytes c'"
proof -
  have d: "op \<in> dom (cc_coins c)" "dom (cc_coins c') = dom (cc_coins c) - {op}" using assms by auto
  have "cached_bytes c' = (\<Sum>x \<in> dom (cc_coins c) - {op}. entry_size (the (cc_coins c x)))"
    unfolding cached_bytes_def d(2) by (rule sum.cong) (use assms(3) in auto)
  then show ?thesis
    using sum.remove [OF assms(1) d(1), of "\<lambda>x. entry_size (the (cc_coins c x))"] assms(2)
    by (simp add: cached_bytes_def)
qed

text \<open>Removing a cached coin: the shared step of every operation.\<close>

lemma clean_inv_remove:
  assumes "clean_inv c" "cc_coins c op = Some e"
    and "cc_coins c' = (cc_coins c)(op := None)" "cc_bytes c' = cc_bytes c - entry_size e"
    and "\<forall>p. p \<in> set (cc_order c) \<longrightarrow> p \<in> set (cc_order c') \<or> fst p = op"
  shows "clean_inv c'"
proof -
  note b = cached_bytes_remove [OF clean_inv_dest(1) [OF assms(1)] assms(2,3)]
  have "finite (dom (cc_coins c'))" using clean_inv_dest(1) [OF assms(1)] assms(3) by simp
  moreover have "(k, entry_generation x) \<in> set (cc_order c')" if "cc_coins c' k = Some x" for k x
    using clean_inv_dest(2) [OF assms(1), of k x] that assms(3,5) by (auto split: if_splits)
  ultimately show ?thesis
    using b assms(4) clean_inv_dest(3,4) [OF assms(1)] by (auto simp: clean_inv_def)
qed

lemma clean_invalidate_coins [simp]: "cc_coins (clean_invalidate c op) = (cc_coins c)(op := None)"
  by (auto simp: clean_invalidate_def split: option.splits)

lemma clean_invalidate_order [simp]: "cc_order (clean_invalidate c op) = cc_order c"
  by (simp add: clean_invalidate_def split: option.splits)

lemma clean_invalidate_inv: "clean_inv c \<Longrightarrow> clean_inv (clean_invalidate c op)"
  by (cases "cc_coins c op")
    (auto simp: clean_invalidate_def intro: clean_inv_remove [of c op])

lemma over_budgets_fewer:
  assumes "\<not> over_budgets c" "finite (dom (cc_coins c))" "dom (cc_coins c') \<subseteq> dom (cc_coins c)"
    and "cc_bytes c' \<le> cc_bytes c" "length (cc_order c') \<le> length (cc_order c)"
  shows "\<not> over_budgets c'"
  using assms card_mono [OF assms(2,3)] by (simp add: over_budgets_def)

lemma clean_invalidate_ok [simp, intro]: "clean_ok c \<Longrightarrow> clean_ok (clean_invalidate c op)"
proof -
  assume ok: "clean_ok c"
  have "cc_bytes (clean_invalidate c op) \<le> cc_bytes c"
    by (simp add: clean_invalidate_def split: option.splits)
  then have "\<not> over_budgets (clean_invalidate c op)"
    using ok by - (rule over_budgets_fewer [of c], auto simp: clean_ok_def clean_inv_def)
  with ok show ?thesis by (simp add: clean_ok_def clean_invalidate_inv)
qed

lemma clean_take_eq: "clean_take c op = (clean_get c op, clean_invalidate c op)"
  by (simp add: clean_take_def clean_get_def clean_invalidate_def split: option.splits)

section \<open>Eviction ends\<close>

lemma evict_one_cases:
  assumes "clean_inv c"
  shows "clean_inv (evict_one c)"
    and "cc_coins (evict_one c) \<subseteq>\<^sub>m cc_coins c"
    and "over_budgets c \<Longrightarrow> length (cc_order (evict_one c)) < length (cc_order c)"
proof -
  show "clean_inv (evict_one c)"
  proof (cases "cc_order c")
    case Nil
    with assms show ?thesis by (simp add: evict_one_def)
  next
    case (Cons p rest)
    obtain op g where p: "p = (op, g)" by (cases p)
    show ?thesis
    proof (cases "\<exists>e. cc_coins c op = Some e \<and> entry_generation e = g")
      case True
      then obtain e where e: "cc_coins c op = Some e" "entry_generation e = g" by blast
      show ?thesis
        by (rule clean_inv_remove [OF assms e(1)]) (use Cons p e in \<open>auto simp: evict_one_def\<close>)
    next
      case False
      then have "evict_one c = c\<lparr>cc_order := rest\<rparr>"
        using Cons p by (auto simp: evict_one_def Let_def split: option.splits)
      moreover have "(k, entry_generation x) \<in> set rest" if "cc_coins c k = Some x" for k x
        using clean_inv_dest(2) [OF assms that] Cons p False that by auto
      ultimately show ?thesis using assms by (simp add: clean_inv_def cached_bytes_def)
    qed
  qed
  show "cc_coins (evict_one c) \<subseteq>\<^sub>m cc_coins c"
    by (simp add: evict_one_def Let_def map_le_def split: list.splits option.splits prod.splits)
  show "length (cc_order (evict_one c)) < length (cc_order c)" if "over_budgets c"
  proof (cases "cc_order c")
    case Nil
    then have "dom (cc_coins c) = {}" using clean_inv_dest(2) [OF assms] by fastforce
    with Nil that clean_inv_dest(4) [OF assms] show ?thesis
      by (simp add: over_budgets_def cached_bytes_def ENTRY_BUDGET_def QUEUE_BUDGET_def)
  qed (auto simp: evict_one_def Let_def split: option.splits prod.splits)
qed

lemma evict_loop_returns:
  "clean_inv c \<Longrightarrow> returns (evict_loop c) (\<lambda>c'. clean_ok c' \<and> cc_coins c' \<subseteq>\<^sub>m cc_coins c)"
proof (induction "length (cc_order c)" arbitrary: c rule: less_induct)
  case less
  show ?case
  proof (cases "over_budgets c")
    case True
    note e = evict_one_cases [OF less.prems]
    have "returns (evict_loop (evict_one c)) (\<lambda>c'. clean_ok c' \<and> cc_coins c' \<subseteq>\<^sub>m cc_coins (evict_one c))"
      by (rule less.hyps [OF e(3) [OF True] e(1)])
    then have "returns (evict_loop (evict_one c)) (\<lambda>c'. clean_ok c' \<and> cc_coins c' \<subseteq>\<^sub>m cc_coins c)"
      by (rule returns_mono) (blast intro: map_le_trans e(2))
    with True show ?thesis by (simp add: evict_loop.simps [of c])
  next
    case False
    with less.prems show ?thesis by (simp add: evict_loop.simps [of c] clean_ok_def)
  qed
qed

text \<open>After an insertion a cached coin is the inserted one or was cached before.\<close>

lemma clean_insert_returns:
  assumes "clean_ok c"
  shows "returns (clean_insert c op coin) (\<lambda>c'. clean_ok c' \<and>
    (\<forall>k x. clean_get c' k = Some x \<longrightarrow> (if k = op then x = coin else clean_get c k = Some x)))"
proof (cases "entry_bytes (Some coin) > BYTE_BUDGET")
  case True
  then show ?thesis using assms by (auto simp: clean_insert_def clean_get_def)
next
  case False
  let ?d = "clean_invalidate c op" and ?g = "max (cc_next_generation (clean_invalidate c op) + 1) 1"
  let ?c = "?d\<lparr>cc_next_generation := ?g, cc_bytes := cc_bytes ?d + entry_bytes (Some coin),
      cc_coins := (cc_coins ?d)(op \<mapsto> \<lparr>entry_coin = coin, entry_generation = ?g, entry_size = entry_bytes (Some coin)\<rparr>),
      cc_order := cc_order ?d @ [(op, ?g)]\<rparr>"
  have d: "clean_inv ?d" using assms by (simp add: clean_ok_def clean_invalidate_inv)
  have "cached_bytes ?c = entry_bytes (Some coin) + cached_bytes ?d"
    by (rule cached_bytes_remove [of ?c op "\<lparr>entry_coin = coin, entry_generation = ?g,
          entry_size = entry_bytes (Some coin)\<rparr>", simplified clean_entry.simps])
      (use clean_inv_dest(1) [OF d] in \<open>auto simp: fun_eq_iff\<close>)
  moreover have "(k, entry_generation x) \<in> set (cc_order ?c)" if "cc_coins ?c k = Some x" for k x
    using that clean_inv_dest(2) [OF d, of k x] by (auto split: if_splits)
  ultimately have "clean_inv ?c" using d by (auto simp: clean_inv_def)
  then have "returns (evict_loop ?c) (\<lambda>c'. clean_ok c' \<and>
      (\<forall>k x. clean_get c' k = Some x \<longrightarrow> (if k = op then x = coin else clean_get c k = Some x)))"
    by (rule evict_loop_returns [THEN returns_mono])
      (auto simp: clean_get_def map_le_def dom_def split: if_splits)
  with False show ?thesis by (simp add: clean_insert_def Let_def)
qed

end
