(* ===== verification/Swiftsync.thy ===== *)
theory Swiftsync
  imports Coin_Cache Hashing
begin

text \<open>
  \<open>swiftsync.rs\<close>: the tag of a coin, the wrapping sum of the tags of a set of coins, and the hints
  file that claims the sum and the outpoints of a set. A file is accepted exactly when it is the
  encoding of a strictly sorted list within the limit.
\<close>

section \<open>The aggregate\<close>

type_synonym tag_agg = "u64 list"

definition agg_default :: tag_agg where "agg_default = replicate 4 0"

definition tag_lane :: "bytes \<Rightarrow> nat \<Rightarrow> u64" where
  "tag_lane t i = u64_of_le (take 8 (drop (i * 8) t))"

definition agg_add :: "tag_agg \<Rightarrow> bytes \<Rightarrow> tag_agg" where
  "agg_add agg t = map (\<lambda>(i, w). w + tag_lane t i) (enumerate 0 agg)"

definition agg_sub :: "tag_agg \<Rightarrow> bytes \<Rightarrow> tag_agg" where
  "agg_sub agg t = map (\<lambda>(i, w). w - tag_lane t i) (enumerate 0 agg)"

definition agg_to_bytes :: "tag_agg \<Rightarrow> bytes" where
  "agg_to_bytes agg = concat (map u64_le agg)"

definition agg_from_bytes :: "bytes \<Rightarrow> tag_agg" where
  "agg_from_bytes b = map (tag_lane b) [0..<4]"

definition coin_preimage :: "out_point \<Rightarrow> coin \<Rightarrow> bytes" where
  "coin_preimage op coin =
     op_txid op @ u32_le (op_vout op) @ i64_le (out_value (coin_out coin)) @ u32_le (coin_height coin) @
     [if coin_coinbase coin then 1 else 0] @ script_pubkey (coin_out coin)"

definition SWIFT_TAG :: bytes where
  "SWIFT_TAG = map (\<lambda>c. word_of_nat (of_char c)) ''avila/swiftsync-coin''"

definition coin_tag :: "hash_fns \<Rightarrow> out_point \<Rightarrow> coin \<Rightarrow> bytes" where
  "coin_tag H op coin = tagged_hash H SWIFT_TAG (coin_preimage op coin)"

section \<open>Hints\<close>

record hints =
  hints_height :: u32
  hints_aggregate :: tag_agg
  survivors :: "out_point list"

datatype hints_verdict = Verified | AggregateMismatch | SurvivorMismatch

datatype hints_error =
  BadHintsMagic | SurvivorLimit | HintsLengthOverflow | HintsLengthMismatch | SurvivorsNotSorted

definition HINTS_MAGIC :: bytes where "HINTS_MAGIC = [0x41, 0x48, 0x53, 0x31]"

definition survivor_bytes :: "out_point \<Rightarrow> bytes" where
  "survivor_bytes op = op_txid op @ u32_le (op_vout op)"

definition hints_encode :: "hints \<Rightarrow> bytes" where
  "hints_encode h =
     HINTS_MAGIC @ u32_le (hints_height h) @ agg_to_bytes (hints_aggregate h) @
     u64_le (word_of_nat (length (survivors h))) @ concat (map survivor_bytes (survivors h))"

fun bytes_less :: "bytes \<Rightarrow> bytes \<Rightarrow> bool" where
  "bytes_less [] ys = (ys \<noteq> [])"
| "bytes_less (x # xs) [] = False"
| "bytes_less (x # xs) (y # ys) = (x < y \<or> x = y \<and> bytes_less xs ys)"

definition outpoint_le :: "out_point \<Rightarrow> out_point \<Rightarrow> bool" where
  "outpoint_le a b \<longleftrightarrow>
     bytes_less (op_txid a) (op_txid b) \<or> op_txid a = op_txid b \<and> op_vout a \<le> op_vout b"

fun survivors_loop :: "bytes \<Rightarrow> nat \<Rightarrow> out_point option \<Rightarrow> hints_error + out_point list" where
  "survivors_loop b 0 prev = Inr []"
| "survivors_loop b (Suc n) prev =
     (let op = \<lparr>op_txid = take 32 b, op_vout = u32_of_le (take 4 (drop 32 b))\<rparr>
      in if (case prev of None \<Rightarrow> False | Some p \<Rightarrow> outpoint_le op p) then Inl SurvivorsNotSorted
         else res_bind (survivors_loop (drop 36 b) n (Some op)) (\<lambda>rest. Inr (op # rest)))"

definition hints_decode_bounded :: "bytes \<Rightarrow> nat \<Rightarrow> hints_error + hints" where
  "hints_decode_bounded b max_survivors =
     (if length b < 48 \<or> take 4 b \<noteq> HINTS_MAGIC then Inl BadHintsMagic
      else
        let height = u32_of_le (take 4 (drop 4 b));
            aggregate = agg_from_bytes (take 32 (drop 8 b));
            count = unat (u64_of_le (take 8 (drop 40 b)))
        in if count > max_survivors then Inl SurvivorLimit
           else if count * 36 + 48 \<ge> 2 ^ 64 then Inl HintsLengthOverflow
           else if length b \<noteq> 48 + count * 36 then Inl HintsLengthMismatch
           else res_bind (survivors_loop (drop 48 b) count None) (\<lambda>ops.
             Inr \<lparr>hints_height = height, hints_aggregate = aggregate, survivors = ops\<rparr>))"

definition hints_decode :: "bytes \<Rightarrow> hints_error + hints" where
  "hints_decode b = hints_decode_bounded b (2 ^ 64 - 1)"

section \<open>Sums\<close>

lemma agg_length [simp]:
  "length (agg_add a t) = length a" "length (agg_sub a t) = length a" "length agg_default = 4"
  by (simp_all add: agg_add_def agg_sub_def agg_default_def)

lemma agg_nth:
  "i < length a \<Longrightarrow> agg_add a t ! i = a ! i + tag_lane t i"
  "i < length a \<Longrightarrow> agg_sub a t ! i = a ! i - tag_lane t i"
  by (simp_all add: agg_add_def agg_sub_def nth_enumerate_eq)

text \<open>The sum of the tags of the coins a view shows.\<close>

definition tag_sum :: "hash_fns \<Rightarrow> (out_point \<Rightarrow> coin option) \<Rightarrow> tag_agg" where
  "tag_sum H m = map (\<lambda>i. \<Sum>op \<in> dom m. tag_lane (coin_tag H op (the (m op))) i) [0..<4]"

definition agg_put :: "hash_fns \<Rightarrow> out_point \<Rightarrow> coin option \<Rightarrow> coin option \<Rightarrow> tag_agg \<Rightarrow> tag_agg" where
  "agg_put H op old new agg =
     (let agg = (case old of None \<Rightarrow> agg | Some c \<Rightarrow> agg_sub agg (coin_tag H op c))
      in (case new of None \<Rightarrow> agg | Some c \<Rightarrow> agg_add agg (coin_tag H op c)))"

lemma tag_sum_length [simp]: "length (tag_sum H m) = 4" by (simp add: tag_sum_def)

lemma tag_sum_empty [simp]: "tag_sum H Map.empty = agg_default"
  by (rule nth_equalityI) (simp_all add: tag_sum_def agg_default_def)

lemma lane_remove:
  assumes "finite (dom m)"
  shows "(\<Sum>k \<in> dom m. f k (the (m k))) =
    (case m op of None \<Rightarrow> 0 | Some c \<Rightarrow> f op c) + (\<Sum>k \<in> dom m - {op}. f k (the (m k)) :: u64)"
  using assms by (cases "m op") (auto simp: sum.remove [of "dom m" op] domI domIff)

lemma tag_sum_update:
  assumes "finite (dom m)"
  shows "tag_sum H (m(op := e)) = agg_put H op (m op) e (tag_sum H m)"
proof (rule nth_equalityI)
  show "length (tag_sum H (m(op := e))) = length (agg_put H op (m op) e (tag_sum H m))"
    by (simp add: agg_put_def Let_def split: option.splits)
  fix i assume "i < length (tag_sum H (m(op := e)))"
  then have i: "i < 4" by simp
  let ?f = "\<lambda>k c. tag_lane (coin_tag H k c) i"
  have fin: "finite (dom (m(op := e)))" using assms by (cases e) simp_all
  have rest: "(\<Sum>k \<in> dom (m(op := e)) - {op}. ?f k (the ((m(op := e)) k))) = (\<Sum>k \<in> dom m - {op}. ?f k (the (m k)))"
    by (rule sum.cong) auto
  have sums: "tag_sum H (m(op := e)) ! i =
      (case e of None \<Rightarrow> 0 | Some c \<Rightarrow> ?f op c) + (\<Sum>k \<in> dom m - {op}. ?f k (the (m k)))"
    "tag_sum H m ! i = (case m op of None \<Rightarrow> 0 | Some c \<Rightarrow> ?f op c) + (\<Sum>k \<in> dom m - {op}. ?f k (the (m k)))"
    using lane_remove [OF fin, of ?f op] lane_remove [OF assms, of ?f op] rest i by (simp_all add: tag_sum_def)
  show "tag_sum H (m(op := e)) ! i = agg_put H op (m op) e (tag_sum H m) ! i"
    using i sums by (simp add: agg_put_def Let_def agg_nth split: option.splits)
qed

section \<open>The hints file\<close>

lemma bytes_less_irrefl [simp]: "\<not> bytes_less xs xs"
  by (induction xs) simp_all

lemma bytes_less_trans: "bytes_less xs ys \<Longrightarrow> bytes_less ys zs \<Longrightarrow> bytes_less xs zs"
proof (induction xs arbitrary: ys zs)
  case Nil
  then show ?case by (cases ys; cases zs) auto
next
  case (Cons x xs)
  then show ?case by (cases ys; cases zs) (auto intro: order.strict_trans)
qed

lemma bytes_less_linear: "bytes_less xs ys \<or> xs = ys \<or> bytes_less ys xs"
proof (induction xs arbitrary: ys)
  case Nil
  then show ?case by (cases ys) auto
next
  case (Cons x xs)
  then show ?case by (cases ys) auto
qed

definition outpoint_less :: "out_point \<Rightarrow> out_point \<Rightarrow> bool" where
  "outpoint_less p q \<longleftrightarrow> \<not> outpoint_le q p"

lemma outpoint_less_iff:
  "outpoint_less p q \<longleftrightarrow>
   bytes_less (op_txid p) (op_txid q) \<or> op_txid p = op_txid q \<and> op_vout p < op_vout q"
proof -
  have asym: "bytes_less xs ys \<Longrightarrow> \<not> bytes_less ys xs" for xs ys
    using bytes_less_trans bytes_less_irrefl by blast
  show ?thesis
    unfolding outpoint_less_def outpoint_le_def
    by (metis asym bytes_less_linear bytes_less_irrefl not_le)
qed

lemma outpoint_less_trans: "transp outpoint_less"
proof (rule transpI)
  fix p q r assume "outpoint_less p q" "outpoint_less q r"
  then show "outpoint_less p r"
    using bytes_less_trans [of "op_txid p" "op_txid q" "op_txid r"]
    by (simp add: outpoint_less_iff) (metis less_trans)
qed

definition hints_valid :: "hints \<Rightarrow> bool" where
  "hints_valid h \<longleftrightarrow> length (hints_aggregate h) = 4 \<and> (\<forall>op \<in> set (survivors h). length (op_txid op) = 32) \<and>
     sorted_wrt outpoint_less (survivors h) \<and> length (survivors h) * 36 + 48 < 2 ^ 64"

lemma survivors_loop_iff:
  "length b = n * 36 \<Longrightarrow> survivors_loop b n prev = Inr ops \<longleftrightarrow>
   b = concat (map survivor_bytes ops) \<and> length ops = n \<and> (\<forall>op \<in> set ops. length (op_txid op) = 32) \<and>
   successively outpoint_less (case prev of None \<Rightarrow> ops | Some p \<Rightarrow> p # ops)"
proof (induction n arbitrary: b prev ops)
  case 0
  then show ?case by (auto split: option.splits)
next
  case (Suc n)
  let ?op = "\<lparr>op_txid = take 32 b, op_vout = u32_of_le (take 4 (drop 32 b))\<rparr>"
  have len: "length (drop 36 b) = n * 36" using Suc.prems by simp
  have b: "b = survivor_bytes ?op @ drop 36 b"
  proof -
    have "u32_le (u32_of_le (take 4 (drop 32 b))) = take 4 (drop 32 b)"
      using Suc.prems by (intro uN_le_of_le) simp
    moreover have "take 36 b = take 32 b @ take 4 (drop 32 b)" using take_add [of 32 4 b] by simp
    ultimately show ?thesis by (metis append_take_drop_id append.assoc survivor_bytes_def out_point.select_convs)
  qed
  have head: "op = ?op \<and> drop 36 b = rest" if "b = survivor_bytes op @ rest" "length (op_txid op) = 32" for op rest
    using that by (simp add: survivor_bytes_def)
  show ?case
  proof (cases ops)
    case Nil
    then show ?thesis using Suc.prems by (auto simp: Let_def res_bind_eq_Inr)
  next
    case (Cons op rest)
    have "survivors_loop b (Suc n) prev = Inr ops \<longleftrightarrow>
        (case prev of None \<Rightarrow> True | Some p \<Rightarrow> outpoint_less p ?op) \<and> op = ?op \<and>
        survivors_loop (drop 36 b) n (Some ?op) = Inr rest"
      using Cons by (auto simp: Let_def res_bind_eq_Inr outpoint_less_def split: option.splits)
    also have "\<dots> \<longleftrightarrow> (case prev of None \<Rightarrow> True | Some p \<Rightarrow> outpoint_less p ?op) \<and> op = ?op \<and>
        drop 36 b = concat (map survivor_bytes rest) \<and> length rest = n \<and>
        (\<forall>op \<in> set rest. length (op_txid op) = 32) \<and> successively outpoint_less (?op # rest)"
      by (simp add: Suc.IH [OF len])
    also have "\<dots> \<longleftrightarrow> b = concat (map survivor_bytes ops) \<and> length ops = Suc n \<and>
        (\<forall>op \<in> set ops. length (op_txid op) = 32) \<and>
        successively outpoint_less (case prev of None \<Rightarrow> ops | Some p \<Rightarrow> p # ops)"
    proof -
      have "length (op_txid ?op) = 32" using Suc.prems by simp
      then show ?thesis
        using b head [of op "concat (map survivor_bytes rest)"] Cons by (auto split: option.splits)
    qed
    finally show ?thesis .
  qed
qed

lemma agg_from_to_bytes:
  assumes "length a = 4"
  shows "agg_from_bytes (agg_to_bytes a) = a"
proof -
  have up: "[0..<4] = [0, 1, 2, 3::nat]" by (simp add: upt_rec)
  have "map ((!) a) [0..<4] = a" using map_nth [of a] assms by simp
  then obtain w x y z where "a = [w, x, y, z]" unfolding up by (metis list.simps(8,9))
  then show ?thesis by (simp add: agg_from_bytes_def agg_to_bytes_def tag_lane_def up)
qed

lemma agg_to_from_bytes:
  assumes "length b = 32"
  shows "agg_to_bytes (agg_from_bytes b) = b"
proof -
  have lane: "u64_le (tag_lane b i) = take 8 (drop (i * 8) b)" if "i < 4" for i
    unfolding tag_lane_def by (rule uN_le_of_le) (use assms that in auto)
  have up: "[0..<4] = [0, 1, 2, 3::nat]" by (simp add: upt_rec)
  have "agg_to_bytes (agg_from_bytes b) = take 8 b @ take 8 (drop 8 b) @ take 8 (drop 16 b) @ take 8 (drop 24 b)"
    using lane [of 0] lane [of 1] lane [of 2] lane [of 3] by (simp add: agg_to_bytes_def agg_from_bytes_def up)
  also have "\<dots> = take 32 b"
    using take_add [of 8 8 b] take_add [of 16 8 b] take_add [of 24 8 b] by simp
  finally show ?thesis using assms by simp
qed

lemma length_agg_to_bytes: "length a = 4 \<Longrightarrow> length (agg_to_bytes a) = 32"
proof -
  have "length (agg_to_bytes a) = 8 * length a" by (induction a) (simp_all add: agg_to_bytes_def)
  then show "length a = 4 \<Longrightarrow> length (agg_to_bytes a) = 32" by simp
qed

lemma length_survivor_bytes:
  "\<forall>op \<in> set ops. length (op_txid op) = 32 \<Longrightarrow> length (concat (map survivor_bytes ops)) = 36 * length ops"
  by (induction ops) (simp_all add: survivor_bytes_def)

lemma sorted_survivors: "sorted_wrt outpoint_less ops \<longleftrightarrow> successively outpoint_less ops"
  by (simp add: successively_conv_sorted_wrt outpoint_less_trans)

lemma hints_fields:
  assumes "b = HINTS_MAGIC @ u32_le ht @ g @ u64_le cnt @ rest" "length g = 32"
  shows "hints_decode_bounded b n =
    (if unat cnt > n then Inl SurvivorLimit
     else if unat cnt * 36 + 48 \<ge> 2 ^ 64 then Inl HintsLengthOverflow
     else if length rest \<noteq> unat cnt * 36 then Inl HintsLengthMismatch
     else res_bind (survivors_loop rest (unat cnt) None) (\<lambda>ops.
       Inr \<lparr>hints_height = ht, hints_aggregate = agg_from_bytes g, survivors = ops\<rparr>))"
  using assms by (simp add: hints_decode_bounded_def HINTS_MAGIC_def Let_def)

lemma hints_encode_eq:
  assumes "length g = 32" "length (hints_aggregate h) = 4"
  shows "HINTS_MAGIC @ u32_le ht @ g @ u64_le cnt @ rest = hints_encode h \<longleftrightarrow> hints_height h = ht \<and>
    agg_to_bytes (hints_aggregate h) = g \<and> word_of_nat (length (survivors h)) = cnt \<and>
    concat (map survivor_bytes (survivors h)) = rest"
proof -
  have "u32_le x = u32_le y \<longleftrightarrow> x = y" "u64_le v = u64_le w \<longleftrightarrow> v = w" for x y v w
    by (metis uN_of_le_le)+
  then show ?thesis
    using assms length_agg_to_bytes [OF assms(2)] by (auto simp: hints_encode_def)
qed

text \<open>The hints parser accepts exactly the encodings of hints whose survivors are strictly sorted
  and within the caller's limit.\<close>

theorem hints_decode_exact:
  "hints_decode_bounded b n = Inr h \<longleftrightarrow> b = hints_encode h \<and> hints_valid h \<and> length (survivors h) \<le> n"
proof (cases "length b < 48 \<or> take 4 b \<noteq> HINTS_MAGIC")
  case True
  then have "hints_decode_bounded b n \<noteq> Inr h" by (auto simp: hints_decode_bounded_def)
  moreover have "\<not> (b = hints_encode h \<and> hints_valid h)"
    using True by (auto simp: hints_encode_def hints_valid_def HINTS_MAGIC_def length_agg_to_bytes)
  ultimately show ?thesis by blast
next
  case False
  let ?ht = "u32_of_le (take 4 (drop 4 b))" and ?g = "take 32 (drop 8 b)"
  let ?cnt = "u64_of_le (take 8 (drop 40 b))" and ?rest = "drop 48 b"
  have "u32_le ?ht = take 4 (drop 4 b)" "u64_le ?cnt = take 8 (drop 40 b)"
    using False by (auto intro!: uN_le_of_le)
  moreover have "b = take 4 b @ take 4 (drop 4 b) @ take 32 (drop 8 b) @ take 8 (drop 40 b) @ drop 48 b"
    using append_take_drop_id [of 4 b] append_take_drop_id [of 4 "drop 4 b"]
      append_take_drop_id [of 32 "drop 8 b"] append_take_drop_id [of 8 "drop 40 b"] by simp
  ultimately have b: "b = HINTS_MAGIC @ u32_le ?ht @ ?g @ u64_le ?cnt @ ?rest" using False by simp
  have g: "length ?g = 32" using False by auto
  have enc: "b = hints_encode h \<longleftrightarrow> hints_height h = ?ht \<and> agg_to_bytes (hints_aggregate h) = ?g \<and>
      word_of_nat (length (survivors h)) = ?cnt \<and> concat (map survivor_bytes (survivors h)) = ?rest"
    if "hints_valid h"
    using hints_encode_eq [OF g, of h ?ht ?cnt ?rest] that b [symmetric] by (simp only: hints_valid_def)
  have dec: "hints_decode_bounded b n = Inr h \<longleftrightarrow>
      unat ?cnt \<le> n \<and> unat ?cnt * 36 + 48 < 2 ^ 64 \<and> length ?rest = unat ?cnt * 36 \<and>
      survivors_loop ?rest (unat ?cnt) None = Inr (survivors h) \<and>
      hints_height h = ?ht \<and> hints_aggregate h = agg_from_bytes ?g"
    by (subst hints_fields [OF b g], cases h) (auto simp: res_bind_eq_Inr)
  have agg: "hints_aggregate h = agg_from_bytes ?g \<longleftrightarrow>
      length (hints_aggregate h) = 4 \<and> agg_to_bytes (hints_aggregate h) = ?g"
    using agg_from_to_bytes [of "hints_aggregate h"] agg_to_from_bytes [OF g] by (auto simp: agg_from_bytes_def)
  have cnt: "length (survivors h) = unat ?cnt \<longleftrightarrow> word_of_nat (length (survivors h)) = ?cnt"
    if "length (survivors h) * 36 + 48 < 2 ^ 64"
  proof -
    have "unat (word_of_nat (length (survivors h)) :: u64) = length (survivors h)"
      using that by (simp add: unat_of_nat take_bit_eq_mod)
    then show ?thesis by (metis word_unat_eq_iff)
  qed
  show ?thesis
  proof
    assume "hints_decode_bounded b n = Inr h"
    note d = this [unfolded dec agg]
    then have loop: "?rest = concat (map survivor_bytes (survivors h)) \<and> length (survivors h) = unat ?cnt \<and>
        (\<forall>op \<in> set (survivors h). length (op_txid op) = 32) \<and> successively outpoint_less (survivors h)"
      using survivors_loop_iff [of ?rest "unat ?cnt" None "survivors h"] by simp
    then have "hints_valid h" using d by (simp add: hints_valid_def sorted_survivors)
    with enc d loop show "b = hints_encode h \<and> hints_valid h \<and> length (survivors h) \<le> n" by simp
  next
    assume r: "b = hints_encode h \<and> hints_valid h \<and> length (survivors h) \<le> n"
    then have v: "hints_valid h" by simp
    note e = enc [OF v, THEN iffD1, OF conjunct1 [OF r]]
    have len: "length (survivors h) = unat ?cnt" using cnt e v by (simp add: hints_valid_def)
    have rest: "length ?rest = unat ?cnt * 36"
      using length_survivor_bytes [of "survivors h"] e v len by (metis hints_valid_def mult.commute)
    have "survivors_loop ?rest (unat ?cnt) None = Inr (survivors h)"
      using survivors_loop_iff [OF rest, of None "survivors h"] e v len by (simp add: hints_valid_def sorted_survivors)
    with rest len e v r show "hints_decode_bounded b n = Inr h"
      unfolding dec agg by (simp add: hints_valid_def)
  qed
qed

end
