(* ===== verification/Utxo.thy ===== *)
theory Utxo
  imports Swiftsync
begin

text \<open>
  \<open>UtxoSet\<close> of \<open>connect.rs\<close>: a write-back map of pending coins and tombstones over a parent view
  or over the committed layers (the epoch files, the flat mirror, the backend behind its clean cache,
  the snapshot), with a commit that runs on a worker thread. The stores behind it are maps: the backend
  table, an epoch file's answers, the flat mirror and the snapshot file hold what was written to them.
  The undo records a commit also carries are not part of the coin set. Reads can fill the clean cache,
  so they return the changed set; \<open>cc\<close> is \<open>clean_cache_enabled()\<close>.
\<close>

section \<open>State\<close>

type_synonym coin_map = "out_point \<Rightarrow> coin option"
type_synonym cache_map = "out_point \<Rightarrow> coin option option"

record coins_backend =
  be_coins :: coin_map
  be_tip :: u32

record epoch_layer =
  ep_tip :: u32
  ep_delta :: i64
  ep_seq :: u64
  ep_probe :: cache_map

record flush_layer =
  fl_snap :: cache_map
  fl_delta :: i64
  fl_bytes :: nat
  fl_tip :: u32
  fl_warm :: clean_cache

datatype flush_result = CommitFailed | Committed | EpochWritten epoch_layer

text \<open>The commit worker: still working (writing the epoch files of a sequence number, or committing to
  the backend), or finished and not yet joined.\<close>

datatype flush_worker = Working "u64 option" | Finished flush_result

record utxo_layer =
  u_map :: cache_map
  u_backend :: "coins_backend option"
  u_snapshot :: "coin_map option"
  u_map_bytes :: nat
  u_budget :: nat
  u_live_delta :: i64
  u_born :: "out_point set"
  u_swift :: "tag_agg option"
  u_swift_hold :: bool
  u_flat :: "coin_map option"
  u_flushing :: "flush_layer option"
  u_flush_join :: "flush_worker option"
  u_runs :: "epoch_layer list"
  u_runs_seq :: u64
  u_runs_dir :: bool
  u_clean :: clean_cache
  u_warm :: clean_cache

datatype utxo_set = UtxoSet (layer: utxo_layer) (parent: "utxo_set option")

definition DEFAULT_CACHE_BUDGET :: nat where "DEFAULT_CACHE_BUDGET = 450 * 1024 * 1024"
definition DIRTY_FLUSH_ENTRIES :: nat where "DIRTY_FLUSH_ENTRIES = 1000000"
definition USIZE_MAX :: nat where "USIZE_MAX = 2 ^ 64 - 1"

definition empty_layer :: utxo_layer where
  "empty_layer = \<lparr>u_map = Map.empty, u_backend = None, u_snapshot = None, u_map_bytes = 0,
     u_budget = DEFAULT_CACHE_BUDGET, u_live_delta = 0, u_born = {}, u_swift = None, u_swift_hold = False,
     u_flat = None, u_flushing = None, u_flush_join = None, u_runs = [], u_runs_seq = 0, u_runs_dir = False,
     u_clean = clean_empty, u_warm = clean_empty\<rparr>"

definition utxo_new :: utxo_set where "utxo_new = UtxoSet empty_layer None"

section \<open>Reads\<close>

definition in_flight :: "utxo_layer \<Rightarrow> cache_map" where
  "in_flight L op = (case u_flushing L of None \<Rightarrow> None | Some l \<Rightarrow> fl_snap l op)"

fun probe_runs :: "epoch_layer list \<Rightarrow> cache_map" where
  "probe_runs [] op = None"
| "probe_runs (l # older) op =
     (case ep_probe l op of Some hit \<Rightarrow> Some hit | None \<Rightarrow> probe_runs older op)"

text \<open>The committed layers of \<open>get_with_prefetched\<close>.\<close>

definition backend_get :: "bool \<Rightarrow> utxo_layer \<Rightarrow> coins_backend \<Rightarrow> out_point \<Rightarrow> cache_map option \<Rightarrow>
    (coin option \<times> utxo_layer) option" where
  "backend_get cc L be op prefetched =
     (case if cc then clean_get (u_clean L) op else None of
        Some c \<Rightarrow> Some (Some c, L)
      | None \<Rightarrow>
          let found = (case Option.bind prefetched (\<lambda>p. p op) of Some r \<Rightarrow> r | None \<Rightarrow> be_coins be op)
          in (case if cc then found else None of
                Some c \<Rightarrow> do { cl \<leftarrow> clean_insert (u_clean L) op c; Some (found, L\<lparr>u_clean := cl\<rparr>) }
              | None \<Rightarrow> Some (found, L)))"

definition committed_get :: "bool \<Rightarrow> utxo_layer \<Rightarrow> out_point \<Rightarrow> cache_map option \<Rightarrow>
    (coin option \<times> utxo_layer) option" where
  "committed_get cc L op prefetched =
     (case probe_runs (rev (u_runs L)) op of
        Some hit \<Rightarrow> Some (hit, L)
      | None \<Rightarrow>
     (case u_flat L of
        Some f \<Rightarrow> Some (f op, L)
      | None \<Rightarrow>
     (case u_backend L of
        Some be \<Rightarrow> backend_get cc L be op prefetched
      | None \<Rightarrow> Some (case u_snapshot L of Some snap \<Rightarrow> snap op | None \<Rightarrow> None, L))))"

fun get_with_prefetched :: "bool \<Rightarrow> utxo_set \<Rightarrow> out_point \<Rightarrow> cache_map option \<Rightarrow> (coin option \<times> utxo_set) option" where
  "get_with_prefetched cc (UtxoSet L b) op prefetched =
     (case u_map L op of
        Some entry \<Rightarrow> Some (entry, UtxoSet L b)
      | None \<Rightarrow>
     (case in_flight L op of
        Some entry \<Rightarrow> Some (entry, UtxoSet L b)
      | None \<Rightarrow>
     (case b of
        Some p \<Rightarrow> do { (c, p) \<leftarrow> get_with_prefetched cc p op None; Some (c, UtxoSet L (Some p)) }
      | None \<Rightarrow> do { (c, L) \<leftarrow> committed_get cc L op prefetched; Some (c, UtxoSet L None) })))"

definition utxo_get :: "bool \<Rightarrow> utxo_set \<Rightarrow> out_point \<Rightarrow> (coin option \<times> utxo_set) option" where
  "utxo_get cc s op = get_with_prefetched cc s op None"

definition snapshot_has :: "utxo_layer \<Rightarrow> out_point \<Rightarrow> bool" where
  "snapshot_has L op = (case u_snapshot L of None \<Rightarrow> False | Some snap \<Rightarrow> snap op \<noteq> None)"

definition backend_has :: "utxo_layer \<Rightarrow> out_point \<Rightarrow> bool" where
  "backend_has L op = (case u_backend L of None \<Rightarrow> False | Some be \<Rightarrow> be_coins be op \<noteq> None)"

fun utxo_have :: "utxo_set \<Rightarrow> out_point \<Rightarrow> bool" where
  "utxo_have (UtxoSet L b) op =
     (case u_map L op of
        Some entry \<Rightarrow> entry \<noteq> None
      | None \<Rightarrow>
     (case in_flight L op of
        Some entry \<Rightarrow> entry \<noteq> None
      | None \<Rightarrow>
     (case b of
        Some p \<Rightarrow> utxo_have p op
      | None \<Rightarrow>
     (case probe_runs (rev (u_runs L)) op of
        Some hit \<Rightarrow> hit \<noteq> None
      | None \<Rightarrow>
     (case u_flat L of
        Some f \<Rightarrow> f op \<noteq> None
      | None \<Rightarrow> if backend_has L op then True else snapshot_has L op)))))"

definition backend_read_visible :: "utxo_set \<Rightarrow> out_point \<Rightarrow> bool" where
  "backend_read_visible s op =
     (let L = layer s in
      \<not> (u_backend L = None \<or> u_map L op \<noteq> None \<or> in_flight L op \<noteq> None \<or> parent s \<noteq> None \<or>
         u_runs L \<noteq> [] \<or> u_flat L \<noteq> None))"

definition clean_has :: "bool \<Rightarrow> utxo_set \<Rightarrow> out_point \<Rightarrow> bool" where
  "clean_has cc s op \<longleftrightarrow> cc \<and> cc_coins (u_clean (layer s)) op \<noteq> None"

definition prefetch_backend :: "bool \<Rightarrow> utxo_set \<Rightarrow> out_point list \<Rightarrow> cache_map" where
  "prefetch_backend cc s outpoints =
     (case u_backend (layer s) of
        None \<Rightarrow> Map.empty
      | Some be \<Rightarrow>
          let needed = filter (\<lambda>op. backend_read_visible s op \<and> \<not> clean_has cc s op) outpoints
          in (\<lambda>op. if op \<in> set needed then Some (be_coins be op) else None))"

text \<open>The layers below the map: \<open>lower_get\<close> and \<open>lower_live\<close>.\<close>

definition lower_committed :: "utxo_layer \<Rightarrow> out_point \<Rightarrow> coin option" where
  "lower_committed L op =
     (case probe_runs (rev (u_runs L)) op of
        Some hit \<Rightarrow> hit
      | None \<Rightarrow>
     (case Option.bind (u_flat L) (\<lambda>f. f op) of
        Some c \<Rightarrow> Some c
      | None \<Rightarrow>
     (case Option.bind (u_backend L) (\<lambda>be. be_coins be op) of
        Some c \<Rightarrow> Some c
      | None \<Rightarrow> Option.bind (u_snapshot L) (\<lambda>snap. snap op))))"

definition lower_get :: "bool \<Rightarrow> utxo_set \<Rightarrow> out_point \<Rightarrow> (coin option \<times> utxo_set) option" where
  "lower_get cc s op =
     (case in_flight (layer s) op of
        Some entry \<Rightarrow> Some (entry, s)
      | None \<Rightarrow>
     (case parent s of
        None \<Rightarrow> Some (lower_committed (layer s) op, s)
      | Some p \<Rightarrow> do {
          (c, p) \<leftarrow> utxo_get cc p op;
          let s = UtxoSet (layer s) (Some p);
          Some (case c of Some c \<Rightarrow> Some c | None \<Rightarrow> lower_committed (layer s) op, s) }))"

definition lower_live :: "utxo_set \<Rightarrow> out_point \<Rightarrow> bool" where
  "lower_live s op =
     (case in_flight (layer s) op of
        Some entry \<Rightarrow> entry \<noteq> None
      | None \<Rightarrow>
        if (case parent s of None \<Rightarrow> False | Some p \<Rightarrow> utxo_have p op) then True
        else (case probe_runs (rev (u_runs (layer s))) op of
            Some hit \<Rightarrow> hit \<noteq> None
          | None \<Rightarrow> (case u_flat (layer s) of None \<Rightarrow> False | Some f \<Rightarrow> f op \<noteq> None) \<or>
              backend_has (layer s) op \<or> snapshot_has (layer s) op))"

section \<open>Writes\<close>

definition put_raw :: "bool \<Rightarrow> utxo_set \<Rightarrow> out_point \<Rightarrow> coin option \<Rightarrow> utxo_set option" where
  "put_raw cc s op entry =
     (let L = layer s; warm = clean_invalidate (u_warm L) op in do {
        warm \<leftarrow> (case entry of
            Some c \<Rightarrow> if u_backend L \<noteq> None \<and> cc then clean_insert warm op c else Some warm
          | None \<Rightarrow> Some warm);
        let was_live = (case u_map L op of Some old \<Rightarrow> old \<noteq> None | None \<Rightarrow> lower_live s op);
        let bytes = (case u_map L op of Some old \<Rightarrow> u_map_bytes L - entry_bytes old | None \<Rightarrow> u_map_bytes L);
        let born_now = (case u_map L op of Some (Some _) \<Rightarrow> False | _ \<Rightarrow> \<not> lower_live s op);
        let born = (if entry \<noteq> None \<and> born_now then insert op (u_born L) else u_born L);
        Some (UtxoSet (L\<lparr>u_clean := clean_invalidate (u_clean L) op, u_warm := warm,
            u_map_bytes := bytes + entry_bytes entry,
            u_live_delta := u_live_delta L + of_bool (entry \<noteq> None) - of_bool was_live,
            u_born := born, u_map := (u_map L)(op \<mapsto> entry)\<rparr>) (parent s)) })"

definition utxo_put :: "bool \<Rightarrow> hash_fns \<Rightarrow> utxo_set \<Rightarrow> out_point \<Rightarrow> coin option \<Rightarrow> utxo_set option" where
  "utxo_put cc H s op entry =
     (case u_swift (layer s) of
        None \<Rightarrow> put_raw cc s op entry
      | Some agg \<Rightarrow> do {
          (old, s) \<leftarrow> (case u_map (layer s) op of Some e \<Rightarrow> Some (e, s) | None \<Rightarrow> lower_get cc s op);
          put_raw cc (UtxoSet ((layer s)\<lparr>u_swift := Some (agg_put H op old entry agg)\<rparr>) (parent s)) op entry })"

definition swift_sub :: "hash_fns \<Rightarrow> out_point \<Rightarrow> coin \<Rightarrow> tag_agg option \<Rightarrow> tag_agg option" where
  "swift_sub H op c = map_option (\<lambda>agg. agg_sub agg (coin_tag H op c))"

definition utxo_spend :: "bool \<Rightarrow> hash_fns \<Rightarrow> utxo_set \<Rightarrow> out_point \<Rightarrow> (coin option \<times> utxo_set) option" where
  "utxo_spend cc H s op =
     (let (cached, cl) = (if backend_read_visible s op then clean_take (u_clean (layer s)) op
                          else (None, u_clean (layer s)));
          L = (layer s)\<lparr>u_clean := clean_invalidate cl op, u_warm := clean_invalidate (u_warm (layer s)) op\<rparr>;
          s = UtxoSet L (parent s)
      in case u_map L op of
        Some entry \<Rightarrow>
          (let L = L\<lparr>u_map_bytes := u_map_bytes L - entry_bytes entry, u_map := (u_map L)(op \<mapsto> None)\<rparr>
           in case entry of
                None \<Rightarrow> Some (None, UtxoSet L (parent s))
              | Some c \<Rightarrow>
                  let L = L\<lparr>u_live_delta := u_live_delta L - 1, u_swift := swift_sub H op c (u_swift L)\<rparr>;
                      L = (if op \<in> u_born L
                           then L\<lparr>u_born := u_born L - {op}, u_map := (u_map L)(op := None)\<rparr> else L)
                  in Some (Some c, UtxoSet L (parent s)))
      | None \<Rightarrow> do {
          (found, s) \<leftarrow> (case cached of Some c \<Rightarrow> Some (Some c, s) | None \<Rightarrow> lower_get cc s op);
          case found of
            None \<Rightarrow> Some (None, s)
          | Some c \<Rightarrow>
              let L = layer s
              in Some (Some c, UtxoSet (L\<lparr>u_live_delta := u_live_delta L - 1,
                   u_swift := swift_sub H op c (u_swift L), u_map_bytes := u_map_bytes L + entry_bytes None,
                   u_map := (u_map L)(op \<mapsto> None)\<rparr>) (parent s)) })"

definition remove_entry :: "bool \<Rightarrow> hash_fns \<Rightarrow> utxo_set \<Rightarrow> out_point \<Rightarrow> utxo_set option" where
  "remove_entry cc H s op =
     (let s = UtxoSet ((layer s)\<lparr>u_clean := clean_invalidate (u_clean (layer s)) op,
            u_warm := clean_invalidate (u_warm (layer s)) op\<rparr>) (parent s) in do {
        s \<leftarrow> (if u_swift (layer s) = None then Some s
             else do {
               (old, s) \<leftarrow> utxo_get cc s op;
               Some (case old of None \<Rightarrow> s
                 | Some c \<Rightarrow> UtxoSet ((layer s)\<lparr>u_swift := swift_sub H op c (u_swift (layer s))\<rparr>) (parent s)) });
        let L = layer s;
        let L = (case u_map L op of
                None \<Rightarrow> L
              | Some old \<Rightarrow> L\<lparr>u_map := (u_map L)(op := None), u_map_bytes := u_map_bytes L - entry_bytes old,
                  u_live_delta := u_live_delta L - (of_bool (old \<noteq> None) - of_bool (lower_live s op))\<rparr>);
        let s = UtxoSet (L\<lparr>u_born := u_born L - {op}\<rparr>) (parent s);
        if lower_live s op then put_raw cc s op None else Some s })"

section \<open>Overlays\<close>

definition overlay :: "utxo_set \<Rightarrow> utxo_set \<times> utxo_set" where
  "overlay s = (UtxoSet (empty_layer\<lparr>u_budget := USIZE_MAX\<rparr>) (Some s), utxo_new)"

text \<open>\<open>iter\<close> lists the overlay's entries in the order the hash map yields them.\<close>

fun put_entries :: "bool \<Rightarrow> hash_fns \<Rightarrow> utxo_set \<Rightarrow> (out_point \<times> coin option) list \<Rightarrow> utxo_set option" where
  "put_entries cc H s [] = Some s"
| "put_entries cc H s ((op, entry) # rest) = do { s \<leftarrow> utxo_put cc H s op entry; put_entries cc H s rest }"

definition unoverlay :: "bool \<Rightarrow> hash_fns \<Rightarrow> utxo_set \<Rightarrow> utxo_set \<Rightarrow> bool \<Rightarrow> (out_point \<times> coin option) list \<Rightarrow>
    utxo_set option" where
  "unoverlay cc H s over commit iter =
     (case parent over of
        None \<Rightarrow> Some s
      | Some p \<Rightarrow> if \<not> commit then Some p else put_entries cc H p iter)"

section \<open>Commits\<close>

datatype io_error = IoError

definition apply_delta :: "cache_map \<Rightarrow> coin_map \<Rightarrow> coin_map" where
  "apply_delta snap coins = (\<lambda>op. case snap op of Some entry \<Rightarrow> entry | None \<Rightarrow> coins op)"

definition backend_commit :: "coins_backend \<Rightarrow> cache_map \<Rightarrow> u32 \<Rightarrow> coins_backend" where
  "backend_commit be snap t = \<lparr>be_coins = apply_delta snap (be_coins be), be_tip = t\<rparr>"

text \<open>The commit worker finishes, well or not.\<close>

definition worker_finish :: "bool \<Rightarrow> utxo_layer \<Rightarrow> utxo_layer" where
  "worker_finish ok L =
     (case (u_flush_join L, u_flushing L) of
        (Some (Working to_files), Some l) \<Rightarrow>
          if \<not> ok then L\<lparr>u_flush_join := Some (Finished CommitFailed)\<rparr>
          else (case to_files of
              Some seq \<Rightarrow> L\<lparr>u_flush_join := Some (Finished (EpochWritten
                \<lparr>ep_tip = fl_tip l, ep_delta = fl_delta l, ep_seq = seq, ep_probe = fl_snap l\<rparr>))\<rparr>
            | None \<Rightarrow> L\<lparr>u_flush_join := Some (Finished Committed),
                u_backend := map_option (\<lambda>be. backend_commit be (fl_snap l) (fl_tip l)) (u_backend L)\<rparr>)
      | _ \<Rightarrow> L)"

fun promote_loop :: "utxo_layer \<Rightarrow> (out_point \<times> coin) list \<Rightarrow> utxo_layer option" where
  "promote_loop L [] = Some L"
| "promote_loop L ((op, c) # rest) =
     (if u_map L op \<noteq> None then promote_loop L rest
      else do { cl \<leftarrow> clean_insert (u_clean L) op c; promote_loop (L\<lparr>u_clean := cl\<rparr>) rest })"

text \<open>\<open>iter\<close> lists the warm cache's coins in the order the hash map yields them.\<close>

definition promote_warm :: "bool \<Rightarrow> utxo_layer \<Rightarrow> (out_point \<times> coin) list \<Rightarrow> utxo_layer option" where
  "promote_warm cc L iter = (if cc then promote_loop L iter else Some L)"

text \<open>\<open>join_flush\<close>: waits for the worker, which may finish only now (\<open>ok\<close>), and folds its result in.\<close>

definition join_flush :: "bool \<Rightarrow> bool \<Rightarrow> utxo_layer \<Rightarrow> (out_point \<times> coin) list \<Rightarrow>
    ((io_error + unit) \<times> utxo_layer) option" where
  "join_flush cc ok L iter =
     (let L = worker_finish ok L in
      case u_flush_join L of
        None \<Rightarrow> Some (Inr (), L)
      | Some handle \<Rightarrow>
          let L = L\<lparr>u_flush_join := None\<rparr> in
          case u_flushing L of
            None \<Rightarrow> Some (Inr (), L)
          | Some l \<Rightarrow>
              let L = L\<lparr>u_flushing := None\<rparr> in
              case handle of
                Finished (EpochWritten e) \<Rightarrow>
                  if u_runs_dir L then Some (Inr (), L\<lparr>u_runs := u_runs L @ [e]\<rparr>) else Some (Inl IoError, L)
              | Finished Committed \<Rightarrow> do {
                  L \<leftarrow> promote_warm cc (L\<lparr>u_flat := map_option (apply_delta (fl_snap l)) (u_flat L)\<rparr>) iter;
                  Some (Inr (), L) }
              | _ \<Rightarrow> Some (Inl IoError, L))"

definition start_flush :: "utxo_layer \<Rightarrow> u32 \<Rightarrow> utxo_layer" where
  "start_flush L t =
     L\<lparr>u_map := Map.empty, u_warm := clean_empty, u_born := {}, u_live_delta := 0, u_map_bytes := 0,
       u_flushing := Some \<lparr>fl_snap = u_map L, fl_delta = u_live_delta L, fl_bytes = u_map_bytes L, fl_tip = t,
         fl_warm = u_warm L\<rparr>,
       u_runs_seq := (if u_runs_dir L then u_runs_seq L + 1 else u_runs_seq L),
       u_flush_join := Some (Working (if u_runs_dir L then Some (u_runs_seq L) else None))\<rparr>"

definition flush_to_backend_owned :: "bool \<Rightarrow> bool \<Rightarrow> utxo_layer \<Rightarrow> (out_point \<times> coin) list \<Rightarrow> u32 \<Rightarrow>
    ((io_error + unit) \<times> utxo_layer) option" where
  "flush_to_backend_owned cc ok L iter t =
     (if u_backend L = None then Some (Inr (), L)
      else do {
        (r, L) \<leftarrow> join_flush cc ok L iter;
        Some (case r of Inl e \<Rightarrow> (Inl e, L) | Inr _ \<Rightarrow> (Inr (), start_flush L t)) })"

definition over_budget :: "utxo_layer \<Rightarrow> bool" where
  "over_budget L \<longleftrightarrow> u_backend L \<noteq> None \<and> \<not> u_swift_hold L \<and>
     u_map_bytes L + (case u_flushing L of None \<Rightarrow> 0 | Some l \<Rightarrow> fl_bytes l) > u_budget L"

definition needs_flush :: "utxo_layer \<Rightarrow> bool" where
  "needs_flush L \<longleftrightarrow> over_budget L \<or>
     u_backend L \<noteq> None \<and> \<not> u_swift_hold L \<and> card (dom (u_map L)) \<ge> DIRTY_FLUSH_ENTRIES"

end
