(* ===== verification/Utxo_View.thy ===== *)
theory Utxo_View
  imports Utxo
begin

text \<open>
  What a \<open>UtxoSet\<close> stands for: its view, a map from outpoints to coins, and the invariant under which
  every read returns the view's coin and every write is an update of the view, through all layers,
  caches and the commit in flight.
\<close>

section \<open>The view\<close>

lemma apply_delta_upd [simp]:
  "apply_delta (m(op \<mapsto> e)) f = (apply_delta m f)(op := e)"
  "apply_delta (m(op := None)) f = (apply_delta m f)(op := f op)"
  by (auto simp: apply_delta_def)

lemma apply_delta_empty [simp]: "apply_delta Map.empty f = f"
  by (simp add: apply_delta_def)

lemma apply_delta_Some: "m op = Some e \<Longrightarrow> apply_delta m f op = e"
  by (simp add: apply_delta_def)

lemma apply_delta_None: "m op = None \<Longrightarrow> apply_delta m f op = f op"
  by (simp add: apply_delta_def)

definition stored :: "utxo_layer \<Rightarrow> coin_map" where
  "stored L op =
     (case u_backend L of Some be \<Rightarrow> be_coins be op
      | None \<Rightarrow> (case u_snapshot L of Some snap \<Rightarrow> snap op | None \<Rightarrow> None))"

definition committed_view :: "utxo_layer \<Rightarrow> coin_map" where
  "committed_view L = apply_delta (probe_runs (rev (u_runs L))) (stored L)"

fun view :: "utxo_set \<Rightarrow> coin_map" where
  "view (UtxoSet L b) =
     apply_delta (u_map L) (apply_delta (in_flight L)
       (case b of Some p \<Rightarrow> view p | None \<Rightarrow> committed_view L))"

definition below :: "utxo_set \<Rightarrow> coin_map" where
  "below s = (case parent s of Some p \<Rightarrow> view p | None \<Rightarrow> committed_view (layer s))"

definition lower_view :: "utxo_set \<Rightarrow> coin_map" where
  "lower_view s = apply_delta (in_flight (layer s)) (below s)"

lemma view_lower: "view s = apply_delta (u_map (layer s)) (lower_view s)"
  by (cases s; cases "parent s") (simp_all add: lower_view_def below_def)

section \<open>The invariant\<close>

definition stores_ok :: "utxo_layer \<Rightarrow> utxo_set option \<Rightarrow> bool" where
  "stores_ok L b \<longleftrightarrow>
     (b \<noteq> None \<longrightarrow> u_backend L = None \<and> u_snapshot L = None \<and> u_runs L = [] \<and> u_flat L = None) \<and>
     (u_backend L \<noteq> None \<longrightarrow> u_snapshot L = None) \<and>
     (\<forall>f. u_flat L = Some f \<longrightarrow> (\<forall>op. in_flight L op = None \<or> u_flush_join L \<noteq> Some (Finished Committed) \<longrightarrow>
        f op = stored L op)) \<and>
     (u_runs L \<noteq> [] \<longrightarrow> u_runs_dir L) \<and>
     (u_flush_join L = Some (Working None) \<or> u_flush_join L = Some (Finished Committed) \<longrightarrow> \<not> u_runs_dir L) \<and>
     (u_flushing L = None \<longleftrightarrow> u_flush_join L = None) \<and> (u_flushing L \<noteq> None \<longrightarrow> u_backend L \<noteq> None) \<and>
     (u_flush_join L = Some (Finished Committed) \<longrightarrow> (\<forall>op e. in_flight L op = Some e \<longrightarrow> stored L op = e)) \<and>
     (\<forall>e. u_flush_join L = Some (Finished (EpochWritten e)) \<longrightarrow> ep_probe e = in_flight L \<and> u_runs_dir L) \<and>
     (\<forall>q. u_flush_join L = Some (Working (Some q)) \<longrightarrow> u_runs_dir L)"

definition caches_ok :: "utxo_layer \<Rightarrow> bool" where
  "caches_ok L \<longleftrightarrow> clean_ok (u_clean L) \<and> clean_ok (u_warm L) \<and>
     (\<forall>op c. clean_get (u_clean L) op = Some c \<longrightarrow> u_map L op = None \<and> in_flight L op = None \<and>
        (\<exists>be. u_backend L = Some be \<and> be_coins be op = Some c)) \<and>
     (\<forall>op c. clean_get (u_warm L) op = Some c \<longrightarrow> u_map L op = Some (Some c)) \<and>
     (\<forall>l. u_flushing L = Some l \<longrightarrow> clean_ok (fl_warm l) \<and>
        (\<forall>op c. clean_get (fl_warm l) op = Some c \<longrightarrow> fl_snap l op = Some (Some c)))"

definition layer_ok :: "utxo_set \<Rightarrow> bool" where
  "layer_ok s \<longleftrightarrow> stores_ok (layer s) (parent s) \<and> caches_ok (layer s) \<and>
     (\<forall>op \<in> u_born (layer s). lower_view s op = None) \<and> finite (dom (view s))"

definition swift_ok :: "hash_fns \<Rightarrow> utxo_set \<Rightarrow> bool" where
  "swift_ok H s \<longleftrightarrow> (case u_swift (layer s) of None \<Rightarrow> True | Some agg \<Rightarrow> agg = tag_sum H (view s))"

fun utxo_ok :: "hash_fns \<Rightarrow> utxo_set \<Rightarrow> bool" where
  "utxo_ok H (UtxoSet L b) \<longleftrightarrow> layer_ok (UtxoSet L b) \<and> swift_ok H (UtxoSet L b) \<and>
     (case b of Some p \<Rightarrow> utxo_ok H p | None \<Rightarrow> True)"

text \<open>The parent's part of the invariant, and the whole without the tags of this layer.\<close>

definition parent_ok :: "hash_fns \<Rightarrow> utxo_set \<Rightarrow> bool" where
  "parent_ok H s \<longleftrightarrow> (case parent s of Some p \<Rightarrow> utxo_ok H p | None \<Rightarrow> True)"

definition struct_ok :: "hash_fns \<Rightarrow> utxo_set \<Rightarrow> bool" where
  "struct_ok H s \<longleftrightarrow> layer_ok s \<and> parent_ok H s"

lemma utxo_ok_iff: "utxo_ok H s \<longleftrightarrow> struct_ok H s \<and> swift_ok H s"
  by (cases s) (auto simp: struct_ok_def parent_ok_def)

section \<open>Reads\<close>

lemma stored_chain:
  assumes "stores_ok L b" "in_flight L op = None"
  shows "(case Option.bind (u_flat L) (\<lambda>f. f op) of Some c \<Rightarrow> Some c
      | None \<Rightarrow> (case Option.bind (u_backend L) (\<lambda>be. be_coins be op) of Some c \<Rightarrow> Some c
        | None \<Rightarrow> Option.bind (u_snapshot L) (\<lambda>snap. snap op))) = stored L op"
proof -
  have f: "f op = stored L op" if "u_flat L = Some f" for f using assms that by (simp add: stores_ok_def)
  have s: "u_backend L \<noteq> None \<Longrightarrow> u_snapshot L = None" using assms by (simp add: stores_ok_def)
  show ?thesis
    using f s by (cases "u_flat L"; cases "u_backend L"; cases "u_snapshot L") (simp_all add: stored_def split: option.split)
qed

lemma stored_has:
  assumes "stores_ok L b" "in_flight L op = None"
  shows "backend_has L op \<or> snapshot_has L op \<longleftrightarrow> stored L op \<noteq> None"
    and "u_flat L = Some f \<Longrightarrow> f op = stored L op"
  using assms
  by (cases "u_backend L"; cases "u_snapshot L"; simp add: stores_ok_def stored_def backend_has_def snapshot_has_def)+

lemma stored_lower:
  assumes "stores_ok L b" "in_flight L op = None"
  shows "lower_committed L op = committed_view L op"
  unfolding lower_committed_def stored_chain [OF assms] by (simp add: committed_view_def apply_delta_def)

lemma stored_parent: "stores_ok L (Some p) \<Longrightarrow> committed_view L op = None"
  by (simp add: stores_ok_def committed_view_def apply_delta_def stored_def)

lemma have_committed:
  assumes "stores_ok L b" "in_flight L op = None"
  shows "(case probe_runs (rev (u_runs L)) op of Some hit \<Rightarrow> hit \<noteq> None
      | None \<Rightarrow> (case u_flat L of Some f \<Rightarrow> f op \<noteq> None | None \<Rightarrow> if backend_has L op then True else snapshot_has L op))
    \<longleftrightarrow> committed_view L op \<noteq> None"
  using stored_has [OF assms]
  by (cases "probe_runs (rev (u_runs L)) op"; cases "u_flat L") (auto simp: committed_view_def apply_delta_def)

lemma live_committed:
  assumes "stores_ok L b" "in_flight L op = None"
  shows "(case probe_runs (rev (u_runs L)) op of Some hit \<Rightarrow> hit \<noteq> None
      | None \<Rightarrow> (case u_flat L of None \<Rightarrow> False | Some f \<Rightarrow> f op \<noteq> None) \<or> backend_has L op \<or> snapshot_has L op)
    \<longleftrightarrow> committed_view L op \<noteq> None"
  using stored_has [OF assms]
  by (cases "probe_runs (rev (u_runs L)) op"; cases "u_flat L") (auto simp: committed_view_def apply_delta_def)

lemma have_iff: "utxo_ok H s \<Longrightarrow> utxo_have s op \<longleftrightarrow> view s op \<noteq> None"
proof (induction s)
  case (UtxoSet L b)
  then have st: "stores_ok L b" by (simp add: layer_ok_def)
  show ?case
  proof (cases "u_map L op = None \<and> in_flight L op = None")
    case True
    show ?thesis
    proof (cases b)
      case None
      with True have_committed [OF st] show ?thesis by (simp add: apply_delta_None)
    next
      case (Some p)
      with True UtxoSet show ?thesis by (simp add: apply_delta_None)
    qed
  next
    case False
    then show ?thesis by (cases "u_map L op") (auto simp: apply_delta_Some apply_delta_None)
  qed
qed

lemma lower_live_iff:
  assumes "struct_ok H s"
  shows "lower_live s op \<longleftrightarrow> lower_view s op \<noteq> None"
proof (cases "in_flight (layer s) op")
  case None
  have st: "stores_ok (layer s) (parent s)" using assms by (simp add: struct_ok_def layer_ok_def)
  note live = live_committed [OF st None]
  show ?thesis
  proof (cases "parent s")
    case parent: None
    with None live show ?thesis by (simp add: lower_live_def lower_view_def below_def apply_delta_None)
  next
    case (Some p)
    then have "utxo_ok H p" using assms by (simp add: struct_ok_def parent_ok_def)
    from have_iff [OF this, of op] live stored_parent [OF st [unfolded Some], of op] Some None show ?thesis
      by (simp add: lower_live_def lower_view_def below_def apply_delta_None)
  qed
qed (simp add: lower_live_def lower_view_def apply_delta_Some)

end
