(* ===== verification/Utxo_Ops.thy ===== *)
theory Utxo_Ops
  imports Utxo_View
begin

text \<open>
  Every read of a \<open>UtxoSet\<close> returns the view's coin and changes nothing but a clean cache; every write
  is an update of the view; an overlay, a commit starting, landing and being joined leave the view
  alone.
\<close>

section \<open>Reads\<close>

lemma returns_case_prod [simp]:
  "returns (case x of (a, b) \<Rightarrow> f a b) Q \<longleftrightarrow> (case x of (a, b) \<Rightarrow> returns (f a b) Q)"
  by (cases x) simp

text \<open>The fields the reads below the map go through.\<close>

definition same_stores :: "utxo_layer \<Rightarrow> utxo_layer \<Rightarrow> bool" where
  "same_stores L L' \<longleftrightarrow> u_backend L' = u_backend L \<and> u_snapshot L' = u_snapshot L \<and> u_flat L' = u_flat L \<and>
     u_flushing L' = u_flushing L \<and> u_flush_join L' = u_flush_join L \<and> u_runs L' = u_runs L \<and>
     u_runs_dir L' = u_runs_dir L"

lemma same_stores_refl [simp]: "same_stores L L"
  by (simp add: same_stores_def)

lemma same_stores_trans: "same_stores L L' \<Longrightarrow> same_stores L' L'' \<Longrightarrow> same_stores L L''"
  by (simp add: same_stores_def)

lemma same_stores_cong:
  assumes "same_stores L L'"
  shows "in_flight L' = in_flight L" "stored L' = stored L" "committed_view L' = committed_view L"
    and "stores_ok L' b = stores_ok L b"
proof -
  show i: "in_flight L' = in_flight L" and s: "stored L' = stored L"
    using assms by (simp_all add: same_stores_def in_flight_def stored_def fun_eq_iff cong: option.case_cong)
  show "committed_view L' = committed_view L"
    using assms s by (simp add: same_stores_def committed_view_def)
  show "stores_ok L' b = stores_ok L b"
    using assms i s by (simp add: same_stores_def stores_ok_def)
qed

text \<open>The views of a set and of the sets under it, the topmost first.\<close>

fun views :: "utxo_set \<Rightarrow> coin_map list" where
  "views (UtxoSet L b) = view (UtxoSet L b) # (case b of Some p \<Rightarrow> views p | None \<Rightarrow> [])"

definition parent_views :: "utxo_set \<Rightarrow> coin_map list" where
  "parent_views s = (case parent s of Some p \<Rightarrow> views p | None \<Rightarrow> [])"

lemma views_Cons: "views s = view s # parent_views s"
  by (cases s) (simp add: parent_views_def del: view.simps)

lemma views_nonempty [simp]: "views s \<noteq> []"
  by (simp add: views_Cons)

lemma parent_views_None: "parent_views s' = parent_views s \<Longrightarrow> parent s' = None \<longleftrightarrow> parent s = None"
  by (auto simp: parent_views_def views_Cons split: option.splits)

text \<open>A set that differs from another by its map and caches alone.\<close>

definition same_below :: "utxo_set \<Rightarrow> utxo_set \<Rightarrow> bool" where
  "same_below s s' \<longleftrightarrow> same_stores (layer s) (layer s') \<and> lower_view s' = lower_view s \<and>
     parent_views s' = parent_views s"

lemma same_below_refl [simp]: "same_below s s"
  by (simp add: same_below_def)

lemma same_below_trans: "same_below s s' \<Longrightarrow> same_below s' s'' \<Longrightarrow> same_below s s''"
  by (auto simp: same_below_def intro: same_stores_trans)

lemma same_below_layer:
  "same_stores (layer s) L \<Longrightarrow> same_below s (UtxoSet L (parent s))"
  by (simp add: same_below_def lower_view_def below_def same_stores_cong parent_views_def cong: option.case_cong)

lemma clean_same [simp]: "\<exists>cl. L = L\<lparr>u_clean := cl\<rparr>"
  by (rule exI [of _ "u_clean L"]) simp

definition only_reads :: "utxo_set \<Rightarrow> utxo_set \<Rightarrow> bool" where
  "only_reads s s' \<longleftrightarrow> (\<exists>cl. layer s' = (layer s)\<lparr>u_clean := cl\<rparr>) \<and> lower_view s' = lower_view s \<and>
     parent_views s' = parent_views s"

lemma only_reads_refl [simp]: "only_reads s s"
  by (simp add: only_reads_def)

lemma only_reads_fields:
  assumes "only_reads s s'"
  shows "same_below s s'" "view s' = view s" "u_map (layer s') = u_map (layer s)"
    "u_swift (layer s') = u_swift (layer s)" "u_born (layer s') = u_born (layer s)"
    "u_warm (layer s') = u_warm (layer s)"
  using assms by (auto simp: only_reads_def same_below_def same_stores_def view_lower)

lemma only_reads_parent:
  assumes "only_reads p p'"
  shows "views p' = views p"
  using assms only_reads_fields(2) [OF assms] by (simp add: only_reads_def views_Cons)

text \<open>A prefetched answer is the backend's.\<close>

definition prefetch_ok :: "utxo_set \<Rightarrow> cache_map option \<Rightarrow> bool" where
  "prefetch_ok s prefetched \<longleftrightarrow> (\<forall>p op r be. prefetched = Some p \<longrightarrow> p op = Some r \<longrightarrow>
     u_backend (layer s) = Some be \<longrightarrow> r = be_coins be op)"

lemma prefetch_ok_None [simp]: "prefetch_ok s None"
  by (simp add: prefetch_ok_def)

lemma prefetch_ok_below: "same_below s s' \<Longrightarrow> prefetch_ok s' pf = prefetch_ok s pf"
  by (simp add: prefetch_ok_def same_below_def same_stores_def)

lemma prefetch_backend_ok: "prefetch_ok s (Some (prefetch_backend cc s ops))"
  by (auto simp: prefetch_ok_def prefetch_backend_def Let_def split: option.splits if_splits)

lemma backend_get_ok:
  assumes caches: "caches_ok L" and be: "u_backend L = Some be"
    and miss: "u_map L op = None" "in_flight L op = None"
    and pf: "\<And>p r. prefetched = Some p \<Longrightarrow> p op = Some r \<Longrightarrow> r = be_coins be op"
  shows "returns (backend_get cc L be op prefetched)
    (\<lambda>(c, L'). c = be_coins be op \<and> (\<exists>cl. L' = L\<lparr>u_clean := cl\<rparr>) \<and> caches_ok L')"
proof (cases "cc \<and> clean_get (u_clean L) op \<noteq> None")
  case True
  then obtain c where c: "clean_get (u_clean L) op = Some c" by blast
  then have "be_coins be op = Some c" using caches be by (auto simp: caches_ok_def)
  with True c caches show ?thesis by (simp add: backend_get_def)
next
  case False
  let ?found = "case Option.bind prefetched (\<lambda>p. p op) of Some r \<Rightarrow> r | None \<Rightarrow> be_coins be op"
  have found: "?found = be_coins be op" using pf by (auto split: option.splits simp: bind_eq_Some_conv)
  have miss_clean: "(if cc then clean_get (u_clean L) op else None) = None" using False by auto
  have get: "backend_get cc L be op prefetched =
      (case if cc then be_coins be op else None of
         Some c \<Rightarrow> do { cl \<leftarrow> clean_insert (u_clean L) op c; Some (be_coins be op, L\<lparr>u_clean := cl\<rparr>) }
       | None \<Rightarrow> Some (be_coins be op, L))"
    by (simp only: backend_get_def Let_def found miss_clean option.case)
  show ?thesis
  proof (cases "cc \<and> be_coins be op \<noteq> None")
    case True
    then obtain c where c: "be_coins be op = Some c" by blast
    have ins: "returns (clean_insert (u_clean L) op c) (\<lambda>cl. clean_ok cl \<and>
        (\<forall>k x. clean_get cl k = Some x \<longrightarrow> (if k = op then x = c else clean_get (u_clean L) k = Some x)))"
      using caches by (intro clean_insert_returns) (simp add: caches_ok_def)
    have "returns (clean_insert (u_clean L) op c) (\<lambda>cl. caches_ok (L\<lparr>u_clean := cl\<rparr>))"
      by (rule returns_mono [OF ins])
        (use caches be miss c in \<open>auto simp: caches_ok_def in_flight_def split: if_splits\<close>)
    then show ?thesis using True c unfolding get by (auto elim!: returns_mono)
  next
    case no: False
    then have "(if cc then be_coins be op else None) = None" by auto
    then show ?thesis using caches unfolding get by simp
  qed
qed

lemma committed_get_ok:
  assumes "caches_ok L" "stores_ok L b" "u_map L op = None" "in_flight L op = None"
    and "\<And>p r be. prefetched = Some p \<Longrightarrow> p op = Some r \<Longrightarrow> u_backend L = Some be \<Longrightarrow> r = be_coins be op"
  shows "returns (committed_get cc L op prefetched)
    (\<lambda>(c, L'). c = committed_view L op \<and> (\<exists>cl. L' = L\<lparr>u_clean := cl\<rparr>) \<and> caches_ok L')"
proof -
  show ?thesis
  proof (cases "probe_runs (rev (u_runs L)) op")
    case None
    have view: "committed_view L op = stored L op" using None by (simp add: committed_view_def apply_delta_None)
    show ?thesis
    proof (cases "u_flat L")
      case flat: None
      show ?thesis
      proof (cases "u_backend L")
        case (Some be)
        then have "stored L op = be_coins be op" by (simp add: stored_def)
        with backend_get_ok [OF assms(1) Some assms(3,4), of prefetched cc] assms(5) [OF _ _ Some]
          None flat Some view show ?thesis by (simp add: committed_get_def)
      qed (use None flat view assms(1) in \<open>simp add: committed_get_def stored_def\<close>)
    next
      case (Some f)
      with None view stored_has(2) [OF assms(2,4) Some] assms(1) show ?thesis
        by (simp add: committed_get_def)
    qed
  next
    case (Some hit)
    with assms(1) show ?thesis by (simp add: committed_get_def committed_view_def apply_delta_Some)
  qed
qed

lemma stores_ok_parent: "(b' = None \<longleftrightarrow> b = None) \<Longrightarrow> stores_ok L b' = stores_ok L b"
  by (simp add: stores_ok_def)

lemma layer_ok_reads:
  assumes "layer_ok s" "only_reads s s'" "caches_ok (layer s')"
  shows "layer_ok s'"
proof -
  note f = only_reads_fields [OF assms(2)]
  have st: "same_stores (layer s) (layer s')" and low: "lower_view s' = lower_view s"
    and par: "parent s' = None \<longleftrightarrow> parent s = None"
    using f(1) parent_views_None [of s' s] by (simp_all add: same_below_def)
  have "stores_ok (layer s') (parent s')"
    using assms(1) same_stores_cong(4) [OF st, of "parent s"] stores_ok_parent [OF par] by (simp add: layer_ok_def)
  with assms f low show ?thesis by (simp add: layer_ok_def)
qed

lemma swift_ok_reads: "swift_ok H s \<Longrightarrow> only_reads s s' \<Longrightarrow> swift_ok H s'"
  using only_reads_fields [of s s'] by (simp add: swift_ok_def cong: option.case_cong)

lemma get_ok:
  assumes "utxo_ok H s" "prefetch_ok s prefetched"
  shows "returns (get_with_prefetched cc s op prefetched)
    (\<lambda>(c, s'). c = view s op \<and> utxo_ok H s' \<and> only_reads s s')"
  using assms
proof (induction s arbitrary: prefetched)
  case (UtxoSet L b)
  have ok: "layer_ok (UtxoSet L b)" "swift_ok H (UtxoSet L b)" using UtxoSet.prems by simp_all
  then have st: "stores_ok L b" and ca: "caches_ok L" by (simp_all add: layer_ok_def)
  consider (map) e where "u_map L op = Some e" | (flight) e where "u_map L op = None" "in_flight L op = Some e"
    | (parent) p where "u_map L op = None" "in_flight L op = None" "b = Some p"
    | (committed) "u_map L op = None" "in_flight L op = None" "b = None"
    by (cases "u_map L op"; cases "in_flight L op"; cases b) auto
  then show ?case
  proof cases
    case map
    then show ?thesis using UtxoSet.prems by (simp add: apply_delta_Some)
  next
    case flight
    then show ?thesis using UtxoSet.prems by (simp add: apply_delta_Some apply_delta_None)
  next
    case (parent p)
    have "utxo_ok H p" using UtxoSet.prems parent by simp
    then have "returns (get_with_prefetched cc p op None) (\<lambda>(c, s'). c = view p op \<and> utxo_ok H s' \<and> only_reads p s')"
      using UtxoSet.IH [of p None] parent by simp
    then have "returns (get_with_prefetched cc p op None) (\<lambda>(c, p'). c = view (UtxoSet L b) op \<and>
        utxo_ok H (UtxoSet L (Some p')) \<and> only_reads (UtxoSet L b) (UtxoSet L (Some p')))"
    proof (rule returns_mono)
      fix x assume x: "case x of (c, s') \<Rightarrow> c = view p op \<and> utxo_ok H s' \<and> only_reads p s'"
      obtain c p' where cp: "x = (c, p')" by (cases x)
      have r: "only_reads (UtxoSet L b) (UtxoSet L (Some p'))"
        using x only_reads_fields(2) [of p p'] only_reads_parent [of p p'] parent cp
        by (auto simp: only_reads_def lower_view_def below_def parent_views_def)
      moreover have "layer_ok (UtxoSet L (Some p'))" "swift_ok H (UtxoSet L (Some p'))"
        using layer_ok_reads [OF ok(1) r] swift_ok_reads [OF ok(2) r] ca by simp_all
      ultimately show "case x of (c, p') \<Rightarrow> c = view (UtxoSet L b) op \<and>
          utxo_ok H (UtxoSet L (Some p')) \<and> only_reads (UtxoSet L b) (UtxoSet L (Some p'))"
        using x parent cp by (simp add: apply_delta_None)
    qed
    with parent show ?thesis by (auto simp: elim!: returns_mono)
  next
    case committed
    have "returns (committed_get cc L op prefetched)
        (\<lambda>(c, L'). c = committed_view L op \<and> (\<exists>cl. L' = L\<lparr>u_clean := cl\<rparr>) \<and> caches_ok L')"
      using UtxoSet.prems(2) by (intro committed_get_ok [OF ca st committed(1,2)]) (auto simp: prefetch_ok_def)
    then have "returns (committed_get cc L op prefetched) (\<lambda>(c, L'). c = view (UtxoSet L b) op \<and>
        utxo_ok H (UtxoSet L' None) \<and> only_reads (UtxoSet L b) (UtxoSet L' None))"
    proof (rule returns_mono)
      fix x assume x: "case x of (c, L') \<Rightarrow> c = committed_view L op \<and> (\<exists>cl. L' = L\<lparr>u_clean := cl\<rparr>) \<and> caches_ok L'"
      obtain c L' where cl: "x = (c, L')" by (cases x)
      have "same_stores L L'" using x cl by (auto simp: same_stores_def)
      then have r: "only_reads (UtxoSet L b) (UtxoSet L' None)"
        using x committed cl by (auto simp: only_reads_def lower_view_def below_def same_stores_cong parent_views_def)
      moreover have "layer_ok (UtxoSet L' None)" "swift_ok H (UtxoSet L' None)"
        using layer_ok_reads [OF ok(1) r] swift_ok_reads [OF ok(2) r] x cl by auto
      ultimately show "case x of (c, L') \<Rightarrow> c = view (UtxoSet L b) op \<and>
          utxo_ok H (UtxoSet L' None) \<and> only_reads (UtxoSet L b) (UtxoSet L' None)"
        using x committed cl by (simp add: apply_delta_None)
    qed
    with committed show ?thesis by (auto elim!: returns_mono)
  qed
qed

lemma lower_get_ok:
  assumes ok: "utxo_ok H s"
  shows "returns (lower_get cc s op)
    (\<lambda>(c, s'). c = lower_view s op \<and> utxo_ok H s' \<and> only_reads s s' \<and> layer s' = layer s)"
proof (cases "in_flight (layer s) op")
  case None
  obtain L b where s: "s = UtxoSet L b" by (cases s)
  have st: "stores_ok L b" and ca: "caches_ok L" using ok s by (simp_all add: layer_ok_def)
  have low: "lower_view s op = below s op" using None by (simp add: lower_view_def apply_delta_None)
  show ?thesis
  proof (cases b)
    case parent: None
    then show ?thesis
      using None ok s low stored_lower [OF st] by (simp add: lower_get_def below_def)
  next
    case (Some p)
    then have "utxo_ok H p" using ok s by simp
    then have g: "returns (utxo_get cc p op) (\<lambda>(c, p'). c = view p op \<and> utxo_ok H p' \<and> only_reads p p')"
      unfolding utxo_get_def by (rule get_ok) simp
    have gone: "lower_committed L op = None"
      using stored_lower [OF st] stored_parent [of L p op] st None s Some by simp
    have r: "only_reads s (UtxoSet L (Some p')) \<and> utxo_ok H (UtxoSet L (Some p'))"
      if "only_reads p p'" "utxo_ok H p'" for p'
    proof -
      have r: "only_reads s (UtxoSet L (Some p'))"
        using only_reads_fields(2) [OF that(1)] only_reads_parent [OF that(1)] s Some
        by (simp add: only_reads_def lower_view_def below_def parent_views_def)
      then show ?thesis
        using layer_ok_reads [of s, OF _ r] swift_ok_reads [of H s, OF _ r] ok s ca that(2) by simp
    qed
    have step: "lower_get cc s op = do { (c, p') \<leftarrow> utxo_get cc p op;
        Some (case c of Some c \<Rightarrow> Some c | None \<Rightarrow> None, UtxoSet L (Some p')) }"
      using None s Some gone by (simp add: lower_get_def cong: option.case_cong)
    have "below s op = view p op" using s Some by (simp add: below_def)
    with g r low s show ?thesis unfolding step by (auto elim!: returns_mono split: option.split)
  qed
next
  case (Some e)
  then show ?thesis using ok by (simp add: lower_get_def lower_view_def apply_delta_Some)
qed

section \<open>Writes\<close>

lemma clean_get_invalidate [simp]:
  "clean_get (clean_invalidate c op) k = (if k = op then None else clean_get c k)"
  by (simp add: clean_get_def)

lemma view_write:
  "same_stores (layer s) L \<Longrightarrow> view (UtxoSet L (parent s)) = apply_delta (u_map L) (lower_view s)"
  using same_below_layer [of s L] by (simp add: view_lower same_below_def)

lemma struct_ok_write:
  assumes "struct_ok H s" "same_stores (layer s) L" "caches_ok L"
    and "\<forall>k \<in> u_born L. lower_view s k = None"
    and "apply_delta (u_map L) (lower_view s) = (view s)(op := e)"
  shows "struct_ok H (UtxoSet L (parent s))" "view (UtxoSet L (parent s)) = (view s)(op := e)"
    "same_below s (UtxoSet L (parent s))"
proof -
  show v: "view (UtxoSet L (parent s)) = (view s)(op := e)" by (simp only: view_write [OF assms(2)] assms(5))
  show b: "same_below s (UtxoSet L (parent s))" by (rule same_below_layer [OF assms(2)])
  have "finite (dom ((view s)(op := e)))" using assms(1) by (cases e) (simp_all add: struct_ok_def layer_ok_def)
  then show "struct_ok H (UtxoSet L (parent s))"
    using assms(1,3,4) b v same_stores_cong(4) [OF assms(2)]
    by (simp add: struct_ok_def layer_ok_def parent_ok_def same_below_def del: view.simps)
qed

text \<open>The caches after a write to one outpoint: nothing cached for it but a live value in the warm one.\<close>

lemma caches_ok_write:
  assumes "caches_ok L" "same_stores L L'" "clean_ok (u_clean L')" "clean_ok (u_warm L')"
    and "\<And>k c. clean_get (u_clean L') k = Some c \<Longrightarrow> k \<noteq> op \<and> clean_get (u_clean L) k = Some c"
    and "\<And>k c. clean_get (u_warm L') k = Some c \<Longrightarrow>
      (if k = op then u_map L' op = Some (Some c) else clean_get (u_warm L) k = Some c)"
    and "\<And>k. k \<noteq> op \<Longrightarrow> u_map L' k = u_map L k"
  shows "caches_ok L'"
proof -
  have f: "u_backend L' = u_backend L" "u_flushing L' = u_flushing L" "in_flight L' = in_flight L"
    using assms(2) same_stores_cong(1) [OF assms(2)] by (simp_all add: same_stores_def)
  have "clean_get (u_clean L') k = Some c \<Longrightarrow> u_map L' k = None \<and> in_flight L' k = None \<and>
      (\<exists>be. u_backend L' = Some be \<and> be_coins be k = Some c)" for k c
    using assms(1) assms(5) [of k c] assms(7) [of k] f by (simp add: caches_ok_def)
  moreover have "clean_get (u_warm L') k = Some c \<Longrightarrow> u_map L' k = Some (Some c)" for k c
    using assms(1) assms(6) [of k c] assms(7) [of k] by (auto simp: caches_ok_def split: if_splits)
  ultimately show ?thesis using assms(1,3,4) f by (simp add: caches_ok_def)
qed

lemma put_raw_ok:
  assumes "struct_ok H s"
  shows "returns (put_raw cc s op e) (\<lambda>s'. struct_ok H s' \<and> view s' = (view s)(op := e) \<and> same_below s s' \<and>
    u_swift (layer s') = u_swift (layer s))"
proof -
  let ?L = "layer s"
  have ca: "caches_ok ?L" using assms by (simp add: struct_ok_def layer_ok_def)
  have born: "\<forall>k \<in> u_born ?L. lower_view s k = None" using assms by (simp add: struct_ok_def layer_ok_def)
  let ?warm = "clean_invalidate (u_warm ?L) op"
  let ?ins = "case e of Some c \<Rightarrow> if u_backend ?L \<noteq> None \<and> cc then clean_insert ?warm op c else Some ?warm
    | None \<Rightarrow> Some ?warm"
  have warm_ok: "clean_ok ?warm" using ca by (simp add: caches_ok_def clean_invalidate_ok)
  have ins: "returns ?ins (\<lambda>w. clean_ok w \<and>
      (\<forall>k c. clean_get w k = Some c \<longrightarrow> (if k = op then e = Some c else clean_get (u_warm ?L) k = Some c)))"
  proof (cases "\<exists>c. e = Some c \<and> u_backend ?L \<noteq> None \<and> cc")
    case True
    then obtain c where c: "e = Some c" "u_backend ?L \<noteq> None" cc by blast
    then have i: "?ins = clean_insert ?warm op c" by simp
    show ?thesis unfolding i
      by (rule returns_mono [OF clean_insert_returns [OF warm_ok, of op c]]) (use c in \<open>auto split: if_splits\<close>)
  next
    case False
    then have i: "?ins = Some ?warm" by (auto split: option.splits)
    show ?thesis unfolding i using warm_ok by (simp split: if_splits)
  qed
  let ?new = "\<lambda>w bs ld bn. ?L\<lparr>u_clean := clean_invalidate (u_clean ?L) op, u_warm := w, u_map_bytes := bs,
      u_live_delta := ld, u_born := bn, u_map := (u_map ?L)(op \<mapsto> e)\<rparr>"
  have upd: "struct_ok H (UtxoSet (?new w bs ld bn) (parent s)) \<and>
      view (UtxoSet (?new w bs ld bn) (parent s)) = (view s)(op := e) \<and>
      same_below s (UtxoSet (?new w bs ld bn) (parent s))"
    if w: "clean_ok w" "\<forall>k c. clean_get w k = Some c \<longrightarrow> (if k = op then e = Some c else clean_get (u_warm ?L) k = Some c)"
      and bn: "bn = u_born ?L \<or> bn = insert op (u_born ?L) \<and> lower_view s op = None" for w bs ld bn
  proof -
    have same: "same_stores ?L (?new w bs ld bn)" by (simp add: same_stores_def)
    have "caches_ok (?new w bs ld bn)"
      by (rule caches_ok_write [OF ca same, where op = op])
        (use ca w in \<open>auto simp: caches_ok_def clean_invalidate_ok split: if_splits\<close>)
    moreover have "\<forall>k \<in> u_born (?new w bs ld bn). lower_view s k = None" using born bn by auto
    moreover have "apply_delta (u_map (?new w bs ld bn)) (lower_view s) = (view s)(op := e)"
      by (simp add: view_lower)
    ultimately show ?thesis using struct_ok_write [OF assms same] by blast
  qed
  show ?thesis
    unfolding put_raw_def Let_def returns_bind
    by (rule returns_mono [OF ins], simp only: returns_Some utxo_set.sel)
      (intro conjI upd [THEN conjunct1] upd [THEN conjunct2, THEN conjunct1] upd [THEN conjunct2, THEN conjunct2];
        auto simp: lower_live_iff [OF assms] split: option.splits)
qed

lemma struct_ok_swift:
  assumes "struct_ok H s"
  shows "struct_ok H (UtxoSet ((layer s)\<lparr>u_swift := x\<rparr>) (parent s))"
    "view (UtxoSet ((layer s)\<lparr>u_swift := x\<rparr>) (parent s)) = view s"
    "same_below s (UtxoSet ((layer s)\<lparr>u_swift := x\<rparr>) (parent s))"
proof -
  have "caches_ok (layer s)" "\<forall>k \<in> u_born (layer s). lower_view s k = None"
    using assms by (simp_all add: struct_ok_def layer_ok_def)
  then have "caches_ok ((layer s)\<lparr>u_swift := x\<rparr>)" "\<forall>k \<in> u_born ((layer s)\<lparr>u_swift := x\<rparr>). lower_view s k = None"
    by (simp_all add: caches_ok_def in_flight_def)
  from struct_ok_write [OF assms _ this, where op = undefined and e = "view s undefined"]
  show "struct_ok H (UtxoSet ((layer s)\<lparr>u_swift := x\<rparr>) (parent s))"
    "view (UtxoSet ((layer s)\<lparr>u_swift := x\<rparr>) (parent s)) = view s"
    "same_below s (UtxoSet ((layer s)\<lparr>u_swift := x\<rparr>) (parent s))"
    by (simp_all add: same_stores_def view_lower)
qed

lemma tag_sum_put:
  "struct_ok H s \<Longrightarrow> tag_sum H ((view s)(op := e)) = agg_put H op (view s op) e (tag_sum H (view s))"
  by (rule tag_sum_update) (simp add: struct_ok_def layer_ok_def)

lemma utxo_put_ok:
  assumes "utxo_ok H s"
  shows "returns (utxo_put cc H s op e) (\<lambda>s'. utxo_ok H s' \<and> view s' = (view s)(op := e) \<and> same_below s s')"
proof (cases "u_swift (layer s)")
  case None
  have "returns (put_raw cc s op e) (\<lambda>s'. struct_ok H s' \<and> view s' = (view s)(op := e) \<and> same_below s s' \<and>
      u_swift (layer s') = u_swift (layer s))"
    using assms by (intro put_raw_ok) (simp add: utxo_ok_iff)
  with None show ?thesis by (auto simp: utxo_put_def utxo_ok_iff swift_ok_def elim!: returns_mono)
next
  case (Some agg)
  let ?old = "case u_map (layer s) op of Some e \<Rightarrow> Some (e, s) | None \<Rightarrow> lower_get cc s op"
  have "returns ?old (\<lambda>(c, s1). c = view s op \<and> utxo_ok H s1 \<and> only_reads s s1)"
    using lower_get_ok [OF assms, of cc op] assms
    by (cases "u_map (layer s) op") (auto simp: view_lower apply_delta_Some apply_delta_None elim!: returns_mono)
  then have "returns ?old (\<lambda>(c, s1). returns (put_raw cc (UtxoSet ((layer s1)\<lparr>u_swift := Some (agg_put H op c e agg)\<rparr>) (parent s1)) op e)
      (\<lambda>s'. utxo_ok H s' \<and> view s' = (view s)(op := e) \<and> same_below s s'))"
  proof (rule returns_mono)
    fix x assume x: "case x of (c, s1) \<Rightarrow> c = view s op \<and> utxo_ok H s1 \<and> only_reads s s1"
    obtain c s1 where cs: "x = (c, s1)" by (cases x)
    let ?s2 = "UtxoSet ((layer s1)\<lparr>u_swift := Some (agg_put H op c e agg)\<rparr>) (parent s1)"
    have ok: "struct_ok H s1" and r: "only_reads s s1" and c: "c = view s op" using x cs by (simp_all add: utxo_ok_iff)
    note f = only_reads_fields [OF r]
    note s2 = struct_ok_swift [OF ok, of "Some (agg_put H op c e agg)"]
    have agg: "agg = tag_sum H (view s)" using assms Some by (simp add: utxo_ok_iff swift_ok_def)
    have sum: "agg_put H op c e agg = tag_sum H ((view s)(op := e))"
      using tag_sum_put [OF ok, of op e] f(2) c agg by simp
    have "returns (put_raw cc ?s2 op e) (\<lambda>s'. utxo_ok H s' \<and> view s' = (view s)(op := e) \<and> same_below s s')"
      by (rule returns_mono [OF put_raw_ok [OF s2(1)]])
        (use s2(2,3) f(1,2) sum in \<open>auto simp: utxo_ok_iff swift_ok_def intro: same_below_trans\<close>)
    with cs show "case x of (c, s1) \<Rightarrow> returns (put_raw cc (UtxoSet ((layer s1)\<lparr>u_swift := Some (agg_put H op c e agg)\<rparr>) (parent s1)) op e)
        (\<lambda>s'. utxo_ok H s' \<and> view s' = (view s)(op := e) \<and> same_below s s')" by simp
  qed
  with Some show ?thesis by (simp add: utxo_put_def)
qed

definition swift_drop :: "hash_fns \<Rightarrow> out_point \<Rightarrow> coin option \<Rightarrow> tag_agg option \<Rightarrow> tag_agg option" where
  "swift_drop H op old agg = (case old of None \<Rightarrow> agg | Some c \<Rightarrow> swift_sub H op c agg)"

lemma swift_ok_drop:
  assumes "utxo_ok H s" "view s' = (view s)(op := None)"
    and "u_swift (layer s') = swift_drop H op (view s op) (u_swift (layer s))"
  shows "swift_ok H s'"
proof -
  have "struct_ok H s" using assms(1) by (simp add: utxo_ok_iff)
  from tag_sum_put [OF this, of op None] assms show ?thesis
    by (cases "u_swift (layer s)"; cases "view s op")
      (simp_all add: utxo_ok_iff swift_ok_def swift_sub_def swift_drop_def agg_put_def)
qed

text \<open>The caches invalidated at an outpoint: the first step of \<open>spend\<close> and \<open>remove_entry\<close>.\<close>

definition invalidated :: "out_point \<Rightarrow> utxo_set \<Rightarrow> utxo_set" where
  "invalidated op s = UtxoSet ((layer s)\<lparr>u_clean := clean_invalidate (u_clean (layer s)) op,
     u_warm := clean_invalidate (u_warm (layer s)) op\<rparr>) (parent s)"

lemma invalidated_ok:
  assumes "utxo_ok H s"
  shows "utxo_ok H (invalidated op s)" "view (invalidated op s) = view s" "same_below s (invalidated op s)"
    "clean_get (u_clean (layer (invalidated op s))) op = None" "clean_get (u_warm (layer (invalidated op s))) op = None"
    "u_swift (layer (invalidated op s)) = u_swift (layer s)"
proof -
  let ?L = "(layer s)\<lparr>u_clean := clean_invalidate (u_clean (layer s)) op,
     u_warm := clean_invalidate (u_warm (layer s)) op\<rparr>"
  have st: "struct_ok H s" and sw: "swift_ok H s" using assms by (simp_all add: utxo_ok_iff)
  have same: "same_stores (layer s) ?L" by (simp add: same_stores_def)
  have ca: "caches_ok (layer s)" using st by (simp add: struct_ok_def layer_ok_def)
  have "caches_ok ?L"
    by (rule caches_ok_write [OF ca same, where op = op])
      (use ca in \<open>auto simp: caches_ok_def clean_invalidate_ok split: if_splits\<close>)
  moreover have "\<forall>k \<in> u_born ?L. lower_view s k = None" using st by (simp add: struct_ok_def layer_ok_def)
  moreover have "apply_delta (u_map ?L) (lower_view s) = (view s)(op := view s op)" by (simp add: view_lower)
  ultimately have w: "struct_ok H (UtxoSet ?L (parent s))" "view (UtxoSet ?L (parent s)) = (view s)(op := view s op)"
    "same_below s (UtxoSet ?L (parent s))"
    using struct_ok_write [OF st same] by blast+
  show v: "view (invalidated op s) = view s" "same_below s (invalidated op s)"
    using w(2,3) by (simp_all add: invalidated_def)
  show "utxo_ok H (invalidated op s)"
    using w(1) sw v(1) by (simp add: utxo_ok_iff swift_ok_def invalidated_def cong: option.case_cong)
qed (simp_all add: invalidated_def)

lemma invalidate_twice [simp]: "clean_invalidate (clean_invalidate c op) op = clean_invalidate c op"
  by (simp add: clean_invalidate_def split: option.splits)

text \<open>A write of \<open>None\<close> over a set whose caches hold nothing for the outpoint.\<close>

lemma spend_write:
  assumes ok: "utxo_ok H s"
    and none: "clean_get (u_clean (layer s)) op = None" "clean_get (u_warm (layer s)) op = None"
    and L: "same_stores (layer s) L" "u_clean L = u_clean (layer s)" "u_warm L = u_warm (layer s)"
      "u_born L \<subseteq> u_born (layer s)" "u_swift L = swift_drop H op (view s op) (u_swift (layer s))"
    and map: "u_map L = (u_map (layer s))(op \<mapsto> None) \<or> u_map L = (u_map (layer s))(op := None) \<and> lower_view s op = None"
  shows "utxo_ok H (UtxoSet L (parent s)) \<and> view (UtxoSet L (parent s)) = (view s)(op := None) \<and>
    same_below s (UtxoSet L (parent s))"
proof -
  have st: "struct_ok H s" using ok by (simp add: utxo_ok_iff)
  have ca: "caches_ok (layer s)" using st by (simp add: struct_ok_def layer_ok_def)
  have "caches_ok L"
    by (rule caches_ok_write [OF ca L(1), where op = op])
      (use ca L none map in \<open>auto simp: caches_ok_def split: if_splits\<close>)
  moreover have "\<forall>k \<in> u_born L. lower_view s k = None" using st L(4) by (auto simp: struct_ok_def layer_ok_def)
  moreover have "apply_delta (u_map L) (lower_view s) = (view s)(op := None)"
    using map by (auto simp: view_lower)
  ultimately have w: "struct_ok H (UtxoSet L (parent s))" "view (UtxoSet L (parent s)) = (view s)(op := None)"
    "same_below s (UtxoSet L (parent s))"
    using struct_ok_write [OF st L(1)] by blast+
  with swift_ok_drop [OF ok, of "UtxoSet L (parent s)"] L(5) show ?thesis by (simp add: utxo_ok_iff)
qed

lemma utxo_spend_ok:
  assumes "utxo_ok H s"
  shows "returns (utxo_spend cc H s op)
    (\<lambda>(c, s'). c = view s op \<and> utxo_ok H s' \<and> view s' = (view s)(op := None) \<and> same_below s s')"
proof -
  let ?i = "invalidated op s" and ?L = "layer (invalidated op s)"
  note i = invalidated_ok [OF assms, of op]
  have par: "parent ?i = parent s" and m: "u_map ?L = u_map (layer s)" "in_flight ?L = in_flight (layer s)"
    by (simp_all add: invalidated_def in_flight_def fun_eq_iff)
  let ?cached = "if backend_read_visible s op then clean_get (u_clean (layer s)) op else None"
  have start: "utxo_spend cc H s op =
     (case u_map ?L op of
        Some entry \<Rightarrow>
          (let L = ?L\<lparr>u_map_bytes := u_map_bytes ?L - entry_bytes entry, u_map := (u_map ?L)(op \<mapsto> None)\<rparr>
           in case entry of
                None \<Rightarrow> Some (None, UtxoSet L (parent ?i))
              | Some c \<Rightarrow>
                  let L = L\<lparr>u_live_delta := u_live_delta L - 1, u_swift := swift_sub H op c (u_swift L)\<rparr>;
                      L = (if op \<in> u_born L
                           then L\<lparr>u_born := u_born L - {op}, u_map := (u_map L)(op := None)\<rparr> else L)
                  in Some (Some c, UtxoSet L (parent ?i)))
      | None \<Rightarrow> do {
          (found, s) \<leftarrow> (case ?cached of Some c \<Rightarrow> Some (Some c, ?i) | None \<Rightarrow> lower_get cc ?i op);
          case found of
            None \<Rightarrow> Some (None, s)
          | Some c \<Rightarrow>
              let L = layer s
              in Some (Some c, UtxoSet (L\<lparr>u_live_delta := u_live_delta L - 1,
                   u_swift := swift_sub H op c (u_swift L), u_map_bytes := u_map_bytes L + entry_bytes None,
                   u_map := (u_map L)(op \<mapsto> None)\<rparr>) (parent s)) })"
    by (cases "backend_read_visible s op")
      (simp_all add: utxo_spend_def invalidated_def clean_take_eq Let_def cong: option.case_cong if_cong)
  have fin: "utxo_ok H s' \<Longrightarrow> view s' = (view ?i)(op := None) \<Longrightarrow> same_below ?i s' \<Longrightarrow>
      utxo_ok H s' \<and> view s' = (view s)(op := None) \<and> same_below s s'" for s'
    using i(2,3) same_below_trans by auto
  show ?thesis
  proof (cases "u_map ?L op")
    case map: (Some entry)
    have v: "view ?i op = entry" using map m(1) i(2) by (simp add: view_lower apply_delta_Some)
    let ?L1 = "?L\<lparr>u_map_bytes := u_map_bytes ?L - entry_bytes entry, u_map := (u_map ?L)(op \<mapsto> None)\<rparr>"
    note w = spend_write [OF i(1) i(4,5)]
    show ?thesis
    proof (cases entry)
      case None
      have "utxo_ok H (UtxoSet ?L1 (parent ?i)) \<and> view (UtxoSet ?L1 (parent ?i)) = (view ?i)(op := None) \<and>
          same_below ?i (UtxoSet ?L1 (parent ?i))"
        by (rule w) (use v None in \<open>simp_all add: same_stores_def swift_drop_def\<close>)
      from fin [OF conjunct1 [OF this] conjunct1 [OF conjunct2 [OF this]] conjunct2 [OF conjunct2 [OF this]]]
      show ?thesis unfolding start using map None v i(2) by (simp del: view.simps utxo_ok.simps)
    next
      case (Some c)
      let ?L2 = "?L1\<lparr>u_live_delta := u_live_delta ?L1 - 1, u_swift := swift_sub H op c (u_swift ?L1)\<rparr>"
      let ?L3 = "if op \<in> u_born ?L2 then ?L2\<lparr>u_born := u_born ?L2 - {op}, u_map := (u_map ?L2)(op := None)\<rparr> else ?L2"
      have "op \<in> u_born ?L \<Longrightarrow> lower_view ?i op = None"
        using i(1) by (auto simp: utxo_ok_iff struct_ok_def layer_ok_def)
      then have "utxo_ok H (UtxoSet ?L3 (parent ?i)) \<and> view (UtxoSet ?L3 (parent ?i)) = (view ?i)(op := None) \<and>
          same_below ?i (UtxoSet ?L3 (parent ?i))"
        by (intro w) (use v Some in \<open>auto simp: same_stores_def swift_drop_def\<close>)
      from fin [OF conjunct1 [OF this] conjunct1 [OF conjunct2 [OF this]] conjunct2 [OF conjunct2 [OF this]]]
      moreover have "Some c = view s op" using v i(2) Some by simp
      ultimately show ?thesis unfolding start map option.case Some Let_def returns_Some prod.case by blast
    qed
  next
    case None
    have low: "lower_view ?i op = view s op"
      using None m(1) i(3) by (simp add: view_lower apply_delta_None same_below_def)
    let ?r = "case ?cached of Some c \<Rightarrow> Some (Some c, ?i) | None \<Rightarrow> lower_get cc ?i op"
    have r: "returns ?r (\<lambda>(c, s1). c = view s op \<and> utxo_ok H s1 \<and> only_reads ?i s1 \<and> layer s1 = ?L)"
    proof (cases ?cached)
      case (Some c)
      then have c: "clean_get (u_clean (layer s)) op = Some c" "backend_read_visible s op" by (auto split: if_splits)
      obtain L b where s: "s = UtxoSet L b" by (cases s)
      have "caches_ok L" using assms s by (simp add: layer_ok_def)
      with c s have "view s op = Some c"
        by (auto simp: backend_read_visible_def caches_ok_def committed_view_def stored_def apply_delta_None Let_def)
      then show ?thesis using Some i(1) by simp
    next
      case cn: None
      then show ?thesis using lower_get_ok [OF i(1), of cc op] low by simp
    qed
    show ?thesis
      unfolding start None option.case returns_bind
    proof (rule returns_mono [OF r])
      fix x assume x: "case x of (c, s1) \<Rightarrow> c = view s op \<and> utxo_ok H s1 \<and> only_reads ?i s1 \<and> layer s1 = ?L"
      obtain c s1 where cs: "x = (c, s1)" by (cases x)
      have s1: "utxo_ok H s1" "view s1 = view s" "same_below s s1" and c: "c = view s op"
        using x cs only_reads_fields(1,2) [of ?i s1] i(2,3) same_below_trans by auto
      show "returns (case x of (found, s1) \<Rightarrow> case found of None \<Rightarrow> Some (None, s1)
          | Some c \<Rightarrow> let L = layer s1 in Some (Some c, UtxoSet (L\<lparr>u_live_delta := u_live_delta L - 1,
                   u_swift := swift_sub H op c (u_swift L), u_map_bytes := u_map_bytes L + entry_bytes None,
                   u_map := (u_map L)(op \<mapsto> None)\<rparr>) (parent s1)))
        (\<lambda>(c, s'). c = view s op \<and> utxo_ok H s' \<and> view s' = (view s)(op := None) \<and> same_below s s')"
      proof (cases c)
        case None
        then have "view s = (view s)(op := None)" using c by auto
        with None s1 c cs show ?thesis by simp
      next
        case (Some d)
        have vd: "view s op = Some d" using c Some by simp
        let ?L2 = "(layer s1)\<lparr>u_live_delta := u_live_delta (layer s1) - 1,
                   u_swift := swift_sub H op d (u_swift (layer s1)), u_map_bytes := u_map_bytes (layer s1) + entry_bytes None,
                   u_map := (u_map (layer s1))(op \<mapsto> None)\<rparr>"
        have "utxo_ok H (UtxoSet ?L2 (parent s1)) \<and> view (UtxoSet ?L2 (parent s1)) = (view s1)(op := None) \<and>
            same_below s1 (UtxoSet ?L2 (parent s1))"
          by (rule spend_write [OF s1(1)])
            (use x cs i(4,5) s1(2) vd in \<open>simp_all add: same_stores_def swift_drop_def\<close>)
        with Some cs c s1 show ?thesis by (auto simp: Let_def intro: same_below_trans simp del: view.simps utxo_ok.simps)
      qed
    qed
  qed
qed

text \<open>\<open>remove_entry\<close> drops the map's entry and hides what it uncovers with a tombstone.\<close>

definition dropped :: "out_point \<Rightarrow> utxo_set \<Rightarrow> utxo_set" where
  "dropped op s =
     (let L = layer s;
          L = (case u_map L op of
              None \<Rightarrow> L
            | Some old \<Rightarrow> L\<lparr>u_map := (u_map L)(op := None), u_map_bytes := u_map_bytes L - entry_bytes old,
                u_live_delta := u_live_delta L - (of_bool (old \<noteq> None) - of_bool (lower_live s op))\<rparr>)
      in UtxoSet (L\<lparr>u_born := u_born L - {op}\<rparr>) (parent s))"

lemma dropped_ok:
  assumes "struct_ok H s" "clean_get (u_warm (layer s)) op = None"
  shows "struct_ok H (dropped op s)" "view (dropped op s) = (view s)(op := lower_view s op)"
    "same_below s (dropped op s)" "u_swift (layer (dropped op s)) = u_swift (layer s)"
proof -
  have ca: "caches_ok (layer s)" and born: "\<forall>k \<in> u_born (layer s). lower_view s k = None"
    using assms(1) by (simp_all add: struct_ok_def layer_ok_def)
  obtain L where L: "dropped op s = UtxoSet L (parent s)" "u_map L = (u_map (layer s))(op := None)"
    "same_stores (layer s) L" "u_clean L = u_clean (layer s)" "u_warm L = u_warm (layer s)"
    "u_born L \<subseteq> u_born (layer s)" "u_swift L = u_swift (layer s)"
    by (cases "u_map (layer s) op") (auto simp: dropped_def Let_def same_stores_def fun_upd_idem)
  have "caches_ok L"
  proof (cases "u_map (layer s) op")
    case None
    then have "u_map L = u_map (layer s)" using L(2) by auto
    with ca L same_stores_cong(1) [OF L(3)] show ?thesis
      by (simp add: caches_ok_def same_stores_def)
  next
    case (Some e)
    then have "clean_get (u_clean (layer s)) op = None"
      using ca by (cases "clean_get (u_clean (layer s)) op") (simp_all add: caches_ok_def)
    with ca assms(2) L show ?thesis
      by (intro caches_ok_write [OF ca L(3), where op = op]) (auto simp: caches_ok_def split: if_splits)
  qed
  moreover have "\<forall>k \<in> u_born L. lower_view s k = None" using born L(6) by auto
  moreover have "apply_delta (u_map L) (lower_view s) = (view s)(op := lower_view s op)"
    using L(2) by (simp add: view_lower)
  ultimately show "struct_ok H (dropped op s)" "view (dropped op s) = (view s)(op := lower_view s op)"
    "same_below s (dropped op s)" "u_swift (layer (dropped op s)) = u_swift (layer s)"
    using struct_ok_write [OF assms(1) L(3)] L(1,7) by auto
qed

lemma remove_entry_ok:
  assumes "utxo_ok H s"
  shows "returns (remove_entry cc H s op)
    (\<lambda>s'. utxo_ok H s' \<and> view s' = (view s)(op := None) \<and> same_below s s')"
proof -
  let ?i = "invalidated op s"
  note i = invalidated_ok [OF assms, of op]
  let ?tagged = "if u_swift (layer ?i) = None then Some ?i
      else do {
        (old, s) \<leftarrow> utxo_get cc ?i op;
        Some (case old of None \<Rightarrow> s
          | Some c \<Rightarrow> UtxoSet ((layer s)\<lparr>u_swift := swift_sub H op c (u_swift (layer s))\<rparr>) (parent s)) }"
  have start: "remove_entry cc H s op = do { s \<leftarrow> ?tagged;
      if lower_live (dropped op s) op then put_raw cc (dropped op s) op None else Some (dropped op s) }"
    by (simp only: remove_entry_def invalidated_def dropped_def Let_def utxo_set.sel)
  have tagged: "returns ?tagged (\<lambda>s2. struct_ok H s2 \<and> view s2 = view s \<and> same_below s s2 \<and>
      clean_get (u_warm (layer s2)) op = None \<and> u_swift (layer s2) = swift_drop H op (view s op) (u_swift (layer s)))"
  proof (cases "u_swift (layer ?i)")
    case None
    then show ?thesis using i by (simp add: utxo_ok_iff swift_drop_def swift_sub_def split: option.split)
  next
    case (Some agg)
    have "returns (utxo_get cc ?i op) (\<lambda>(c, s'). c = view ?i op \<and> utxo_ok H s' \<and> only_reads ?i s')"
      unfolding utxo_get_def by (rule get_ok [OF i(1)]) simp
    then have "returns (utxo_get cc ?i op) (\<lambda>(c, s'). c = view s op \<and> struct_ok H s' \<and> view s' = view s \<and>
        same_below s s' \<and> clean_get (u_warm (layer s')) op = None \<and> u_swift (layer s') = u_swift (layer s))"
    proof (rule returns_mono)
      fix x assume x: "case x of (c, s') \<Rightarrow> c = view ?i op \<and> utxo_ok H s' \<and> only_reads ?i s'"
      obtain c s' where cs: "x = (c, s')" by (cases x)
      then have r: "only_reads ?i s'" using x by simp
      show "case x of (c, s') \<Rightarrow> c = view s op \<and> struct_ok H s' \<and> view s' = view s \<and>
        same_below s s' \<and> clean_get (u_warm (layer s')) op = None \<and> u_swift (layer s') = u_swift (layer s)"
        using only_reads_fields [OF r] same_below_trans [OF i(3), of s'] i x cs by (simp add: utxo_ok_iff)
    qed
    then have "returns (utxo_get cc ?i op) (\<lambda>(c, s'). let s2 = (case c of None \<Rightarrow> s'
          | Some c \<Rightarrow> UtxoSet ((layer s')\<lparr>u_swift := swift_sub H op c (u_swift (layer s'))\<rparr>) (parent s'))
        in struct_ok H s2 \<and> view s2 = view s \<and> same_below s s2 \<and>
          clean_get (u_warm (layer s2)) op = None \<and> u_swift (layer s2) = swift_drop H op (view s op) (u_swift (layer s)))"
    proof (rule returns_mono)
      fix x assume x: "case x of (c, s') \<Rightarrow> c = view s op \<and> struct_ok H s' \<and> view s' = view s \<and>
        same_below s s' \<and> clean_get (u_warm (layer s')) op = None \<and> u_swift (layer s') = u_swift (layer s)"
      obtain c s' where cs: "x = (c, s')" by (cases x)
      show "case x of (c, s') \<Rightarrow> let s2 = (case c of None \<Rightarrow> s'
          | Some c \<Rightarrow> UtxoSet ((layer s')\<lparr>u_swift := swift_sub H op c (u_swift (layer s'))\<rparr>) (parent s'))
        in struct_ok H s2 \<and> view s2 = view s \<and> same_below s s2 \<and>
          clean_get (u_warm (layer s2)) op = None \<and> u_swift (layer s2) = swift_drop H op (view s op) (u_swift (layer s))"
      proof (cases c)
        case None
        then show ?thesis using x cs by (simp add: swift_drop_def)
      next
        case (Some d)
        have "struct_ok H s'" using x cs by simp
        note sw = struct_ok_swift [OF this, of "swift_sub H op d (u_swift (layer s'))"]
        have "view s op = Some d" using x cs Some by simp
        with x cs Some sw show ?thesis
          by (auto simp: Let_def swift_drop_def intro: same_below_trans simp del: view.simps)
      qed
    qed
    with Some show ?thesis by (simp add: Let_def)
  qed
  show ?thesis
    unfolding start returns_bind
  proof (rule returns_mono [OF tagged])
    fix s2 assume s2: "struct_ok H s2 \<and> view s2 = view s \<and> same_below s s2 \<and>
      clean_get (u_warm (layer s2)) op = None \<and> u_swift (layer s2) = swift_drop H op (view s op) (u_swift (layer s))"
    then have d: "struct_ok H (dropped op s2)" "view (dropped op s2) = (view s)(op := lower_view s2 op)"
      "same_below s (dropped op s2)" "u_swift (layer (dropped op s2)) = swift_drop H op (view s op) (u_swift (layer s))"
      using dropped_ok [of H s2 op] by (auto intro: same_below_trans)
    have low: "lower_view (dropped op s2) op = lower_view s2 op" using dropped_ok(3) [of H s2 op] s2
      by (simp add: same_below_def)
    have fin: "struct_ok H s' \<and> view s' = (view s)(op := None) \<and> same_below s s' \<and>
        u_swift (layer s') = swift_drop H op (view s op) (u_swift (layer s)) \<Longrightarrow>
        utxo_ok H s' \<and> view s' = (view s)(op := None) \<and> same_below s s'" for s'
      using swift_ok_drop [OF assms, of s'] by (simp add: utxo_ok_iff)
    show "returns (if lower_live (dropped op s2) op then put_raw cc (dropped op s2) op None else Some (dropped op s2))
      (\<lambda>s'. utxo_ok H s' \<and> view s' = (view s)(op := None) \<and> same_below s s')"
    proof (cases "lower_live (dropped op s2) op")
      case True
      have "returns (put_raw cc (dropped op s2) op None)
          (\<lambda>s'. utxo_ok H s' \<and> view s' = (view s)(op := None) \<and> same_below s s')"
        by (rule returns_mono [OF put_raw_ok [OF d(1)]], rule fin) (use d same_below_trans in auto)
      with True show ?thesis by simp
    next
      case False
      then have "lower_view s2 op = None" using lower_live_iff [OF d(1)] low by simp
      with False d fin [of "dropped op s2"] show ?thesis by simp
    qed
  qed
qed

section \<open>Overlays\<close>

lemma empty_layer_fields [simp]:
  "u_map empty_layer = Map.empty" "u_backend empty_layer = None" "u_snapshot empty_layer = None"
  "u_flat empty_layer = None" "u_flushing empty_layer = None" "u_flush_join empty_layer = None"
  "u_runs empty_layer = []" "u_runs_dir empty_layer = False" "u_clean empty_layer = clean_empty"
  "u_warm empty_layer = clean_empty" "u_born empty_layer = {}" "u_swift empty_layer = None"
  by (simp_all add: empty_layer_def)

lemma clean_get_empty [simp]: "clean_get clean_empty op = None"
  by (simp add: clean_get_def clean_empty_def)

lemma empty_layer_ok:
  "stores_ok (empty_layer\<lparr>u_budget := n\<rparr>) b" "caches_ok (empty_layer\<lparr>u_budget := n\<rparr>)"
  by (simp_all add: stores_ok_def caches_ok_def)

lemma overlay_ok:
  assumes "utxo_ok H s"
  shows "utxo_ok H (fst (overlay s))" "view (fst (overlay s)) = view s"
    "utxo_ok H (snd (overlay s))" "view (snd (overlay s)) = Map.empty"
proof -
  have inf: "in_flight (empty_layer\<lparr>u_budget := n\<rparr>) = Map.empty" for n
    by (simp add: in_flight_def fun_eq_iff)
  then show v: "view (fst (overlay s)) = view s" by (simp add: overlay_def)
  have "finite (dom (view s))" using assms by (simp add: utxo_ok_iff struct_ok_def layer_ok_def)
  then show "utxo_ok H (fst (overlay s))"
    using assms v empty_layer_ok by (simp add: overlay_def layer_ok_def swift_ok_def)
  have e: "empty_layer\<lparr>u_budget := u_budget empty_layer\<rparr> = empty_layer" by simp
  have c: "committed_view empty_layer = Map.empty"
    by (simp add: committed_view_def apply_delta_def stored_def fun_eq_iff)
  show v': "view (snd (overlay s)) = Map.empty"
    using inf [of "u_budget empty_layer"] c unfolding e by (simp add: overlay_def utxo_new_def)
  then show "utxo_ok H (snd (overlay s))"
    using empty_layer_ok(1) [of "u_budget empty_layer" None] empty_layer_ok(2) [of "u_budget empty_layer"] unfolding e
    by (simp add: overlay_def utxo_new_def layer_ok_def swift_ok_def)
qed

lemma put_entries_ok:
  "utxo_ok H s \<Longrightarrow> distinct (map fst iter) \<Longrightarrow>
   returns (put_entries cc H s iter)
     (\<lambda>s'. utxo_ok H s' \<and> view s' = apply_delta (map_of iter) (view s) \<and> parent_views s' = parent_views s)"
proof (induction iter arbitrary: s)
  case (Cons x iter)
  obtain op e where x: "x = (op, e)" by (cases x)
  have "returns (utxo_put cc H s op e) (\<lambda>s1. returns (put_entries cc H s1 iter)
      (\<lambda>s'. utxo_ok H s' \<and> view s' = apply_delta (map_of (x # iter)) (view s) \<and> parent_views s' = parent_views s))"
  proof (rule returns_mono [OF utxo_put_ok [OF Cons.prems(1)]])
    fix s1 assume s1: "utxo_ok H s1 \<and> view s1 = (view s)(op := e) \<and> same_below s s1"
    have "map_of iter op = None" using Cons.prems(2) x by (simp add: map_of_eq_None_iff)
    then have eq: "apply_delta (map_of iter) ((view s)(op := e)) = apply_delta (map_of (x # iter)) (view s)"
      using x by (auto simp: apply_delta_def fun_eq_iff cong: option.case_cong)
    have "returns (put_entries cc H s1 iter)
        (\<lambda>s'. utxo_ok H s' \<and> view s' = apply_delta (map_of iter) (view s1) \<and> parent_views s' = parent_views s1)"
      by (rule Cons.IH) (use s1 Cons.prems(2) in simp_all)
    then show "returns (put_entries cc H s1 iter)
        (\<lambda>s'. utxo_ok H s' \<and> view s' = apply_delta (map_of (x # iter)) (view s) \<and> parent_views s' = parent_views s)"
      by (rule returns_mono) (use eq s1 in \<open>metis same_below_def\<close>)
  qed
  then show ?case unfolding x by (simp del: map_of.simps apply_delta_upd)
qed simp

lemma unoverlay_commit_ok:
  assumes "utxo_ok H over" "parent over = Some p" "distinct (map fst iter)" "map_of iter = u_map (layer over)"
  shows "returns (unoverlay cc H s over True iter) (\<lambda>s'. utxo_ok H s' \<and> view s' = view over \<and> views s' = view over # tl (parent_views over))"
proof -
  obtain L where over: "over = UtxoSet L (Some p)" using assms(2) by (cases over) auto
  then have "utxo_ok H p" "stores_ok L (Some p)" using assms(1) by (simp_all add: layer_ok_def)
  moreover from this(2) have "in_flight L = Map.empty" by (auto simp: stores_ok_def in_flight_def fun_eq_iff)
  ultimately show ?thesis
    using put_entries_ok [of H p iter cc] assms(3,4) over
    by (auto simp: unoverlay_def parent_views_def views_Cons elim!: returns_mono)
qed

lemma unoverlay_discard:
  "parent over = Some p \<Longrightarrow> unoverlay cc H s over False iter = Some p"
  by (simp add: unoverlay_def)

section \<open>Commits\<close>

lemma root_ok:
  "utxo_ok H (UtxoSet L None) \<longleftrightarrow> stores_ok L None \<and> caches_ok L \<and>
     (\<forall>op \<in> u_born L. apply_delta (in_flight L) (committed_view L) op = None) \<and>
     finite (dom (view (UtxoSet L None))) \<and> swift_ok H (UtxoSet L None)"
  by (simp add: layer_ok_def lower_view_def below_def)

lemma root_ok_same:
  assumes "utxo_ok H (UtxoSet L None)" "stores_ok L' None" "caches_ok L'"
    and "u_map L' = u_map L" "u_born L' = u_born L" "u_swift L' = u_swift L"
    and "apply_delta (in_flight L') (committed_view L') = apply_delta (in_flight L) (committed_view L)"
  shows "utxo_ok H (UtxoSet L' None) \<and> view (UtxoSet L' None) = view (UtxoSet L None)"
proof -
  have "view (UtxoSet L' None) = view (UtxoSet L None)" using assms(4,7) by simp
  then show ?thesis
    using assms unfolding root_ok swift_ok_def utxo_set.sel by (simp cong: option.case_cong)
qed

lemma layer_views [simp]:
  "in_flight (L\<lparr>u_flush_join := x\<rparr>) = in_flight L" "stored (L\<lparr>u_flush_join := x\<rparr>) = stored L"
  "committed_view (L\<lparr>u_flush_join := x\<rparr>) = committed_view L"
  "in_flight (L\<lparr>u_clean := y\<rparr>) = in_flight L" "stored (L\<lparr>u_clean := y\<rparr>) = stored L"
  "committed_view (L\<lparr>u_clean := y\<rparr>) = committed_view L"
proof -
  show "in_flight (L\<lparr>u_flush_join := x\<rparr>) = in_flight L" "in_flight (L\<lparr>u_clean := y\<rparr>) = in_flight L"
    by (simp_all add: in_flight_def fun_eq_iff cong: option.case_cong)
  show st: "stored (L\<lparr>u_flush_join := x\<rparr>) = stored L" "stored (L\<lparr>u_clean := y\<rparr>) = stored L"
    by (simp_all add: stored_def fun_eq_iff cong: option.case_cong)
  show "committed_view (L\<lparr>u_flush_join := x\<rparr>) = committed_view L"
    "committed_view (L\<lparr>u_clean := y\<rparr>) = committed_view L"
    by (simp_all add: committed_view_def st)
qed

lemma worker_finish_ok:
  assumes "utxo_ok H (UtxoSet L None)"
  shows "utxo_ok H (UtxoSet (worker_finish ok L) None) \<and> view (UtxoSet (worker_finish ok L) None) = view (UtxoSet L None)"
proof -
  have st: "stores_ok L None" and ca: "caches_ok L" using assms unfolding root_ok by blast+
  consider (idle) "worker_finish ok L = L"
    | (failed) x where "u_flush_join L = Some (Working x)" "worker_finish ok L = L\<lparr>u_flush_join := Some (Finished CommitFailed)\<rparr>"
    | (to_file) l q where "u_flushing L = Some l" "u_flush_join L = Some (Working (Some q))"
        "worker_finish ok L = L\<lparr>u_flush_join := Some (Finished (EpochWritten
           \<lparr>ep_tip = fl_tip l, ep_delta = fl_delta l, ep_seq = q, ep_probe = fl_snap l\<rparr>))\<rparr>"
    | (landed) l be where "u_flushing L = Some l" "u_flush_join L = Some (Working None)" "u_backend L = Some be"
        "worker_finish ok L = L\<lparr>u_flush_join := Some (Finished Committed),
           u_backend := Some (backend_commit be (fl_snap l) (fl_tip l))\<rparr>"
  proof (cases "u_flush_join L")
    case join: (Some w)
    then obtain l where l: "u_flushing L = Some l" using st by (auto simp: stores_ok_def)
    then obtain be where be: "u_backend L = Some be" using st by (auto simp: stores_ok_def)
    show ?thesis
    proof (cases w)
      case w: (Working x)
      show ?thesis
      proof (cases ok)
        case True
        show ?thesis
        proof (cases x)
          case None
          with True show ?thesis
            by (intro landed [OF l _ be]) (simp_all add: join w l be worker_finish_def)
        next
          case (Some q)
          with True show ?thesis
            by (intro to_file [OF l]) (simp_all add: join w l worker_finish_def)
        qed
      next
        case False
        then show ?thesis
          by (intro failed) (simp_all add: join w l worker_finish_def)
      qed
    next
      case (Finished r)
      then show ?thesis by (intro idle) (simp add: join worker_finish_def)
    qed
  next
    case None
    then show ?thesis by (intro idle) (simp add: worker_finish_def)
  qed
  then show ?thesis
  proof cases
    case idle
    then show ?thesis using assms by simp
  next
    case (failed x)
    show ?thesis
      unfolding failed(2)
      by (rule root_ok_same [OF assms])
        (use st ca failed(1) in \<open>simp_all add: stores_ok_def caches_ok_def\<close>)
  next
    case (to_file l q)
    show ?thesis
      unfolding to_file(3)
      by (rule root_ok_same [OF assms])
        (use st ca to_file(1,2) in \<open>simp_all add: stores_ok_def caches_ok_def in_flight_def fun_eq_iff\<close>)
  next
    case (landed l be)
    let ?L = "L\<lparr>u_flush_join := Some (Finished Committed), u_backend := Some (backend_commit be (fl_snap l) (fl_tip l))\<rparr>"
    have inf: "in_flight ?L = in_flight L" "in_flight L = fl_snap l"
      using landed(1) by (simp_all add: in_flight_def fun_eq_iff)
    have store: "stored ?L = apply_delta (fl_snap l) (stored L)"
      using landed(3) by (simp add: stored_def backend_commit_def fun_eq_iff)
        (simp add: apply_delta_def stored_def cong: option.case_cong)
    have "stores_ok ?L None"
      using st landed inf store by (auto simp: stores_ok_def apply_delta_Some apply_delta_None)
    moreover have "caches_ok ?L"
      using ca landed inf by (simp add: caches_ok_def backend_commit_def apply_delta_None)
    moreover have "apply_delta (in_flight ?L) (committed_view ?L) = apply_delta (in_flight L) (committed_view L)"
    proof (rule ext)
      fix op
      show "apply_delta (in_flight ?L) (committed_view ?L) op = apply_delta (in_flight L) (committed_view L) op"
        by (cases "fl_snap l op"; cases "probe_runs (rev (u_runs L)) op")
          (simp_all add: inf committed_view_def store apply_delta_Some apply_delta_None)
    qed
    ultimately show ?thesis
      unfolding landed(4) using root_ok_same [OF assms, of ?L] by simp
  qed
qed

text \<open>What a joined commit leaves: its layer moved to where its results are read.\<close>

lemma promote_loop_ok:
  assumes "caches_ok L" "u_backend L = Some be" "in_flight L = Map.empty"
    and "\<forall>(op, c) \<in> set iter. u_map L op = None \<longrightarrow> be_coins be op = Some c"
  shows "returns (promote_loop L iter) (\<lambda>L'. caches_ok L' \<and> (\<exists>cl. L' = L\<lparr>u_clean := cl\<rparr>))"
  using assms
proof (induction iter arbitrary: L)
  case (Cons x iter)
  obtain op c where x: "x = (op, c)" by (cases x)
  show ?case
  proof (cases "u_map L op")
    case (Some e)
    then show ?thesis using Cons x by simp
  next
    case None
    have ins: "returns (clean_insert (u_clean L) op c) (\<lambda>cl. clean_ok cl \<and>
        (\<forall>k v. clean_get cl k = Some v \<longrightarrow> (if k = op then v = c else clean_get (u_clean L) k = Some v)))"
      using Cons.prems(1) by (intro clean_insert_returns) (simp add: caches_ok_def)
    have "returns (clean_insert (u_clean L) op c) (\<lambda>cl. returns (promote_loop (L\<lparr>u_clean := cl\<rparr>) iter)
        (\<lambda>L'. caches_ok L' \<and> (\<exists>cl. L' = L\<lparr>u_clean := cl\<rparr>)))"
    proof (rule returns_mono [OF ins])
      fix cl assume cl: "clean_ok cl \<and>
        (\<forall>k v. clean_get cl k = Some v \<longrightarrow> (if k = op then v = c else clean_get (u_clean L) k = Some v))"
      have "caches_ok (L\<lparr>u_clean := cl\<rparr>)"
      proof -
        have "u_map L k = None \<and> be_coins be k = Some v" if k: "clean_get cl k = Some v" for k v
        proof (cases "k = op")
          case True
          with cl k have "v = c" by simp
          with True None Cons.prems(4) x show ?thesis by simp
        next
          case False
          with cl k have "clean_get (u_clean L) k = Some v" by metis
          with Cons.prems(1,2) show ?thesis by (auto simp: caches_ok_def)
        qed
        with cl Cons.prems(1-3) show ?thesis by (simp add: caches_ok_def)
      qed
      then have "returns (promote_loop (L\<lparr>u_clean := cl\<rparr>) iter)
          (\<lambda>L'. caches_ok L' \<and> (\<exists>cl'. L' = L\<lparr>u_clean := cl\<rparr>\<lparr>u_clean := cl'\<rparr>))"
        by (rule Cons.IH) (use Cons.prems in auto)
      then show "returns (promote_loop (L\<lparr>u_clean := cl\<rparr>) iter)
          (\<lambda>L'. caches_ok L' \<and> (\<exists>cl. L' = L\<lparr>u_clean := cl\<rparr>))"
        by (rule returns_mono) auto
    qed
    then show ?thesis using x None by simp
  qed
next
  case Nil
  from Nil(1) show ?case unfolding promote_loop.simps returns_Some by (rule conjI) (rule clean_same)
qed

lemma join_runs_ok:
  assumes L: "utxo_ok H (UtxoSet L None)" and j: "u_flush_join L = Some (Finished (EpochWritten e))"
  shows "utxo_ok H (UtxoSet (L\<lparr>u_flush_join := None, u_flushing := None, u_runs := u_runs L @ [e]\<rparr>) None) \<and>
    view (UtxoSet (L\<lparr>u_flush_join := None, u_flushing := None, u_runs := u_runs L @ [e]\<rparr>) None) = view (UtxoSet L None)"
    (is "utxo_ok H (UtxoSet ?M None) \<and> _")
proof (rule root_ok_same [OF L])
  have st: "stores_ok L None" and ca: "caches_ok L" using L unfolding root_ok by blast+
  have e: "ep_probe e = in_flight L" "u_runs_dir L" using st j by (simp_all add: stores_ok_def)
  have inf: "in_flight ?M = Map.empty" by (simp add: in_flight_def fun_eq_iff)
  have store: "stored ?M = stored L" by (simp add: stored_def fun_eq_iff cong: option.case_cong)
  show "stores_ok ?M None" using st j e(2) inf store by (simp add: stores_ok_def)
  show "caches_ok ?M" using ca inf by (simp add: caches_ok_def)
  show "apply_delta (in_flight ?M) (committed_view ?M) = apply_delta (in_flight L) (committed_view L)"
    by (simp add: inf committed_view_def store fun_eq_iff) (simp add: apply_delta_def e(1) split: option.split)
qed simp_all

lemma join_committed_ok:
  assumes L: "utxo_ok H (UtxoSet L None)" and j: "u_flush_join L = Some (Finished Committed)"
    and l: "u_flushing L = Some l"
  shows "utxo_ok H (UtxoSet (L\<lparr>u_flush_join := None, u_flushing := None,
      u_flat := map_option (apply_delta (fl_snap l)) (u_flat L)\<rparr>) None) \<and>
    view (UtxoSet (L\<lparr>u_flush_join := None, u_flushing := None,
      u_flat := map_option (apply_delta (fl_snap l)) (u_flat L)\<rparr>) None) = view (UtxoSet L None)"
    (is "utxo_ok H (UtxoSet ?M None) \<and> _")
proof (rule root_ok_same [OF L])
  have st: "stores_ok L None" and ca: "caches_ok L" using L unfolding root_ok by blast+
  have snap: "in_flight L = fl_snap l" using l by (simp add: in_flight_def fun_eq_iff)
  have landed: "fl_snap l op = Some e \<Longrightarrow> stored L op = e" for op e
    using st j snap by (simp add: stores_ok_def)
  have runs: "u_runs L = []" using st j by (auto simp: stores_ok_def)
  have inf: "in_flight ?M = Map.empty" by (simp add: in_flight_def fun_eq_iff)
  have store: "stored ?M = stored L" by (simp add: stored_def fun_eq_iff cong: option.case_cong)
  have flat: "f op = stored L op" if "u_flat L = Some f" "fl_snap l op = None" for f op
    using st that snap by (simp add: stores_ok_def)
  show "stores_ok ?M None"
    using st j l inf store landed flat runs by (auto simp: stores_ok_def apply_delta_def split: option.split)
  show "caches_ok ?M" using ca inf by (simp add: caches_ok_def)
  show "apply_delta (in_flight ?M) (committed_view ?M) = apply_delta (in_flight L) (committed_view L)"
    by (simp add: inf committed_view_def store runs snap fun_eq_iff) (simp add: apply_delta_def landed split: option.split)
qed simp_all

lemma worker_finish_finished:
  assumes "stores_ok L b" "u_flush_join L \<noteq> None"
  obtains r l where "u_flush_join (worker_finish ok L) = Some (Finished r)" "u_flushing (worker_finish ok L) = Some l"
    "u_flushing L = Some l"
proof -
  from assms obtain w where w: "u_flush_join L = Some w" by blast
  with assms obtain l where l: "u_flushing L = Some l" by (auto simp: stores_ok_def)
  show thesis
  proof (cases w)
    case (Working x)
    show thesis
      by (cases ok; cases x; rule that) (simp_all add: worker_finish_def w Working l split: option.split)
  next
    case (Finished r)
    show thesis by (rule that [of r l]) (simp_all add: worker_finish_def w Finished l)
  qed
qed

definition joined :: "hash_fns \<Rightarrow> utxo_layer \<Rightarrow> utxo_layer \<Rightarrow> bool" where
  "joined H L L' \<longleftrightarrow> utxo_ok H (UtxoSet L' None) \<and> view (UtxoSet L' None) = view (UtxoSet L None) \<and>
     u_flushing L' = None \<and> u_flush_join L' = None \<and> u_backend L' = u_backend L \<and> u_runs_dir L' = u_runs_dir L"

lemma join_flush_ok:
  assumes L: "utxo_ok H (UtxoSet L None)"
    and iter: "\<forall>l. u_flushing L = Some l \<longrightarrow> (\<forall>(op, c) \<in> set iter. clean_get (fl_warm l) op = Some c)"
  shows "returns (join_flush cc ok L iter) (\<lambda>(r, L').
     if u_flush_join (worker_finish ok L) = Some (Finished CommitFailed) then r = Inl IoError
     else r = Inr () \<and> joined H (worker_finish ok L) L')"
proof (cases "u_flush_join L")
  case None
  then have "worker_finish ok L = L" by (simp add: worker_finish_def)
  moreover have "u_flushing L = None" using L None by (simp add: layer_ok_def stores_ok_def)
  ultimately show ?thesis using L None by (simp add: join_flush_def joined_def)
next
  case (Some w)
  have st: "stores_ok L None" using L unfolding root_ok by blast
  obtain r l where j: "u_flush_join (worker_finish ok L) = Some (Finished r)"
      and l: "u_flushing (worker_finish ok L) = Some l" "u_flushing L = Some l"
    using worker_finish_finished [OF st, of ok] Some by auto
  define M where "M = worker_finish ok L"
  have M: "utxo_ok H (UtxoSet M None)" using worker_finish_ok [OF L] by (simp add: M_def)
  note j = j [folded M_def] and l = l [folded M_def]
  have stM: "stores_ok M None" and caM: "caches_ok M" using M unfolding root_ok by blast+
  show ?thesis
  proof (cases r)
    case CommitFailed
    then show ?thesis using j l by (simp add: join_flush_def Let_def M_def)
  next
    case (EpochWritten e)
    then have "u_runs_dir M" using stM j by (simp add: stores_ok_def)
    then show ?thesis
      using join_runs_ok [OF M j [unfolded EpochWritten]] j l EpochWritten
      by (simp add: join_flush_def Let_def joined_def M_def [symmetric])
  next
    case Committed
    define N where "N = M\<lparr>u_flush_join := None, u_flushing := None, u_flat := map_option (apply_delta (fl_snap l)) (u_flat M)\<rparr>"
    have N: "utxo_ok H (UtxoSet N None)" "view (UtxoSet N None) = view (UtxoSet M None)"
      using join_committed_ok [OF M j [unfolded Committed] l(1)] by (simp_all add: N_def)
    have get: "join_flush cc ok L iter = do { L \<leftarrow> promote_warm cc N iter; Some (Inr (), L) }"
      using j l Committed by (simp add: join_flush_def Let_def M_def [symmetric] N_def)
    obtain be where be: "u_backend M = Some be" using stM l by (auto simp: stores_ok_def)
    have snap: "\<And>op c. fl_snap l op = Some (Some c) \<Longrightarrow> be_coins be op = Some c"
      using stM j l Committed be by (simp add: stores_ok_def stored_def in_flight_def)
    have warm: "\<And>op c. clean_get (fl_warm l) op = Some c \<Longrightarrow> fl_snap l op = Some (Some c)"
      using caM l by (simp add: caches_ok_def)
    have p: "returns (promote_loop N iter) (\<lambda>L'. caches_ok L' \<and> (\<exists>cl. L' = N\<lparr>u_clean := cl\<rparr>))"
    proof (rule promote_loop_ok)
      show "caches_ok N" using N(1) unfolding root_ok by blast
      show "u_backend N = Some be" "in_flight N = Map.empty" using be by (simp_all add: N_def in_flight_def fun_eq_iff)
      show "\<forall>(op, c) \<in> set iter. u_map N op = None \<longrightarrow> be_coins be op = Some c"
        using iter l(2) snap warm by auto
    qed
    have fin: "joined H M (N\<lparr>u_clean := cl\<rparr>)" if "caches_ok (N\<lparr>u_clean := cl\<rparr>)" for cl
    proof -
      have "utxo_ok H (UtxoSet (N\<lparr>u_clean := cl\<rparr>) None) \<and> view (UtxoSet (N\<lparr>u_clean := cl\<rparr>) None) = view (UtxoSet N None)"
      proof (rule root_ok_same [OF N(1) _ that])
        have "stores_ok N None" using N(1) unfolding root_ok by blast
        then show "stores_ok (N\<lparr>u_clean := cl\<rparr>) None" by (auto simp: stores_ok_def)
      qed simp_all
      then show ?thesis using N(2) by (simp add: joined_def N_def)
    qed
    have "returns (promote_warm cc N iter) (joined H M)"
    proof (cases cc)
      case True
      have "returns (promote_loop N iter) (joined H M)"
        by (rule returns_mono [OF p]) (use fin in auto)
      with True show ?thesis by (simp add: promote_warm_def)
    next
      case False
      then show ?thesis using N by (simp add: promote_warm_def joined_def N_def)
    qed
    then show ?thesis using j Committed unfolding get M_def [symmetric] by (auto elim!: returns_mono)
  qed
qed

lemma start_flush_ok:
  assumes L: "utxo_ok H (UtxoSet L None)" and idle: "u_flushing L = None" "u_flush_join L = None" and be: "u_backend L \<noteq> None"
  shows "utxo_ok H (UtxoSet (start_flush L t) None) \<and> view (UtxoSet (start_flush L t) None) = view (UtxoSet L None)"
proof -
  have st: "stores_ok L None" and ca: "caches_ok L" using L unfolding root_ok by blast+
  have inf: "in_flight (start_flush L t) = u_map L" "in_flight L = Map.empty"
    using idle by (simp_all add: in_flight_def start_flush_def fun_eq_iff)
  have store: "stored (start_flush L t) = stored L"
    by (simp add: stored_def start_flush_def fun_eq_iff cong: option.case_cong)
  then have committed: "committed_view (start_flush L t) = committed_view L"
    by (simp add: committed_view_def) (simp add: start_flush_def)
  have view: "view (UtxoSet (start_flush L t) None) = view (UtxoSet L None)"
    by (simp add: inf committed) (simp add: start_flush_def)
  have "stores_ok (start_flush L t) None"
    using st be inf store by (auto simp: stores_ok_def start_flush_def)
  moreover have "caches_ok (start_flush L t)"
    using ca inf by (auto simp: caches_ok_def start_flush_def)
  moreover have "swift_ok H (UtxoSet (start_flush L t) None)"
  proof -
    have "u_swift (start_flush L t) = u_swift L" by (simp add: start_flush_def)
    then show ?thesis using L view unfolding root_ok swift_ok_def utxo_set.sel by (simp only:)
  qed
  moreover have "u_born (start_flush L t) = {}" by (simp add: start_flush_def)
  ultimately show ?thesis
    using L view unfolding root_ok by (simp del: view.simps)
qed

lemma flush_ok:
  assumes L: "utxo_ok H (UtxoSet L None)"
    and iter: "\<forall>l. u_flushing L = Some l \<longrightarrow> (\<forall>(op, c) \<in> set iter. clean_get (fl_warm l) op = Some c)"
  shows "returns (flush_to_backend_owned cc ok L iter t) (\<lambda>(r, L').
     r = Inr () \<longrightarrow> utxo_ok H (UtxoSet L' None) \<and> view (UtxoSet L' None) = view (UtxoSet L None))"
proof (cases "u_backend L = None")
  case True
  then show ?thesis using L by (simp add: flush_to_backend_owned_def)
next
  case False
  have M: "u_backend (worker_finish ok L) \<noteq> None" using False
    by (simp add: worker_finish_def split: option.split flush_worker.split)
  have v: "view (UtxoSet (worker_finish ok L) None) = view (UtxoSet L None)" using worker_finish_ok [OF L] by blast
  have "returns (join_flush cc ok L iter) (\<lambda>(r, L'). case r of Inl _ \<Rightarrow> True
      | Inr _ \<Rightarrow> utxo_ok H (UtxoSet (start_flush L' t) None) \<and> view (UtxoSet (start_flush L' t) None) = view (UtxoSet L None))"
  proof (rule returns_mono [OF join_flush_ok [OF L iter]], unfold split_paired_all prod.case)
    fix r :: "io_error + unit" and L'
    assume a: "if u_flush_join (worker_finish ok L) = Some (Finished CommitFailed) then r = Inl IoError
      else r = Inr () \<and> joined H (worker_finish ok L) L'"
    show "case r of Inl _ \<Rightarrow> True
      | Inr _ \<Rightarrow> utxo_ok H (UtxoSet (start_flush L' t) None) \<and> view (UtxoSet (start_flush L' t) None) = view (UtxoSet L None)"
    proof (cases r)
      case (Inr u)
      with a have "joined H (worker_finish ok L) L'" by (simp split: if_splits)
      then have "utxo_ok H (UtxoSet L' None)" "u_flushing L' = None" "u_flush_join L' = None" "u_backend L' \<noteq> None"
        and w: "view (UtxoSet L' None) = view (UtxoSet L None)" using M v by (simp_all add: joined_def)
      from start_flush_ok [OF this(1-4), of t] w Inr show ?thesis by simp
    qed simp
  qed
  with False show ?thesis
    unfolding flush_to_backend_owned_def by (auto elim!: returns_mono split: sum.splits simp del: view.simps utxo_ok.simps)
qed

end
