(* ===== verification/Utxo_Reach.thy ===== *)
theory Utxo_Reach
  imports Utxo_Ops
begin

text \<open>
  How a \<open>UtxoSet\<close> comes to be and what it goes through: attaching a backend or a snapshot, the flat
  mirror, SwiftSync, reads, writes, overlays, commits on the worker thread. Every set reached this way
  is a map from outpoints to coins with nested transactions: its abstract state is the list of views of
  the set and of the sets under it, on which every operation acts as on plain maps.
\<close>

section \<open>Opening a set\<close>

text \<open>\<open>rebuild_flat\<close> inserts the snapshot's coins, then the backend's over them. Whether the estimate
  of the table's size (computed in floating point) is within the cap is \<open>in_cap\<close>.\<close>

definition rebuild_flat :: "bool \<Rightarrow> utxo_layer \<Rightarrow> utxo_layer" where
  "rebuild_flat in_cap L =
     L\<lparr>u_flat := (if \<not> in_cap then None
        else Some (\<lambda>op. case Option.bind (u_backend L) (\<lambda>be. be_coins be op) of
            Some c \<Rightarrow> Some c
          | None \<Rightarrow> Option.bind (u_snapshot L) (\<lambda>snap. snap op)))\<rparr>"

definition enable_flat :: "bool \<Rightarrow> utxo_layer \<Rightarrow> bool \<times> utxo_layer" where
  "enable_flat in_cap L = (if \<not> in_cap then (False, L) else (True, rebuild_flat True L))"

definition attach_backend :: "coins_backend \<Rightarrow> utxo_layer \<Rightarrow> utxo_layer" where
  "attach_backend be L =
     (let L = L\<lparr>u_backend := Some be, u_clean := (u_clean L)\<lparr>cc_coins := Map.empty, cc_order := []\<rparr>\<rparr>
      in if u_flat L \<noteq> None then rebuild_flat True L else L)"

definition attach_snapshot :: "coin_map \<Rightarrow> utxo_layer \<Rightarrow> utxo_layer" where
  "attach_snapshot run L =
     (let L = L\<lparr>u_snapshot := Some run\<rparr> in if u_flat L \<noteq> None then rebuild_flat True L else L)"

text \<open>\<open>enable_runs\<close>: \<open>opened\<close> are the epochs that \<open>scan_epochs\<close> finds complete.\<close>

definition enable_runs :: "epoch_layer list \<Rightarrow> utxo_layer \<Rightarrow> u32 \<times> utxo_layer" where
  "enable_runs opened L =
     (let runs = sort_key ep_tip (u_runs L @ opened);
          seq = foldl (\<lambda>s e. max s (ep_seq e + 1)) (u_runs_seq L) opened
      in (if runs = [] then 0 else ep_tip (last runs),
          L\<lparr>u_runs := runs, u_runs_seq := seq, u_runs_dir := True\<rparr>))"

section \<open>All coins\<close>

text \<open>\<open>iter\<close>, as the map its table holds in the end.\<close>

definition iter_stores :: "utxo_layer \<Rightarrow> coin_map" where
  "iter_stores L =
     (let all = (case u_flat L of
            Some f \<Rightarrow> f
          | None \<Rightarrow> (case u_backend L of Some be \<Rightarrow> be_coins be | None \<Rightarrow> Map.empty))
      in case (u_flat L, u_snapshot L) of (None, Some snap) \<Rightarrow> all ++ snap | _ \<Rightarrow> all)"

fun utxo_iter :: "utxo_set \<Rightarrow> coin_map" where
  "utxo_iter (UtxoSet L b) =
     (let all = iter_stores L;
          all = (case b of Some p \<Rightarrow> all ++ utxo_iter p | None \<Rightarrow> all);
          all = foldl (\<lambda>all l. apply_delta (ep_probe l) all) all (u_runs L);
          all = (case u_flushing L of Some l \<Rightarrow> apply_delta (fl_snap l) all | None \<Rightarrow> all)
      in apply_delta (u_map L) all)"

text \<open>\<open>len\<close>: the sizes of the stores and the deltas kept beside them, saturating.\<close>

definition saturating_add :: "nat \<Rightarrow> nat \<Rightarrow> nat" where "saturating_add a b = min (a + b) USIZE_MAX"

definition saturating_add_signed :: "nat \<Rightarrow> i64 \<Rightarrow> nat" where
  "saturating_add_signed a d = nat (max 0 (min (int a + d) (int USIZE_MAX)))"

fun utxo_len :: "utxo_set \<Rightarrow> nat" where
  "utxo_len (UtxoSet L b) =
     (let lower = (case b of Some p \<Rightarrow> utxo_len p | None \<Rightarrow> 0);
          lower = saturating_add lower (case u_backend L of Some be \<Rightarrow> card (dom (be_coins be)) | None \<Rightarrow> 0);
          lower = saturating_add lower (case u_snapshot L of Some snap \<Rightarrow> card (dom snap) | None \<Rightarrow> 0);
          flushing_delta = (case (u_flushing L, u_backend L) of
              (Some l, Some be) \<Rightarrow> if be_tip be < fl_tip l then fl_delta l else 0
            | _ \<Rightarrow> 0)
      in saturating_add_signed lower (u_live_delta L + flushing_delta + sum_list (map ep_delta (u_runs L))))"

definition sum_tags :: "hash_fns \<Rightarrow> (out_point \<times> coin) list \<Rightarrow> tag_agg" where
  "sum_tags H items = foldl (\<lambda>agg (op, c). agg_add agg (coin_tag H op c)) agg_default items"

text \<open>\<open>items\<close> lists the coins of \<open>iter\<close> in the order its table yields them.\<close>

definition enable_swiftsync :: "hash_fns \<Rightarrow> utxo_set \<Rightarrow> (out_point \<times> coin) list \<Rightarrow> utxo_set" where
  "enable_swiftsync H s items =
     (let agg = (if utxo_len s \<noteq> 0 then sum_tags H items else agg_default)
      in UtxoSet ((layer s)\<lparr>u_swift := Some agg, u_swift_hold := True\<rparr>) (parent s))"

definition release_swiftsync_hold :: "utxo_set \<Rightarrow> utxo_set" where
  "release_swiftsync_hold s = UtxoSet ((layer s)\<lparr>u_swift_hold := False\<rparr>) (parent s)"

text \<open>\<open>survivors.sort_by\<close>.\<close>

fun insert_survivor :: "out_point \<Rightarrow> out_point list \<Rightarrow> out_point list" where
  "insert_survivor op [] = [op]"
| "insert_survivor op (x # xs) = (if outpoint_le op x then op # x # xs else x # insert_survivor op xs)"

definition sort_survivors :: "out_point list \<Rightarrow> out_point list" where
  "sort_survivors ops = foldr insert_survivor ops []"

definition own_aggregate :: "hash_fns \<Rightarrow> utxo_set \<Rightarrow> (out_point \<times> coin) list \<Rightarrow> tag_agg" where
  "own_aggregate H s items = (case u_swift (layer s) of Some agg \<Rightarrow> agg | None \<Rightarrow> sum_tags H items)"

definition emit_hints :: "hash_fns \<Rightarrow> utxo_set \<Rightarrow> (out_point \<times> coin) list \<Rightarrow> u32 \<Rightarrow> hints" where
  "emit_hints H s items height =
     \<lparr>hints_height = height, hints_aggregate = own_aggregate H s items,
      survivors = sort_survivors (map fst items)\<rparr>"

definition verify_hints :: "hash_fns \<Rightarrow> utxo_set \<Rightarrow> (out_point \<times> coin) list \<Rightarrow> hints \<Rightarrow> hints_verdict" where
  "verify_hints H s items h =
     (let live = set (map fst items)
      in if own_aggregate H s items \<noteq> hints_aggregate h then AggregateMismatch
         else if card live \<noteq> length (survivors h) \<or> (\<exists>op \<in> set (survivors h). op \<notin> live) then SurvivorMismatch
         else Verified)"

section \<open>The lemmas of opening\<close>

lemma dom_finite_runs:
  "finite (dom f) \<Longrightarrow> \<forall>e \<in> set runs. finite (dom (ep_probe e)) \<Longrightarrow>
   finite (dom (foldl (\<lambda>all l. apply_delta (ep_probe l) all) f runs))"
proof (induction runs arbitrary: f)
  case (Cons e runs)
  have "dom (apply_delta (ep_probe e) f) \<subseteq> dom (ep_probe e) \<union> dom f"
    by (auto simp: apply_delta_def split: option.splits)
  then have "finite (dom (apply_delta (ep_probe e) f))" using Cons.prems by (meson finite_UnI finite_subset list.set_intros(1))
  then show ?case using Cons by simp
qed simp

lemma probe_runs_append:
  "probe_runs (xs @ ys) op = (case probe_runs xs op of Some h \<Rightarrow> Some h | None \<Rightarrow> probe_runs ys op)"
  by (induction xs) (simp_all split: option.split)

lemma foldl_runs:
  "foldl (\<lambda>all l. apply_delta (ep_probe l) all) f runs = apply_delta (probe_runs (rev runs)) f"
proof (induction runs rule: rev_induct)
  case Nil
  then show ?case by (simp add: apply_delta_def)
next
  case (snoc e runs)
  then show ?case by (simp add: fun_eq_iff) (simp add: apply_delta_def split: option.split)
qed

lemma utxo_iter_view: "utxo_ok H s \<Longrightarrow> utxo_iter s = view s"
proof (induction s)
  case (UtxoSet L b)
  then have st: "stores_ok L b" by (simp add: layer_ok_def)
  have flat: "iter_stores L op = stored L op" if "in_flight L op = None" for op
  proof (cases "u_flat L")
    case None
    then show ?thesis using st
      by (cases "u_backend L"; cases "u_snapshot L") (simp_all add: iter_stores_def stored_def stores_ok_def)
  next
    case (Some f)
    with st that have "f op = stored L op" by (simp add: stores_ok_def)
    with Some show ?thesis by (simp add: iter_stores_def)
  qed
  have "utxo_iter (UtxoSet L b) op = view (UtxoSet L b) op" for op
  proof (cases "u_map L op = None \<and> in_flight L op = None")
    case False
    then show ?thesis
      by (cases "u_map L op"; cases "u_flushing L") (auto simp: Let_def apply_delta_def in_flight_def split: option.splits)
  next
    case True
    then have fl: "(case u_flushing L of Some l \<Rightarrow> apply_delta (fl_snap l) all | None \<Rightarrow> all) op = all op" for all
      by (auto simp: in_flight_def apply_delta_def split: option.splits)
    show ?thesis
    proof (cases b)
      case None
      have "utxo_iter (UtxoSet L b) op = apply_delta (probe_runs (rev (u_runs L))) (iter_stores L) op"
        using True None by (simp add: Let_def apply_delta_None fl foldl_runs)
      also have "\<dots> = committed_view L op" using flat [of op] True by (simp add: committed_view_def apply_delta_def cong: option.case_cong)
      finally show ?thesis using True None by (simp add: apply_delta_None)
    next
      case (Some p)
      have none: "u_backend L = None" "u_snapshot L = None" "u_runs L = []" "u_flat L = None"
        using st Some by (simp_all add: stores_ok_def)
      have "utxo_iter p = view p" using UtxoSet Some by simp
      moreover have "iter_stores L = Map.empty" using none by (simp add: iter_stores_def)
      ultimately show ?thesis using True none Some by (simp add: Let_def apply_delta_None fl)
    qed
  qed
  then show ?case by blast
qed

lemma sum_tags_map_of: "distinct (map fst items) \<Longrightarrow> sum_tags H items = tag_sum H (map_of items)"
proof (induction items rule: rev_induct)
  case (snoc x items)
  obtain op c where x: "x = (op, c)" by (cases x)
  have new: "map_of items op = None" using snoc.prems x by (simp add: map_of_eq_None_iff image_iff)
  then have "map_of (items @ [x]) = (map_of items)(op \<mapsto> c)"
    using x by (auto simp: fun_eq_iff map_add_def split: option.split)
  then have "tag_sum H (map_of (items @ [x])) = agg_add (tag_sum H (map_of items)) (coin_tag H op c)"
    using tag_sum_update [OF finite_dom_map_of, of H items op "Some c"] new by (simp add: agg_put_def)
  with snoc x show ?case by (simp add: sum_tags_def)
qed (simp add: sum_tags_def)

section \<open>Reachable sets\<close>

text \<open>The worker belongs to the lowest set, whatever overlays lie on it.\<close>

fun worker_step :: "bool \<Rightarrow> utxo_set \<Rightarrow> utxo_set" where
  "worker_step ok (UtxoSet L None) = UtxoSet (worker_finish ok L) None"
| "worker_step ok (UtxoSet L (Some p)) = UtxoSet L (Some (worker_step ok p))"

inductive utxo_reach :: "bool \<Rightarrow> hash_fns \<Rightarrow> utxo_set \<Rightarrow> coin_map list \<Rightarrow> bool" for cc :: bool and H :: hash_fns where
  new: "utxo_reach cc H utxo_new [Map.empty]"
| backend: "finite (dom (be_coins be)) \<Longrightarrow> utxo_reach cc H (UtxoSet (attach_backend be empty_layer) None) [be_coins be]"
| runs: "finite (dom (be_coins be)) \<Longrightarrow> \<forall>e \<in> set opened. finite (dom (ep_probe e)) \<Longrightarrow>
    utxo_reach cc H (UtxoSet (snd (enable_runs opened (attach_backend be empty_layer))) None)
      [foldl (\<lambda>all l. apply_delta (ep_probe l) all) (be_coins be) (sort_key ep_tip opened)]"
| snapshot: "finite (dom run) \<Longrightarrow> utxo_reach cc H (UtxoSet (attach_snapshot run empty_layer) None) [run]"
| flat: "utxo_reach cc H (UtxoSet L None) fs \<Longrightarrow> u_flushing L = None \<Longrightarrow>
    utxo_reach cc H (UtxoSet (snd (enable_flat in_cap L)) None) fs"
| swiftsync: "utxo_reach cc H s (f # fs) \<Longrightarrow> utxo_len s \<noteq> 0 \<or> f = Map.empty \<Longrightarrow>
    distinct (map fst items) \<Longrightarrow> map_of items = utxo_iter s \<Longrightarrow> utxo_reach cc H (enable_swiftsync H s items) (f # fs)"
| release: "utxo_reach cc H s fs \<Longrightarrow> utxo_reach cc H (release_swiftsync_hold s) fs"
| read: "utxo_reach cc H s fs \<Longrightarrow> prefetch_ok s prefetched \<Longrightarrow>
    get_with_prefetched cc s op prefetched = Some (c, s') \<Longrightarrow> utxo_reach cc H s' fs"
| put: "utxo_reach cc H s (f # fs) \<Longrightarrow> utxo_put cc H s op e = Some s' \<Longrightarrow> utxo_reach cc H s' (f(op := e) # fs)"
| spend: "utxo_reach cc H s (f # fs) \<Longrightarrow> utxo_spend cc H s op = Some (c, s') \<Longrightarrow> utxo_reach cc H s' (f(op := None) # fs)"
| remove: "utxo_reach cc H s (f # fs) \<Longrightarrow> remove_entry cc H s op = Some s' \<Longrightarrow> utxo_reach cc H s' (f(op := None) # fs)"
| overlay: "utxo_reach cc H s (f # fs) \<Longrightarrow> utxo_reach cc H (fst (overlay s)) (f # f # fs)"
| commit: "utxo_reach cc H over (f # g # fs) \<Longrightarrow> distinct (map fst iter) \<Longrightarrow> map_of iter = u_map (layer over) \<Longrightarrow>
    unoverlay cc H rest over True iter = Some s' \<Longrightarrow> utxo_reach cc H s' (f # fs)"
| discard: "utxo_reach cc H over (f # g # fs) \<Longrightarrow> unoverlay cc H rest over False iter = Some s' \<Longrightarrow>
    utxo_reach cc H s' (g # fs)"
| worker: "utxo_reach cc H s fs \<Longrightarrow> utxo_reach cc H (worker_step ok s) fs"
| join: "utxo_reach cc H (UtxoSet L None) fs \<Longrightarrow>
    \<forall>l. u_flushing L = Some l \<longrightarrow> (\<forall>(op, c) \<in> set iter. clean_get (fl_warm l) op = Some c) \<Longrightarrow>
    join_flush cc ok L iter = Some (Inr (), L') \<Longrightarrow> utxo_reach cc H (UtxoSet L' None) fs"
| flush: "utxo_reach cc H (UtxoSet L None) fs \<Longrightarrow>
    \<forall>l. u_flushing L = Some l \<longrightarrow> (\<forall>(op, c) \<in> set iter. clean_get (fl_warm l) op = Some c) \<Longrightarrow>
    flush_to_backend_owned cc ok L iter t = Some (Inr (), L') \<Longrightarrow> utxo_reach cc H (UtxoSet L' None) fs"

definition models :: "hash_fns \<Rightarrow> utxo_set \<Rightarrow> coin_map list \<Rightarrow> bool" where
  "models H s fs \<longleftrightarrow> utxo_ok H s \<and> views s = fs"

lemma models_root: "models H (UtxoSet L None) fs \<longleftrightarrow> utxo_ok H (UtxoSet L None) \<and> fs = [view (UtxoSet L None)]"
  by (auto simp: models_def simp del: view.simps utxo_ok.simps)

lemma models_Cons: "models H s (f # fs) \<longleftrightarrow> utxo_ok H s \<and> view s = f \<and> parent_views s = fs"
  by (auto simp: models_def views_Cons)

lemma models_write:
  assumes "models H s (f # fs)" "returns op (\<lambda>s'. utxo_ok H s' \<and> view s' = (view s)(k := e) \<and> same_below s s')"
  shows "returns op (\<lambda>s'. models H s' (f(k := e) # fs))"
  by (rule returns_mono [OF assms(2)]) (use assms(1) in \<open>auto simp: models_Cons same_below_def\<close>)

lemma worker_step_ok: "utxo_ok H s \<Longrightarrow> utxo_ok H (worker_step ok s) \<and> views (worker_step ok s) = views s"
proof (induction ok s rule: worker_step.induct)
  case (1 ok L)
  then show ?case using worker_finish_ok [of H L ok] by (simp del: view.simps utxo_ok.simps)
next
  case (2 ok L p)
  then have p: "utxo_ok H (worker_step ok p)" "views (worker_step ok p) = views p" by simp_all
  then have v: "view (worker_step ok p) = view p" by (simp add: views_Cons)
  have "stores_ok L (Some (worker_step ok p)) = stores_ok L (Some p)" by (rule stores_ok_parent) simp
  then show ?case using 2(2) p v by (simp add: layer_ok_def swift_ok_def lower_view_def below_def cong: option.case_cong)
qed

lemma models_fields:
  assumes m: "models H s (f # fs)" and L: "same_stores (layer s) L" "caches_ok L" "u_map L = u_map (layer s)"
    "u_born L = u_born (layer s)" "u_swift L = None \<or> u_swift L = Some (tag_sum H f)"
  shows "models H (UtxoSet L (parent s)) (f # fs)"
proof -
  have ok: "struct_ok H s" and v: "view s = f" "parent_views s = fs"
    using m by (simp_all add: models_Cons utxo_ok_iff)
  have b: "same_below s (UtxoSet L (parent s))" by (rule same_below_layer [OF L(1)])
  have v': "view (UtxoSet L (parent s)) = f" using v(1) L(3) view_write [OF L(1)] view_lower [of s] by simp
  have "struct_ok H (UtxoSet L (parent s))"
    using ok L b v v' same_stores_cong(4) [OF L(1)]
    by (simp add: struct_ok_def layer_ok_def parent_ok_def same_below_def del: view.simps)
  moreover have "swift_ok H (UtxoSet L (parent s))"
    using L(5) v' by (auto simp: swift_ok_def simp del: view.simps)
  ultimately show ?thesis
    using v v' by (simp add: models_Cons utxo_ok_iff parent_views_def del: view.simps utxo_ok.simps)
qed

lemma models_swiftsync:
  assumes "models H s (f # fs)" "utxo_len s \<noteq> 0 \<or> f = Map.empty" "distinct (map fst items)" "map_of items = utxo_iter s"
  shows "models H (enable_swiftsync H s items) (f # fs)"
proof -
  have ok: "utxo_ok H s" "view s = f" using assms(1) by (simp_all add: models_Cons)
  then have items: "map_of items = f" using utxo_iter_view [OF ok(1)] assms(4) by simp
  have agg: "(if utxo_len s \<noteq> 0 then sum_tags H items else agg_default) = tag_sum H f"
    using assms(2) sum_tags_map_of [OF assms(3)] items by auto
  have ca: "caches_ok (layer s)" using ok by (simp add: utxo_ok_iff struct_ok_def layer_ok_def)
  show ?thesis
    unfolding enable_swiftsync_def agg Let_def
    by (rule models_fields [OF assms(1)])
      (use ca in \<open>simp_all add: same_stores_def caches_ok_def in_flight_def cong: option.case_cong\<close>)
qed

lemma models_release: "models H s fs \<Longrightarrow> models H (release_swiftsync_hold s) fs"
proof -
  assume m: "models H s fs"
  then obtain f gs where fs: "fs = f # gs" by (cases fs) (auto simp: models_def)
  have ok: "utxo_ok H s" "view s = f" using m fs by (simp_all add: models_Cons)
  then have ca: "caches_ok (layer s)" and sw: "swift_ok H s" by (simp_all add: utxo_ok_iff struct_ok_def layer_ok_def)
  show ?thesis
    unfolding release_swiftsync_hold_def fs
    by (rule models_fields [OF m [unfolded fs]])
      (use ca sw ok in \<open>auto simp: same_stores_def caches_ok_def in_flight_def swift_ok_def cong: option.case_cong
        split: option.splits\<close>)
qed

lemma models_flat:
  assumes m: "models H (UtxoSet L None) fs" and idle: "u_flushing L = None"
  shows "models H (UtxoSet (snd (enable_flat in_cap L)) None) fs"
proof (cases in_cap)
  case True
  have ok: "utxo_ok H (UtxoSet L None)" and fs: "fs = [view (UtxoSet L None)]" using m by (simp_all add: models_root del: view.simps utxo_ok.simps)
  define M where "M = rebuild_flat True L"
  have st: "stores_ok L None" and ca: "caches_ok L" using ok unfolding root_ok by blast+
  have same: "stored M = stored L" "in_flight M = in_flight L"
    by (simp_all add: M_def rebuild_flat_def stored_def in_flight_def fun_eq_iff cong: option.case_cong)
  have com: "committed_view M = committed_view L" by (simp add: committed_view_def same) (simp add: M_def rebuild_flat_def)
  have flat: "u_flat M = Some (stored L)"
    using st by (cases "u_backend L"; cases "u_snapshot L")
      (simp_all add: M_def rebuild_flat_def stored_def fun_eq_iff stores_ok_def split: option.split)
  have f: "u_backend M = u_backend L" "u_snapshot M = u_snapshot L" "u_runs M = u_runs L" "u_runs_dir M = u_runs_dir L"
    "u_flushing M = u_flushing L" "u_flush_join M = u_flush_join L" "u_map M = u_map L" "u_born M = u_born L"
    "u_swift M = u_swift L" "u_clean M = u_clean L" "u_warm M = u_warm L"
    by (simp_all add: M_def rebuild_flat_def)
  have "utxo_ok H (UtxoSet M None) \<and> view (UtxoSet M None) = view (UtxoSet L None)"
  proof (rule root_ok_same [OF ok])
    show "stores_ok M None" using st flat same f by (auto simp: stores_ok_def)
    show "caches_ok M" using ca f same by (simp add: caches_ok_def)
  qed (simp_all add: f same com)
  with True fs show ?thesis by (simp add: models_root enable_flat_def M_def [symmetric] del: view.simps utxo_ok.simps)
next
  case False
  with m show ?thesis by (simp add: enable_flat_def)
qed

lemma clean_cleared [simp]: "clean_empty\<lparr>cc_coins := Map.empty, cc_order := []\<rparr> = clean_empty"
  by (simp add: clean_empty_def)

lemma models_opened:
  assumes "stores_ok L None" "caches_ok L" "u_map L = Map.empty" "u_flushing L = None" "u_born L = {}" "u_swift L = None"
    and "committed_view L = f" "finite (dom f)"
  shows "models H (UtxoSet L None) [f]"
proof -
  have "in_flight L = Map.empty" using assms(4) by (simp add: in_flight_def fun_eq_iff)
  then have "view (UtxoSet L None) = f" using assms by simp
  then show ?thesis using assms by (simp add: models_root root_ok swift_ok_def del: view.simps utxo_ok.simps)
qed

lemma reach_models: "utxo_reach cc H s fs \<Longrightarrow> models H s fs"
proof (induction rule: utxo_reach.induct)
  case new
  show ?case unfolding utxo_new_def
    by (rule models_opened)
      (use empty_layer_ok [of "u_budget empty_layer"] in \<open>simp_all add: committed_view_def apply_delta_def stored_def fun_eq_iff\<close>)
next
  case (backend be)
  show ?case
    by (rule models_opened)
      (use backend in \<open>simp_all add: attach_backend_def stores_ok_def caches_ok_def committed_view_def apply_delta_def
        stored_def fun_eq_iff\<close>)
next
  case (runs be opened)
  define L where "L = snd (enable_runs opened (attach_backend be empty_layer))"
  have f: "u_backend L = Some be" "u_snapshot L = None" "u_runs L = sort_key ep_tip opened" "u_runs_dir L" "u_flat L = None"
    "u_flushing L = None" "u_flush_join L = None" "u_map L = Map.empty" "u_born L = {}" "u_swift L = None"
    "u_clean L = clean_empty" "u_warm L = clean_empty"
    by (simp_all add: L_def enable_runs_def attach_backend_def Let_def)
  have "stored L = be_coins be" using f by (simp add: stored_def fun_eq_iff)
  then have "committed_view L = foldl (\<lambda>all l. apply_delta (ep_probe l) all) (be_coins be) (sort_key ep_tip opened)"
    using f by (simp only: committed_view_def foldl_runs)
  moreover have "finite (dom (foldl (\<lambda>all l. apply_delta (ep_probe l) all) (be_coins be) (sort_key ep_tip opened)))"
    using runs by (intro dom_finite_runs) simp_all
  ultimately show ?case
    unfolding L_def [symmetric] by (intro models_opened) (use f in \<open>simp_all add: stores_ok_def caches_ok_def\<close>)
next
  case (snapshot run)
  show ?case
    by (rule models_opened)
      (use snapshot in \<open>simp_all add: attach_snapshot_def stores_ok_def caches_ok_def committed_view_def apply_delta_def
        stored_def fun_eq_iff\<close>)
next
  case (flat L fs in_cap)
  then show ?case using models_flat by blast
next
  case (swiftsync s f fs items)
  then show ?case using models_swiftsync by blast
next
  case (release s fs)
  then show ?case using models_release by blast
next
  case (read s fs prefetched op c s')
  then have "returns (get_with_prefetched cc s op prefetched) (\<lambda>(c, s'). c = view s op \<and> utxo_ok H s' \<and> only_reads s s')"
    by (intro get_ok) (simp_all add: models_def)
  then have "utxo_ok H s'" "only_reads s s'" using read(3) by (auto dest: returns_eqD)
  then show ?case using read only_reads_parent by (simp add: models_def)
next
  case (put s f fs op e s')
  then have ok: "utxo_ok H s" by (simp add: models_Cons)
  show ?case using returns_eqD [OF models_write [OF put(3) utxo_put_ok [OF ok]] put(2)] .
next
  case (spend s f fs op c s')
  then have ok: "utxo_ok H s" by (simp add: models_Cons)
  from returns_eqD [OF utxo_spend_ok [OF ok] spend(2)] spend(3)
  show ?case by (simp add: models_Cons same_below_def)
next
  case (remove s f fs op s')
  then have ok: "utxo_ok H s" by (simp add: models_Cons)
  show ?case using returns_eqD [OF models_write [OF remove(3) remove_entry_ok [OF ok]] remove(2)] .
next
  case (overlay s f fs)
  then have ok: "utxo_ok H s" "view s = f" "parent_views s = fs" by (simp_all add: models_Cons)
  have "parent_views (fst (Utxo.overlay s)) = views s" by (simp add: overlay_def parent_views_def)
  then show ?case using overlay_ok(1,2) [OF ok(1)] ok by (simp add: models_Cons views_Cons)
next
  case (commit over f g fs iter rest s')
  then have ok: "utxo_ok H over" "view over = f" "parent_views over = g # fs" by (simp_all add: models_Cons)
  then obtain p where p: "parent over = Some p" by (auto simp: parent_views_def split: option.splits)
  from returns_eqD [OF unoverlay_commit_ok [OF ok(1) p commit(2,3)] commit(4)] ok
  show ?case by (simp add: models_def)
next
  case (discard over f g fs iter rest s')
  then have ok: "utxo_ok H over" "parent_views over = g # fs" by (simp_all add: models_Cons)
  then obtain p where p: "parent over = Some p" by (auto simp: parent_views_def split: option.splits)
  then have "utxo_ok H p" "s' = p" using ok discard(2) unoverlay_discard [OF p] by (cases over; simp)+
  then show ?case using ok p by (simp add: models_def parent_views_def)
next
  case (worker s fs ok)
  then show ?case using worker_step_ok [of H s ok] by (simp add: models_def)
next
  case (join L fs iter ok L')
  then have L: "utxo_ok H (UtxoSet L None)" by (simp add: models_def)
  have "joined H (worker_finish ok L) L'"
    using returns_eqD [OF join_flush_ok [OF L join(2)] join(3)] by (simp split: if_splits)
  then show ?case using join(4) worker_finish_ok [OF L, of ok] by (simp add: models_root joined_def del: view.simps utxo_ok.simps)
next
  case (flush L fs iter ok t L')
  then have L: "utxo_ok H (UtxoSet L None)" by (simp add: models_def)
  then show ?case using returns_eqD [OF flush_ok [OF L flush(2)] flush(3)] flush(4)
    by (simp add: models_root del: view.simps utxo_ok.simps)
qed

end
