(* ===== verification/Coin_View.thy ===== *)
theory Coin_View
  imports Utxo_Reach
begin

text \<open>
  What a user of a coin set relies on: a locale of the operations \<open>get\<close>, \<open>have\<close>, \<open>put\<close>, \<open>spend\<close> and
  \<open>remove\<close> with their laws over a map of coins, the lemmas on loops of them, and its interpretation
  on the \<open>UtxoSet\<close>.
\<close>

section \<open>Loops\<close>

text \<open>A \<open>for\<close> loop over a list that changes a state.\<close>

fun for_each :: "('a \<Rightarrow> 's \<Rightarrow> 's option) \<Rightarrow> 'a list \<Rightarrow> 's \<Rightarrow> 's option" where
  "for_each f [] s = Some s"
| "for_each f (x # xs) s = do { s \<leftarrow> f x s; for_each f xs s }"

lemma for_each_append [simp]: "for_each f (xs @ ys) s = Option.bind (for_each f xs s) (for_each f ys)"
proof (induction xs arbitrary: s)
  case (Cons x xs)
  then show ?case by (cases "f x s") simp_all
qed simp

lemma for_each_returns:
  assumes "\<And>x s a. x \<in> set xs \<Longrightarrow> rep s a \<Longrightarrow> returns (f x s) (\<lambda>s'. rep s' (g x a))" and "rep s a"
  shows "returns (for_each f xs s) (\<lambda>s'. rep s' (fold g xs a))"
  using assms
proof (induction xs arbitrary: s a)
  case (Cons x xs)
  have "returns (f x s) (\<lambda>s'. rep s' (g x a))" using Cons.prems by simp
  then have "returns (f x s) (\<lambda>s1. returns (for_each f xs s1) (\<lambda>s'. rep s' (fold g xs (g x a))))"
    by (rule returns_mono) (rule Cons.IH, use Cons.prems in simp_all)
  then show ?case by simp
qed simp

section \<open>The interface\<close>

locale coin_view =
  fixes rep :: "'s \<Rightarrow> coin_map \<Rightarrow> bool"
    and coin_get :: "'s \<Rightarrow> out_point \<Rightarrow> (coin option \<times> 's) option"
    and coin_have :: "'s \<Rightarrow> out_point \<Rightarrow> bool"
    and coin_put :: "'s \<Rightarrow> out_point \<Rightarrow> coin option \<Rightarrow> 's option"
    and coin_spend :: "'s \<Rightarrow> out_point \<Rightarrow> (coin option \<times> 's) option"
    and coin_remove :: "'s \<Rightarrow> out_point \<Rightarrow> 's option"
  assumes get_law: "rep s f \<Longrightarrow> returns (coin_get s op) (\<lambda>(c, s'). c = f op \<and> rep s' f)"
    and have_law: "rep s f \<Longrightarrow> coin_have s op \<longleftrightarrow> f op \<noteq> None"
    and put_law: "rep s f \<Longrightarrow> returns (coin_put s op e) (\<lambda>s'. rep s' (f(op := e)))"
    and spend_law: "rep s f \<Longrightarrow> returns (coin_spend s op) (\<lambda>(c, s'). c = f op \<and> rep s' (f(op := None)))"
    and remove_law: "rep s f \<Longrightarrow> returns (coin_remove s op) (\<lambda>s'. rep s' (f(op := None)))"
begin

lemma put_each:
  "rep s f \<Longrightarrow> returns (for_each (\<lambda>(op, c) s. coin_put s op (Some c)) xs s)
     (\<lambda>s'. rep s' (fold (\<lambda>(op, c) f. f(op \<mapsto> c)) xs f))"
  by (rule for_each_returns [where g = "\<lambda>(op, c) f. f(op \<mapsto> c)"]) (auto simp only: prod.case intro: put_law split: prod.split)

lemma spend_each:
  "rep s f \<Longrightarrow> returns (for_each (\<lambda>x s. map_option snd (coin_spend s (k x))) xs s)
     (\<lambda>s'. rep s' (fold (\<lambda>x f. f(k x := None)) xs f))"
proof (rule for_each_returns [where g = "\<lambda>x f. f(k x := None)"])
  fix x s f assume "rep s f"
  from spend_law [OF this, of "k x"] show "returns (map_option snd (coin_spend s (k x))) (\<lambda>s'. rep s' (f(k x := None)))"
    by (auto simp: returns_def split: option.splits)
qed

lemma remove_each:
  "rep s f \<Longrightarrow> returns (for_each (\<lambda>x s. if skip x then Some s else coin_remove s (k x)) xs s)
     (\<lambda>s'. rep s' (fold (\<lambda>x f. if skip x then f else f(k x := None)) xs f))"
  by (rule for_each_returns [where g = "\<lambda>x f. if skip x then f else f(k x := None)"]) (simp_all add: remove_law [unfolded fun_upd_def] fun_upd_def)

lemma find_have: "rep s f \<Longrightarrow> find (coin_have s) ops = find (\<lambda>op. f op \<noteq> None) ops"
  by (induction ops) (simp_all add: have_law)

end

section \<open>The UTXO set as a coin view\<close>

lemma reach_ok:
  assumes "utxo_reach cc H s (f # fs)"
  shows "utxo_ok H s" "view s = f" "parent_views s = fs" "swift_ok H s"
  using reach_models [OF assms] by (simp_all add: models_Cons utxo_ok_iff)

lemma returns_ex: "returns m Q \<Longrightarrow> \<exists>x. m = Some x \<and> Q x"
  by (auto elim: returnsE)

text \<open>The set between two commits: \<open>prefetched\<close> holds answers of its backend.\<close>

definition coin_rep :: "bool \<Rightarrow> hash_fns \<Rightarrow> cache_map \<Rightarrow> coin_map list \<Rightarrow> utxo_set \<Rightarrow> coin_map \<Rightarrow> bool" where
  "coin_rep cc H prefetched fs s f \<longleftrightarrow> utxo_reach cc H s (f # fs) \<and> prefetch_ok s (Some prefetched)"

lemma prefetch_ok_empty [simp]: "prefetch_ok s (Some Map.empty)"
  by (simp add: prefetch_ok_def)

lemma rep_prefetched_get:
  assumes "coin_rep cc H pf fs s f" "prefetched = None \<or> prefetched = Some pf"
  shows "returns (get_with_prefetched cc s op prefetched) (\<lambda>(c, s'). c = f op \<and> coin_rep cc H pf fs s' f)"
proof -
  have reach: "utxo_reach cc H s (f # fs)" and pf: "prefetch_ok s (Some pf)" "prefetch_ok s prefetched"
    using assms by (auto simp: coin_rep_def)
  note ok = reach_ok [OF reach]
  show ?thesis
  proof (rule returnsE [OF get_ok [OF ok(1) pf(2), of cc op]], unfold split_paired_all prod.case)
    fix c s' assume g: "get_with_prefetched cc s op prefetched = Some (c, s')"
      and r: "c = view s op \<and> utxo_ok H s' \<and> only_reads s s'"
    have "prefetch_ok s' (Some pf)" using r only_reads_fields(1) [of s s'] prefetch_ok_below [of s s'] pf(1) by blast
    then show ?thesis using g r ok(2) utxo_reach.read [OF reach pf(2) g] by (simp add: coin_rep_def)
  qed
qed

lemma rep_write:
  assumes "coin_rep cc H pf fs s f" "same_below s s'" "utxo_reach cc H s' (g # fs)"
  shows "coin_rep cc H pf fs s' g"
  using assms prefetch_ok_below [of s s'] by (simp add: coin_rep_def)

interpretation coins: coin_view "coin_rep cc H pf fs" "utxo_get cc" utxo_have "utxo_put cc H" "utxo_spend cc H" "remove_entry cc H"
  for cc H pf fs
proof unfold_locales
  fix s f op and e :: "coin option"
  assume r: "coin_rep cc H pf fs s f"
  then have reach: "utxo_reach cc H s (f # fs)" and pf: "prefetch_ok s (Some pf)" by (simp_all add: coin_rep_def)
  note ok = reach_ok [OF reach]
  show "returns (utxo_get cc s op) (\<lambda>(c, s'). c = f op \<and> coin_rep cc H pf fs s' f)"
    unfolding utxo_get_def by (rule rep_prefetched_get [OF r]) simp
  show "utxo_have s op \<longleftrightarrow> f op \<noteq> None" using have_iff [OF ok(1)] ok(2) by simp
  show "returns (utxo_put cc H s op e) (\<lambda>s'. coin_rep cc H pf fs s' (f(op := e)))"
    by (rule returnsE [OF utxo_put_ok [OF ok(1), of cc op e]])
      (use rep_write [OF r] utxo_reach.put [OF reach, of op e] in simp)
  show "returns (utxo_spend cc H s op) (\<lambda>(c, s'). c = f op \<and> coin_rep cc H pf fs s' (f(op := None)))"
    by (rule returnsE [OF utxo_spend_ok [OF ok(1), of cc op]])
      (use rep_write [OF r] utxo_reach.spend [OF reach, of op] ok(2) in auto)
  show "returns (remove_entry cc H s op) (\<lambda>s'. coin_rep cc H pf fs s' (f(op := None)))"
    by (rule returnsE [OF remove_entry_ok [OF ok(1), of cc op]])
      (use rep_write [OF r] utxo_reach.remove [OF reach, of op] in simp)
qed

end
