(* ===== verification/Utxo_Props.thy ===== *)
theory Utxo_Props
  imports Coin_View
begin

text \<open>
  The properties of \<open>UtxoSet\<close>: it is a map with nested transactions, whatever was attached, cached,
  committed or is in flight; its SwiftSync aggregate is the sum of its coins' tags; a failed commit is
  reported and a landed one leaves the coins of its start in the backend.
\<close>

section \<open>A small set\<close>

definition sample_op :: "u8 \<Rightarrow> out_point" where
  "sample_op b = \<lparr>op_txid = replicate 32 b, op_vout = 0\<rparr>"

definition sample_coin :: coin where
  "sample_coin = \<lparr>coin_out = \<lparr>out_value = 5, script_pubkey = [0x51]\<rparr>, coin_height = 1, coin_coinbase = False\<rparr>"

definition sample_backend :: coins_backend where
  "sample_backend = \<lparr>be_coins = [sample_op 1 \<mapsto> sample_coin], be_tip = 3\<rparr>"

definition sample_layer :: utxo_layer where "sample_layer = attach_backend sample_backend empty_layer"

lemma coin_sample_reach: "utxo_reach cc H (UtxoSet sample_layer None) [[sample_op 1 \<mapsto> sample_coin]]"
  using utxo_reach.backend [of sample_backend cc H] by (simp add: sample_layer_def sample_backend_def)

section \<open>A map with nested transactions\<close>



text \<open>C11: An overlay is a nested transaction: it starts as the set it lies on, its writes leave that set
  alone, committing it (its entries replayed in any order the hash map yields) makes the lower set the
  overlay's map, and discarding it gives the lower set back.\<close>

theorem overlay_is_transaction:
  assumes "utxo_reach cc H s (f # fs)" and "utxo_reach cc H over (g # f # fs)"
    and "distinct (map fst iter)" "map_of iter = u_map (layer over)"
  shows "utxo_reach cc H (fst (overlay s)) (f # f # fs) \<and>
    (\<exists>s'. unoverlay cc H rest over True iter = Some s' \<and> utxo_reach cc H s' (g # fs)) \<and>
    (\<exists>s'. unoverlay cc H rest over False iter = Some s' \<and> utxo_reach cc H s' (f # fs))"
proof -
  note ok = reach_ok [OF assms(2)]
  then obtain p where p: "parent over = Some p" by (auto simp: parent_views_def split: option.splits)
  from returns_ex [OF unoverlay_commit_ok [OF ok(1) p assms(3,4)]] obtain s'
    where "unoverlay cc H rest over True iter = Some s'" by blast
  then show ?thesis
    using utxo_reach.overlay [OF assms(1)] utxo_reach.commit [OF assms(2-4)]
      utxo_reach.discard [OF assms(2)] unoverlay_discard [OF p] by blast
qed

text \<open>Witness of C11: an overlay with no writes yet.\<close>

theorem overlay_is_transaction_witness:
  "(\<exists>s'. unoverlay True toy_hashes utxo_new (fst (overlay (UtxoSet sample_layer None))) True [] = Some s' \<and>
     utxo_reach True toy_hashes s' [[sample_op 1 \<mapsto> sample_coin]])"
  using overlay_is_transaction [OF coin_sample_reach [of True toy_hashes] utxo_reach.overlay [OF coin_sample_reach], of "[]" utxo_new]
  by (simp add: overlay_def)

section \<open>Hints\<close>

lemma outpoint_less_total: "outpoint_less p q \<or> p = q \<or> outpoint_less q p"
  using bytes_less_linear [of "op_txid p" "op_txid q"]
  by (cases p; cases q) (auto simp: outpoint_less_iff)

lemma set_insert_survivor [simp]: "set (insert_survivor op xs) = insert op (set xs)"
  by (induction xs) auto

lemma insert_survivor_sorted:
  "sorted_wrt outpoint_less xs \<Longrightarrow> op \<notin> set xs \<Longrightarrow> sorted_wrt outpoint_less (insert_survivor op xs)"
proof (induction xs)
  case (Cons x xs)
  have tr: "outpoint_less a b \<Longrightarrow> outpoint_less b c \<Longrightarrow> outpoint_less a c" for a b c
    using outpoint_less_trans by (auto elim: transpE)
  show ?case
  proof (cases "outpoint_le op x")
    case True
    then have "outpoint_less op x" using outpoint_less_total [of op x] Cons.prems(2) by (auto simp: outpoint_less_def)
    then show ?thesis using True Cons.prems tr by auto
  next
    case False
    then have "outpoint_less x op" by (simp add: outpoint_less_def)
    then show ?thesis using False Cons by auto
  qed
qed simp

lemma sort_survivors_ok:
  "set (sort_survivors xs) = set xs"
  "distinct xs \<Longrightarrow> sorted_wrt outpoint_less (sort_survivors xs)"
proof -
  show s: "set (sort_survivors xs) = set xs" for xs by (induction xs) (simp_all add: sort_survivors_def)
  show "distinct xs \<Longrightarrow> sorted_wrt outpoint_less (sort_survivors xs)"
    by (induction xs) (use s in \<open>auto simp: sort_survivors_def intro!: insert_survivor_sorted\<close>)
qed

lemma length_sort_survivors [simp]: "length (sort_survivors xs) = length xs"
proof -
  have "length (insert_survivor op ys) = Suc (length ys)" for op ys by (induction ys) auto
  then show ?thesis by (induction xs) (simp_all add: sort_survivors_def)
qed

lemma own_aggregate_sum:
  assumes "utxo_reach cc H s (f # fs)" "distinct (map fst items)" "map_of items = utxo_iter s"
  shows "own_aggregate H s items = tag_sum H f" "set (map fst items) = dom f" "card (dom f) = length items"
proof -
  note ok = reach_ok [OF assms(1)]
  have f: "map_of items = f" using utxo_iter_view [OF ok(1)] ok(2) assms(3) by simp
  then show "own_aggregate H s items = tag_sum H f"
    using ok(2,4) sum_tags_map_of [OF assms(2)] by (auto simp: own_aggregate_def swift_ok_def split: option.splits)
  show d: "set (map fst items) = dom f" using f dom_map_of_conv_image_fst [of items] by simp
  show "card (dom f) = length items" using d distinct_card [OF assms(2)] by simp
qed

text \<open>C12: SwiftSync hints across two nodes: a node with the set \<open>f\<close> emits hints that survive their encoding,
  name its coins in strictly ascending order and carry the sum of their tags (kept incrementally through
  all writes and commits when tracking is on, computed from the set when not); a node with the set
  \<open>g\<close> verifies them exactly when it has the same outpoints and the same tag sum, so equal sets always
  verify.\<close>

theorem hints_between_nodes:
  assumes "utxo_reach cc H s (f # fs)" "distinct (map fst items)" "map_of items = utxo_iter s"
    and "utxo_reach cc' H t (g # gs)" "distinct (map fst items')" "map_of items' = utxo_iter t"
    and "\<forall>op \<in> dom f. length (op_txid op) = 32" "card (dom f) * 36 + 48 < 2 ^ 64"
  shows "\<exists>h. hints_decode (hints_encode (emit_hints H s items height)) = Inr h \<and>
    hints_aggregate h = tag_sum H f \<and> set (survivors h) = dom f \<and> sorted_wrt outpoint_less (survivors h) \<and>
    (verify_hints H t items' h = Verified \<longleftrightarrow> dom g = dom f \<and> tag_sum H g = tag_sum H f)"
proof -
  note a = own_aggregate_sum [OF assms(1-3)] and b = own_aggregate_sum [OF assms(4-6)]
  let ?h = "emit_hints H s items height"
  have h: "hints_aggregate ?h = tag_sum H f" "set (survivors ?h) = dom f" "sorted_wrt outpoint_less (survivors ?h)"
    "length (survivors ?h) = card (dom f)"
    using a sort_survivors_ok [of "map fst items"] assms(2) by (simp_all add: emit_hints_def)
  then have "hints_valid ?h" using assms(7,8) by (simp add: hints_valid_def)
  then have "hints_decode (hints_encode ?h) = Inr ?h"
    using h(4) assms(8) by (simp add: hints_decode_def hints_decode_exact)
  moreover have "verify_hints H t items' ?h = Verified \<longleftrightarrow> dom g = dom f \<and> tag_sum H g = tag_sum H f"
  proof -
    have fin: "finite (dom g)" using b(2) by (metis List.finite_set)
    have "card (dom g) = length (survivors ?h) \<and> dom f \<subseteq> dom g \<longleftrightarrow> dom g = dom f"
      using h(4) fin by (metis card_subset_eq subset_refl)
    then show ?thesis
      unfolding verify_hints_def Let_def b(1) b(2) h(1) h(2) by auto
  qed
  ultimately show ?thesis using h by blast
qed

lemma sample_items: "map_of [(sample_op 1, sample_coin)] = utxo_iter (UtxoSet sample_layer None)"
  by (simp add: sample_layer_def attach_backend_def sample_backend_def iter_stores_def Let_def)

text \<open>Witness of C12: a node checks its own hints.\<close>

theorem hints_between_nodes_witness:
  "\<exists>h. hints_decode (hints_encode (emit_hints toy_hashes (UtxoSet sample_layer None) [(sample_op 1, sample_coin)] 9)) = Inr h \<and>
    set (survivors h) = {sample_op 1} \<and>
    verify_hints toy_hashes (UtxoSet sample_layer None) [(sample_op 1, sample_coin)] h = Verified"
  using hints_between_nodes [OF coin_sample_reach [of True toy_hashes] _ sample_items coin_sample_reach [of True toy_hashes] _ sample_items, of 9]
  by (auto simp: sample_op_def emit_hints_def hints_decode_def)

section \<open>Commits\<close>

abbreviation warm_listed :: "utxo_layer \<Rightarrow> (out_point \<times> coin) list \<Rightarrow> bool" where
  "warm_listed L iter \<equiv> \<forall>l. u_flushing L = Some l \<longrightarrow> (\<forall>(op, c) \<in> set iter. clean_get (fl_warm l) op = Some c)"



lemma landed_backend:
  assumes "utxo_ok H (UtxoSet L None)" "u_flushing L = None" "u_backend L = Some be" "u_runs L = []"
  shows "view (UtxoSet L None) = apply_delta (u_map L) (be_coins be)"
proof -
  have "in_flight L = Map.empty" using assms(2) by (simp add: in_flight_def fun_eq_iff)
  moreover have "committed_view L = be_coins be"
    using assms(3,4) by (simp add: committed_view_def apply_delta_def stored_def)
  ultimately show ?thesis by simp
qed

text \<open>C13: A commit makes the set durable: when a flush is started with the tip \<open>t\<close> and no epoch files, and its
  worker succeeds, the join leaves in the backend exactly the coins the set had when the flush started, at
  tip \<open>t\<close>, whatever was written to the set in between.\<close>

theorem flush_makes_durable:
  assumes "utxo_reach cc H (UtxoSet L None) [f]" "u_backend L \<noteq> None" "\<not> u_runs_dir L" "warm_listed L iter"
    and "flush_to_backend_owned cc ok L iter t = Some (Inr (), M)"
    and "utxo_reach cc H (UtxoSet M' None) [g]" "u_flushing M' = u_flushing M" "u_flush_join M' = u_flush_join M"
    and "u_backend M' = u_backend M" "warm_listed M' iter'"
  shows "\<exists>N be. join_flush cc True M' iter' = Some (Inr (), N) \<and> u_backend N = Some be \<and>
    be_coins be = f \<and> be_tip be = t \<and> utxo_reach cc H (UtxoSet N None) [g]"
proof -
  have okL: "utxo_ok H (UtxoSet L None)" "view (UtxoSet L None) = f"
    using reach_models [OF assms(1)] by (simp_all add: models_root del: view.simps utxo_ok.simps)
  from assms(2,5) obtain r K where "join_flush cc ok L iter = Some (r, K)"
    and r: "(case r of Inl e \<Rightarrow> (Inl e, K) | Inr _ \<Rightarrow> (Inr (), start_flush K t)) = (Inr (), M)"
    by (auto simp: flush_to_backend_owned_def bind_eq_Some_conv)
  moreover have "r = Inr ()" using r by (cases r) simp_all
  ultimately have K: "join_flush cc ok L iter = Some (Inr (), K)" "M = start_flush K t" by simp_all
  from returns_eqD [OF join_flush_ok [OF okL(1) assms(4)] K(1)] have j: "joined H (worker_finish ok L) K"
    by (simp split: if_splits)
  have wf: "u_runs_dir (worker_finish ok L) = u_runs_dir L" "u_backend (worker_finish ok L) \<noteq> None"
    using assms(2) by (simp_all add: worker_finish_def split: option.split flush_worker.split)
  have okK: "utxo_ok H (UtxoSet K None)" "view (UtxoSet K None) = f"
    using j worker_finish_ok [OF okL(1), of ok] okL(2) by (simp_all add: joined_def del: view.simps utxo_ok.simps)
  have stK: "stores_ok K None" using okK(1) unfolding root_ok by blast
  have idle: "u_flushing K = None" "\<not> u_runs_dir K" "u_runs K = []"
    using j wf(1) assms(3) stK by (auto simp: joined_def stores_ok_def)
  obtain be where be: "u_backend K = Some be" using j wf(2) by (auto simp: joined_def)
  have f: "f = apply_delta (u_map K) (be_coins be)" using landed_backend [OF okK(1) idle(1) be idle(3)] okK(2) by simp
  obtain l where l: "u_flushing M' = Some l" "fl_snap l = u_map K" "fl_tip l = t"
    and w: "u_flush_join M' = Some (Working None)" "u_backend M' = Some be"
    using assms(7-9) K(2) idle(2) be by (auto simp: start_flush_def)
  have fin: "worker_finish True M' = M'\<lparr>u_flush_join := Some (Finished Committed),
      u_backend := Some (backend_commit be (u_map K) t)\<rparr>"
    using l w by (simp add: worker_finish_def)
  have okM: "utxo_ok H (UtxoSet M' None)" using reach_models [OF assms(6)] by (simp add: models_def)
  from returns_ex [OF join_flush_ok [OF okM assms(10), of cc True]] fin obtain N where
    N: "join_flush cc True M' iter' = Some (Inr (), N)" "joined H (worker_finish True M') N" by auto
  from N(2) fin have "u_backend N = Some (backend_commit be (u_map K) t)" by (simp add: joined_def)
  then show ?thesis using N(1) utxo_reach.join [OF assms(6,10) N(1)] f by (simp add: backend_commit_def)
qed

text \<open>Witness of C13: a flush of the sample set and its join.\<close>

theorem flush_makes_durable_witness:
  "\<exists>N be. join_flush True True (start_flush sample_layer 7) [] = Some (Inr (), N) \<and> u_backend N = Some be \<and>
    be_coins be = [sample_op 1 \<mapsto> sample_coin] \<and> be_tip be = 7"
proof -
  have fields: "u_backend sample_layer \<noteq> None" "\<not> u_runs_dir sample_layer" "warm_listed sample_layer []"
    "u_flush_join sample_layer = None"
    by (simp_all add: sample_layer_def attach_backend_def)
  have f: "flush_to_backend_owned True True sample_layer [] 7 = Some (Inr (), start_flush sample_layer 7)"
    using fields by (auto simp: flush_to_backend_owned_def join_flush_def worker_finish_def)
  note flushed = utxo_reach.flush [OF coin_sample_reach fields(3) f, where H = toy_hashes]
  show ?thesis
    using flush_makes_durable [OF coin_sample_reach fields(1-3) f flushed refl refl refl, of "[]"] by auto
qed

end
