(* ===== verification/Connect.thy ===== *)
theory Connect
  imports Coin_View Check Interp_Verify Sighash Chain_Links
begin

text \<open>
  Connecting and disconnecting blocks: the part of \<open>connect.rs\<close> that applies a block to a \<open>UtxoSet\<close> under
  the rules that need its coins. Signature advice (\<open>ctx.advice\<close>, \<open>ctx.advice_collect\<close>) and timers are
  not modelled. Operations that read or write the set return it, and are \<open>None\<close> only where a loop
  below them does not end; \<open>cc\<close> is \<open>clean_cache_enabled()\<close>. Amounts are \<open>i64\<close>: sums that the code does
  not check wrap.
\<close>

unbundle bit_operations_syntax

section \<open>Constants, undo records, errors\<close>

definition COINBASE_MATURITY :: u32 where "COINBASE_MATURITY = 100"
definition BIP34_IMPLIES_BIP30_LIMIT :: u32 where "BIP34_IMPLIES_BIP30_LIMIT = 1983702"
definition SEQUENCE_LOCKTIME_GRANULARITY :: nat where "SEQUENCE_LOCKTIME_GRANULARITY = 9"
definition MAX_PREFETCH_PREVOUTS :: nat where "MAX_PREFETCH_PREVOUTS = 16384"

definition BIP30_REPEAT_BLOCKS :: "(u32 \<times> hash32) list" where
  "BIP30_REPEAT_BLOCKS =
     [(91842, [0xec, 0xca, 0xe0, 0x00, 0xe3, 0xc8, 0xe4, 0xe0, 0x93, 0x93, 0x63, 0x60, 0x43, 0x1f,
        0x3b, 0x76, 0x03, 0xc5, 0x63, 0xc1, 0xff, 0x61, 0x81, 0x39, 0x0a, 0x4d, 0x0a, 0x00,
        0x00, 0x00, 0x00, 0x00]),
      (91880, [0x21, 0xd7, 0x7c, 0xcb, 0x4c, 0x08, 0x38, 0x6a, 0x04, 0xac, 0x01, 0x96, 0xae, 0x10,
        0xf6, 0xa1, 0xd2, 0xc2, 0xa3, 0x77, 0x55, 0x8c, 0xa1, 0x90, 0xf1, 0x43, 0x07, 0x00,
        0x00, 0x00, 0x00, 0x00])]"

definition money_range :: "i64 \<Rightarrow> bool" where
  "money_range v \<longleftrightarrow> 0 \<le> v \<and> v \<le> MAX_MONEY"

record tx_undo =
  undo_spent :: "coin list"
  undo_overwritten :: "(out_point \<times> coin) list"

type_synonym block_undo = "tx_undo list"

datatype connect_error =
    UnknownBlock
  | OrphanBlock
  | InputsMissingOrSpent
  | PrematureCoinbaseSpend u32
  | InputValuesOutOfRange
  | InBelowOut
  | FeeOutOfRange
  | AccumulatedFeeOutOfRange
  | Bip30 out_point
  | SigopsExceeded
  | NotFinal
  | CoinbaseAmount i64 i64
  | ScriptVerify script_error
  | InternalError string

fun connect_reason :: "connect_error \<Rightarrow> string" where
  "connect_reason UnknownBlock = ''internal''"
| "connect_reason OrphanBlock = ''internal''"
| "connect_reason (InternalError _) = ''internal''"
| "connect_reason InputsMissingOrSpent = ''bad-txns-inputs-missingorspent''"
| "connect_reason (PrematureCoinbaseSpend _) = ''bad-txns-premature-spend-of-coinbase''"
| "connect_reason InputValuesOutOfRange = ''bad-txns-inputvalues-outofrange''"
| "connect_reason InBelowOut = ''bad-txns-in-belowout''"
| "connect_reason FeeOutOfRange = ''bad-txns-fee-outofrange''"
| "connect_reason AccumulatedFeeOutOfRange = ''bad-txns-accumulated-fee-outofrange''"
| "connect_reason (Bip30 _) = ''bad-txns-BIP30''"
| "connect_reason SigopsExceeded = ''bad-blk-sigops''"
| "connect_reason NotFinal = ''bad-txns-nonfinal''"
| "connect_reason (CoinbaseAmount _ _) = ''bad-cb-amount''"
| "connect_reason (ScriptVerify e) = ''mandatory-script-verify-flag-failed ('' @ script_error_string e @ '')''"

datatype disconnect_error = Inconsistent

text \<open>\<open>ConnectContext\<close>: the script pool is the order in which its workers finish a block's
  checks, given their number, or \<open>None\<close> when they run inline, on at most \<open>cx_workers\<close> threads.\<close>

record connect_context =
  cx_params :: params
  cx_tree :: header_tree
  cx_block_hash :: hash32
  cx_script_checks :: bool
  cx_pool :: "(nat \<Rightarrow> nat list) option"
  cx_workers :: nat
  cx_prefetch_workers :: nat

record block_receipt =
  br_height :: u32
  br_hash :: hash32
  br_flags :: u32
  br_txs :: nat
  br_sigops :: nat
  br_fees :: i64
  br_checks_enabled :: bool
  br_script_checks :: nat
  br_verified_hits :: nat
  br_spent_coins :: nat
  br_created_coins :: nat
  br_delta_commitment :: hash32

section \<open>The subsidy and BIP30\<close>

definition wrap_i64 :: "int \<Rightarrow> i64" where "wrap_i64 x = sint (word_of_int x :: u64)"

definition block_subsidy :: "u32 \<Rightarrow> params \<Rightarrow> i64" where
  "block_subsidy height p =
     (let halvings = (if subsidy_halving_interval p = 0 then 0 else height div subsidy_halving_interval p)
      in if halvings \<ge> 64 then 0 else drop_bit (unat halvings) (50 * 100000000))"

definition is_bip30_repeat :: "u32 \<Rightarrow> hash32 \<Rightarrow> bool" where
  "is_bip30_repeat height hash = list_ex (\<lambda>(h, repeat_hash). h = height \<and> repeat_hash = hash) BIP30_REPEAT_BLOCKS"

definition enforce_bip30 :: "hash_fns \<Rightarrow> u32 \<Rightarrow> hash32 \<Rightarrow> connect_context \<Rightarrow> bool option" where
  "enforce_bip30 H height hash ctx =
     (if height \<ge> BIP34_IMPLIES_BIP30_LIMIT then Some True
      else if is_bip30_repeat height hash then Some False
      else (case bip34_hash (cx_params ctx) of
          None \<Rightarrow> Some True
        | Some known \<Rightarrow>
          (case nodes (cx_tree ctx) (cx_block_hash ctx) of
             None \<Rightarrow> Some True
           | Some node \<Rightarrow> do {
               ancestor \<leftarrow> get_ancestor (cx_tree ctx) (node_prev node) (bip34_height (cx_params ctx));
               Some (case ancestor of None \<Rightarrow> True | Some a \<Rightarrow> node_hash H a \<noteq> known) })))"

text \<open>The outpoints of a transaction's outputs; \<open>vout as u32\<close> truncates.\<close>

definition output_point :: "hash_fns \<Rightarrow> transaction \<Rightarrow> nat \<Rightarrow> out_point" where
  "output_point H tx i = \<lparr>op_txid = txid H tx, op_vout = word_of_nat i\<rparr>"

definition bip30_scan :: "hash_fns \<Rightarrow> utxo_set \<Rightarrow> transaction list \<Rightarrow> out_point option" where
  "bip30_scan H s txs =
     find (utxo_have s) (concat (map (\<lambda>tx. map (output_point H tx) [0..<length (outputs tx)]) txs))"

section \<open>Inputs\<close>

fun resolve_inputs :: "bool \<Rightarrow> utxo_set \<Rightarrow> tx_in list \<Rightarrow> cache_map option \<Rightarrow> (coin list option \<times> utxo_set) option" where
  "resolve_inputs cc s [] prefetched = Some (Some [], s)"
| "resolve_inputs cc s (i # rest) prefetched = do {
     (c, s) \<leftarrow> get_with_prefetched cc s (previous_output i) prefetched;
     case c of
       None \<Rightarrow> Some (None, s)
     | Some c \<Rightarrow> do {
         (r, s) \<leftarrow> resolve_inputs cc s rest prefetched;
         Some (map_option (Cons c) r, s) } }"

fun value_in_loop :: "u32 \<Rightarrow> coin list \<Rightarrow> i64 \<Rightarrow> connect_error + i64" where
  "value_in_loop spend_height [] value_in = Inr value_in"
| "value_in_loop spend_height (c # rest) value_in =
     (let depth = saturating_sub_u32 spend_height (coin_height c)
      in if coin_coinbase c \<and> depth < COINBASE_MATURITY then Inl (PrematureCoinbaseSpend depth)
         else (case checked_add_i64 value_in (out_value (coin_out c)) of
             None \<Rightarrow> Inl InputValuesOutOfRange
           | Some value_in \<Rightarrow>
               if \<not> money_range (out_value (coin_out c)) \<or> \<not> money_range value_in then Inl InputValuesOutOfRange
               else value_in_loop spend_height rest value_in))"

fun value_out_loop :: "tx_out list \<Rightarrow> i64 \<Rightarrow> connect_error + i64" where
  "value_out_loop [] value_out = Inr value_out"
| "value_out_loop (out # rest) value_out =
     (case checked_add_i64 value_out (out_value out) of
        None \<Rightarrow> Inl (InternalError ''output total overflowed i64 past CheckTransaction'')
      | Some value_out \<Rightarrow> value_out_loop rest value_out)"

definition check_tx_values :: "transaction \<Rightarrow> coin list \<Rightarrow> u32 \<Rightarrow> connect_error + i64" where
  "check_tx_values tx spent spend_height =
     res_bind (value_in_loop spend_height spent 0) (\<lambda>value_in.
     res_bind (value_out_loop (outputs tx) 0) (\<lambda>value_out.
       if value_in < value_out then Inl InBelowOut
       else let fee = wrap_i64 (value_in - value_out)
         in if \<not> money_range fee then Inl FeeOutOfRange else Inr fee))"

definition check_tx_inputs_using :: "bool \<Rightarrow> transaction \<Rightarrow> utxo_set \<Rightarrow> u32 \<Rightarrow> cache_map option \<Rightarrow>
    ((connect_error + coin list \<times> i64) \<times> utxo_set) option" where
  "check_tx_inputs_using cc tx s spend_height prefetched = do {
     (spent, s) \<leftarrow> resolve_inputs cc s (inputs tx) prefetched;
     Some (case spent of
         None \<Rightarrow> Inl InputsMissingOrSpent
       | Some spent \<Rightarrow> map_sum id (\<lambda>fee. (spent, fee)) (check_tx_values tx spent spend_height), s) }"

definition check_tx_inputs :: "bool \<Rightarrow> transaction \<Rightarrow> utxo_set \<Rightarrow> u32 \<Rightarrow>
    ((connect_error + coin list \<times> i64) \<times> utxo_set) option" where
  "check_tx_inputs cc tx s spend_height = check_tx_inputs_using cc tx s spend_height None"

section \<open>Sequence locks and sigops\<close>

text \<open>\<open>None\<close> inside: the early \<open>return false\<close> of a lock whose ancestor is missing.\<close>

fun bip68_loop :: "hash_fns \<Rightarrow> header_tree \<Rightarrow> hash32 \<Rightarrow> (tx_in \<times> coin) list \<Rightarrow> i64 \<Rightarrow> i64 \<Rightarrow>
    (i64 \<times> i64) option option" where
  "bip68_loop H t tip_hash [] min_height min_time = Some (Some (min_height, min_time))"
| "bip68_loop H t tip_hash ((input, c) # rest) min_height min_time =
     (if sequence input AND SEQUENCE_LOCKTIME_DISABLE_FLAG \<noteq> 0 then bip68_loop H t tip_hash rest min_height min_time
      else if sequence input AND SEQUENCE_LOCKTIME_TYPE_FLAG \<noteq> 0 then do {
        node \<leftarrow> get_ancestor t tip_hash (saturating_sub_u32 (coin_height c) 1);
        case Option.bind node (\<lambda>n. tree_median_time_past t (node_hash H n)) of
          None \<Rightarrow> Some None
        | Some coin_time \<Rightarrow>
            (let lock = push_bit SEQUENCE_LOCKTIME_GRANULARITY (uint (sequence input AND SEQUENCE_LOCKTIME_MASK))
             in bip68_loop H t tip_hash rest min_height (max min_time (uint coin_time + lock - 1))) }
      else
        (let lock = uint (sequence input AND SEQUENCE_LOCKTIME_MASK)
         in bip68_loop H t tip_hash rest (max min_height (uint (coin_height c) + lock - 1)) min_time))"

definition bip68_locks_satisfied :: "hash_fns \<Rightarrow> transaction \<Rightarrow> coin list \<Rightarrow> u32 \<Rightarrow> u32 \<Rightarrow> header_tree \<Rightarrow> hash32 \<Rightarrow>
    bool option" where
  "bip68_locks_satisfied H tx spent height parent_mtp t tip_hash =
     (if tx_version tx < SEQUENCE_LOCKS_MIN_VERSION then Some True
      else do {
        r \<leftarrow> bip68_loop H t tip_hash (zip (inputs tx) spent) (-1) (-1);
        Some (case r of
            None \<Rightarrow> False
          | Some (min_height, min_time) \<Rightarrow>
              if min_height \<ge> uint height then False else min_time < uint parent_mtp) })"

definition tx_sigop_cost :: "transaction \<Rightarrow> coin list \<Rightarrow> script_flags \<Rightarrow> nat" where
  "tx_sigop_cost tx spent flags =
     (let sigops = (sum_list (map (\<lambda>i. sig_ops (script_sig i) False) (inputs tx)) +
                    sum_list (map (\<lambda>out. sig_ops (script_pubkey out) False) (outputs tx))) * WITNESS_SCALE_FACTOR
      in if is_coinbase tx then sigops
         else
           (let sigops = (if flag_set flags FLAG_P2SH
                then sigops + sum_list (map (\<lambda>(c, i). p2sh_sig_ops (script_sig i))
                    (filter (\<lambda>(c, i). is_p2sh (script_pubkey (coin_out c))) (zip spent (inputs tx)))) * WITNESS_SCALE_FACTOR
                else sigops)
            in sigops + sum_list (map (\<lambda>(i, c).
                 count_witness_sig_ops (script_sig i) (script_pubkey (coin_out c)) (witness i) flags)
                 (zip (inputs tx) spent))))"

section \<open>The cache of verified scripts\<close>

text \<open>\<open>sigchecker.rs\<close>: wtxids with the flags their scripts passed under, evicted first in, first out.\<close>

record verified_cache =
  vc_map :: "hash32 \<rightharpoonup> script_flags"
  vc_order :: "hash32 list"

definition verified_empty :: verified_cache where
  "verified_empty = \<lparr>vc_map = Map.empty, vc_order = []\<rparr>"

definition VERIFIED_CAP :: nat where "VERIFIED_CAP = 50000"

definition mark_scripts_verified :: "verified_cache \<Rightarrow> hash32 \<Rightarrow> script_flags \<Rightarrow> verified_cache" where
  "mark_scripts_verified c w flags =
     (if vc_map c w \<noteq> None then c
      else
        let c = (if length (vc_order c) \<ge> VERIFIED_CAP then
            (case vc_order c of
               [] \<Rightarrow> c
             | old # rest \<Rightarrow> c\<lparr>vc_order := rest, vc_map := (vc_map c)(old := None)\<rparr>) else c)
        in c\<lparr>vc_order := vc_order c @ [w], vc_map := (vc_map c)(w \<mapsto> flags)\<rparr>)"

definition scripts_verified :: "verified_cache \<Rightarrow> hash32 \<Rightarrow> script_flags \<Rightarrow> bool" where
  "scripts_verified c w flags = (case vc_map c w of Some verified \<Rightarrow> flags AND NOT verified = 0 | None \<Rightarrow> False)"

section \<open>Script checks\<close>

type_synonym script_job = "transaction \<times> tx_out list"

fun run_jobs :: "hash_fns \<Rightarrow> ('pk, 'sig, 'xpk, 'ssig) secp \<Rightarrow> script_flags \<Rightarrow> script_job list \<Rightarrow> script_error + unit" where
  "run_jobs H S flags [] = Inr ()"
| "run_jobs H S flags ((tx, outs) # rest) = res_bind (check_input_scripts H S tx outs flags) (\<lambda>_. run_jobs H S flags rest)"

text \<open>\<open>slice::chunks\<close>, and \<open>try_fold\<close> over the joined threads in the order they were spawned.\<close>

function chunks :: "nat \<Rightarrow> 'a list \<Rightarrow> 'a list list" where
  "chunks n xs = (if n = 0 \<or> xs = [] then [] else take n xs # chunks n (drop n xs))"
  by pat_completeness auto
termination by (relation "measure (\<lambda>(n, xs). length xs)") auto

declare chunks.simps [simp del]

fun join_threads :: "(script_error + unit) list \<Rightarrow> script_error + unit" where
  "join_threads [] = Inr ()"
| "join_threads (r # rest) = res_bind r (\<lambda>_. join_threads rest)"

definition run_script_checks :: "hash_fns \<Rightarrow> ('pk, 'sig, 'xpk, 'ssig) secp \<Rightarrow> nat \<Rightarrow> script_job list \<Rightarrow> script_flags \<Rightarrow>
    script_error + unit" where
  "run_script_checks H S parallelism jobs flags =
     (let workers = min parallelism (length jobs)
      in if workers \<le> 1 then run_jobs H S flags jobs
         else let chunk = (length jobs + workers - 1) div workers
           in join_threads (map (run_jobs H S flags) (chunks chunk jobs)))"

text \<open>\<open>BlockCheck\<close>: each finished job is counted off and the first error recorded is kept.\<close>

record check_state =
  cs_remaining :: nat
  cs_error :: "script_error option"

definition check_finish :: "script_error + unit \<Rightarrow> check_state \<Rightarrow> check_state" where
  "check_finish r st =
     \<lparr>cs_remaining = cs_remaining st - 1,
      cs_error = (case r of Inl e \<Rightarrow> if cs_error st = None then Some e else cs_error st | Inr _ \<Rightarrow> cs_error st)\<rparr>"

text \<open>\<open>wait\<close> after the pool's workers have finished the jobs in \<open>order\<close>; \<open>None\<close> while some remain.\<close>

definition block_check_wait :: "hash_fns \<Rightarrow> ('pk, 'sig, 'xpk, 'ssig) secp \<Rightarrow> script_job list \<Rightarrow> script_flags \<Rightarrow> nat list \<Rightarrow>
    (script_error + unit) option" where
  "block_check_wait H S jobs flags order =
     (let st = foldl (\<lambda>st i. check_finish (let (tx, outs) = jobs ! i in check_input_scripts H S tx outs flags) st)
          \<lparr>cs_remaining = length jobs, cs_error = None\<rparr> order
      in if cs_remaining st \<noteq> 0 then None
         else Some (case cs_error st of Some e \<Rightarrow> Inl e | None \<Rightarrow> Inr ()))"

section \<open>Prefetching\<close>

fun candidates_loop :: "hash32 set \<Rightarrow> utxo_set \<Rightarrow> out_point list \<Rightarrow> nat \<Rightarrow> out_point list \<Rightarrow> out_point list" where
  "candidates_loop same s [] limit found = found"
| "candidates_loop same s (op # rest) limit found =
     (if op_txid op \<in> same \<or> \<not> backend_read_visible s op then candidates_loop same s rest limit found
      else if op \<in> set found then candidates_loop same s rest limit found
      else if length found + 1 = limit then found @ [op]
      else candidates_loop same s rest limit (found @ [op]))"

definition block_prefetch_candidates :: "hash_fns \<Rightarrow> block \<Rightarrow> utxo_set \<Rightarrow> nat \<Rightarrow> out_point list" where
  "block_prefetch_candidates H b s limit =
     (if limit = 0 then []
      else candidates_loop (set (map (txid H) (transactions b))) s
        (concat (map (\<lambda>tx. map previous_output (inputs tx)) (filter (\<lambda>tx. \<not> is_coinbase tx) (transactions b))))
        limit [])"

section \<open>Applying a transaction\<close>

definition spend_inputs :: "bool \<Rightarrow> hash_fns \<Rightarrow> (tx_in \<times> coin) list \<Rightarrow> utxo_set \<Rightarrow> utxo_set option" where
  "spend_inputs cc H = for_each (\<lambda>(input, c) s. map_option snd (utxo_spend cc H s (previous_output input)))"

definition OVERWROTE :: string where
  "OVERWROTE = ''non-coinbase tx overwrote an unspent coin past the BIP30 scan''"

fun add_outputs_loop :: "bool \<Rightarrow> hash_fns \<Rightarrow> transaction \<Rightarrow> u32 \<Rightarrow> (nat \<times> tx_out) list \<Rightarrow> (out_point \<times> coin) list \<Rightarrow> utxo_set \<Rightarrow>
    ((connect_error + (out_point \<times> coin) list) \<times> utxo_set) option" where
  "add_outputs_loop cc H tx height [] overwritten s = Some (Inr overwritten, s)"
| "add_outputs_loop cc H tx height ((vout, out) # rest) overwritten s =
     (if is_unspendable (script_pubkey out) then add_outputs_loop cc H tx height rest overwritten s
      else do {
        (previous, s) \<leftarrow> utxo_get cc s (output_point H tx vout);
        s \<leftarrow> utxo_put cc H s (output_point H tx vout)
          (Some \<lparr>coin_out = out, coin_height = height, coin_coinbase = is_coinbase tx\<rparr>);
        case previous of
          None \<Rightarrow> add_outputs_loop cc H tx height rest overwritten s
        | Some c \<Rightarrow>
            if \<not> is_coinbase tx then do {
              s \<leftarrow> utxo_put cc H s (output_point H tx vout) (Some c);
              Some (Inl (InternalError OVERWROTE), s) }
            else add_outputs_loop cc H tx height rest (overwritten @ [(output_point H tx vout, c)]) s })"

definition add_tx_outputs :: "bool \<Rightarrow> hash_fns \<Rightarrow> transaction \<Rightarrow> u32 \<Rightarrow> utxo_set \<Rightarrow>
    ((connect_error + (out_point \<times> coin) list) \<times> utxo_set) option" where
  "add_tx_outputs cc H tx height s = add_outputs_loop cc H tx height (enumerate 0 (outputs tx)) [] s"

section \<open>Undoing transactions\<close>

definition remove_outputs :: "bool \<Rightarrow> hash_fns \<Rightarrow> transaction \<Rightarrow> utxo_set \<Rightarrow> utxo_set option" where
  "remove_outputs cc H tx =
     for_each (\<lambda>(vout, out) s. if is_unspendable (script_pubkey out) then Some s
       else remove_entry cc H s (output_point H tx vout)) (enumerate 0 (outputs tx))"

definition put_coins :: "bool \<Rightarrow> hash_fns \<Rightarrow> (out_point \<times> coin) list \<Rightarrow> utxo_set \<Rightarrow> utxo_set option" where
  "put_coins cc H = for_each (\<lambda>(op, c) s. utxo_put cc H s op (Some c))"

definition undo_tx :: "bool \<Rightarrow> hash_fns \<Rightarrow> transaction \<times> tx_undo \<Rightarrow> utxo_set \<Rightarrow> utxo_set option" where
  "undo_tx cc H = (\<lambda>(tx, undo) s. do {
     s \<leftarrow> remove_outputs cc H tx s;
     s \<leftarrow> put_coins cc H (undo_overwritten undo) s;
     put_coins cc H (zip (map previous_output (inputs tx)) (undo_spent undo)) s })"

text \<open>\<open>applied\<close> lists the indices of the applied transactions with their undo records.\<close>

definition rollback :: "bool \<Rightarrow> hash_fns \<Rightarrow> block \<Rightarrow> (nat \<times> tx_undo) list \<Rightarrow> utxo_set \<Rightarrow> utxo_set option" where
  "rollback cc H b applied =
     for_each (undo_tx cc H) (map (\<lambda>(i, undo). (transactions b ! i, undo)) (rev applied))"

definition disconnect_block :: "bool \<Rightarrow> hash_fns \<Rightarrow> block \<Rightarrow> block_undo \<Rightarrow> utxo_set \<Rightarrow>
    ((disconnect_error + unit) \<times> utxo_set) option" where
  "disconnect_block cc H b undo s =
     (if length undo \<noteq> length (transactions b) then Some (Inl Inconsistent, s)
      else do {
        s \<leftarrow> for_each (undo_tx cc H) (rev (zip (transactions b) undo)) s;
        Some (Inr (), s) })"

section \<open>Connecting a block\<close>

record connect_acc =
  ca_fees :: i64
  ca_sigops :: nat
  ca_jobs :: "script_job list"
  ca_applied :: "(nat \<times> tx_undo) list"
  ca_delta :: bytes
  ca_spent_coins :: nat
  ca_created_coins :: nat

definition acc_new :: connect_acc where
  "acc_new = \<lparr>ca_fees = 0, ca_sigops = 0, ca_jobs = [], ca_applied = [], ca_delta = [],
     ca_spent_coins = 0, ca_created_coins = 0\<rparr>"

text \<open>What the block's header fixes for all its transactions.\<close>

record connect_env =
  ce_height :: u32
  ce_parent_mtp :: u32
  ce_flags :: script_flags
  ce_csv_active :: bool
  ce_prefetched :: cache_map

text \<open>The receipt's stream of one applied transaction.\<close>

definition delta_script :: "script \<Rightarrow> bytes" where
  "delta_script spk = u32_le (word_of_nat (length spk)) @ spk"

definition delta_spent :: "tx_in \<times> coin \<Rightarrow> bytes" where
  "delta_spent = (\<lambda>(i, c). op_txid (previous_output i) @ u32_le (op_vout (previous_output i)) @
     i64_le (out_value (coin_out c)) @ u32_le (coin_height c) @ [if coin_coinbase c then 1 else 0] @
     delta_script (script_pubkey (coin_out c)))"

definition delta_created :: "u32 \<Rightarrow> bool \<Rightarrow> nat \<times> tx_out \<Rightarrow> bytes" where
  "delta_created height coinbase = (\<lambda>(vout, out).
     if is_unspendable (script_pubkey out) then []
     else u32_le (word_of_nat vout) @ i64_le (out_value out) @ u32_le height @ [if coinbase then 1 else 0] @
       delta_script (script_pubkey out))"

definition created_count :: "transaction \<Rightarrow> nat" where
  "created_count tx = unat (word_of_nat (length (filter (\<lambda>out. \<not> is_unspendable (script_pubkey out)) (outputs tx))) :: u32)"

definition delta_tx :: "hash_fns \<Rightarrow> u32 \<Rightarrow> transaction \<Rightarrow> coin list \<Rightarrow> bytes" where
  "delta_tx H height tx spent =
     txid H tx @ u32_le (word_of_nat (length spent)) @ concat (map delta_spent (zip (inputs tx) spent)) @
     u32_le (word_of_nat (created_count tx)) @
     concat (map (delta_created height (is_coinbase tx)) (enumerate 0 (outputs tx)))"

text \<open>The checks of one transaction, before it is applied: its fee and its sequence locks once its coins are
  known, and its coins.\<close>

definition admit_tx :: "hash_fns \<Rightarrow> connect_context \<Rightarrow> connect_env \<Rightarrow> transaction \<Rightarrow> connect_acc \<Rightarrow> coin list \<Rightarrow> i64 \<Rightarrow>
    (connect_error + connect_acc) option" where
  "admit_tx H ctx env tx acc spent fee =
     (case checked_add_i64 (ca_fees acc) fee of
        None \<Rightarrow> Some (Inl AccumulatedFeeOutOfRange)
      | Some fees \<Rightarrow>
          if \<not> money_range fees then Some (Inl AccumulatedFeeOutOfRange)
          else do {
            locks \<leftarrow> (if ce_csv_active env
              then bip68_locks_satisfied H tx spent (ce_height env) (ce_parent_mtp env) (cx_tree ctx) (cx_block_hash ctx)
              else Some True);
            Some (if locks then Inr (acc\<lparr>ca_fees := fees\<rparr>) else Inl NotFinal) })"

definition check_tx :: "bool \<Rightarrow> hash_fns \<Rightarrow> connect_context \<Rightarrow> connect_env \<Rightarrow> transaction \<Rightarrow> connect_acc \<Rightarrow> utxo_set \<Rightarrow>
    ((connect_error + coin list \<times> connect_acc) \<times> utxo_set) option" where
  "check_tx cc H ctx env tx acc s =
     (if is_coinbase tx then Some (Inr ([], acc), s)
      else do {
        (r, s) \<leftarrow> check_tx_inputs_using cc tx s (ce_height env) (Some (ce_prefetched env));
        case r of
          Inl e \<Rightarrow> Some (Inl e, s)
        | Inr (spent, fee) \<Rightarrow> do {
            r \<leftarrow> admit_tx H ctx env tx acc spent fee;
            Some (map_sum id (\<lambda>acc. (spent, acc)) r, s) } })"

text \<open>\<open>UpdateCoins\<close> and the receipt's part of the transaction.\<close>

definition apply_tx :: "bool \<Rightarrow> hash_fns \<Rightarrow> connect_env \<Rightarrow> nat \<times> transaction \<Rightarrow> coin list \<Rightarrow> connect_acc \<Rightarrow> utxo_set \<Rightarrow>
    ((connect_error + unit) \<times> connect_acc \<times> utxo_set) option" where
  "apply_tx cc H env = (\<lambda>(i, tx) spent acc s. do {
     s \<leftarrow> spend_inputs cc H (zip (inputs tx) spent) s;
     (r, s) \<leftarrow> add_tx_outputs cc H tx (ce_height env) s;
     Some (case r of
         Inl e \<Rightarrow> (Inl e, acc, s)
       | Inr overwritten \<Rightarrow>
           (Inr (), acc\<lparr>
             ca_applied := ca_applied acc @ [(i, \<lparr>undo_spent = map snd (zip (inputs tx) spent), undo_overwritten = overwritten\<rparr>)],
             ca_delta := ca_delta acc @ delta_tx H (ce_height env) tx spent,
             ca_spent_coins := ca_spent_coins acc + length spent,
             ca_created_coins := ca_created_coins acc + created_count tx\<rparr>, s)) })"

definition queue_tx :: "hash_fns \<Rightarrow> verified_cache \<Rightarrow> connect_context \<Rightarrow> connect_env \<Rightarrow> transaction \<Rightarrow> coin list \<Rightarrow> script_job list" where
  "queue_tx H vc ctx env tx spent =
     (if \<not> is_coinbase tx \<and> cx_script_checks ctx \<and> \<not> scripts_verified vc (wtxid H tx) (ce_flags env)
      then [(tx, map coin_out spent)] else [])"

definition connect_tx :: "bool \<Rightarrow> hash_fns \<Rightarrow> verified_cache \<Rightarrow> connect_context \<Rightarrow> connect_env \<Rightarrow> nat \<times> transaction \<Rightarrow>
    connect_acc \<Rightarrow> utxo_set \<Rightarrow> ((connect_error + unit) \<times> connect_acc \<times> utxo_set) option" where
  "connect_tx cc H vc ctx env itx acc s = do {
     (r, s) \<leftarrow> check_tx cc H ctx env (snd itx) acc s;
     case r of
       Inl e \<Rightarrow> Some (Inl e, acc, s)
     | Inr (spent, acc) \<Rightarrow>
         let sigops = min (ca_sigops acc + tx_sigop_cost (snd itx) spent (ce_flags env)) (2 ^ 64 - 1);
             acc = acc\<lparr>ca_sigops := sigops\<rparr>
         in if sigops > MAX_BLOCK_SIGOPS_COST then Some (Inl SigopsExceeded, acc, s)
            else apply_tx cc H env itx spent
              (acc\<lparr>ca_jobs := ca_jobs acc @ queue_tx H vc ctx env (snd itx) spent\<rparr>) s }"

fun connect_txs :: "bool \<Rightarrow> hash_fns \<Rightarrow> verified_cache \<Rightarrow> connect_context \<Rightarrow> connect_env \<Rightarrow> (nat \<times> transaction) list \<Rightarrow>
    connect_acc \<Rightarrow> utxo_set \<Rightarrow> ((connect_error + unit) \<times> connect_acc \<times> utxo_set) option" where
  "connect_txs cc H vc ctx env [] acc s = Some (Inr (), acc, s)"
| "connect_txs cc H vc ctx env (itx # rest) acc s = do {
     (r, acc, s) \<leftarrow> connect_tx cc H vc ctx env itx acc s;
     case r of Inl e \<Rightarrow> Some (Inl e, acc, s) | Inr _ \<Rightarrow> connect_txs cc H vc ctx env rest acc s }"

text \<open>After the last transaction: the coinbase's amount and the script checks. \<open>Inr (Some jobs)\<close>: handed to
  the pool.\<close>

definition connect_finish :: "hash_fns \<Rightarrow> ('pk, 'sig, 'xpk, 'ssig) secp \<Rightarrow> connect_context \<Rightarrow> connect_env \<Rightarrow> block \<Rightarrow>
    connect_acc \<Rightarrow> connect_error + script_job list option" where
  "connect_finish H S ctx env b acc =
     (case transactions b of
        [] \<Rightarrow> Inl (InternalError ''empty block reached connect_block'')
      | coinbase # _ \<Rightarrow>
          let coinbase_out = wrap_i64 (sum_list (map out_value (outputs coinbase)));
              reward = saturate_i64 (ca_fees acc + block_subsidy (ce_height env) (cx_params ctx))
          in if coinbase_out > reward then Inl (CoinbaseAmount coinbase_out reward)
             else if cx_pool ctx \<noteq> None then Inr (Some (ca_jobs acc))
             else if ca_jobs acc = [] then Inr None
             else (case run_script_checks H S (cx_workers ctx) (ca_jobs acc) (ce_flags env) of
                 Inl e \<Rightarrow> Inl (ScriptVerify e)
               | Inr _ \<Rightarrow> Inr None))"

definition receipt_of :: "hash_fns \<Rightarrow> connect_context \<Rightarrow> connect_env \<Rightarrow> block \<Rightarrow> connect_acc \<Rightarrow> block_receipt" where
  "receipt_of H ctx env b acc =
     (let queued = length (ca_jobs acc) in
      \<lparr>br_height = ce_height env, br_hash = cx_block_hash ctx, br_flags = ce_flags env,
       br_txs = length (transactions b), br_sigops = ca_sigops acc, br_fees = ca_fees acc,
       br_checks_enabled = cx_script_checks ctx, br_script_checks = queued,
       br_verified_hits = (if cx_script_checks ctx then (length (transactions b) - 1) - queued else 0),
       br_spent_coins = ca_spent_coins acc, br_created_coins = ca_created_coins acc,
       br_delta_commitment = sha256 H (ca_delta acc)\<rparr>)"

definition connect_env_of :: "bool \<Rightarrow> hash_fns \<Rightarrow> block \<Rightarrow> connect_context \<Rightarrow> header_node \<Rightarrow> u32 \<Rightarrow> utxo_set \<Rightarrow> connect_env" where
  "connect_env_of cc H b ctx node parent_mtp s =
     (let height = node_height node in
      \<lparr>ce_height = height, ce_parent_mtp = parent_mtp,
       ce_flags = block_script_flags (cx_params ctx) height (cx_block_hash ctx),
       ce_csv_active = (height \<ge> csv_height (cx_params ctx)),
       ce_prefetched = (if cx_prefetch_workers ctx = 0 \<or> u_backend (layer s) = None then Map.empty
          else prefetch_backend cc s (block_prefetch_candidates H b s MAX_PREFETCH_PREVOUTS))\<rparr>)"

text \<open>The code before the transaction loop: the header's context and the BIP30 scan.\<close>

definition connect_prepare :: "bool \<Rightarrow> hash_fns \<Rightarrow> block \<Rightarrow> connect_context \<Rightarrow> utxo_set \<Rightarrow>
    (connect_error + connect_env) option" where
  "connect_prepare cc H b ctx s =
     (case nodes (cx_tree ctx) (cx_block_hash ctx) of
        None \<Rightarrow> Some (Inl UnknownBlock)
      | Some node \<Rightarrow>
          if nodes (cx_tree ctx) (node_prev node) = None then Some (Inl OrphanBlock)
          else (case tree_median_time_past (cx_tree ctx) (node_prev node) of
              None \<Rightarrow> Some (Inl (InternalError ''parent in tree without an MTP''))
            | Some parent_mtp \<Rightarrow> do {
                bip30 \<leftarrow> enforce_bip30 H (node_height node) (cx_block_hash ctx) ctx;
                Some (case (if bip30 then bip30_scan H s (transactions b) else None) of
                    Some op \<Rightarrow> Inl (Bip30 op)
                  | None \<Rightarrow> Inr (connect_env_of cc H b ctx node parent_mtp s)) }))"

definition connect_block_inner :: "bool \<Rightarrow> hash_fns \<Rightarrow> ('pk, 'sig, 'xpk, 'ssig) secp \<Rightarrow> verified_cache \<Rightarrow> block \<Rightarrow>
    connect_context \<Rightarrow> utxo_set \<Rightarrow>
    ((connect_error + block_undo \<times> script_job list option \<times> block_receipt) \<times> utxo_set) option" where
  "connect_block_inner cc H S vc b ctx s = do {
     prepared \<leftarrow> connect_prepare cc H b ctx s;
     case prepared of
       Inl e \<Rightarrow> Some (Inl e, s)
     | Inr env \<Rightarrow> do {
         (r, acc, s) \<leftarrow> connect_txs cc H vc ctx env (enumerate 0 (transactions b)) acc_new s;
         case res_bind r (\<lambda>_. connect_finish H S ctx env b acc) of
           Inr pending \<Rightarrow> Some (Inr (map snd (ca_applied acc), pending, receipt_of H ctx env b acc), s)
         | Inl e \<Rightarrow> do { s \<leftarrow> rollback cc H b (ca_applied acc) s; Some (Inl e, s) } } }"

definition connect_block :: "bool \<Rightarrow> hash_fns \<Rightarrow> ('pk, 'sig, 'xpk, 'ssig) secp \<Rightarrow> verified_cache \<Rightarrow> block \<Rightarrow>
    connect_context \<Rightarrow> utxo_set \<Rightarrow> ((connect_error + block_undo) \<times> utxo_set) option" where
  "connect_block cc H S vc b ctx s = do {
     (r, s) \<leftarrow> connect_block_inner cc H S vc b ctx s;
     case r of
       Inl e \<Rightarrow> Some (Inl e, s)
     | Inr (undo, pending, receipt) \<Rightarrow>
         (case (pending, cx_pool ctx) of
            (Some jobs, Some order) \<Rightarrow> do {
              verdict \<leftarrow> block_check_wait H S jobs (br_flags receipt) (order (length jobs));
              case verdict of
                Inr _ \<Rightarrow> Some (Inr undo, s)
              | Inl e \<Rightarrow> do { (_, s) \<leftarrow> disconnect_block cc H b undo s; Some (Inl (ScriptVerify e), s) } }
          | _ \<Rightarrow> Some (Inr undo, s)) }"

end
