(* ===== verification/Connect_View.thy ===== *)
theory Connect_View
  imports Connect
begin

text \<open>
  Blocks on maps of coins: the effect of a transaction and of a block on the map a \<open>UtxoSet\<close> stands for,
  what its undo records hold, and that the code's operations on the set have these effects.
\<close>

section \<open>Effects on maps\<close>

definition tx_spends :: "transaction \<Rightarrow> out_point list" where
  "tx_spends tx = (if is_coinbase tx then [] else map previous_output (inputs tx))"

definition created_from :: "hash_fns \<Rightarrow> transaction \<Rightarrow> u32 \<Rightarrow> (nat \<times> tx_out) list \<Rightarrow> (out_point \<times> coin) list" where
  "created_from H tx height outs =
     map (\<lambda>(i, out). (output_point H tx i, \<lparr>coin_out = out, coin_height = height, coin_coinbase = is_coinbase tx\<rparr>))
       (filter (\<lambda>(i, out). \<not> is_unspendable (script_pubkey out)) outs)"

definition created :: "hash_fns \<Rightarrow> u32 \<Rightarrow> transaction \<Rightarrow> (out_point \<times> coin) list" where
  "created H height tx = created_from H tx height (enumerate 0 (outputs tx))"

definition spend_coins :: "out_point list \<Rightarrow> coin_map \<Rightarrow> coin_map" where
  "spend_coins ops f = (\<lambda>op. if op \<in> set ops then None else f op)"

definition add_coins :: "(out_point \<times> coin) list \<Rightarrow> coin_map \<Rightarrow> coin_map" where
  "add_coins xs = fold (\<lambda>(op, c) f. f(op \<mapsto> c)) xs"

definition tx_effect :: "hash_fns \<Rightarrow> u32 \<Rightarrow> transaction \<Rightarrow> coin_map \<Rightarrow> coin_map" where
  "tx_effect H height tx f = add_coins (created H height tx) (spend_coins (tx_spends tx) f)"

definition overwritten_by :: "(out_point \<times> coin) list \<Rightarrow> coin_map \<Rightarrow> (out_point \<times> coin) list" where
  "overwritten_by xs f = concat (map (\<lambda>(op, _). case f op of Some c \<Rightarrow> [(op, c)] | None \<Rightarrow> []) xs)"

definition undo_of :: "hash_fns \<Rightarrow> u32 \<Rightarrow> transaction \<Rightarrow> coin_map \<Rightarrow> tx_undo" where
  "undo_of H height tx f =
     \<lparr>undo_spent = map (\<lambda>op. the (f op)) (tx_spends tx),
      undo_overwritten = overwritten_by (created H height tx) (spend_coins (tx_spends tx) f)\<rparr>"

definition outputs_fit :: "transaction \<Rightarrow> bool" where
  "outputs_fit tx \<longleftrightarrow> length (outputs tx) \<le> 2 ^ 32"

lemma fold_spend: "fold (\<lambda>op f. f(op := None)) ops f = spend_coins ops f"
  by (induction ops arbitrary: f) (auto simp: spend_coins_def fun_eq_iff)

lemma add_coins_simps [simp]:
  "add_coins [] f = f" "add_coins ((op, c) # xs) f = add_coins xs (f(op \<mapsto> c))"
  by (simp_all add: add_coins_def)

lemma add_coins_other: "op \<notin> fst ` set xs \<Longrightarrow> add_coins xs f op = f op"
  by (induction xs arbitrary: f) (auto split: prod.splits)

lemma add_coins_in:
  "distinct (map fst xs) \<Longrightarrow> (op, c) \<in> set xs \<Longrightarrow> add_coins xs f op = Some c"
proof (induction xs arbitrary: f)
  case (Cons x xs)
  obtain k v where x: "x = (k, v)" by (cases x)
  show ?case
  proof (cases "(op, c) = (k, v)")
    case True
    then have "op \<notin> fst ` set xs" using Cons.prems x by simp
    with True x show ?thesis by (simp add: add_coins_other)
  next
    case False
    with Cons x show ?thesis by auto
  qed
qed simp

lemma overwritten_by_simps [simp]:
  "overwritten_by [] f = []"
  "overwritten_by ((op, c) # xs) f = (case f op of Some c \<Rightarrow> [(op, c)] | None \<Rightarrow> []) @ overwritten_by xs f"
  by (simp_all add: overwritten_by_def)

lemma overwritten_by_cong: "\<forall>op \<in> fst ` set xs. f op = g op \<Longrightarrow> overwritten_by xs f = overwritten_by xs g"
  by (induction xs) (auto split: prod.splits)

lemma created_from_simps [simp]:
  "created_from H tx h [] = []"
  "created_from H tx h ((i, out) # rest) =
     (if is_unspendable (script_pubkey out) then []
      else [(output_point H tx i, \<lparr>coin_out = out, coin_height = h, coin_coinbase = is_coinbase tx\<rparr>)]) @
     created_from H tx h rest"
  by (simp_all add: created_from_def)

lemma created_distinct:
  assumes "outputs_fit tx"
  shows "distinct (map fst (created H h tx))"
proof -
  have inj: "inj_on (output_point H tx) {0..<length (outputs tx)}"
  proof (rule inj_onI)
    fix i j assume "i \<in> {0..<length (outputs tx)}" "j \<in> {0..<length (outputs tx)}"
      and e: "output_point H tx i = output_point H tx j"
    then have "i < 2 ^ 32" "j < 2 ^ 32" using assms by (simp_all add: outputs_fit_def)
    moreover have "(word_of_nat i :: u32) = word_of_nat j" using e by (simp add: output_point_def)
    then have "unat (word_of_nat i :: u32) = unat (word_of_nat j :: u32)" by simp
    ultimately show "i = j" by (simp add: unat_of_nat take_bit_eq_mod)
  qed
  have "map fst (created H h tx) = map (output_point H tx) (map fst (filter (\<lambda>(i, out). \<not> is_unspendable (script_pubkey out)) (enumerate 0 (outputs tx))))"
    by (simp add: created_def created_from_def comp_def case_prod_beta)
  moreover have "distinct (map fst (filter P (enumerate 0 (outputs tx))))" for P
    using distinct_map_filter [of fst "enumerate 0 (outputs tx)" P] by (simp add: distinct_map_filter)
  moreover have "set (map fst (filter P (enumerate 0 (outputs tx)))) \<subseteq> {0..<length (outputs tx)}" for P
    by (auto simp: in_set_enumerate_eq)
  ultimately show ?thesis
    using inj by (simp only: distinct_map) (meson inj_on_subset)
qed

section \<open>Undoing a transaction\<close>

lemma remove_created:
  "fold (\<lambda>x f. if (case x of (i, out) \<Rightarrow> is_unspendable (script_pubkey out)) then f
      else f(output_point H tx (fst x) := None)) outs f =
   (\<lambda>op. if op \<in> fst ` set (created_from H tx h outs) then None else f op)"
  by (induction outs arbitrary: f) (auto simp: fun_eq_iff)

lemma put_overwritten:
  "distinct (map fst xs) \<Longrightarrow>
   add_coins (overwritten_by xs g) f op = (if op \<in> fst ` set xs \<and> g op \<noteq> None then g op else f op)"
  by (induction xs arbitrary: f) (auto 4 4 split: option.splits prod.splits simp: image_iff)

lemma put_spent:
  "\<forall>op \<in> set ops. g op \<noteq> None \<Longrightarrow>
   add_coins (zip ops (map (\<lambda>op. the (g op)) ops)) f op = (if op \<in> set ops then g op else f op)"
  by (induction ops arbitrary: f) auto

lemma effect_undone:
  assumes "outputs_fit tx" "\<forall>op \<in> set (tx_spends tx). f op \<noteq> None"
  shows "add_coins (zip (tx_spends tx) (map (\<lambda>op. the (f op)) (tx_spends tx)))
      (add_coins (overwritten_by (created H h tx) (spend_coins (tx_spends tx) f))
        (\<lambda>op. if op \<in> fst ` set (created H h tx) then None else tx_effect H h tx f op)) = f"
proof (rule ext)
  fix op
  have "tx_effect H h tx f op = spend_coins (tx_spends tx) f op" if "op \<notin> fst ` set (created H h tx)"
    unfolding tx_effect_def using that by (rule add_coins_other)
  then show "add_coins (zip (tx_spends tx) (map (\<lambda>op. the (f op)) (tx_spends tx)))
      (add_coins (overwritten_by (created H h tx) (spend_coins (tx_spends tx) f))
        (\<lambda>op. if op \<in> fst ` set (created H h tx) then None else tx_effect H h tx f op)) op = f op"
    unfolding put_spent [OF assms(2)] put_overwritten [OF created_distinct [OF assms(1)]]
    by (auto simp: spend_coins_def)
qed

lemma remove_outputs_ok:
  assumes "coin_rep cc H pf fs s f"
  shows "returns (remove_outputs cc H tx s)
    (\<lambda>s'. coin_rep cc H pf fs s' (\<lambda>op. if op \<in> fst ` set (created H h tx) then None else f op))"
proof -
  have loop: "(\<lambda>(vout, out) s. if is_unspendable (script_pubkey out) then Some s else remove_entry cc H s (output_point H tx vout)) =
      (\<lambda>x s. if (case x of (i, out) \<Rightarrow> is_unspendable (script_pubkey out)) then Some s
        else remove_entry cc H s (output_point H tx (fst x)))"
    by (simp add: fun_eq_iff split_beta)
  then show ?thesis
    unfolding remove_outputs_def created_def loop
    using coins.remove_each [OF assms, of "\<lambda>(i, out). is_unspendable (script_pubkey out)" "\<lambda>x. output_point H tx (fst x)"
        "enumerate 0 (outputs tx)"] remove_created [where H = H and tx = tx and f = f and h = h]
    by simp
qed

lemma put_coins_ok:
  "coin_rep cc H pf fs s f \<Longrightarrow> returns (put_coins cc H xs s) (\<lambda>s'. coin_rep cc H pf fs s' (add_coins xs f))"
  unfolding put_coins_def add_coins_def by (rule coins.put_each)

lemma undo_tx_ok:
  assumes "coin_rep cc H pf fs s (tx_effect H h tx f)" "outputs_fit tx" "\<forall>op \<in> set (tx_spends tx). f op \<noteq> None"
  shows "returns (undo_tx cc H (tx, undo_of H h tx f) s) (\<lambda>s'. coin_rep cc H pf fs s' f)"
proof -
  have zip: "zip (map previous_output (inputs tx)) (undo_spent (undo_of H h tx f)) =
      zip (tx_spends tx) (map (\<lambda>op. the (f op)) (tx_spends tx))"
    by (simp add: undo_of_def tx_spends_def)
  have "returns (remove_outputs cc H tx s) (\<lambda>s1. returns (put_coins cc H (undo_overwritten (undo_of H h tx f)) s1)
      (\<lambda>s2. returns (put_coins cc H (zip (tx_spends tx) (map (\<lambda>op. the (f op)) (tx_spends tx))) s2)
        (\<lambda>s'. coin_rep cc H pf fs s' f)))"
  proof (rule returns_mono [OF remove_outputs_ok [OF assms(1), of tx h]], rule returns_mono [OF put_coins_ok], assumption)
    fix s1 s2
    assume "coin_rep cc H pf fs s2 (add_coins (undo_overwritten (undo_of H h tx f))
        (\<lambda>op. if op \<in> fst ` set (created H h tx) then None else tx_effect H h tx f op))"
    from put_coins_ok [OF this, of "zip (tx_spends tx) (map (\<lambda>op. the (f op)) (tx_spends tx))"]
    show "returns (put_coins cc H (zip (tx_spends tx) (map (\<lambda>op. the (f op)) (tx_spends tx))) s2)
        (\<lambda>s'. coin_rep cc H pf fs s' f)"
      using effect_undone [OF assms(2,3), of H h] by (simp add: undo_of_def)
  qed
  then show ?thesis by (simp add: undo_tx_def zip)
qed

section \<open>Applying a transaction\<close>

lemma spend_inputs_ok:
  assumes "coin_rep cc H pf fs s f"
  shows "returns (spend_inputs cc H xs s) (\<lambda>s'. coin_rep cc H pf fs s' (spend_coins (map (previous_output \<circ> fst) xs) f))"
proof -
  have loop: "(\<lambda>(input, c) s. map_option snd (utxo_spend cc H s (previous_output input))) =
      (\<lambda>x s. map_option snd (utxo_spend cc H s ((previous_output \<circ> fst) x)))"
    by (simp add: fun_eq_iff split_beta)
  moreover have "fold (\<lambda>x f. f((previous_output \<circ> fst) x := None)) xs f =
      spend_coins (map (previous_output \<circ> fst) xs) f"
    unfolding fold_spend [symmetric] fold_map by (simp add: comp_def)
  ultimately show ?thesis
    unfolding spend_inputs_def loop using coins.spend_each [OF assms, of "previous_output \<circ> fst" xs] by (simp only:)
qed

lemma add_outputs_ok:
  assumes "coin_rep cc H pf fs s f" "distinct (map fst (created_from H tx h outs))"
  shows "returns (add_outputs_loop cc H tx h outs ow s) (\<lambda>(r, s').
    case r of
      Inr ow' \<Rightarrow> ow' = ow @ overwritten_by (created_from H tx h outs) f \<and>
        coin_rep cc H pf fs s' (add_coins (created_from H tx h outs) f) \<and>
        (\<not> is_coinbase tx \<longrightarrow> overwritten_by (created_from H tx h outs) f = [])
    | Inl e \<Rightarrow> e = InternalError OVERWROTE \<and> \<not> is_coinbase tx \<and>
        (\<exists>op \<in> fst ` set (created_from H tx h outs). f op \<noteq> None) \<and> (\<exists>g. coin_rep cc H pf fs s' g))"
  (is "returns _ (?Q outs ow f)")
  using assms
proof (induction outs arbitrary: s f ow)
  case Nil
  then show ?case by simp
next
  case (Cons x rest)
  obtain i out where x: "x = (i, out)" by (cases x)
  define op0 where "op0 = output_point H tx i"
  define c0 where "c0 = \<lparr>coin_out = out, coin_height = h, coin_coinbase = is_coinbase tx\<rparr>"
  show ?case unfolding x
  proof (cases "is_unspendable (script_pubkey out)")
    case True
    from Cons.prems(2) x True have "distinct (map fst (created_from H tx h rest))" by simp
    from Cons.IH [OF Cons.prems(1) this, of ow] True
    show "returns (add_outputs_loop cc H tx h ((i, out) # rest) ow s) (?Q ((i, out) # rest) ow f)"
      by (simp add: created_from_simps cong: sum.case_cong)
  next
    case False
    have head: "created_from H tx h ((i, out) # rest) = (op0, c0) # created_from H tx h rest"
      using False by (simp add: op0_def c0_def)
    have unfolded: "add_outputs_loop cc H tx h ((i, out) # rest) ow s = do {
        (p, s1) \<leftarrow> utxo_get cc s op0;
        s2 \<leftarrow> utxo_put cc H s1 op0 (Some c0);
        case p of None \<Rightarrow> add_outputs_loop cc H tx h rest ow s2
        | Some c \<Rightarrow> if \<not> is_coinbase tx then do { s \<leftarrow> utxo_put cc H s2 op0 (Some c); Some (Inl (InternalError OVERWROTE), s) }
            else add_outputs_loop cc H tx h rest (ow @ [(op0, c)]) s2 }"
      using False by (simp only: add_outputs_loop.simps op0_def c0_def if_False)
    have d: "op0 \<notin> fst ` set (created_from H tx h rest)" "distinct (map fst (created_from H tx h rest))"
      using Cons.prems(2) x head by simp_all
    have cong: "overwritten_by (created_from H tx h rest) (f(op0 \<mapsto> c0)) = overwritten_by (created_from H tx h rest) f"
      by (intro overwritten_by_cong) (use d(1) in force)
    have other: "(\<exists>op \<in> fst ` set (created_from H tx h rest). (f(op0 \<mapsto> c0)) op \<noteq> None) \<Longrightarrow>
        (\<exists>op \<in> fst ` set (created_from H tx h rest). f op \<noteq> None)"
      using d(1) by (metis fun_upd_other)
    have IH: "returns (add_outputs_loop cc H tx h rest ow' s2) (?Q rest ow' (f(op0 \<mapsto> c0)))"
      if "coin_rep cc H pf fs s2 (f(op0 \<mapsto> c0))" for s2 ow'
      using that d(2) by (rule Cons.IH)
    have step: "returns (case f op0 of None \<Rightarrow> add_outputs_loop cc H tx h rest ow s2
        | Some c \<Rightarrow> if \<not> is_coinbase tx then do { s \<leftarrow> utxo_put cc H s2 op0 (Some c); Some (Inl (InternalError OVERWROTE), s) }
            else add_outputs_loop cc H tx h rest (ow @ [(op0, c)]) s2) (?Q ((i, out) # rest) ow f)"
      if s2: "coin_rep cc H pf fs s2 (f(op0 \<mapsto> c0))" for s2
    proof (cases "f op0")
      case None
      have "returns (add_outputs_loop cc H tx h rest ow s2) (?Q ((i, out) # rest) ow f)"
        by (rule returns_mono [OF IH [OF s2]])
          (use None head cong other in \<open>auto split: sum.splits simp del: created_from_simps fun_upd_apply\<close>)
      with None show ?thesis by simp
    next
      case (Some c)
      show ?thesis
      proof (cases "is_coinbase tx")
        case True
        have "returns (add_outputs_loop cc H tx h rest (ow @ [(op0, c)]) s2) (?Q ((i, out) # rest) ow f)"
          by (rule returns_mono [OF IH [OF s2]])
            (use Some head cong other True in \<open>auto split: sum.splits simp del: created_from_simps fun_upd_apply\<close>)
        with Some True show ?thesis by simp
      next
        case no: False
        have "returns (utxo_put cc H s2 op0 (Some c)) (\<lambda>s3. ?Q ((i, out) # rest) ow f (Inl (InternalError OVERWROTE), s3))"
          by (rule returns_mono [OF coins.put_law [OF s2, of op0 "Some c"]]) (use no head Some in \<open>auto simp del: created_from_simps\<close>)
        with Some no show ?thesis by simp
      qed
    qed
    have "returns (utxo_get cc s op0) (\<lambda>(p, s1). returns (utxo_put cc H s1 op0 (Some c0)) (\<lambda>s2.
        returns (case p of None \<Rightarrow> add_outputs_loop cc H tx h rest ow s2
        | Some c \<Rightarrow> if \<not> is_coinbase tx then do { s \<leftarrow> utxo_put cc H s2 op0 (Some c); Some (Inl (InternalError OVERWROTE), s) }
            else add_outputs_loop cc H tx h rest (ow @ [(op0, c)]) s2) (?Q ((i, out) # rest) ow f)))"
    proof (rule returns_mono [OF coins.get_law [OF Cons.prems(1)]], unfold split_paired_all prod.case)
      fix p s1 assume p: "p = f op0 \<and> coin_rep cc H pf fs s1 f"
      show "returns (utxo_put cc H s1 op0 (Some c0)) (\<lambda>s2.
        returns (case p of None \<Rightarrow> add_outputs_loop cc H tx h rest ow s2
        | Some c \<Rightarrow> if \<not> is_coinbase tx then do { s \<leftarrow> utxo_put cc H s2 op0 (Some c); Some (Inl (InternalError OVERWROTE), s) }
            else add_outputs_loop cc H tx h rest (ow @ [(op0, c)]) s2) (?Q ((i, out) # rest) ow f))"
        by (rule returns_mono [OF coins.put_law]) (use p step in auto)
    qed
    then show "returns (add_outputs_loop cc H tx h ((i, out) # rest) ow s) (?Q ((i, out) # rest) ow f)"
      by (simp only: unfolded returns_bind returns_case_prod)
  qed
qed

section \<open>Checking a transaction\<close>

lemma get_ancestor_returns:
  assumes "tree_shape H t"
  shows "returns (get_ancestor t h k) (\<lambda>_. True)"
proof (cases "nodes t h")
  case (Some n)
  show ?thesis
  proof (cases "unat k \<le> unat (node_height n)")
    case True
    from get_ancestor_walk [OF assms Some this] obtain m where "get_ancestor t h k = Some (Some m)" by metis
    then show ?thesis by simp
  next
    case False
    then have "node_height n \<le> k" by (simp add: word_le_nat_alt)
    from get_ancestor_above [OF Some this] show ?thesis by simp
  qed
qed (simp add: get_ancestor_def)

lemma bip68_returns:
  assumes "tree_shape H t"
  shows "returns (bip68_loop H t tip_hash xs a b) (\<lambda>_. True)"
proof (induction xs arbitrary: a b)
  case (Cons x xs)
  obtain i c where x: "x = (i, c)" by (cases x)
  have "returns (get_ancestor t tip_hash (saturating_sub_u32 (coin_height c) 1)) (\<lambda>node. returns
      (case Option.bind node (\<lambda>n. tree_median_time_past t (node_hash H n)) of None \<Rightarrow> Some None
        | Some coin_time \<Rightarrow> bip68_loop H t tip_hash xs a (max b (uint coin_time +
            push_bit SEQUENCE_LOCKTIME_GRANULARITY (uint (sequence i AND SEQUENCE_LOCKTIME_MASK)) - 1))) (\<lambda>_. True))"
    by (rule returns_mono [OF get_ancestor_returns [OF assms]]) (simp add: Cons.IH split: option.split)
  then show ?case unfolding x bip68_loop.simps Let_def using Cons.IH by simp
qed simp

lemma bip68_locks_returns:
  "tree_shape H t \<Longrightarrow> returns (bip68_locks_satisfied H tx spent h mtp t tip_hash) (\<lambda>_. True)"
  using bip68_returns [of H t tip_hash "zip (inputs tx) spent" "-1" "-1"]
  by (simp add: bip68_locks_satisfied_def)

lemma resolve_ok:
  assumes "coin_rep cc H pf fs s f" "prefetched = None \<or> prefetched = Some pf"
  shows "returns (resolve_inputs cc s ins prefetched)
    (\<lambda>(r, s'). r = those (map (\<lambda>i. f (previous_output i)) ins) \<and> coin_rep cc H pf fs s' f)"
  using assms(1)
proof (induction ins arbitrary: s)
  case (Cons i ins)
  have "returns (get_with_prefetched cc s (previous_output i) prefetched) (\<lambda>(c, s1). returns
      (case c of None \<Rightarrow> Some (None, s1)
        | Some c \<Rightarrow> do { (r, s) \<leftarrow> resolve_inputs cc s1 ins prefetched; Some (map_option (Cons c) r, s) })
      (\<lambda>(r, s'). r = those (map (\<lambda>i. f (previous_output i)) (i # ins)) \<and> coin_rep cc H pf fs s' f))"
  proof (rule returns_mono [OF rep_prefetched_get [OF Cons.prems assms(2)]], unfold split_paired_all prod.case)
    fix c s1 assume c: "c = f (previous_output i) \<and> coin_rep cc H pf fs s1 f"
    then have "returns (resolve_inputs cc s1 ins prefetched)
        (\<lambda>(r, s'). r = those (map (\<lambda>i. f (previous_output i)) ins) \<and> coin_rep cc H pf fs s' f)"
      by (intro Cons.IH) simp
    then show "returns (case c of None \<Rightarrow> Some (None, s1)
        | Some c \<Rightarrow> do { (r, s) \<leftarrow> resolve_inputs cc s1 ins prefetched; Some (map_option (Cons c) r, s) })
      (\<lambda>(r, s'). r = those (map (\<lambda>i. f (previous_output i)) (i # ins)) \<and> coin_rep cc H pf fs s' f)"
      using c by (cases "f (previous_output i)") (auto elim!: returns_mono)
  qed
  then show ?case by simp
qed simp

lemma those_Some: "those xs = Some ys \<longleftrightarrow> xs = map Some ys"
proof (induction xs arbitrary: ys)
  case (Cons x xs)
  then show ?case by (cases x; cases ys) auto
qed auto

definition tx_admitted :: "hash_fns \<Rightarrow> connect_context \<Rightarrow> connect_env \<Rightarrow> coin_map \<Rightarrow> transaction \<Rightarrow> coin list \<Rightarrow> i64 \<Rightarrow> bool" where
  "tx_admitted H ctx env f tx spent fee \<longleftrightarrow>
     map f (tx_spends tx) = map Some spent \<and>
     (if is_coinbase tx then fee = 0
      else check_tx_values tx spent (ce_height env) = Inr fee \<and>
        (ce_csv_active env \<longrightarrow>
          bip68_locks_satisfied H tx spent (ce_height env) (ce_parent_mtp env) (cx_tree ctx) (cx_block_hash ctx) = Some True))"

lemma check_tx_values_not_overwrote: "check_tx_values tx spent h \<noteq> Inl (InternalError OVERWROTE)"
proof -
  have i: "value_in_loop h spent v \<noteq> Inl (InternalError OVERWROTE)" for v
    by (induction h spent v rule: value_in_loop.induct) (auto simp: Let_def split: option.splits)
  have o: "value_out_loop outs v \<noteq> Inl (InternalError OVERWROTE)" for outs v
    by (induction outs v rule: value_out_loop.induct) (auto simp: OVERWROTE_def split: option.splits)
  show ?thesis
    using i [of 0] o [of "outputs tx" 0]
    by (cases "value_in_loop h spent 0"; cases "value_out_loop (outputs tx) 0") (auto simp: check_tx_values_def Let_def)
qed

lemma admit_tx_ok:
  assumes t: "tree_shape H (cx_tree ctx)" and spent: "map f (tx_spends tx) = map Some spent"
    and fee: "check_tx_values tx spent (ce_height env) = Inr fee" and cb: "\<not> is_coinbase tx"
  shows "returns (admit_tx H ctx env tx acc spent fee) (\<lambda>r. case r of
      Inr acc' \<Rightarrow> tx_admitted H ctx env f tx spent fee \<and> acc' = acc\<lparr>ca_fees := ca_fees acc + fee\<rparr> \<and> money_range (ca_fees acc')
    | Inl e \<Rightarrow> e \<noteq> InternalError OVERWROTE)"
proof (cases "checked_add_i64 (ca_fees acc) fee")
  case (Some fees)
  then have fees: "fees = ca_fees acc + fee" by simp
  let ?locks = "if ce_csv_active env
      then bip68_locks_satisfied H tx spent (ce_height env) (ce_parent_mtp env) (cx_tree ctx) (cx_block_hash ctx)
      else Some True"
  obtain b where b: "?locks = Some b"
    using bip68_locks_returns [OF t, of tx spent "ce_height env" "ce_parent_mtp env" "cx_block_hash ctx"]
    by (cases ?locks) (auto split: if_splits)
  have adm: "tx_admitted H ctx env f tx spent fee" if b
    using b that spent fee cb by (auto simp: tx_admitted_def split: if_splits)
  have "admit_tx H ctx env tx acc spent fee =
      (if \<not> money_range fees then Some (Inl AccumulatedFeeOutOfRange)
       else Some (if b then Inr (acc\<lparr>ca_fees := fees\<rparr>) else Inl NotFinal))"
    unfolding admit_tx_def Some option.case b by simp
  then show ?thesis using adm fees by simp
qed (simp add: admit_tx_def)

lemma check_tx_ok:
  assumes s: "coin_rep cc H pf fs s f" and pf: "ce_prefetched env = pf" and t: "tree_shape H (cx_tree ctx)"
  shows "returns (check_tx cc H ctx env tx acc s) (\<lambda>(r, s'). coin_rep cc H pf fs s' f \<and> (case r of
      Inr (spent, acc') \<Rightarrow> (\<exists>fee. tx_admitted H ctx env f tx spent fee \<and> acc' = acc\<lparr>ca_fees := ca_fees acc + fee\<rparr> \<and>
        (is_coinbase tx \<or> money_range (ca_fees acc')))
    | Inl e \<Rightarrow> e \<noteq> InternalError OVERWROTE))"
  (is "returns _ ?Q")
proof (cases "is_coinbase tx")
  case True
  then show ?thesis using s by (simp add: check_tx_def tx_admitted_def tx_spends_def)
next
  case False
  have after: "returns (case map_sum id (\<lambda>fee. (spent, fee)) (check_tx_values tx spent (ce_height env)) of
          Inl e \<Rightarrow> Some (Inl e, s1)
        | Inr (spent, fee) \<Rightarrow> do {
            r \<leftarrow> admit_tx H ctx env tx acc spent fee;
            Some (map_sum id (\<lambda>acc. (spent, acc)) r, s1) }) ?Q"
    if s1: "coin_rep cc H pf fs s1 f" and spent: "map f (tx_spends tx) = map Some spent" for s1 spent
  proof (cases "check_tx_values tx spent (ce_height env)")
    case (Inl e)
    then show ?thesis using s1 check_tx_values_not_overwrote [of tx spent "ce_height env"] by simp
  next
    case (Inr fee)
    then have "returns (admit_tx H ctx env tx acc spent fee) (\<lambda>r. case r of
        Inr acc' \<Rightarrow> tx_admitted H ctx env f tx spent fee \<and> acc' = acc\<lparr>ca_fees := ca_fees acc + fee\<rparr> \<and> money_range (ca_fees acc')
      | Inl e \<Rightarrow> e \<noteq> InternalError OVERWROTE)"
      using admit_tx_ok [OF t spent _ False] by blast
    then have "returns (admit_tx H ctx env tx acc spent fee) (\<lambda>r. ?Q (map_sum id (\<lambda>acc. (spent, acc)) r, s1))"
    proof (rule returns_mono)
      fix r assume "case r of
          Inr acc' \<Rightarrow> tx_admitted H ctx env f tx spent fee \<and> acc' = acc\<lparr>ca_fees := ca_fees acc + fee\<rparr> \<and> money_range (ca_fees acc')
        | Inl e \<Rightarrow> e \<noteq> InternalError OVERWROTE"
      then show "?Q (map_sum id (\<lambda>acc. (spent, acc)) r, s1)" using s1 by (cases r) auto
    qed
    then show ?thesis using Inr by simp
  qed
  have "returns (resolve_inputs cc s (inputs tx) (Some pf)) (\<lambda>(sp, s1). returns
      (case (case sp of None \<Rightarrow> Inl InputsMissingOrSpent
         | Some spent \<Rightarrow> map_sum id (\<lambda>fee. (spent, fee)) (check_tx_values tx spent (ce_height env))) of
          Inl e \<Rightarrow> Some (Inl e, s1)
        | Inr (spent, fee) \<Rightarrow> do {
            r \<leftarrow> admit_tx H ctx env tx acc spent fee;
            Some (map_sum id (\<lambda>acc. (spent, acc)) r, s1) }) ?Q)"
  proof (rule returns_mono [OF resolve_ok [OF s]], simp, unfold split_paired_all prod.case)
    fix sp s1 assume a: "sp = those (map (\<lambda>i. f (previous_output i)) (inputs tx)) \<and> coin_rep cc H pf fs s1 f"
    show "returns
      (case (case sp of None \<Rightarrow> Inl InputsMissingOrSpent
         | Some spent \<Rightarrow> map_sum id (\<lambda>fee. (spent, fee)) (check_tx_values tx spent (ce_height env))) of
          Inl e \<Rightarrow> Some (Inl e, s1)
        | Inr (spent, fee) \<Rightarrow> do {
            r \<leftarrow> admit_tx H ctx env tx acc spent fee;
            Some (map_sum id (\<lambda>acc. (spent, acc)) r, s1) }) ?Q"
    proof (cases sp)
      case None
      then show ?thesis using a unfolding None option.case sum.case by simp
    next
      case (Some spent)
      then have "map f (tx_spends tx) = map Some spent" using a False by (simp add: those_Some tx_spends_def comp_def)
      from after [OF _ this, of s1] a show ?thesis unfolding Some option.case by blast
    qed
  qed
  then show ?thesis using False pf
    by (simp only: check_tx_def check_tx_inputs_using_def if_False returns_bind returns_Some case_prod_beta' fst_conv snd_conv)
qed

section \<open>Connecting a transaction\<close>

definition step_acc :: "hash_fns \<Rightarrow> verified_cache \<Rightarrow> connect_context \<Rightarrow> connect_env \<Rightarrow> coin_map \<Rightarrow> nat \<times> transaction \<Rightarrow>
    coin list \<Rightarrow> i64 \<Rightarrow> connect_acc \<Rightarrow> connect_acc" where
  "step_acc H vc ctx env f itx spent fee acc =
     \<lparr>ca_fees = ca_fees acc + fee,
      ca_sigops = ca_sigops acc + tx_sigop_cost (snd itx) spent (ce_flags env),
      ca_jobs = ca_jobs acc @ queue_tx H vc ctx env (snd itx) spent,
      ca_applied = ca_applied acc @ [(fst itx, undo_of H (ce_height env) (snd itx) f)],
      ca_delta = ca_delta acc @ delta_tx H (ce_height env) (snd itx) spent,
      ca_spent_coins = ca_spent_coins acc + length spent,
      ca_created_coins = ca_created_coins acc + created_count (snd itx)\<rparr>"

definition tx_step :: "hash_fns \<Rightarrow> verified_cache \<Rightarrow> connect_context \<Rightarrow> connect_env \<Rightarrow> coin_map \<Rightarrow> nat \<times> transaction \<Rightarrow>
    connect_acc \<Rightarrow> connect_acc \<Rightarrow> bool" where
  "tx_step H vc ctx env f itx acc acc' \<longleftrightarrow> (\<exists>spent fee. tx_admitted H ctx env f (snd itx) spent fee \<and>
     acc' = step_acc H vc ctx env f itx spent fee acc \<and> ca_sigops acc' \<le> MAX_BLOCK_SIGOPS_COST \<and>
     (is_coinbase (snd itx) \<or> money_range (ca_fees acc')))"

lemma admitted_spends:
  assumes "tx_admitted H ctx env f tx spent fee"
  shows "\<forall>op \<in> set (tx_spends tx). f op \<noteq> None" "map snd (zip (inputs tx) spent) = map (\<lambda>op. the (f op)) (tx_spends tx)"
    "map (previous_output \<circ> fst) (zip (inputs tx) spent) = tx_spends tx" "spent = map (\<lambda>op. the (f op)) (tx_spends tx)"
proof -
  have m: "map f (tx_spends tx) = map Some spent" using assms by (simp add: tx_admitted_def)
  then have l: "length spent = length (tx_spends tx)" by (metis length_map)
  show s: "spent = map (\<lambda>op. the (f op)) (tx_spends tx)"
  proof (rule nth_equalityI)
    fix i assume "i < length spent"
    then have "f (tx_spends tx ! i) = Some (spent ! i)" using arg_cong [OF m, of "\<lambda>xs. xs ! i"] l by simp
    then show "spent ! i = map (\<lambda>op. the (f op)) (tx_spends tx) ! i" using \<open>i < length spent\<close> l by simp
  qed (simp add: l)
  show "\<forall>op \<in> set (tx_spends tx). f op \<noteq> None"
  proof
    fix op assume "op \<in> set (tx_spends tx)"
    then have "f op \<in> set (map f (tx_spends tx))" by simp
    then have "f op \<in> set (map Some spent)" unfolding m .
    then show "f op \<noteq> None" by auto
  qed
  show "map snd (zip (inputs tx) spent) = map (\<lambda>op. the (f op)) (tx_spends tx)"
    "map (previous_output \<circ> fst) (zip (inputs tx) spent) = tx_spends tx"
    using s l by (auto simp: tx_spends_def map_fst_zip_take simp flip: map_map split: if_splits)
qed

lemma sigops_min: "min (x::nat) (2 ^ 64 - 1) \<le> MAX_BLOCK_SIGOPS_COST \<longleftrightarrow> x \<le> MAX_BLOCK_SIGOPS_COST"
  by (auto simp add: MAX_BLOCK_SIGOPS_COST_def min_le_iff_disj)

lemma apply_tx_ok:
  assumes s1: "coin_rep cc H pf fs s1 f" and adm: "tx_admitted H ctx env f tx spent fee" and fit: "outputs_fit tx"
    and itx: "itx = (i, tx)"
    and acc1: "ca_fees acc1 = ca_fees acc + fee" "ca_sigops acc1 = ca_sigops acc + tx_sigop_cost tx spent (ce_flags env)"
      "ca_jobs acc1 = ca_jobs acc @ queue_tx H vc ctx env tx spent" "ca_applied acc1 = ca_applied acc" "ca_delta acc1 = ca_delta acc"
      "ca_spent_coins acc1 = ca_spent_coins acc" "ca_created_coins acc1 = ca_created_coins acc"
    and ok: "ca_sigops acc1 \<le> MAX_BLOCK_SIGOPS_COST" "is_coinbase tx \<or> money_range (ca_fees acc1)"
  shows "returns (apply_tx cc H env itx spent acc1 s1) (\<lambda>(r, acc', s'). case r of
      Inr _ \<Rightarrow> tx_step H vc ctx env f itx acc acc' \<and> coin_rep cc H pf fs s' (tx_effect H (ce_height env) (snd itx) f)
    | Inl e \<Rightarrow> ca_applied acc' = ca_applied acc \<and> (if e = InternalError OVERWROTE
        then \<not> is_coinbase (snd itx) \<and> (\<exists>op \<in> fst ` set (created H (ce_height env) (snd itx)).
            spend_coins (tx_spends (snd itx)) f op \<noteq> None) \<and> (\<exists>g. coin_rep cc H pf fs s' g)
        else coin_rep cc H pf fs s' f))"
  (is "returns _ ?Q")
proof -
  let ?h = "ce_height env"
  let ?acc = "\<lambda>ow. acc1\<lparr>
      ca_applied := ca_applied acc1 @ [(i, \<lparr>undo_spent = map snd (zip (inputs tx) spent), undo_overwritten = ow\<rparr>)],
      ca_delta := ca_delta acc1 @ delta_tx H ?h tx spent,
      ca_spent_coins := ca_spent_coins acc1 + length spent,
      ca_created_coins := ca_created_coins acc1 + created_count tx\<rparr>"
  have spend: "returns (spend_inputs cc H (zip (inputs tx) spent) s1)
      (\<lambda>s2. coin_rep cc H pf fs s2 (spend_coins (tx_spends tx) f))"
    using spend_inputs_ok [OF s1, of "zip (inputs tx) spent"] by (simp only: admitted_spends(3) [OF adm])
  have add: "returns (add_tx_outputs cc H tx ?h s2) (\<lambda>(r, s'). ?Q (case r of
        Inl e \<Rightarrow> (Inl e, acc1, s') | Inr ow \<Rightarrow> (Inr (), ?acc ow, s')))"
    if s2: "coin_rep cc H pf fs s2 (spend_coins (tx_spends tx) f)" for s2
    unfolding add_tx_outputs_def
  proof (rule returns_mono [OF add_outputs_ok [OF s2, of tx ?h "enumerate 0 (outputs tx)" "[]"]], goal_cases)
    case 1
    then show ?case using created_distinct [OF fit, of H ?h] by (simp add: created_def)
  next
    case (2 x)
    obtain r s' where x: "x = (r, s')" by (cases x)
    show ?case
    proof (cases r)
      case (Inl e)
      then show ?thesis using 2 x acc1 itx by (simp add: created_def)
    next
      case (Inr ow)
      then have ow: "ow = overwritten_by (created H ?h tx) (spend_coins (tx_spends tx) f)"
        and s': "coin_rep cc H pf fs s' (tx_effect H ?h tx f)"
        using 2 x by (simp_all add: created_def tx_effect_def)
      have "?acc ow = step_acc H vc ctx env f itx spent fee acc"
        using ow acc1 itx admitted_spends(2) [OF adm] by (simp add: step_acc_def undo_of_def)
      then have "tx_step H vc ctx env f itx acc (?acc ow)"
        unfolding tx_step_def using adm ok itx acc1 by (intro exI [of _ spent] exI [of _ fee]) (simp add: step_acc_def)
      then show ?thesis unfolding x Inr prod.case sum.case using s' itx by simp
    qed
  qed
  have "returns (spend_inputs cc H (zip (inputs tx) spent) s1) (\<lambda>s2. returns (add_tx_outputs cc H tx ?h s2)
      (\<lambda>(r, s'). ?Q (case r of Inl e \<Rightarrow> (Inl e, acc1, s') | Inr ow \<Rightarrow> (Inr (), ?acc ow, s'))))"
    by (rule returns_mono [OF spend]) (rule add)
  then show ?thesis
    unfolding apply_tx_def itx prod.case returns_bind returns_case_prod returns_Some .
qed

lemma connect_tx_ok:
  assumes s: "coin_rep cc H pf fs s f" and pf: "ce_prefetched env = pf" and t: "tree_shape H (cx_tree ctx)"
    and fit: "outputs_fit (snd itx)"
  shows "returns (connect_tx cc H vc ctx env itx acc s) (\<lambda>(r, acc', s'). case r of
      Inr _ \<Rightarrow> tx_step H vc ctx env f itx acc acc' \<and> coin_rep cc H pf fs s' (tx_effect H (ce_height env) (snd itx) f)
    | Inl e \<Rightarrow> ca_applied acc' = ca_applied acc \<and> (if e = InternalError OVERWROTE
        then \<not> is_coinbase (snd itx) \<and> (\<exists>op \<in> fst ` set (created H (ce_height env) (snd itx)).
            spend_coins (tx_spends (snd itx)) f op \<noteq> None) \<and> (\<exists>g. coin_rep cc H pf fs s' g)
        else coin_rep cc H pf fs s' f))"
  (is "returns _ ?Q")
proof -
  obtain i tx where itx: "itx = (i, tx)" by (cases itx)
  let ?h = "ce_height env" and ?flags = "ce_flags env"
  let ?admit = "\<lambda>spent acc0 s1.
    let sigops = min (ca_sigops acc0 + tx_sigop_cost (snd itx) spent ?flags) (2 ^ 64 - 1);
        acc = acc0\<lparr>ca_sigops := sigops\<rparr>
    in if sigops > MAX_BLOCK_SIGOPS_COST then Some (Inl SigopsExceeded, acc, s1)
       else apply_tx cc H env itx spent
         (acc\<lparr>ca_jobs := ca_jobs acc @ queue_tx H vc ctx env (snd itx) spent\<rparr>) s1"
  have after: "returns (?admit spent acc0 s1) ?Q"
    if s1: "coin_rep cc H pf fs s1 f" and adm: "tx_admitted H ctx env f tx spent fee"
      and acc0: "acc0 = acc\<lparr>ca_fees := ca_fees acc + fee\<rparr>" and mr: "is_coinbase tx \<or> money_range (ca_fees acc0)"
    for spent acc0 s1 fee
  proof (cases "ca_sigops acc0 + tx_sigop_cost tx spent ?flags \<le> MAX_BLOCK_SIGOPS_COST")
    case False
    then have "min (ca_sigops acc0 + tx_sigop_cost tx spent ?flags) (2 ^ 64 - 1) > MAX_BLOCK_SIGOPS_COST"
      using sigops_min [of "ca_sigops acc0 + tx_sigop_cost tx spent ?flags"]
      by (simp only: linorder_not_le [symmetric] simp_thms)
    then have "?admit spent acc0 s1 = Some (Inl SigopsExceeded, acc0\<lparr>ca_sigops := min (ca_sigops acc0 + tx_sigop_cost tx spent ?flags) (2 ^ 64 - 1)\<rparr>, s1)"
      unfolding itx snd_conv Let_def by (simp only: if_True)
    then show ?thesis using s1 acc0 by simp
  next
    case True
    define acc1 where "acc1 = acc0\<lparr>ca_sigops := ca_sigops acc0 + tx_sigop_cost tx spent ?flags,
      ca_jobs := ca_jobs acc0 @ queue_tx H vc ctx env tx spent\<rparr>"
    have min: "min (ca_sigops acc0 + tx_sigop_cost tx spent ?flags) (2 ^ 64 - 1) = ca_sigops acc0 + tx_sigop_cost tx spent ?flags"
      using True by (simp add: MAX_BLOCK_SIGOPS_COST_def)
    have eq: "?admit spent acc0 s1 = apply_tx cc H env itx spent acc1 s1"
      unfolding Let_def itx snd_conv min using True by (simp add: acc1_def)
    have "returns (apply_tx cc H env itx spent acc1 s1) ?Q"
      by (rule apply_tx_ok [OF s1 adm fit [unfolded itx snd_conv] itx, where vc = vc])
        (use True acc0 mr in \<open>simp_all add: acc1_def\<close>)
    then show ?thesis unfolding eq .
  qed
  have "returns (check_tx cc H ctx env tx acc s) (\<lambda>(r, s1). returns (case r of
       Inl e \<Rightarrow> Some (Inl e, acc, s1) | Inr (spent, acc0) \<Rightarrow> ?admit spent acc0 s1) ?Q)"
  proof (rule returns_mono [OF check_tx_ok [OF s pf t]], unfold split_paired_all prod.case)
    fix r s1 assume a: "coin_rep cc H pf fs s1 f \<and> (case r of
        Inr (spent, acc') \<Rightarrow> (\<exists>fee. tx_admitted H ctx env f tx spent fee \<and> acc' = acc\<lparr>ca_fees := ca_fees acc + fee\<rparr> \<and>
          (is_coinbase tx \<or> money_range (ca_fees acc')))
      | Inl e \<Rightarrow> e \<noteq> InternalError OVERWROTE)"
    show "returns (case r of
       Inl e \<Rightarrow> Some (Inl e, acc, s1) | Inr (spent, acc0) \<Rightarrow> ?admit spent acc0 s1) ?Q"
    proof (cases r)
      case (Inl e)
      then show ?thesis using a by simp
    next
      case (Inr y)
      obtain spent acc0 where y: "y = (spent, acc0)" by (cases y)
      from a obtain fee where "tx_admitted H ctx env f tx spent fee" "acc0 = acc\<lparr>ca_fees := ca_fees acc + fee\<rparr>"
        "is_coinbase tx \<or> money_range (ca_fees acc0)" "coin_rep cc H pf fs s1 f" unfolding Inr y by auto
      from after [OF this(4,1,2,3)] show ?thesis unfolding Inr y sum.case prod.case .
    qed
  qed
  then show ?thesis
    unfolding connect_tx_def returns_bind itx snd_conv
    by (rule returns_mono) (simp only: case_prod_beta')
qed

section \<open>Connecting all transactions\<close>

definition block_effect :: "hash_fns \<Rightarrow> u32 \<Rightarrow> transaction list \<Rightarrow> coin_map \<Rightarrow> coin_map" where
  "block_effect H height txs f = fold (tx_effect H height) txs f"

fun undos_of :: "hash_fns \<Rightarrow> u32 \<Rightarrow> transaction list \<Rightarrow> coin_map \<Rightarrow> block_undo" where
  "undos_of H height [] f = []"
| "undos_of H height (tx # txs) f = undo_of H height tx f # undos_of H height txs (tx_effect H height tx f)"

fun spends_present :: "hash_fns \<Rightarrow> u32 \<Rightarrow> transaction list \<Rightarrow> coin_map \<Rightarrow> bool" where
  "spends_present H height [] f = True"
| "spends_present H height (tx # txs) f \<longleftrightarrow>
     (\<forall>op \<in> set (tx_spends tx). f op \<noteq> None) \<and> spends_present H height txs (tx_effect H height tx f)"

fun block_steps :: "hash_fns \<Rightarrow> verified_cache \<Rightarrow> connect_context \<Rightarrow> connect_env \<Rightarrow> coin_map \<Rightarrow> (nat \<times> transaction) list \<Rightarrow>
    connect_acc \<Rightarrow> connect_acc \<Rightarrow> bool" where
  "block_steps H vc ctx env f [] acc acc' \<longleftrightarrow> acc' = acc"
| "block_steps H vc ctx env f (itx # rest) acc acc' \<longleftrightarrow>
     (\<exists>acc1. tx_step H vc ctx env f itx acc acc1 \<and>
       block_steps H vc ctx env (tx_effect H (ce_height env) (snd itx) f) rest acc1 acc')"

lemma block_effect_simps [simp]:
  "block_effect H h [] f = f" "block_effect H h (tx # txs) f = block_effect H h txs (tx_effect H h tx f)"
  by (simp_all add: block_effect_def)

lemma undos_length [simp]: "length (undos_of H h txs f) = length txs"
  by (induction txs arbitrary: f) simp_all

lemma block_steps_applied:
  "block_steps H vc ctx env f itxs acc acc' \<Longrightarrow>
   ca_applied acc' = ca_applied acc @ zip (map fst itxs) (undos_of H (ce_height env) (map snd itxs) f) \<and>
   spends_present H (ce_height env) (map snd itxs) f"
proof (induction itxs arbitrary: f acc)
  case (Cons itx rest)
  then obtain acc1 where a: "tx_step H vc ctx env f itx acc acc1"
    "block_steps H vc ctx env (tx_effect H (ce_height env) (snd itx) f) rest acc1 acc'" by auto
  from a(1) obtain spent fee where adm: "tx_admitted H ctx env f (snd itx) spent fee"
    and acc1: "acc1 = step_acc H vc ctx env f itx spent fee acc" by (auto simp: tx_step_def)
  show ?case using Cons.IH [OF a(2)] acc1 admitted_spends(1) [OF adm] by (simp add: step_acc_def)
qed simp

definition overwrites :: "hash_fns \<Rightarrow> u32 \<Rightarrow> transaction \<Rightarrow> coin_map \<Rightarrow> bool" where
  "overwrites H height tx f \<longleftrightarrow>
     (\<exists>op \<in> fst ` set (created H height tx). spend_coins (tx_spends tx) f op \<noteq> None)"

definition failed_after :: "hash_fns \<Rightarrow> verified_cache \<Rightarrow> connect_context \<Rightarrow> connect_env \<Rightarrow> (utxo_set \<Rightarrow> coin_map \<Rightarrow> bool) \<Rightarrow>
    coin_map \<Rightarrow> (nat \<times> transaction) list \<Rightarrow> connect_acc \<Rightarrow> connect_error \<Rightarrow> connect_acc \<Rightarrow> utxo_set \<Rightarrow> nat \<Rightarrow> bool" where
  "failed_after H vc ctx env rep f itxs acc e acc' s' n \<longleftrightarrow>
     n < length itxs \<and> (\<exists>acc1. block_steps H vc ctx env f (take n itxs) acc acc1 \<and> ca_applied acc' = ca_applied acc1) \<and>
     (if e = InternalError OVERWROTE
      then \<not> is_coinbase (snd (itxs ! n)) \<and>
        overwrites H (ce_height env) (snd (itxs ! n)) (block_effect H (ce_height env) (map snd (take n itxs)) f) \<and> (\<exists>g. rep s' g)
      else rep s' (block_effect H (ce_height env) (map snd (take n itxs)) f))"

lemma connect_txs_ok:
  assumes "coin_rep cc H pf fs s f" and pf: "ce_prefetched env = pf" and t: "tree_shape H (cx_tree ctx)"
    and "\<forall>itx \<in> set itxs. outputs_fit (snd itx)"
  shows "returns (connect_txs cc H vc ctx env itxs acc s) (\<lambda>(r, acc', s'). case r of
      Inr _ \<Rightarrow> block_steps H vc ctx env f itxs acc acc' \<and>
        coin_rep cc H pf fs s' (block_effect H (ce_height env) (map snd itxs) f)
    | Inl e \<Rightarrow> \<exists>n. failed_after H vc ctx env (coin_rep cc H pf fs) f itxs acc e acc' s' n)"
  using assms(1,4)
proof (induction itxs arbitrary: s f acc)
  case Nil
  then show ?case by simp
next
  case (Cons itx rest)
  let ?f1 = "tx_effect H (ce_height env) (snd itx) f"
  let ?Q = "\<lambda>f itxs acc (r, acc', s'). case r of
      Inr _ \<Rightarrow> block_steps H vc ctx env f itxs acc acc' \<and>
        coin_rep cc H pf fs s' (block_effect H (ce_height env) (map snd itxs) f)
    | Inl e \<Rightarrow> \<exists>n. failed_after H vc ctx env (coin_rep cc H pf fs) f itxs acc e acc' s' n"
  have fit: "outputs_fit (snd itx)" using Cons.prems(2) by simp
  have "returns (connect_tx cc H vc ctx env itx acc s) (\<lambda>(r, acc1, s1). returns
      (case r of Inl e \<Rightarrow> Some (Inl e, acc1, s1) | Inr _ \<Rightarrow> connect_txs cc H vc ctx env rest acc1 s1) (?Q f (itx # rest) acc))"
  proof (rule returns_mono [OF connect_tx_ok [OF Cons.prems(1) pf t fit]], unfold split_paired_all prod.case)
    fix r :: "connect_error + unit" and acc1 s1
    assume a: "case r of
      Inr _ \<Rightarrow> tx_step H vc ctx env f itx acc acc1 \<and> coin_rep cc H pf fs s1 ?f1
    | Inl e \<Rightarrow> ca_applied acc1 = ca_applied acc \<and> (if e = InternalError OVERWROTE
        then \<not> is_coinbase (snd itx) \<and> (\<exists>op \<in> fst ` set (created H (ce_height env) (snd itx)).
            spend_coins (tx_spends (snd itx)) f op \<noteq> None) \<and> (\<exists>g. coin_rep cc H pf fs s1 g)
        else coin_rep cc H pf fs s1 f)"
    show "returns (case r of Inl e \<Rightarrow> Some (Inl e, acc1, s1) | Inr _ \<Rightarrow> connect_txs cc H vc ctx env rest acc1 s1)
        (?Q f (itx # rest) acc)"
    proof (cases r)
      case (Inl e)
      then have "failed_after H vc ctx env (coin_rep cc H pf fs) f (itx # rest) acc e acc1 s1 0"
        using a by (auto simp: failed_after_def overwrites_def split: if_splits)
      then show ?thesis unfolding Inl by auto
    next
      case (Inr u)
      then have st: "tx_step H vc ctx env f itx acc acc1" and s1: "coin_rep cc H pf fs s1 ?f1" using a by simp_all
      have "returns (connect_txs cc H vc ctx env rest acc1 s1) (?Q ?f1 rest acc1)"
        by (rule Cons.IH [OF s1]) (use Cons.prems(2) in simp)
      then have "returns (connect_txs cc H vc ctx env rest acc1 s1) (?Q f (itx # rest) acc)"
      proof (rule returns_mono, unfold split_paired_all prod.case)
        fix r' :: "connect_error + unit" and acc' s'
        assume b: "case r' of Inr _ \<Rightarrow> block_steps H vc ctx env ?f1 rest acc1 acc' \<and>
            coin_rep cc H pf fs s' (block_effect H (ce_height env) (map snd rest) ?f1)
          | Inl e \<Rightarrow> \<exists>n. failed_after H vc ctx env (coin_rep cc H pf fs) ?f1 rest acc1 e acc' s' n"
        show "case r' of Inr _ \<Rightarrow> block_steps H vc ctx env f (itx # rest) acc acc' \<and>
            coin_rep cc H pf fs s' (block_effect H (ce_height env) (map snd (itx # rest)) f)
          | Inl e \<Rightarrow> \<exists>n. failed_after H vc ctx env (coin_rep cc H pf fs) f (itx # rest) acc e acc' s' n"
        proof (cases r')
          case (Inl e)
          with b obtain n where n: "failed_after H vc ctx env (coin_rep cc H pf fs) ?f1 rest acc1 e acc' s' n" by auto
          have "failed_after H vc ctx env (coin_rep cc H pf fs) f (itx # rest) acc e acc' s' (Suc n)"
            using n st by (auto simp: failed_after_def)
          then show ?thesis unfolding Inl by auto
        next
          case (Inr u')
          then show ?thesis using b st by auto
        qed
      qed
      then show ?thesis unfolding Inr by simp
    qed
  qed
  then show ?case unfolding connect_txs.simps returns_bind returns_case_prod .
qed

lemma undo_txs_ok:
  "coin_rep cc H pf fs s (block_effect H h txs f) \<Longrightarrow> spends_present H h txs f \<Longrightarrow> \<forall>tx \<in> set txs. outputs_fit tx \<Longrightarrow>
   returns (for_each (undo_tx cc H) (rev (zip txs (undos_of H h txs f))) s) (\<lambda>s'. coin_rep cc H pf fs s' f)"
proof (induction txs arbitrary: f)
  case (Cons tx txs)
  have "returns (for_each (undo_tx cc H) (rev (zip txs (undos_of H h txs (tx_effect H h tx f)))) s)
      (\<lambda>s1. coin_rep cc H pf fs s1 (tx_effect H h tx f))"
    using Cons.prems by (intro Cons.IH) simp_all
  then have "returns (for_each (undo_tx cc H) (rev (zip txs (undos_of H h txs (tx_effect H h tx f)))) s)
      (\<lambda>s1. returns (undo_tx cc H (tx, undo_of H h tx f) s1) (\<lambda>s'. coin_rep cc H pf fs s' f))"
    by (rule returns_mono) (rule undo_tx_ok, use Cons.prems in auto)
  then show ?case by simp
qed simp

end
