(* ===== verification/Connect_Block.thy ===== *)
theory Connect_Block
  imports Connect_View
begin

text \<open>
  Whole blocks: what the script checks decide, however they are scheduled, and that connecting a block to a
  set, rolling it back and disconnecting it act on the map it stands for as the block's effect and its
  inverse.
\<close>

section \<open>Script checks\<close>

definition job_ok :: "hash_fns \<Rightarrow> ('pk, 'sig, 'xpk, 'ssig) secp \<Rightarrow> script_flags \<Rightarrow> script_job \<Rightarrow> script_error + unit" where
  "job_ok H S flags = (\<lambda>(tx, outs). check_input_scripts H S tx outs flags)"

lemma unit_sum_cases: "(r :: 'e + unit) = Inr () \<or> (\<exists>e. r = Inl e)"
  by (cases r) auto

lemma run_jobs_append: "run_jobs H S flags (xs @ ys) = res_bind (run_jobs H S flags xs) (\<lambda>_. run_jobs H S flags ys)"
  by (induction xs) (auto simp: res_bind_def split: sum.splits)

lemma run_jobs_iff: "run_jobs H S flags jobs = Inr () \<longleftrightarrow> (\<forall>j \<in> set jobs. job_ok H S flags j = Inr ())"
  by (induction jobs) (auto simp: job_ok_def res_bind_def split: sum.splits)

lemma run_jobs_error: "run_jobs H S flags jobs = Inl e \<Longrightarrow> \<exists>j \<in> set jobs. job_ok H S flags j = Inl e"
  by (induction jobs) (auto simp: job_ok_def res_bind_def split: sum.splits)

lemma concat_chunks: "n > 0 \<Longrightarrow> concat (chunks n xs) = xs"
  by (induction n xs rule: chunks.induct) (subst chunks.simps, auto)

lemma join_threads_run: "join_threads (map (run_jobs H S flags) parts) = run_jobs H S flags (concat parts)"
proof (induction parts)
  case (Cons p parts)
  then show ?case by (simp add: run_jobs_append)
qed simp

lemma run_script_checks_sequential: "run_script_checks H S n jobs flags = run_jobs H S flags jobs"
proof (cases "min n (length jobs) \<le> 1")
  case False
  then have "(length jobs + min n (length jobs) - 1) div min n (length jobs) > 0"
    by (auto simp: div_greater_zero_iff)
  then show ?thesis
    using False by (simp add: run_script_checks_def Let_def join_threads_run concat_chunks)
qed (simp add: run_script_checks_def)

lemma check_finish_fold:
  "cs_remaining (foldl (\<lambda>st i. check_finish (r i) st) st order) = cs_remaining st - length order"
  "cs_error (foldl (\<lambda>st i. check_finish (r i) st) st order) =
    (case cs_error st of Some e \<Rightarrow> Some e | None \<Rightarrow>
       (case find (\<lambda>i. r i \<noteq> Inr ()) order of Some i \<Rightarrow> (case r i of Inl e \<Rightarrow> Some e | Inr _ \<Rightarrow> None) | None \<Rightarrow> None))"
proof (induction order arbitrary: st)
  case (Cons i order)
  { case 1 then show ?case using Cons by (simp add: check_finish_def) }
  { case 2 show ?case
    proof (cases "r i")
      case (Inl e)
      then show ?thesis using Cons by (cases "cs_error st") (simp_all add: check_finish_def)
    next
      case (Inr u)
      then show ?thesis using Cons by (cases "cs_error st") (simp_all add: check_finish_def)
    qed }
qed (simp_all split: option.split)

definition finishing_order :: "(nat \<Rightarrow> nat list) \<Rightarrow> bool" where
  "finishing_order order \<longleftrightarrow> (\<forall>n. length (order n) = n \<and> set (order n) = {0..<n})"

lemma block_check_wait_ok:
  assumes "finishing_order order"
  shows "\<exists>v. block_check_wait H S jobs flags (order (length jobs)) = Some v \<and>
    (v = Inr () \<longleftrightarrow> run_jobs H S flags jobs = Inr ()) \<and> (\<forall>e. v = Inl e \<longrightarrow> (\<exists>j \<in> set jobs. job_ok H S flags j = Inl e))"
proof -
  let ?r = "\<lambda>i. job_ok H S flags (jobs ! i)"
  let ?os = "order (length jobs)"
  have o: "length ?os = length jobs" "set ?os = {0..<length jobs}" using assms by (simp_all add: finishing_order_def)
  have r: "(let (tx, outs) = jobs ! i in check_input_scripts H S tx outs flags) = ?r i" for i
    by (simp add: job_ok_def split_beta)
  let ?st = "foldl (\<lambda>st i. check_finish (?r i) st) \<lparr>cs_remaining = length jobs, cs_error = None\<rparr> ?os"
  have st: "cs_remaining ?st = 0" "cs_error ?st =
      (case find (\<lambda>i. ?r i \<noteq> Inr ()) ?os of Some i \<Rightarrow> (case ?r i of Inl e \<Rightarrow> Some e | Inr _ \<Rightarrow> None) | None \<Rightarrow> None)"
    using check_finish_fold [of ?r "\<lparr>cs_remaining = length jobs, cs_error = None\<rparr>" ?os] o(1) by simp_all
  have w: "block_check_wait H S jobs flags ?os = Some (case cs_error ?st of Some e \<Rightarrow> Inl e | None \<Rightarrow> Inr ())"
    unfolding block_check_wait_def r using st(1) by (simp add: Let_def)
  show ?thesis
  proof (cases "find (\<lambda>i. ?r i \<noteq> Inr ()) ?os")
    case None
    then have "\<forall>i < length jobs. ?r i = Inr ()" using o(2) by (auto simp: find_None_iff)
    then have "run_jobs H S flags jobs = Inr ()" unfolding run_jobs_iff by (metis in_set_conv_nth)
    then show ?thesis using w st(2) None by simp
  next
    case (Some i)
    then have i: "?r i \<noteq> Inr ()" "i \<in> set ?os" by (auto simp: find_Some_iff)
    then obtain e where e: "?r i = Inl e" using unit_sum_cases [of "?r i"] by blast
    have j: "jobs ! i \<in> set jobs" using i(2) o(2) by auto
    then have "run_jobs H S flags jobs \<noteq> Inr ()" unfolding run_jobs_iff using e by (metis Inl_Inr_False)
    then show ?thesis using w st(2) Some e j by auto
  qed
qed

section \<open>Before the transactions\<close>

definition prepared :: "hash_fns \<Rightarrow> block \<Rightarrow> connect_context \<Rightarrow> coin_map \<Rightarrow> connect_env \<Rightarrow> bool" where
  "prepared H b ctx f env \<longleftrightarrow> (\<exists>node. nodes (cx_tree ctx) (cx_block_hash ctx) = Some node \<and>
     nodes (cx_tree ctx) (node_prev node) \<noteq> None \<and>
     ce_height env = node_height node \<and>
     tree_median_time_past (cx_tree ctx) (node_prev node) = Some (ce_parent_mtp env) \<and>
     ce_flags env = block_script_flags (cx_params ctx) (node_height node) (cx_block_hash ctx) \<and>
     ce_csv_active env = (node_height node \<ge> csv_height (cx_params ctx)) \<and>
     (enforce_bip30 H (node_height node) (cx_block_hash ctx) ctx = Some True \<longrightarrow>
       (\<forall>tx \<in> set (transactions b). \<forall>i < length (outputs tx). f (output_point H tx i) = None)))"

lemma enforce_bip30_returns: "tree_shape H (cx_tree ctx) \<Longrightarrow> returns (enforce_bip30 H h hash ctx) (\<lambda>_. True)"
  using get_ancestor_returns [of H "cx_tree ctx"] by (simp add: enforce_bip30_def split: option.split)

lemma bip30_scan_view:
  assumes "utxo_reach cc H s (f # fs)" "bip30_scan H s txs = None"
  shows "\<forall>tx \<in> set txs. \<forall>i < length (outputs tx). f (output_point H tx i) = None"
proof -
  have "find (\<lambda>op. f op \<noteq> None) (concat (map (\<lambda>tx. map (output_point H tx) [0..<length (outputs tx)]) txs)) = None"
    using assms(2) coins.find_have [of cc H Map.empty fs s f] assms(1) by (simp add: bip30_scan_def coin_rep_def)
  then have "\<forall>tx \<in> set txs. \<forall>op \<in> output_point H tx ` {0..<length (outputs tx)}. f op = None"
    by (fastforce simp: find_None_iff)
  then show ?thesis by simp
qed

lemma connect_prepare_ok:
  assumes "utxo_reach cc H s (f # fs)" "tree_shape H (cx_tree ctx)"
  shows "returns (connect_prepare cc H b ctx s) (\<lambda>r. case r of
      Inr env \<Rightarrow> prepared H b ctx f env \<and> coin_rep cc H (ce_prefetched env) fs s f
    | Inl e \<Rightarrow> e \<noteq> InternalError OVERWROTE)"
proof (cases "nodes (cx_tree ctx) (cx_block_hash ctx)")
  case (Some node)
  obtain bip30 where bip30: "enforce_bip30 H (node_height node) (cx_block_hash ctx) ctx = Some bip30"
    using enforce_bip30_returns [OF assms(2), of "node_height node" "cx_block_hash ctx"]
    by (auto elim: returnsE)
  have rep: "coin_rep cc H (ce_prefetched (connect_env_of cc H b ctx node mtp s)) fs s f" for mtp
    using assms(1) prefetch_backend_ok by (simp add: coin_rep_def connect_env_of_def Let_def)
  show ?thesis
  proof (cases "nodes (cx_tree ctx) (node_prev node) = None \<or> tree_median_time_past (cx_tree ctx) (node_prev node) = None")
    case True
    then show ?thesis using Some
      by (auto simp: connect_prepare_def OVERWROTE_def tree_median_time_past_def split: option.splits)
  next
    case False
    then obtain mtp where mtp: "tree_median_time_past (cx_tree ctx) (node_prev node) = Some mtp"
      and p: "nodes (cx_tree ctx) (node_prev node) \<noteq> None" by blast
    have "connect_prepare cc H b ctx s = Some (case (if bip30 then bip30_scan H s (transactions b) else None) of
          Some op \<Rightarrow> Inl (Bip30 op) | None \<Rightarrow> Inr (connect_env_of cc H b ctx node mtp s))"
      using Some p mtp bip30 by (auto simp: connect_prepare_def)
    moreover have "prepared H b ctx f (connect_env_of cc H b ctx node mtp s)"
      if "(if bip30 then bip30_scan H s (transactions b) else None) = None"
      unfolding prepared_def
      by (rule exI [of _ node])
        (use Some p mtp bip30 that bip30_scan_view [OF assms(1), of "transactions b"] in \<open>auto simp: connect_env_of_def Let_def split: if_splits\<close>)
    ultimately show ?thesis using rep by (simp split: option.split)
  qed
qed (simp add: connect_prepare_def)

section \<open>Connecting a block\<close>

lemma take_enumerate: "map fst (take n (enumerate 0 xs)) = [0..<min n (length xs)]" "map snd (take n (enumerate 0 xs)) = take n xs"
  by (simp_all add: take_map [symmetric] min_def)

lemma rollback_list:
  "n \<le> length txs \<Longrightarrow> length us = n \<Longrightarrow> map (\<lambda>(i, u). (txs ! i, u)) (rev (zip [0..<n] us)) = rev (zip (take n txs) us)"
  by (simp add: rev_map [symmetric] map_fst_zip zip_map1 [symmetric] list_eq_iff_nth_eq rev_nth)

lemma undo_any:
  assumes "coin_rep cc H pf fs s g"
  shows "returns (for_each (undo_tx cc H) xs s) (\<lambda>s'. \<exists>g. coin_rep cc H pf fs s' g)"
proof -
  have "returns (for_each (undo_tx cc H) xs s) (\<lambda>s'. (\<lambda>s' _. \<exists>g. coin_rep cc H pf fs s' g) s' (fold (\<lambda>_ a. a) xs ()))"
  proof (rule for_each_returns)
    fix x :: "transaction \<times> tx_undo" and s and a :: unit
    obtain tx u where x: "x = (tx, u)" by (cases x)
    assume "\<exists>g. coin_rep cc H pf fs s g"
    then obtain g where s: "coin_rep cc H pf fs s g" by blast
    have "returns (remove_outputs cc H tx s) (\<lambda>s1. returns (put_coins cc H (undo_overwritten u) s1)
        (\<lambda>s2. returns (put_coins cc H (zip (map previous_output (inputs tx)) (undo_spent u)) s2) (\<lambda>s'. \<exists>g. coin_rep cc H pf fs s' g)))"
      by (rule returns_mono [OF remove_outputs_ok [OF s, of tx 0]], rule returns_mono [OF put_coins_ok], assumption,
          rule returns_mono [OF put_coins_ok], assumption) blast
    then show "returns (undo_tx cc H x s) (\<lambda>s'. \<exists>g. coin_rep cc H pf fs s' g)" by (simp add: undo_tx_def x)
  qed (use assms in blast)
  then show ?thesis .
qed

text \<open>What a block that connects has passed, and what its records hold.\<close>

definition connected :: "hash_fns \<Rightarrow> ('pk, 'sig, 'xpk, 'ssig) secp \<Rightarrow> verified_cache \<Rightarrow> block \<Rightarrow> connect_context \<Rightarrow> coin_map \<Rightarrow>
    connect_env \<Rightarrow> connect_acc \<Rightarrow> bool" where
  "connected H S vc b ctx f env acc \<longleftrightarrow> prepared H b ctx f env \<and>
     block_steps H vc ctx env f (enumerate 0 (transactions b)) acc_new acc \<and>
     (\<exists>pending. connect_finish H S ctx env b acc = Inr pending)"

lemma finish_not_overwrote: "connect_finish H S ctx env b acc \<noteq> Inl (InternalError OVERWROTE)"
  by (auto simp: connect_finish_def OVERWROTE_def Let_def split: list.splits sum.splits)

definition block_overwrites :: "hash_fns \<Rightarrow> block \<Rightarrow> connect_env \<Rightarrow> coin_map \<Rightarrow> bool" where
  "block_overwrites H b env f \<longleftrightarrow> (\<exists>n < length (transactions b). \<not> is_coinbase (transactions b ! n) \<and>
     overwrites H (ce_height env) (transactions b ! n) (block_effect H (ce_height env) (take n (transactions b)) f))"

lemma connect_inner_ok:
  assumes s: "utxo_reach cc H s (f # fs)" and t: "tree_shape H (cx_tree ctx)"
    and fit: "\<forall>tx \<in> set (transactions b). outputs_fit tx"
  shows "returns (connect_block_inner cc H S vc b ctx s) (\<lambda>(r, s'). case r of
      Inr (undo, pending, receipt) \<Rightarrow> (\<exists>env acc. connected H S vc b ctx f env acc \<and>
        connect_finish H S ctx env b acc = Inr pending \<and> receipt = receipt_of H ctx env b acc \<and>
        undo = undos_of H (ce_height env) (transactions b) f \<and>
        utxo_reach cc H s' (block_effect H (ce_height env) (transactions b) f # fs))
    | Inl e \<Rightarrow> if e = InternalError OVERWROTE
        then (\<exists>env. prepared H b ctx f env \<and> block_overwrites H b env f) \<and> (\<exists>g. utxo_reach cc H s' (g # fs))
        else utxo_reach cc H s' (f # fs))"
  (is "returns _ ?Q")
proof -
  let ?itxs = "enumerate 0 (transactions b)"
  have snd: "map snd ?itxs = transactions b" by simp
  have loop: "returns (connect_txs cc H vc ctx env ?itxs acc_new s) (\<lambda>(r, acc, s1). returns
      (case res_bind r (\<lambda>_. connect_finish H S ctx env b acc) of
         Inr pending \<Rightarrow> Some (Inr (map snd (ca_applied acc), pending, receipt_of H ctx env b acc), s1)
       | Inl e \<Rightarrow> do { s \<leftarrow> rollback cc H b (ca_applied acc) s1; Some (Inl e, s) }) ?Q)"
    if env: "prepared H b ctx f env" and rep: "coin_rep cc H (ce_prefetched env) fs s f" for env
  proof (rule returns_mono [OF connect_txs_ok [OF rep refl t, of ?itxs vc acc_new]], goal_cases)
    case 1
    show ?case using fit by (metis in_set_conv_nth nth_map length_map snd)
  next
    case (2 x)
    obtain r acc s1 where x: "x = (r, acc, s1)" by (cases x)
    let ?pf = "ce_prefetched env" and ?h = "ce_height env"
    have undone: "returns (rollback cc H b (ca_applied acc) s1) (\<lambda>s'. coin_rep cc H ?pf fs s' f)"
      if n: "n \<le> length (transactions b)" and st: "block_steps H vc ctx env f (take n ?itxs) acc_new acc1"
        and ap: "ca_applied acc = ca_applied acc1" and s1: "coin_rep cc H ?pf fs s1 (block_effect H ?h (take n (transactions b)) f)"
      for n acc1
    proof -
      let ?txs = "take n (transactions b)"
      have a: "ca_applied acc = zip [0..<n] (undos_of H ?h ?txs f)" "spends_present H ?h ?txs f"
        using block_steps_applied [OF st] n ap by (simp_all add: take_enumerate acc_new_def min_absorb1)
      have l: "map (\<lambda>(i, u). (transactions b ! i, u)) (rev (ca_applied acc)) = rev (zip ?txs (undos_of H ?h ?txs f))"
        unfolding a(1) by (rule rollback_list [OF n]) (simp add: n min_absorb2)
      show ?thesis
        unfolding rollback_def l using fit by (intro undo_txs_ok [OF s1 a(2)]) (meson in_set_takeD)
    qed
    have any: "returns (rollback cc H b (ca_applied acc) s1) (\<lambda>s'. \<exists>g. coin_rep cc H ?pf fs s' g)"
      if "coin_rep cc H ?pf fs s1 g" for g
      unfolding rollback_def by (rule undo_any [OF that])
    show ?case
    proof (cases r)
      case (Inl e)
      with 2 x obtain n where n: "failed_after H vc ctx env (coin_rep cc H ?pf fs) f ?itxs acc_new e acc s1 n" by auto
      then have nl: "n < length (transactions b)" by (simp add: failed_after_def)
      have nth: "snd (?itxs ! n) = transactions b ! n" using nl by (simp add: nth_enumerate_eq)
      from n obtain acc1 where st: "block_steps H vc ctx env f (take n ?itxs) acc_new acc1" "ca_applied acc = ca_applied acc1"
        by (auto simp: failed_after_def)
      have "returns (rollback cc H b (ca_applied acc) s1) (\<lambda>s'. ?Q (Inl e, s'))"
      proof (cases "e = InternalError OVERWROTE")
        case True
        then obtain g where "coin_rep cc H ?pf fs s1 g" using n by (auto simp: failed_after_def)
        moreover have "block_overwrites H b env f"
          using n True nl nth unfolding failed_after_def block_overwrites_def by (auto simp: take_enumerate)
        ultimately show ?thesis
          using True env by (intro returns_mono [OF any]) (auto simp: coin_rep_def)
      next
        case False
        then have "coin_rep cc H ?pf fs s1 (block_effect H ?h (take n (transactions b)) f)"
          using n by (simp add: failed_after_def take_enumerate)
        from undone [OF less_imp_le [OF nl] st this] show ?thesis
          by (rule returns_mono) (use False in \<open>simp add: coin_rep_def\<close>)
      qed
      then show ?thesis unfolding x Inl by simp
    next
      case (Inr u)
      then have st: "block_steps H vc ctx env f ?itxs acc_new acc"
        and s1: "coin_rep cc H ?pf fs s1 (block_effect H ?h (transactions b) f)" using 2 x by simp_all
      show ?thesis
      proof (cases "connect_finish H S ctx env b acc")
        case fin: (Inl e)
        have "returns (rollback cc H b (ca_applied acc) s1) (\<lambda>s'. coin_rep cc H ?pf fs s' f)"
          by (rule undone [OF order_refl, where ?acc1.0 = acc]) (use st s1 in simp_all)
        then have "returns (rollback cc H b (ca_applied acc) s1) (\<lambda>s'. ?Q (Inl e, s'))"
          by (rule returns_mono) (use fin finish_not_overwrote [of H S ctx env b acc] in \<open>auto simp: coin_rep_def\<close>)
        then show ?thesis unfolding x Inr prod.case res_bind_simps fin sum.case returns_bind returns_Some .
      next
        case fin: (Inr pending)
        have "map snd (ca_applied acc) = undos_of H ?h (transactions b) f"
          using block_steps_applied [OF st] by (simp add: acc_new_def)
        moreover have "connected H S vc b ctx f env acc" using env st fin by (auto simp: connected_def)
        ultimately show ?thesis
          unfolding x Inr prod.case res_bind_simps fin sum.case returns_Some
          using fin s1 by (intro exI [of _ env] exI [of _ acc]) (simp add: coin_rep_def)
      qed
    qed
  qed
  have "returns (connect_prepare cc H b ctx s) (\<lambda>p. returns (case p of
       Inl e \<Rightarrow> Some (Inl e, s)
     | Inr env \<Rightarrow> do {
         (r, acc, s) \<leftarrow> connect_txs cc H vc ctx env ?itxs acc_new s;
         case res_bind r (\<lambda>_. connect_finish H S ctx env b acc) of
           Inr pending \<Rightarrow> Some (Inr (map snd (ca_applied acc), pending, receipt_of H ctx env b acc), s)
         | Inl e \<Rightarrow> do { s \<leftarrow> rollback cc H b (ca_applied acc) s; Some (Inl e, s) } }) ?Q)"
  proof (rule returns_mono [OF connect_prepare_ok [OF s t]])
    fix p assume p: "case p of Inr env \<Rightarrow> prepared H b ctx f env \<and> coin_rep cc H (ce_prefetched env) fs s f
      | Inl e \<Rightarrow> e \<noteq> InternalError OVERWROTE"
    show "returns (case p of
       Inl e \<Rightarrow> Some (Inl e, s)
     | Inr env \<Rightarrow> do {
         (r, acc, s) \<leftarrow> connect_txs cc H vc ctx env ?itxs acc_new s;
         case res_bind r (\<lambda>_. connect_finish H S ctx env b acc) of
           Inr pending \<Rightarrow> Some (Inr (map snd (ca_applied acc), pending, receipt_of H ctx env b acc), s)
         | Inl e \<Rightarrow> do { s \<leftarrow> rollback cc H b (ca_applied acc) s; Some (Inl e, s) } }) ?Q"
    proof (cases p)
      case (Inl e)
      then show ?thesis using p s by simp
    next
      case (Inr env)
      then have "prepared H b ctx f env" "coin_rep cc H (ce_prefetched env) fs s f" using p by simp_all
      from loop [OF this] show ?thesis unfolding Inr sum.case returns_bind returns_case_prod .
    qed
  qed
  then show ?thesis unfolding connect_block_inner_def returns_bind .
qed

end
