(* ===== verification/Connect_Supply.thy ===== *)
theory Connect_Supply
  imports Connect_Block Check_Props
begin

text \<open>
  Connecting and disconnecting on whole sets, with every scheduling of the script checks, and the supply: the
  value of all coins of a set, which a block accepted by \<open>check_block\<close> and connected raises by at most
  its subsidy.
\<close>

section \<open>Connecting with a pool or inline\<close>

definition pool_ok :: "connect_context \<Rightarrow> bool" where
  "pool_ok ctx \<longleftrightarrow> (\<forall>order. cx_pool ctx = Some order \<longrightarrow> finishing_order order)"

definition reward_of :: "connect_context \<Rightarrow> connect_env \<Rightarrow> connect_acc \<Rightarrow> i64" where
  "reward_of ctx env acc = saturate_i64 (ca_fees acc + block_subsidy (ce_height env) (cx_params ctx))"

lemma connect_finish_cases:
  assumes "connect_finish H S ctx env b acc = Inr pending"
  shows "transactions b \<noteq> []"
    "wrap_i64 (sum_list (map out_value (outputs (hd (transactions b))))) \<le> reward_of ctx env acc"
    "pending = (if cx_pool ctx = None then None else Some (ca_jobs acc))"
    "cx_pool ctx = None \<Longrightarrow> run_jobs H S (ce_flags env) (ca_jobs acc) = Inr ()"
  using assms
  by (auto simp: connect_finish_def run_script_checks_sequential Let_def reward_of_def not_less
      split: list.splits if_splits sum.splits)

lemma connected_spends: "connected H S vc b ctx f env acc \<Longrightarrow> spends_present H (ce_height env) (transactions b) f"
  using block_steps_applied [of H vc ctx env f "enumerate 0 (transactions b)" acc_new acc] by (simp add: connected_def)

lemma disconnect_ok:
  assumes s: "utxo_reach cc H s (block_effect H h (transactions b) f # fs)" and p: "spends_present H h (transactions b) f"
    and fit: "\<forall>tx \<in> set (transactions b). outputs_fit tx"
  shows "returns (disconnect_block cc H b (undos_of H h (transactions b) f) s)
    (\<lambda>(r, s'). r = Inr () \<and> utxo_reach cc H s' (f # fs))"
proof -
  have "coin_rep cc H Map.empty fs s (block_effect H h (transactions b) f)" using s by (simp add: coin_rep_def)
  from undo_txs_ok [OF this p fit]
  show ?thesis by (auto simp: disconnect_block_def coin_rep_def elim!: returns_mono)
qed

lemma connect_block_ok:
  assumes s: "utxo_reach cc H s (f # fs)" and t: "tree_shape H (cx_tree ctx)" and pool: "pool_ok ctx"
    and fit: "\<forall>tx \<in> set (transactions b). outputs_fit tx"
  shows "returns (connect_block cc H S vc b ctx s) (\<lambda>(r, s'). case r of
      Inr undo \<Rightarrow> (\<exists>env acc. connected H S vc b ctx f env acc \<and>
        run_jobs H S (ce_flags env) (ca_jobs acc) = Inr () \<and>
        undo = undos_of H (ce_height env) (transactions b) f \<and>
        utxo_reach cc H s' (block_effect H (ce_height env) (transactions b) f # fs))
    | Inl e \<Rightarrow> if e = InternalError OVERWROTE
        then (\<exists>env. prepared H b ctx f env \<and> block_overwrites H b env f) \<and> (\<exists>g. utxo_reach cc H s' (g # fs))
        else utxo_reach cc H s' (f # fs))"
  (is "returns _ ?Q")
proof -
  have "returns (connect_block_inner cc H S vc b ctx s) (\<lambda>(r, s). returns (case r of
       Inl e \<Rightarrow> Some (Inl e, s)
     | Inr (undo, pending, receipt) \<Rightarrow>
         (case (pending, cx_pool ctx) of
            (Some jobs, Some order) \<Rightarrow> do {
              verdict \<leftarrow> block_check_wait H S jobs (br_flags receipt) (order (length jobs));
              case verdict of
                Inr _ \<Rightarrow> Some (Inr undo, s)
              | Inl e \<Rightarrow> do { (_, s) \<leftarrow> disconnect_block cc H b undo s; Some (Inl (ScriptVerify e), s) } }
          | _ \<Rightarrow> Some (Inr undo, s))) ?Q)"
  proof (rule returns_mono [OF connect_inner_ok [OF s t fit]], goal_cases)
    case (1 x)
    obtain r s1 where x: "x = (r, s1)" by (cases x)
    show ?case
    proof (cases r)
      case (Inl e)
      then show ?thesis using 1 x by simp
    next
      case (Inr y)
      obtain undo pending receipt where y: "y = (undo, pending, receipt)" by (cases y)
      from 1 x Inr y obtain env acc where c: "connected H S vc b ctx f env acc" "connect_finish H S ctx env b acc = Inr pending"
        "receipt = receipt_of H ctx env b acc" "undo = undos_of H (ce_height env) (transactions b) f"
        "utxo_reach cc H s1 (block_effect H (ce_height env) (transactions b) f # fs)" by auto
      note fin = connect_finish_cases [OF c(2)]
      show ?thesis
      proof (cases "cx_pool ctx")
        case None
        then show ?thesis using c fin(3,4) unfolding x Inr y by auto
      next
        case (Some order)
        then have "finishing_order order" using pool by (simp add: pool_ok_def)
        from block_check_wait_ok [OF this, of H S "ca_jobs acc" "ce_flags env"] obtain v where
          v: "block_check_wait H S (ca_jobs acc) (ce_flags env) (order (length (ca_jobs acc))) = Some v"
            "v = Inr () \<longleftrightarrow> run_jobs H S (ce_flags env) (ca_jobs acc) = Inr ()" by blast
        have flags: "br_flags receipt = ce_flags env" using c(3) by (simp add: receipt_of_def Let_def)
        have pend: "pending = Some (ca_jobs acc)" using fin(3) Some by simp
        show ?thesis
        proof (cases v)
          case (Inr u)
          then have "run_jobs H S (ce_flags env) (ca_jobs acc) = Inr ()" using v(2) by simp
          then show ?thesis using c v(1) flags Inr unfolding x \<open>r = Inr y\<close> y Some pend by auto
        next
          case (Inl e)
          have "returns (disconnect_block cc H b undo s1) (\<lambda>(_, s). ?Q (Inl (ScriptVerify e), s))"
            unfolding c(4) by (rule returns_mono [OF disconnect_ok [OF c(5) connected_spends [OF c(1)] fit]]) auto
          then show ?thesis using v(1) flags Inl unfolding x Inr y Some pend by simp
        qed
      qed
    qed
  qed
  then show ?thesis unfolding connect_block_def returns_bind returns_case_prod .
qed

section \<open>When nothing can be overwritten\<close>

lemma effect_elsewhere: "op \<notin> fst ` set (created H h tx) \<Longrightarrow> f op = None \<Longrightarrow> tx_effect H h tx f op = None"
  by (simp add: tx_effect_def add_coins_other spend_coins_def)

lemma created_txid: "op \<in> fst ` set (created H h tx) \<Longrightarrow> op_txid op = txid H tx"
  by (auto simp: created_def created_from_def output_point_def)

lemma block_effect_elsewhere:
  "\<forall>tx \<in> set txs. txid H tx \<noteq> op_txid op \<Longrightarrow> f op = None \<Longrightarrow> block_effect H h txs f op = None"
proof (induction txs arbitrary: f)
  case (Cons tx txs)
  have "op \<notin> fst ` set (created H h tx)" using Cons.prems(1) by (metis created_txid list.set_intros(1))
  then have "tx_effect H h tx f op = None" using Cons.prems(2) by (rule effect_elsewhere)
  then show ?case using Cons by simp
qed simp

lemma scanned_no_overwrite:
  assumes scan: "\<forall>tx \<in> set (transactions b). \<forall>i < length (outputs tx). f (output_point H tx i) = None"
    and d: "distinct (map (txid H) (transactions b))"
  shows "\<not> block_overwrites H b env f"
proof
  assume "block_overwrites H b env f"
  then obtain n op where n: "n < length (transactions b)"
    and op: "op \<in> fst ` set (created H (ce_height env) (transactions b ! n))"
      "spend_coins (tx_spends (transactions b ! n)) (block_effect H (ce_height env) (take n (transactions b)) f) op \<noteq> None"
    unfolding block_overwrites_def overwrites_def by blast
  have id: "op_txid op = txid H (transactions b ! n)" using op(1) by (rule created_txid)
  obtain i where i: "i < length (outputs (transactions b ! n))" "op = output_point H (transactions b ! n) i"
    using op(1) by (auto simp: created_def created_from_def in_set_enumerate_eq)
  then have none: "f op = None" using scan n by simp
  have "\<forall>tx \<in> set (take n (transactions b)). txid H tx \<noteq> op_txid op"
  proof
    fix tx assume "tx \<in> set (take n (transactions b))"
    then obtain k where k: "k < n" "tx = transactions b ! k" using n by (auto simp: in_set_conv_nth)
    then show "txid H tx \<noteq> op_txid op" using d n id by (simp add: distinct_conv_nth)
  qed
  from block_effect_elsewhere [where f = f, OF this none, of "ce_height env"] op(2) show False by (auto simp: spend_coins_def split: if_splits)
qed

section \<open>The supply\<close>

definition coin_value :: "coin option \<Rightarrow> int" where
  "coin_value c = (case c of None \<Rightarrow> 0 | Some c \<Rightarrow> out_value (coin_out c))"

definition money_supply :: "coin_map \<Rightarrow> int" where
  "money_supply f = (\<Sum>op \<in> dom f. coin_value (f op))"

definition coins_ok :: "coin_map \<Rightarrow> bool" where
  "coins_ok f \<longleftrightarrow> finite (dom f) \<and> (\<forall>op. 0 \<le> coin_value (f op))"

lemma coin_value_simps [simp]: "coin_value None = 0" "coin_value (Some c) = out_value (coin_out c)"
  by (simp_all add: coin_value_def)

lemma supply_upd:
  assumes "finite (dom f)"
  shows "money_supply (f(op := e)) = money_supply f - coin_value (f op) + coin_value e"
proof -
  have "money_supply g = coin_value (g op) + (\<Sum>k \<in> dom g - {op}. coin_value (g k))" if "finite (dom g)" for g
  proof (cases "op \<in> dom g")
    case True
    with that show ?thesis by (simp add: money_supply_def sum.remove)
  next
    case False
    then show ?thesis by (auto simp: money_supply_def domIff)
  qed
  moreover have "(\<Sum>k \<in> dom (f(op := e)) - {op}. coin_value ((f(op := e)) k)) = (\<Sum>k \<in> dom f - {op}. coin_value (f k))"
    by (rule sum.cong) auto
  moreover have "finite (dom (f(op := e)))" using assms by (cases e) simp_all
  ultimately show ?thesis using assms by simp
qed

lemma coins_ok_upd: "coins_ok f \<Longrightarrow> 0 \<le> coin_value e \<Longrightarrow> coins_ok (f(op := e))"
  by (cases e) (simp_all add: coins_ok_def)

lemma supply_spend:
  assumes "coins_ok f" "distinct ops"
  shows "money_supply (spend_coins ops f) = money_supply f - sum_list (map (\<lambda>op. coin_value (f op)) ops) \<and> coins_ok (spend_coins ops f)"
  using assms
proof (induction ops arbitrary: f)
  case Nil
  then show ?case by (simp add: spend_coins_def)
next
  case (Cons op ops)
  have s: "spend_coins (op # ops) f = spend_coins ops (f(op := None))" by (auto simp: spend_coins_def)
  have ok: "coins_ok (f(op := None))" using Cons.prems(1) by (intro coins_ok_upd) simp_all
  have m: "map (\<lambda>k. coin_value ((f(op := None)) k)) ops = map (\<lambda>k. coin_value (f k)) ops" using Cons.prems(2) by auto
  have "money_supply (f(op := None)) = money_supply f - coin_value (f op)"
    using supply_upd [of f op None] Cons.prems(1) by (simp add: coins_ok_def)
  then show ?case
    using Cons.IH [OF ok] Cons.prems(2) unfolding s m by (simp del: fun_upd_apply)
qed

lemma supply_add:
  "coins_ok f \<Longrightarrow> \<forall>(op, c) \<in> set xs. 0 \<le> out_value (coin_out c) \<Longrightarrow>
   money_supply (add_coins xs f) \<le> money_supply f + sum_list (map (\<lambda>(op, c). out_value (coin_out c)) xs) \<and> coins_ok (add_coins xs f)"
proof (induction xs arbitrary: f)
  case (Cons x xs)
  obtain op c where x: "x = (op, c)" by (cases x)
  have ok: "coins_ok (f(op \<mapsto> c))" using Cons.prems x by (intro coins_ok_upd) auto
  have "0 \<le> coin_value (f op)" using Cons.prems(1) by (simp add: coins_ok_def)
  then have "money_supply (f(op \<mapsto> c)) \<le> money_supply f + out_value (coin_out c)"
    using supply_upd [of f op "Some c"] Cons.prems(1) by (simp add: coins_ok_def)
  then show ?case using Cons.IH [OF ok] Cons.prems x by (simp del: fun_upd_apply)
qed simp

lemma created_values:
  assumes "\<forall>out \<in> set (outputs tx). 0 \<le> out_value out"
  shows "sum_list (map (\<lambda>(op, c). out_value (coin_out c)) (created H h tx)) \<le> sum_list (map out_value (outputs tx))"
    "\<forall>(op, c) \<in> set (created H h tx). 0 \<le> out_value (coin_out c)"
proof -
  have *: "sum_list (map (\<lambda>(op, c). out_value (coin_out c)) (created_from H tx h outs)) \<le> sum_list (map (out_value \<circ> snd) outs)"
    if "\<forall>x \<in> set outs. 0 \<le> out_value (snd x)" for outs :: "(nat \<times> tx_out) list"
    using that by (induction outs) auto
  have snd: "map snd (enumerate 0 (outputs tx)) = outputs tx" by simp
  show "sum_list (map (\<lambda>(op, c). out_value (coin_out c)) (created H h tx)) \<le> sum_list (map out_value (outputs tx))"
  proof -
    have "\<forall>x \<in> set (enumerate 0 (outputs tx)). 0 \<le> out_value (snd x)"
      using assms by (metis image_eqI set_map snd)
    from * [OF this] have "sum_list (map (\<lambda>(op, c). out_value (coin_out c)) (created H h tx)) \<le>
        sum_list (map out_value (map snd (enumerate 0 (outputs tx))))"
      by (simp only: created_def map_map)
    then show ?thesis unfolding snd .
  qed
  show "\<forall>(op, c) \<in> set (created H h tx). 0 \<le> out_value (coin_out c)"
    using assms by (auto simp: created_def created_from_def in_set_enumerate_eq)
qed

section \<open>The values of a transaction\<close>

lemma value_in_loop_ok:
  "value_in_loop h spent v = Inr t \<Longrightarrow> money_range v \<Longrightarrow>
   t = v + sum_list (map (\<lambda>c. out_value (coin_out c)) spent) \<and> money_range t \<and>
   (\<forall>c \<in> set spent. coin_coinbase c \<longrightarrow> COINBASE_MATURITY \<le> saturating_sub_u32 h (coin_height c))"
proof (induction h spent v rule: value_in_loop.induct)
  case (2 h c rest v)
  let ?v = "out_value (coin_out c)"
  from 2(2) have a: "\<not> (coin_coinbase c \<and> saturating_sub_u32 h (coin_height c) < COINBASE_MATURITY)"
    "checked_add_i64 v ?v = Some (v + ?v)" "money_range (v + ?v)" "value_in_loop h rest (v + ?v) = Inr t"
    by (auto simp: Let_def split: if_splits option.splits)
  from 2(1) [OF refl a(1,2) _ a(4,3)] a(1,3) 2(2) show ?case
    by (auto simp: Let_def split: if_splits option.splits)
qed simp

lemma value_out_loop_ok: "value_out_loop outs v = Inr t \<Longrightarrow> t = v + sum_list (map out_value outs)"
  by (induction outs v rule: value_out_loop.induct) (auto split: option.splits)

lemma wrap_i64_id: "in_i64 x \<Longrightarrow> wrap_i64 x = x"
  using i64_of_le_le [of x] by (simp add: wrap_i64_def i64_of_le_def i64_le_def)

lemma check_tx_values_ok:
  assumes "check_tx_values tx spent h = Inr fee" "\<forall>out \<in> set (outputs tx). 0 \<le> out_value out"
  shows "fee = sum_list (map (\<lambda>c. out_value (coin_out c)) spent) - sum_list (map out_value (outputs tx))" "0 \<le> fee"
    "\<forall>c \<in> set spent. coin_coinbase c \<longrightarrow> COINBASE_MATURITY \<le> saturating_sub_u32 h (coin_height c)"
proof -
  from assms(1) obtain vin vout where v: "value_in_loop h spent 0 = Inr vin" "value_out_loop (outputs tx) 0 = Inr vout"
    "vout \<le> vin" "fee = wrap_i64 (vin - vout)" "money_range fee"
    by (cases "value_in_loop h spent 0"; cases "value_out_loop (outputs tx) 0")
      (auto simp: check_tx_values_def Let_def not_less split: if_splits)
  have z: "money_range 0" by (simp add: money_range_def MAX_MONEY_def)
  note i = value_in_loop_ok [OF v(1) z] and o = value_out_loop_ok [OF v(2)]
  have "0 \<le> vout" using o assms(2) by (auto intro!: sum_list_nonneg)
  then have "in_i64 (vin - vout)"
    using i v(3) by (simp add: in_i64_def i64_min_def i64_max_def money_range_def MAX_MONEY_def)
  then have "fee = vin - vout" using v(4) wrap_i64_id by simp
  then show "fee = sum_list (map (\<lambda>c. out_value (coin_out c)) spent) - sum_list (map out_value (outputs tx))" "0 \<le> fee"
    using i o v(5) by (simp_all add: money_range_def)
  show "\<forall>c \<in> set spent. coin_coinbase c \<longrightarrow> COINBASE_MATURITY \<le> saturating_sub_u32 h (coin_height c)"
    using i by blast
qed

text \<open>What \<open>check_transaction\<close> leaves for connecting.\<close>

lemma checked_tx:
  assumes "check_transaction tx = Inr ()"
  shows "distinct (map previous_output (inputs tx))" "\<forall>out \<in> set (outputs tx). 0 \<le> out_value out"
    "sum_list (map out_value (outputs tx)) \<le> MAX_MONEY" "outputs_fit tx"
proof -
  have ok: "is_ok (value_loop (outputs tx) 0)" "is_ok (duplicate_loop (inputs tx) {})"
    "size_without_witness tx * WITNESS_SCALE_FACTOR \<le> MAX_BLOCK_WEIGHT"
    using assms by (auto simp: check_transaction_def not_less split: if_splits)
  show "\<forall>out \<in> set (outputs tx). 0 \<le> out_value out" "sum_list (map out_value (outputs tx)) \<le> MAX_MONEY"
    using ok(1) value_loop_iff [of 0 "outputs tx"] by (auto simp: MAX_MONEY_def)
  show "distinct (map previous_output (inputs tx))" using ok(2) duplicate_loop_iff by blast
  have len: "n + 8 * length outs \<le> fold (\<lambda>out size. size + (8 + compact_size_len (len_u64 (script_pubkey out))
      + length (script_pubkey out))) outs n" for n and outs :: "tx_out list"
  proof (induction outs arbitrary: n)
    case (Cons out outs)
    from Cons [of "n + (8 + compact_size_len (len_u64 (script_pubkey out)) + length (script_pubkey out))"]
    show ?case by simp
  qed simp
  have "8 * length (outputs tx) \<le> size_without_witness tx"
    unfolding size_without_witness_def Let_def by (rule trans_le_add1, rule order_trans [OF _ len]) simp
  then show "outputs_fit tx" using ok(3) by (simp add: outputs_fit_def MAX_BLOCK_WEIGHT_def WITNESS_SCALE_FACTOR_def)
qed

lemma checked_txs: "check_transactions txs = Inr () \<Longrightarrow> tx \<in> set txs \<Longrightarrow> check_transaction tx = Inr ()"
proof (induction txs)
  case (Cons t txs)
  then show ?case by (cases "check_transaction t") auto
qed simp

lemma admitted_values:
  assumes "tx_admitted H ctx env f tx spent fee" "\<not> is_coinbase tx"
  shows "sum_list (map (\<lambda>op. coin_value (f op)) (map previous_output (inputs tx))) =
    sum_list (map (\<lambda>c. out_value (coin_out c)) spent)"
proof -
  have "map f (map previous_output (inputs tx)) = map Some spent" using assms by (simp add: tx_admitted_def tx_spends_def)
  then have "map coin_value (map f (map previous_output (inputs tx))) = map (\<lambda>c. out_value (coin_out c)) spent"
    by (simp add: comp_def)
  then show ?thesis by (simp add: comp_def)
qed

lemma tx_supply:
  assumes adm: "tx_admitted H ctx env f tx spent fee" and c: "check_transaction tx = Inr ()" and f: "coins_ok f"
    and n: "\<not> is_coinbase tx"
  shows "money_supply (tx_effect H h tx f) \<le> money_supply f - fee" "coins_ok (tx_effect H h tx f)" "0 \<le> fee"
proof -
  note tx = checked_tx [OF c]
  let ?ins = "map previous_output (inputs tx)"
  have "check_tx_values tx spent (ce_height env) = Inr fee" using adm n by (simp add: tx_admitted_def)
  note fee = check_tx_values_ok [OF this tx(2)]
  have ts: "tx_spends tx = ?ins" using n by (simp add: tx_spends_def)
  have sp: "money_supply (spend_coins ?ins f) = money_supply f - sum_list (map (\<lambda>c. out_value (coin_out c)) spent)"
    "coins_ok (spend_coins ?ins f)"
    using supply_spend [OF f tx(1)] admitted_values [OF adm n] by simp_all
  note cr = created_values [OF tx(2), of H h]
  note ad = supply_add [OF sp(2) cr(2)]
  show "coins_ok (tx_effect H h tx f)" "0 \<le> fee" using ad fee(2) by (simp_all add: tx_effect_def ts)
  show "money_supply (tx_effect H h tx f) \<le> money_supply f - fee"
    using ad cr(1) sp(1) fee(1) by (simp add: tx_effect_def ts)
qed

lemma coinbase_supply:
  assumes c: "check_transaction tx = Inr ()" and f: "coins_ok f" and n: "is_coinbase tx"
  shows "money_supply (tx_effect H h tx f) \<le> money_supply f + sum_list (map out_value (outputs tx))"
    "coins_ok (tx_effect H h tx f)"
proof -
  note tx = checked_tx [OF c]
  have e: "tx_effect H h tx f = add_coins (created H h tx) f" using n by (simp add: tx_effect_def tx_spends_def spend_coins_def)
  note cr = created_values [OF tx(2), of H h]
  show "money_supply (tx_effect H h tx f) \<le> money_supply f + sum_list (map out_value (outputs tx))"
    "coins_ok (tx_effect H h tx f)"
    using supply_add [OF f cr(2)] cr(1) unfolding e by simp_all
qed

lemma steps_supply:
  "block_steps H vc ctx env f itxs acc acc' \<Longrightarrow> coins_ok f \<Longrightarrow> money_range (ca_fees acc) \<Longrightarrow>
   \<forall>itx \<in> set itxs. check_transaction (snd itx) = Inr () \<and> \<not> is_coinbase (snd itx) \<Longrightarrow>
   money_supply (block_effect H (ce_height env) (map snd itxs) f) \<le> money_supply f - (ca_fees acc' - ca_fees acc) \<and>
   coins_ok (block_effect H (ce_height env) (map snd itxs) f) \<and> money_range (ca_fees acc')"
proof (induction itxs arbitrary: f acc)
  case (Cons itx rest)
  let ?f1 = "tx_effect H (ce_height env) (snd itx) f"
  from Cons.prems(1) obtain acc1 where a: "tx_step H vc ctx env f itx acc acc1"
    "block_steps H vc ctx env ?f1 rest acc1 acc'" by auto
  from a(1) obtain spent fee where adm: "tx_admitted H ctx env f (snd itx) spent fee"
    and acc1: "acc1 = step_acc H vc ctx env f itx spent fee acc" and mr: "money_range (ca_fees acc1)"
    using Cons.prems(4) by (auto simp: tx_step_def)
  note t = tx_supply(1,2) [OF adm _ Cons.prems(2), where h = "ce_height env"]
  have "ca_fees acc1 = ca_fees acc + fee" using acc1 by (simp add: step_acc_def)
  then show ?case using Cons.IH [OF a(2) _ mr] t Cons.prems(4) by simp
qed simp

section \<open>The supply across a block\<close>

lemma block_subsidy_div:
  "block_subsidy h p = (let k = (if subsidy_halving_interval p = 0 then 0 else unat h div unat (subsidy_halving_interval p))
     in if k \<ge> 64 then 0 else 5000000000 div 2 ^ k)"
  by (simp add: block_subsidy_def Let_def word_le_nat_alt unat_div drop_bit_eq_div)

lemma block_subsidy_bounds: "0 \<le> block_subsidy h p" "block_subsidy h p \<le> 5000000000"
proof -
  have "(0::int) \<le> 5000000000 div 2 ^ k" for k by (simp add: pos_imp_zdiv_nonneg_iff)
  then show "0 \<le> block_subsidy h p" by (simp add: block_subsidy_div Let_def)
  have "(5000000000::int) div 2 ^ k \<le> 5000000000" for k
    using zdiv_mono2 [of 5000000000 1 "2 ^ k"] by simp
  then show "block_subsidy h p \<le> 5000000000" by (simp add: block_subsidy_div Let_def)
qed

lemma checked_block:
  assumes "check_block H S b p = Inr ()"
  obtains cb rest where "transactions b = cb # rest" "is_coinbase cb" "\<forall>tx \<in> set rest. \<not> is_coinbase tx"
    "\<forall>tx \<in> set (transactions b). check_transaction tx = Inr ()"
proof (cases "transactions b")
  case Nil
  then show ?thesis using assms by (auto simp: check_block_def Let_def split: if_splits prod.splits)
next
  case (Cons cb rest)
  have "check_transactions (transactions b) = Inr ()" "is_coinbase cb" "\<not> list_ex is_coinbase rest"
    using assms Cons
    by (auto simp: check_block_def Let_def res_bind_def split: if_splits prod.splits sum.splits)
  then show ?thesis using that Cons checked_txs by (metis list_ex_iff)
qed

lemma checked_block_fit: "check_block H S b p = Inr () \<Longrightarrow> \<forall>tx \<in> set (transactions b). outputs_fit tx"
  by (erule checked_block) (auto dest: checked_tx(4))

lemma connected_supply:
  assumes c: "connected H S vc b ctx f env acc" and cb: "check_block H S b p = Inr ()" and f: "coins_ok f"
  shows "money_supply (block_effect H (ce_height env) (transactions b) f) \<le> money_supply f + block_subsidy (ce_height env) (cx_params ctx)"
    "coins_ok (block_effect H (ce_height env) (transactions b) f)"
proof -
  obtain tx rest where b: "transactions b = tx # rest" "is_coinbase tx" "\<forall>tx \<in> set rest. \<not> is_coinbase tx"
    "\<forall>tx \<in> set (transactions b). check_transaction tx = Inr ()" using cb by (rule checked_block)
  let ?h = "ce_height env" and ?out = "sum_list (map out_value (outputs tx))"
  let ?f1 = "tx_effect H ?h tx f"
  have tx: "check_transaction tx = Inr ()" using b by simp
  note t = checked_tx [OF tx] and s1 = coinbase_supply [OF tx f b(2), of H ?h]
  from c obtain pending where steps: "block_steps H vc ctx env f (enumerate 0 (transactions b)) acc_new acc"
    and fin: "connect_finish H S ctx env b acc = Inr pending" by (auto simp: connected_def)
  have "enumerate 0 (transactions b) = (0, tx) # enumerate 1 rest" using b(1) by simp
  then obtain acc1 where st: "tx_step H vc ctx env f (0, tx) acc_new acc1"
    "block_steps H vc ctx env ?f1 (enumerate 1 rest) acc1 acc" using steps by auto
  have z: "ca_fees acc1 = 0" using st(1) b(2) by (auto simp: tx_step_def tx_admitted_def step_acc_def acc_new_def)
  have rest: "\<forall>itx \<in> set (enumerate 1 rest). check_transaction (snd itx) = Inr () \<and> \<not> is_coinbase (snd itx)"
    using b by (auto simp: in_set_enumerate_eq)
  have sup: "money_supply (block_effect H ?h rest ?f1) \<le> money_supply ?f1 - ca_fees acc"
    "coins_ok (block_effect H ?h rest ?f1)" "money_range (ca_fees acc)"
    using steps_supply [OF st(2) s1(2) _ rest] z by (simp_all add: money_range_def MAX_MONEY_def)
  then show "coins_ok (block_effect H ?h (transactions b) f)" using b(1) by simp
  have out: "0 \<le> ?out" "?out \<le> MAX_MONEY" using t(2,3) by (auto intro!: sum_list_nonneg)
  then have "wrap_i64 ?out = ?out" by (intro wrap_i64_id) (simp add: in_i64_def i64_min_def i64_max_def MAX_MONEY_def)
  moreover have "reward_of ctx env acc = ca_fees acc + block_subsidy ?h (cx_params ctx)"
    using sup(3) block_subsidy_bounds [of ?h "cx_params ctx"]
    by (simp add: reward_of_def saturate_i64_def clamp_i64_def money_range_def MAX_MONEY_def i64_min_def i64_max_def)
  ultimately have "?out \<le> ca_fees acc + block_subsidy ?h (cx_params ctx)"
    using connect_finish_cases(2) [OF fin] b(1) by simp
  then show "money_supply (block_effect H ?h (transactions b) f) \<le> money_supply f + block_subsidy ?h (cx_params ctx)"
    using sup(1) s1(1) b(1) by simp
qed

section \<open>All subsidies\<close>

lemma sum_by_interval:
  "0 < i \<Longrightarrow> (\<Sum>h < m * i. g (h div i)) = int i * (\<Sum>k < m. g k)"
  for g :: "nat \<Rightarrow> int"
proof (induction m)
  case (Suc m)
  have "{..<Suc m * i} = {..<m * i} \<union> {m * i..<Suc m * i}" by auto
  then have "(\<Sum>h < Suc m * i. g (h div i)) = (\<Sum>h < m * i. g (h div i)) + (\<Sum>h = m * i..<Suc m * i. g (h div i))"
    by (simp add: sum.union_disjoint ivl_disj_int)
  also have "(\<Sum>h = m * i..<Suc m * i. g (h div i)) = (\<Sum>h = m * i..<Suc m * i. g m)"
  proof (rule sum.cong [OF refl])
    fix h assume "h \<in> {m * i..<Suc m * i}"
    then have "h div i = m" using Suc.prems by (intro div_nat_eqI) (simp_all add: mult.commute)
    then show "g (h div i) = g m" by simp
  qed
  also have "\<dots> = int i * g m" by simp
  finally show ?case using Suc by (simp add: algebra_simps)
qed simp

definition halved :: "nat \<Rightarrow> int" where
  "halved k = (if k \<ge> 64 then 0 else 5000000000 div 2 ^ k)"

lemma halved_nonneg: "0 \<le> halved k"
  by (simp add: halved_def pos_imp_zdiv_nonneg_iff)

lemma halved_total: "(\<Sum>k < 64. halved k) = 9999999989"
proof -
  have "(\<Sum>k < 64. halved k) = sum_list (map halved [0..<64])"
    by (simp add: sum_list_distinct_conv_sum_set atLeast0LessThan [symmetric] del: upt_rec_numeral)
  also have "\<dots> = 9999999989" unfolding halved_def by code_simp
  finally show ?thesis .
qed

lemma halved_sum: "0 < i \<Longrightarrow> (\<Sum>h < n. halved (h div i)) \<le> int i * 9999999989"
proof -
  assume i: "0 < i"
  have "(\<Sum>h < n. halved (h div i)) \<le> (\<Sum>h < max n (64 * i). halved (h div i))"
    by (rule sum_mono2) (auto simp: halved_nonneg)
  also have "\<dots> = (\<Sum>h < 64 * i. halved (h div i))"
  proof (rule sum.mono_neutral_right)
    show "\<forall>h \<in> {..<max n (64 * i)} - {..<64 * i}. halved (h div i) = 0"
      using i by (auto simp: halved_def not_less less_eq_div_iff_mult_less_eq)
  qed auto
  also have "\<dots> = int i * 9999999989" using sum_by_interval [OF i, of halved 64] halved_total by simp
  finally show ?thesis .
qed

lemma subsidies_bounded:
  assumes "subsidy_halving_interval p = 210000" "n < 2 ^ 32"
  shows "(\<Sum>h = 1..n. block_subsidy (word_of_nat h) p) \<le> MAX_MONEY"
proof -
  have s: "block_subsidy (word_of_nat h) p = halved (h div 210000)" if "h \<le> n" for h
  proof -
    have "unat (word_of_nat h :: u32) = h" using that assms(2) by (simp add: unat_of_nat take_bit_eq_mod)
    then show ?thesis using assms(1) by (simp add: block_subsidy_div Let_def halved_def)
  qed
  have "(\<Sum>h = 1..n. block_subsidy (word_of_nat h) p) = (\<Sum>h = 1..n. halved (h div 210000))"
    by (rule sum.cong) (simp_all add: s)
  also have "\<dots> \<le> (\<Sum>h < Suc n. halved (h div 210000))"
    by (rule sum_mono2) (auto simp: halved_nonneg)
  also have "\<dots> \<le> 210000 * 9999999989" using halved_sum [of 210000 "Suc n"] by simp
  finally show ?thesis by (simp add: MAX_MONEY_def)
qed

end
