(* ===== verification/Connect_Sample.thy ===== *)
theory Connect_Sample
  imports Connect_Supply Chain_Props Utxo_Props
begin

text \<open>
  Two sample blocks that connect, under the toy digest: one of a coinbase alone on no coins, and one of a coinbase
  and a transaction that spends the coin of a backend, whose script checks a pool of workers finishes in reverse.
\<close>

definition sample_context :: connect_context where
  "sample_context = \<lparr>cx_params = sample_params, cx_tree = sample_tree, cx_block_hash = sample_child_hash,
     cx_script_checks = True, cx_pool = Some (\<lambda>n. rev [0..<n]), cx_workers = 1, cx_prefetch_workers = 0\<rparr>"

definition sample_env :: connect_env where
  "sample_env = \<lparr>ce_height = 1, ce_parent_mtp = 1231006505,
     ce_flags = block_script_flags sample_params 1 sample_child_hash, ce_csv_active = False, ce_prefetched = Map.empty\<rparr>"

lemma sample_height: "ce_height sample_env = 1"
  by (simp add: sample_env_def)

lemma sample_context_fields:
  "cx_params sample_context = sample_params" "cx_tree sample_context = sample_tree"
  "cx_block_hash sample_context = sample_child_hash" "cx_pool sample_context = Some (\<lambda>n. rev [0..<n])"
  "cx_prefetch_workers sample_context = 0" "cx_script_checks sample_context"
  by (simp_all add: sample_context_def)

lemma sample_mtp: "tree_median_time_past sample_tree sample_genesis_hash = Some 1231006505"
proof -
  have "nodes sample_tree hash_zero = None"
    using sample_tree_nodes(5) sample_genesis_not_zero by (metis domIff empty_iff insert_iff)
  then have "ancestor_times sample_tree \<lparr>node_header = MAINNET_GENESIS, node_height = 0, chainwork = work_from_compact 486604799, n_tx = 1, n_chain_tx = 1,
             skip_link = None\<rparr> = [1231006505]"
    by (simp add: ancestor_times_def MEDIAN_TIME_SPAN_def numeral_eq_Suc) (simp add: MAINNET_GENESIS_def)
  moreover have "rules_median_time_past [1231006505] = 1231006505" by code_simp
  ultimately show ?thesis by (simp add: tree_median_time_past_def sample_tree_nodes sample_genesis_tree)
qed

lemma sample_bip30: "enforce_bip30 toy_hashes 1 sample_child_hash sample_context = Some True"
proof -
  have "get_ancestor sample_tree sample_genesis_hash 227931 = Some (nodes sample_tree sample_genesis_hash)"
    by (simp add: get_ancestor_def get_ancestor_loop.simps sample_tree_nodes sample_genesis_tree)
  moreover have "bip34_hash sample_params \<noteq> Some sample_genesis_hash"
   by (simp add: sample_params_def mainnet_params_def sample_genesis_hash_def MAINNET_BIP34_HASH_def numeral_eq_Suc)
  ultimately show ?thesis
    by (auto simp: enforce_bip30_def sample_context_fields sample_tree_nodes sample_genesis_tree BIP34_IMPLIES_BIP30_LIMIT_def is_bip30_repeat_def
      BIP30_REPEAT_BLOCKS_def sample_params_sel node_hash_def sample_hashes split: option.split)
qed

lemma sample_prepare:
  assumes "\<forall>op. utxo_have s op \<longrightarrow> op \<notin> set (concat (map (\<lambda>tx. map (output_point toy_hashes tx) [0..<length (outputs tx)]) (transactions b)))"
  shows "connect_prepare cc toy_hashes b sample_context s = Some (Inr sample_env)"
proof -
  have "bip30_scan toy_hashes s (transactions b) = None"
    unfolding bip30_scan_def find_None_iff using assms by auto
  moreover have "\<not> csv_height sample_params \<le> 1" by (simp add: sample_params_def mainnet_params_def word_le_nat_alt)
  ultimately show ?thesis
    by (simp add: connect_prepare_def connect_env_of_def sample_context_fields sample_tree_nodes sample_mtp sample_bip30 sample_env_def)
      (simp add: sample_genesis_tree)
qed

lemma sample_subsidy: "block_subsidy 1 sample_params = 5000000000"
  by (simp add: block_subsidy_div sample_params_def mainnet_params_def Let_def)

lemma sample_coinbase_sigops: "tx_sigop_cost (sample_coinbase 0x51 v) [] flags = 0"
proof -
  have "sig_ops [0x51, 1] False = 0" "sig_ops [] False = 0" by code_simp+
  then show ?thesis by (simp add: tx_sigop_cost_def coinbase_is) (simp add: sample_coinbase_def)
qed

lemma spendable_nil: "\<not> is_unspendable []" "\<not> is_unspendable [0x51]" "\<not> is_unspendable [0x52]"
  by code_simp+

lemma sample_connect_coinbase:
  assumes "utxo_get cc s (output_point toy_hashes (sample_coinbase 0x51 v) 0) = Some (None, s1)"
    "utxo_put cc toy_hashes s1 (output_point toy_hashes (sample_coinbase 0x51 v) 0)
      (Some \<lparr>coin_out = \<lparr>out_value = v, script_pubkey = []\<rparr>, coin_height = 1, coin_coinbase = True\<rparr>) = Some s2"
  shows "\<exists>acc'. connect_tx cc toy_hashes vc ctx sample_env (i, sample_coinbase 0x51 v) acc_new s = Some (Inr (), acc', s2) \<and>
    ca_fees acc' = 0 \<and> ca_sigops acc' = 0 \<and> ca_jobs acc' = []"
proof -
  have o: "outputs (sample_coinbase 0x51 v) = [\<lparr>out_value = v, script_pubkey = []\<rparr>]" by (simp add: sample_coinbase_def)
  show ?thesis
  by (simp add: connect_tx_def check_tx_def apply_tx_def spend_inputs_def add_tx_outputs_def coinbase_is sample_coinbase_sigops
      queue_tx_def o spendable_nil assms sample_env_def acc_new_def MAX_BLOCK_SIGOPS_COST_def)
qed

definition sample_spend :: transaction where
  "sample_spend = \<lparr>tx_version = 1,
     inputs = [\<lparr>previous_output = sample_op 1, script_sig = [], sequence = 0, witness = []\<rparr>],
     outputs = [\<lparr>out_value = 4, script_pubkey = [0x52]\<rparr>], lock_time = 0\<rparr>"

definition spend_block :: block where
  "spend_block = \<lparr>blk_header = sample_child, transactions = [sample_coinbase 0x51 5000000001, sample_spend]\<rparr>"

lemma sample_flags: "ce_flags sample_env = 0x20801"
proof -
  have "find (\<lambda>(h, _). h = sample_child_hash) MAINNET_SCRIPT_FLAG_EXCEPTIONS = None" by code_simp
  then have "find (\<lambda>(h, _). h = sample_child_hash) (script_flag_exceptions sample_params) = None"
    by (simp add: sample_params_def mainnet_params_def)
  moreover have "\<not> csv_height sample_params \<le> 1" "\<not> segwit_height sample_params \<le> 1"
    by (simp_all add: sample_params_def mainnet_params_def word_le_nat_alt)
  moreover have "flag_union (flag_union FLAG_P2SH FLAG_WITNESS) FLAG_TAPROOT = 0x20801" by code_simp
  ultimately show ?thesis
    by (simp add: sample_env_def block_script_flags_def sample_params_sel word_le_nat_alt)
qed

lemma sample_spend_script: "check_input_scripts toy_hashes toy_secp sample_spend [coin_out sample_coin] (ce_flags sample_env) = Inr ()"
  unfolding sample_flags by code_simp
lemma sample_spend_sigops: "tx_sigop_cost sample_spend [sample_coin] (ce_flags sample_env) = 0"
  unfolding sample_flags by code_simp
lemma sample_spend_check: "check_transaction sample_spend = Inr ()"
proof -
  have v: "tx_valid sample_spend"
    by (simp add: sample_spend_def tx_valid_def txin_valid_def txout_valid_def witness_valid_def
        Encode.fits_def in_i64_def i64_min_def i64_max_def sample_op_def)
  moreover have "tx_rules sample_spend"
    by (simp add: tx_rules_def sample_spend_def write_without_witness_def write_vec_def
        write_txin_no_witness_def write_txout_def length_write_var_bytes size_simps compact_size_len_def
        len_u64_def WITNESS_SCALE_FACTOR_def MAX_BLOCK_WEIGHT_def MAX_MONEY_def is_coinbase_def is_null_def sample_op_def hash_is_zero_def)
  ultimately show ?thesis using check_transaction_rules [OF v] by (auto simp: is_ok_iff)
qed

lemma sample_spend_values: "check_tx_values sample_spend [sample_coin] 1 = Inr 1"
  by code_simp
lemma sample_spend_txid: "txid toy_hashes sample_spend = [1, 0, 0, 0, 1] @ replicate 27 1"
  by code_simp

lemma spend_unchecked: "\<not> is_coinbase sample_spend" "inputs sample_spend = [\<lparr>previous_output = sample_op 1, script_sig = [], sequence = 0, witness = []\<rparr>]"
  "outputs sample_spend = [\<lparr>out_value = 4, script_pubkey = [0x52]\<rparr>]"
  by (simp_all add: is_coinbase_def is_null_def hash_is_zero_def sample_spend_def sample_op_def)

definition coinbase_op :: out_point where "coinbase_op = output_point toy_hashes (sample_coinbase 0x51 0) 0"
definition spend_op :: out_point where "spend_op = output_point toy_hashes sample_spend 0"

lemma sample_points:
  "output_point toy_hashes (sample_coinbase 0x51 v) 0 = coinbase_op" "output_point toy_hashes sample_spend 0 = spend_op"
  "coinbase_op \<noteq> sample_op 1" "spend_op \<noteq> sample_op 1" "spend_op \<noteq> coinbase_op" "coinbase_op \<noteq> spend_op"
  "sample_op 1 \<noteq> coinbase_op" "sample_op 1 \<noteq> spend_op"
  by (simp_all add: coinbase_op_def spend_op_def output_point_def coinbase_txid sample_spend_txid sample_op_def numeral_eq_Suc)

lemma sample_spend_connects:
  "\<exists>undo s'. connect_block False toy_hashes toy_secp verified_empty spend_block sample_context (UtxoSet sample_layer None) =
     Some (Inr undo, s')"
proof -
  let ?s = "UtxoSet sample_layer None" and ?H = toy_hashes
  have L: "u_map sample_layer = Map.empty" "u_flushing sample_layer = None" "u_runs sample_layer = []" "u_flat sample_layer = None"
    "u_backend sample_layer = Some sample_backend" "u_swift sample_layer = None" "u_snapshot sample_layer = None"
    "be_coins sample_backend = [sample_op 1 \<mapsto> sample_coin]" "u_clean sample_layer = clean_empty"
    by (simp_all add: sample_layer_def attach_backend_def empty_layer_def sample_backend_def)
  have free: "\<forall>op. utxo_have ?s op \<longrightarrow> op \<notin> set (concat (map (\<lambda>tx. map (output_point ?H tx) [0..<length (outputs tx)]) (transactions spend_block)))"
    using sample_points
    by (simp add: L in_flight_def backend_has_def snapshot_has_def spend_block_def spend_unchecked) (auto simp: sample_coinbase_def)
  have prep: "connect_prepare False ?H spend_block sample_context ?s = Some (Inr sample_env)"
    by (rule sample_prepare [OF free])
  obtain s2 where put: "utxo_put False ?H ?s coinbase_op (Some \<lparr>coin_out = \<lparr>out_value = 5000000001, script_pubkey = []\<rparr>, coin_height = 1, coin_coinbase = True\<rparr>) = Some s2"
    and s2: "parent s2 = None" "u_map (layer s2) (sample_op 1) = None" "u_map (layer s2) spend_op = None" "u_flushing (layer s2) = None"
    "u_runs (layer s2) = []" "u_flat (layer s2) = None" "u_backend (layer s2) = Some sample_backend" "u_swift (layer s2) = None"
    "clean_take (u_clean (layer s2)) (sample_op 1) = (None, u_clean (layer s2))"
    using sample_points by (simp add: utxo_put_def put_raw_def L clean_take_def clean_invalidate_def clean_empty_def)
  have get: "utxo_get False ?s coinbase_op = Some (None, ?s)"
    using sample_points by (simp add: utxo_get_def L in_flight_def committed_get_def backend_get_def)
  obtain acc1 where cb: "connect_tx False ?H verified_empty sample_context sample_env (0, sample_coinbase 0x51 5000000001) acc_new ?s =
      Some (Inr (), acc1, s2)" "ca_fees acc1 = 0" "ca_sigops acc1 = 0" "ca_jobs acc1 = []"
    using sample_connect_coinbase [of False ?s 5000000001 ?s s2 verified_empty sample_context 0] get put sample_points(1) by auto
  have chk: "check_tx False ?H sample_context sample_env sample_spend acc1 s2 = Some (Inr ([sample_coin], acc1\<lparr>ca_fees := 1\<rparr>), s2)"
    using s2 by (cases s2) (simp add: check_tx_def spend_unchecked check_tx_inputs_using_def in_flight_def committed_get_def
      backend_get_def L sample_env_def sample_spend_values admit_tx_def cb in_i64_def checked_add_i64_def i64_min_def i64_max_def money_range_def MAX_MONEY_def)
  obtain s3 where sp: "utxo_spend False ?H s2 (sample_op 1) = Some (Some sample_coin, s3)"
    and s3: "parent s3 = None" "u_map (layer s3) spend_op = None" "u_flushing (layer s3) = None"
    "u_runs (layer s3) = []" "u_flat (layer s3) = None" "u_backend (layer s3) = Some sample_backend" "u_swift (layer s3) = None"
    using s2 sample_points by (cases s2) (simp add: utxo_spend_def lower_get_def in_flight_def lower_committed_def L Let_def backend_read_visible_def swift_sub_def)
  obtain s4 where put2: "utxo_get False s3 spend_op = Some (None, s3)"
    "utxo_put False ?H s3 spend_op (Some \<lparr>coin_out = \<lparr>out_value = 4, script_pubkey = [0x52]\<rparr>, coin_height = 1, coin_coinbase = False\<rparr>) = Some s4"
    using s3 sample_points by (cases s3) (simp add: utxo_get_def L in_flight_def committed_get_def backend_get_def utxo_put_def put_raw_def)
  obtain acc2 where step: "connect_tx False ?H verified_empty sample_context sample_env (Suc 0, sample_spend) acc1 s2 = Some (Inr (), acc2, s4)"
      "ca_fees acc2 = 1" "ca_jobs acc2 = queue_tx ?H verified_empty sample_context sample_env sample_spend [sample_coin]"
    using sample_points by (simp add: connect_tx_def chk sample_spend_sigops cb apply_tx_def spend_inputs_def add_tx_outputs_def
      spend_unchecked sp put2 spendable_nil MAX_BLOCK_SIGOPS_COST_def sample_height)
  have jobs: "ca_jobs acc2 = [(sample_spend, [coin_out sample_coin])]"
    by (simp add: step queue_tx_def spend_unchecked sample_context_fields scripts_verified_def verified_empty_def)
  have txs: "connect_txs False ?H verified_empty sample_context sample_env (enumerate 0 (transactions spend_block)) acc_new ?s = Some (Inr (), acc2, s4)"
    by (simp add: spend_block_def cb step)
  have fin: "connect_finish ?H toy_secp sample_context sample_env spend_block acc2 = Inr (Some (ca_jobs acc2))"
    by (simp add: connect_finish_def spend_block_def sample_context_fields sample_coinbase_def step sample_env_def sample_subsidy wrap_i64_id
      saturate_i64_def clamp_i64_def in_i64_def i64_min_def i64_max_def)
  have wait: "block_check_wait ?H toy_secp (ca_jobs acc2) (ce_flags sample_env) [0] = Some (Inr ())"
    by (simp add: block_check_wait_def jobs check_finish_def sample_spend_script)
  show ?thesis
    using wait by (simp add: connect_block_def connect_block_inner_def prep txs fin sample_context_fields receipt_of_def jobs)
qed

lemma sample_shape: "tree_shape toy_hashes (cx_tree sample_context)" and sample_pool: "pool_ok sample_context"
  using sample_ok by (simp_all add: tree_ok_def sample_context_fields pool_ok_def finishing_order_def)

lemma sample_block_fits:
  "\<forall>tx \<in> set (transactions spend_block). length (outputs tx) \<le> 2 ^ 32"
  "\<forall>tx \<in> set (transactions spend_block). check_transaction tx = Inr ()"
proof -
  have "tx_rules (sample_coinbase 0x51 5000000001)" by (rule coinbase_rules) (simp_all add: MAX_MONEY_def)
  moreover have v: "tx_valid (sample_coinbase 0x51 5000000001)" by (rule coinbase_valid) (simp add: in_i64_def i64_min_def i64_max_def)
  ultimately have "check_transaction (sample_coinbase 0x51 5000000001) = Inr ()"
    using check_transaction_rules [OF v] by (auto simp: is_ok_iff)
  then show "\<forall>tx \<in> set (transactions spend_block). check_transaction tx = Inr ()"
    by (simp add: spend_block_def sample_spend_check)
  show "\<forall>tx \<in> set (transactions spend_block). length (outputs tx) \<le> 2 ^ 32"
    by (simp add: spend_block_def spend_unchecked) (simp add: sample_coinbase_def)
qed

lemma sample_coinbase_connects:
  "\<exists>undo s'. connect_block cc toy_hashes toy_secp verified_empty (coinbase_block 0x51 0) sample_context utxo_new = Some (Inr undo, s')"
proof -
  let ?s = utxo_new and ?H = toy_hashes and ?b = "coinbase_block 0x51 0"
  have L: "u_map empty_layer = Map.empty" "u_flushing empty_layer = None" "u_runs empty_layer = []" "u_flat empty_layer = None"
    "u_backend empty_layer = None" "u_swift empty_layer = None" "u_snapshot empty_layer = None"
    by (simp_all add: empty_layer_def)
  have b: "transactions ?b = [sample_coinbase 0x51 0]" by (simp add: coinbase_block_def)
  have prep: "connect_prepare cc ?H ?b sample_context ?s = Some (Inr sample_env)"
    by (rule sample_prepare) (simp add: utxo_new_def L in_flight_def backend_has_def snapshot_has_def)
  obtain s2 where put: "utxo_put cc ?H ?s coinbase_op (Some \<lparr>coin_out = \<lparr>out_value = 0, script_pubkey = []\<rparr>, coin_height = 1, coin_coinbase = True\<rparr>) = Some s2"
    by (simp add: utxo_put_def put_raw_def L utxo_new_def)
  have get: "utxo_get cc ?s coinbase_op = Some (None, ?s)"
    by (simp add: utxo_get_def L in_flight_def committed_get_def utxo_new_def)
  obtain acc1 where cb: "connect_tx cc ?H verified_empty sample_context sample_env (0, sample_coinbase 0x51 0) acc_new ?s =
      Some (Inr (), acc1, s2)" "ca_fees acc1 = 0" "ca_jobs acc1 = []"
    using sample_connect_coinbase [of cc ?s 0 ?s s2 verified_empty sample_context 0] get put sample_points(1) by auto
  have fin: "connect_finish ?H toy_secp sample_context sample_env ?b acc1 = Inr (Some [])"
    by (simp add: connect_finish_def b sample_context_fields cb sample_coinbase_def sample_env_def sample_subsidy wrap_i64_def
      saturate_i64_def clamp_i64_def i64_min_def i64_max_def)
  have wait: "block_check_wait ?H toy_secp [] flags [] = Some (Inr ())" for flags
    by (simp add: block_check_wait_def)
  show ?thesis
    by (simp add: connect_block_def connect_block_inner_def prep b cb fin sample_context_fields wait)
qed

end
