(* ===== verification/Connect_Props.thy ===== *)
theory Connect_Props
  imports Connect_Sample
begin

text \<open>
  The properties of connecting blocks: one block on a set of coins (what it does, what it has passed, how it
  is undone, how its script checks are scheduled), and the chain of connected and disconnected blocks, whose
  set is a function of the blocks left connected and whose supply is bounded by their subsidies.
\<close>

section \<open>What a connected block has passed\<close>

text \<open>The coins a transaction spends and the rules they meet when \<open>f\<close> holds the coins before it.\<close>

definition tx_sound :: "hash_fns \<Rightarrow> ('pk, 'sig, 'xpk, 'ssig) secp \<Rightarrow> verified_cache \<Rightarrow> connect_context \<Rightarrow> u32 \<Rightarrow> u32 \<Rightarrow> script_flags \<Rightarrow>
    coin_map \<Rightarrow> transaction \<Rightarrow> coin list \<Rightarrow> bool" where
  "tx_sound H S vc ctx height parent_mtp flags f tx spent \<longleftrightarrow>
     map f (map previous_output (inputs tx)) = map Some spent \<and>
     sum_list (map out_value (outputs tx)) \<le> sum_list (map (\<lambda>c. out_value (coin_out c)) spent) \<and>
     (\<forall>c \<in> set spent. coin_coinbase c \<longrightarrow> COINBASE_MATURITY \<le> saturating_sub_u32 height (coin_height c)) \<and>
     (height \<ge> csv_height (cx_params ctx) \<longrightarrow>
        bip68_locks_satisfied H tx spent height parent_mtp (cx_tree ctx) (cx_block_hash ctx) = Some True) \<and>
     (cx_script_checks ctx \<longrightarrow> scripts_verified vc (wtxid H tx) flags \<or>
        check_input_scripts H S tx (map coin_out spent) flags = Inr ())"

lemma block_steps_nth:
  "block_steps H vc ctx env f itxs acc acc' \<Longrightarrow> i < length itxs \<Longrightarrow>
   \<exists>acc1 acc2. tx_step H vc ctx env (block_effect H (ce_height env) (map snd (take i itxs)) f) (itxs ! i) acc1 acc2 \<and>
     set (ca_jobs acc2) \<subseteq> set (ca_jobs acc')"
proof (induction itxs arbitrary: f acc i)
  case (Cons itx rest)
  have mono: "block_steps H vc ctx env f xs acc acc' \<Longrightarrow> set (ca_jobs acc) \<subseteq> set (ca_jobs acc')" for xs f acc
    by (induction xs arbitrary: f acc) (fastforce simp: tx_step_def step_acc_def)+
  from Cons.prems(1) obtain acc1 where a: "tx_step H vc ctx env f itx acc acc1"
    "block_steps H vc ctx env (tx_effect H (ce_height env) (snd itx) f) rest acc1 acc'" by auto
  show ?case
  proof (cases i)
    case 0
    then show ?thesis using a mono [OF a(2)] by auto
  next
    case (Suc j)
    then show ?thesis using Cons.IH [OF a(2), of j] Cons.prems(2) by simp
  qed
qed simp

lemma connected_sound:
  assumes c: "connected H S vc b ctx f env acc" and j: "run_jobs H S (ce_flags env) (ca_jobs acc) = Inr ()"
    and i: "i < length (transactions b)" "\<not> is_coinbase (transactions b ! i)"
    and v: "\<forall>out \<in> set (outputs (transactions b ! i)). 0 \<le> out_value out"
  shows "\<exists>spent. tx_sound H S vc ctx (ce_height env) (ce_parent_mtp env) (ce_flags env)
    (block_effect H (ce_height env) (take i (transactions b)) f) (transactions b ! i) spent"
proof -
  let ?tx = "transactions b ! i" and ?g = "block_effect H (ce_height env) (take i (transactions b)) f"
  have steps: "block_steps H vc ctx env f (enumerate 0 (transactions b)) acc_new acc" using c by (simp add: connected_def)
  have "map snd (take i (enumerate 0 (transactions b))) = take i (transactions b)" by (rule take_enumerate)
  with block_steps_nth [OF steps, of i] i(1) obtain acc1 acc2 where
    st: "tx_step H vc ctx env ?g (i, ?tx) acc1 acc2" and jobs: "set (ca_jobs acc2) \<subseteq> set (ca_jobs acc)"
    by (auto simp: nth_enumerate_eq)
  then obtain spent fee where adm: "tx_admitted H ctx env ?g ?tx spent fee"
    and acc2: "acc2 = step_acc H vc ctx env ?g (i, ?tx) spent fee acc1" by (auto simp: tx_step_def)
  have vals: "check_tx_values ?tx spent (ce_height env) = Inr fee" using adm i(2) by (simp add: tx_admitted_def)
  note fee = check_tx_values_ok [OF vals v]
  have csv: "ce_csv_active env \<longleftrightarrow> ce_height env \<ge> csv_height (cx_params ctx)"
    using c by (auto simp: connected_def prepared_def)
  have "scripts_verified vc (wtxid H ?tx) (ce_flags env) \<or> check_input_scripts H S ?tx (map coin_out spent) (ce_flags env) = Inr ()"
    if "cx_script_checks ctx"
  proof (cases "scripts_verified vc (wtxid H ?tx) (ce_flags env)")
    case False
    then have "(?tx, map coin_out spent) \<in> set (ca_jobs acc)"
      using acc2 jobs that i(2) by (auto simp: step_acc_def queue_tx_def)
    then show ?thesis using j by (auto simp: run_jobs_iff job_ok_def)
  qed simp
  then show ?thesis
    using adm fee csv i(2) by (auto simp: tx_sound_def tx_admitted_def tx_spends_def)
qed

section \<open>Scheduling of the script checks\<close>

text \<open>The context with its checks run inline on \<open>n\<close> threads.\<close>

definition inline :: "connect_context \<Rightarrow> nat \<Rightarrow> connect_context" where
  "inline ctx n = ctx\<lparr>cx_pool := None, cx_workers := n\<rparr>"

lemma inline_fields:
  "cx_params (inline ctx n) = cx_params ctx" "cx_tree (inline ctx n) = cx_tree ctx"
  "cx_block_hash (inline ctx n) = cx_block_hash ctx" "cx_script_checks (inline ctx n) = cx_script_checks ctx"
  "cx_prefetch_workers (inline ctx n) = cx_prefetch_workers ctx" "cx_pool (inline ctx n) = None"
  "cx_workers (inline ctx n) = n"
  by (simp_all add: inline_def)

lemma inline_prepare: "connect_prepare cc H b (inline ctx n) s = connect_prepare cc H b ctx s"
  by (simp only: connect_prepare_def connect_env_of_def enforce_bip30_def inline_fields)

lemma inline_tx: "connect_tx cc H vc (inline ctx n) = connect_tx cc H vc ctx"
  by (intro ext) (simp only: connect_tx_def check_tx_def admit_tx_def queue_tx_def inline_fields)

lemma inline_txs: "connect_txs cc H vc (inline ctx n) env itxs acc s = connect_txs cc H vc ctx env itxs acc s"
proof (induction itxs arbitrary: acc s)
  case (Cons itx rest)
  show ?case unfolding connect_txs.simps inline_tx Cons.IH ..
qed simp

lemma inline_receipt: "receipt_of H (inline ctx n) env b acc = receipt_of H ctx env b acc"
  by (simp only: receipt_of_def inline_fields)

lemma inline_finish:
  assumes "cx_pool ctx \<noteq> None"
  shows "connect_finish H S (inline ctx n) env b acc =
    res_bind (connect_finish H S ctx env b acc) (\<lambda>_. case run_jobs H S (ce_flags env) (ca_jobs acc) of
      Inl e \<Rightarrow> Inl (ScriptVerify e) | Inr _ \<Rightarrow> Inr None)"
  using assms
  by (auto simp: connect_finish_def inline_fields run_script_checks_sequential Let_def split: list.split)


lemma inline_same_or_scripts:
  assumes pool: "cx_pool ctx = Some order" "finishing_order order"
    and r: "connect_block cc H S vc b ctx s = Some (r, s1)" and r': "connect_block cc H S vc b (inline ctx n) s = Some (r', s1')"
  shows "r' = r \<and> s1' = s1 \<or> (\<exists>e e'. r = Inl (ScriptVerify e) \<and> r' = Inl (ScriptVerify e'))"
proof (cases "connect_prepare cc H b ctx s")
  case None
  then show ?thesis using r by (simp add: connect_block_def connect_block_inner_def)
next
  case p: (Some p)
  show ?thesis
  proof (cases p)
    case (Inl e)
    then show ?thesis using r r' p by (simp add: connect_block_def connect_block_inner_def inline_prepare)
  next
    case env: (Inr env)
    obtain r0 acc s0 where txs: "connect_txs cc H vc ctx env (enumerate 0 (transactions b)) acc_new s = Some (r0, acc, s0)"
      using r p env by (auto simp: connect_block_def connect_block_inner_def bind_eq_Some_conv)
    show ?thesis
    proof (cases "res_bind r0 (\<lambda>_. connect_finish H S ctx env b acc)")
      case (Inl e)
      then have "res_bind r0 (\<lambda>_. connect_finish H S (inline ctx n) env b acc) = Inl e"
        using pool(1) by (cases r0) (simp_all add: inline_finish)
      then show ?thesis
        using r r' p env txs Inl by (simp add: connect_block_def connect_block_inner_def inline_prepare inline_txs bind_eq_Some_conv)
    next
      case (Inr pending)
      then have fin: "connect_finish H S ctx env b acc = Inr pending" and r0: "r0 = Inr ()" by (cases r0; simp)+
      have pend: "pending = Some (ca_jobs acc)" using connect_finish_cases(3) [OF fin] pool(1) by simp
      from block_check_wait_ok [OF pool(2), of H S "ca_jobs acc" "ce_flags env"] obtain v where
        v: "block_check_wait H S (ca_jobs acc) (ce_flags env) (order (length (ca_jobs acc))) = Some v"
          "v = Inr () \<longleftrightarrow> run_jobs H S (ce_flags env) (ca_jobs acc) = Inr ()" by blast
      have flags: "br_flags (receipt_of H ctx env b acc) = ce_flags env" by (simp add: receipt_of_def Let_def)
      have fin': "connect_finish H S (inline ctx n) env b acc = (case run_jobs H S (ce_flags env) (ca_jobs acc) of
          Inl e \<Rightarrow> Inl (ScriptVerify e) | Inr _ \<Rightarrow> Inr None)"
        using pool(1) fin by (simp add: inline_finish)
      show ?thesis
      proof (cases v)
        case u: (Inr u)
        then show ?thesis
          using r r' p env txs fin pend r0 v fin' flags pool(1)
          by (simp add: connect_block_def connect_block_inner_def inline_prepare inline_txs inline_fields)
      next
        case e: (Inl e)
        then obtain e' where "run_jobs H S (ce_flags env) (ca_jobs acc) = Inl e'"
          using v(2) unit_sum_cases [of "run_jobs H S (ce_flags env) (ca_jobs acc)"] by auto
        then show ?thesis
          using r r' p env txs fin pend r0 v(1) e fin' flags pool(1)
          by (auto simp: connect_block_def connect_block_inner_def inline_prepare inline_txs inline_fields bind_eq_Some_conv)
      qed
    qed
  qed
qed

text \<open>The result of connecting, in plain terms.\<close>

lemma connect_returns:
  assumes "utxo_reach cc H s (f # fs)" "tree_shape H (cx_tree ctx)" "pool_ok ctx"
    and "\<forall>tx \<in> set (transactions b). outputs_fit tx"
  obtains r s' where "connect_block cc H S vc b ctx s = Some (r, s')"
  using returns_ex [OF connect_block_ok [OF assms, of S vc]] by auto

lemma connect_failed:
  assumes "utxo_reach cc H s (f # fs)" "tree_shape H (cx_tree ctx)" "pool_ok ctx"
    and "\<forall>tx \<in> set (transactions b). outputs_fit tx" and r: "connect_block cc H S vc b ctx s = Some (Inl e, s')"
  shows "e \<noteq> InternalError OVERWROTE \<Longrightarrow> utxo_reach cc H s' (f # fs)"
    "e = InternalError OVERWROTE \<Longrightarrow> \<exists>env. prepared H b ctx f env \<and> block_overwrites H b env f"
  using returns_eqD [OF connect_block_ok [OF assms(1-4)] r] by (simp_all split: if_splits)

lemma connect_succeeded:
  assumes "utxo_reach cc H s (f # fs)" "tree_shape H (cx_tree ctx)" "pool_ok ctx"
    and "\<forall>tx \<in> set (transactions b). outputs_fit tx" and r: "connect_block cc H S vc b ctx s = Some (Inr undo, s')"
  obtains env acc where "connected H S vc b ctx f env acc" "run_jobs H S (ce_flags env) (ca_jobs acc) = Inr ()"
    "undo = undos_of H (ce_height env) (transactions b) f"
    "utxo_reach cc H s' (block_effect H (ce_height env) (transactions b) f # fs)"
  using returns_eqD [OF connect_block_ok [OF assms(1-4)] r] by auto

section \<open>Claims on one block\<close>

text \<open>C9: Script checks can be scheduled in any way. Handing a block's script checks to a pool that finishes
  them in any order, and running them inline on any number of threads, give the same result and the same
  set; only when some script fails may the error reported differ, and then both leave the coins as before.\<close>

theorem script_scheduling:
  assumes "utxo_reach cc H s (f # fs)" "tree_shape H (cx_tree ctx)"
    and "\<forall>tx \<in> set (transactions b). length (outputs tx) \<le> 2 ^ 32"
    and "cx_pool ctx = Some order" "finishing_order order"
  shows "\<exists>r s1 r' s1'. connect_block cc H S vc b ctx s = Some (r, s1) \<and>
    connect_block cc H S vc b (ctx\<lparr>cx_pool := None, cx_workers := n\<rparr>) s = Some (r', s1') \<and>
    (if \<exists>e. r = Inl (ScriptVerify e)
     then (\<exists>e'. r' = Inl (ScriptVerify e')) \<and> utxo_reach cc H s1 (f # fs) \<and> utxo_reach cc H s1' (f # fs)
     else r' = r \<and> s1' = s1)"
proof -
  have fit: "\<forall>tx \<in> set (transactions b). outputs_fit tx" using assms(3) by (simp add: outputs_fit_def)
  have pools: "pool_ok ctx" "pool_ok (inline ctx n)" using assms(4,5) by (simp_all add: pool_ok_def inline_def)
  have tree: "tree_shape H (cx_tree (inline ctx n))" using assms(2) by (simp add: inline_def)
  obtain r s1 where r: "connect_block cc H S vc b ctx s = Some (r, s1)"
    by (rule connect_returns [OF assms(1,2) pools(1) fit])
  obtain r' s1' where r': "connect_block cc H S vc b (inline ctx n) s = Some (r', s1')"
    by (rule connect_returns [OF assms(1) tree pools(2) fit])
  have "utxo_reach cc H s1 (f # fs) \<and> utxo_reach cc H s1' (f # fs)"
    if "r = Inl (ScriptVerify e)" "r' = Inl (ScriptVerify e')" for e e'
    using connect_failed(1) [OF assms(1,2) pools(1) fit r [unfolded that(1)]]
      connect_failed(1) [OF assms(1) tree pools(2) fit r' [unfolded that(2)]] by simp
  with inline_same_or_scripts [OF assms(4,5) r r'] r r' show ?thesis unfolding inline_def by auto
qed

text \<open>Witness of C9: the sample block, checked by the pool and inline on two threads.\<close>

theorem script_scheduling_witness:
  "\<exists>undo s1. connect_block False toy_hashes toy_secp verified_empty spend_block sample_context (UtxoSet sample_layer None) =
     Some (Inr undo, s1) \<and>
   connect_block False toy_hashes toy_secp verified_empty spend_block (sample_context\<lparr>cx_pool := None, cx_workers := 2\<rparr>)
     (UtxoSet sample_layer None) = Some (Inr undo, s1)"
proof -
  have "finishing_order (\<lambda>n. rev [0..<n])" by (simp add: finishing_order_def)
  from script_scheduling [OF coin_sample_reach sample_shape sample_block_fits(1) sample_context_fields(4) this,
      of False toy_secp verified_empty 2] obtain r s1 r' s1' where
    r: "connect_block False toy_hashes toy_secp verified_empty spend_block sample_context (UtxoSet sample_layer None) = Some (r, s1)"
    "connect_block False toy_hashes toy_secp verified_empty spend_block (sample_context\<lparr>cx_pool := None, cx_workers := 2\<rparr>)
       (UtxoSet sample_layer None) = Some (r', s1')"
    "\<nexists>e. r = Inl (ScriptVerify e) \<Longrightarrow> r' = r \<and> s1' = s1" by (metis (no_types, lifting))
  moreover obtain undo where "r = Inr undo" using r(1) sample_spend_connects by auto
  ultimately show ?thesis by auto
qed

text \<open>C7: Connecting a block is a transaction on the coins. It always returns. Either it succeeds, and the set
  then holds exactly the coins before it less those its transactions spend plus those they create, in order,
  with an undo record per transaction; or it reports an error and the set holds the coins it held before,
  unless that error is the one for a transaction that overwrites an unspent coin, which cannot be reported
  when the outputs of the block were scanned (BIP30) and its transactions have different identifiers.\<close>

theorem connect_is_transaction:
  assumes "utxo_reach cc H s (f # fs)" "tree_shape H (cx_tree ctx)" "pool_ok ctx"
    and "\<forall>tx \<in> set (transactions b). length (outputs tx) \<le> 2 ^ 32"
  shows "\<exists>r s'. connect_block cc H S vc b ctx s = Some (r, s') \<and>
    (case r of
       Inr undo \<Rightarrow> \<exists>node. nodes (cx_tree ctx) (cx_block_hash ctx) = Some node \<and>
         undo = undos_of H (node_height node) (transactions b) f \<and>
         utxo_reach cc H s' (block_effect H (node_height node) (transactions b) f # fs)
     | Inl e \<Rightarrow> if e = InternalError OVERWROTE
         then \<not> (distinct (map (txid H) (transactions b)) \<and>
           (\<forall>node. nodes (cx_tree ctx) (cx_block_hash ctx) = Some node \<longrightarrow>
             enforce_bip30 H (node_height node) (cx_block_hash ctx) ctx = Some True))
         else utxo_reach cc H s' (f # fs))"
proof -
  have fit: "\<forall>tx \<in> set (transactions b). outputs_fit tx" using assms(4) by (simp add: outputs_fit_def)
  obtain r s' where r: "connect_block cc H S vc b ctx s = Some (r, s')"
    by (rule connect_returns [OF assms(1-3) fit])
  show ?thesis
  proof (intro exI conjI)
    show "connect_block cc H S vc b ctx s = Some (r, s')" by (rule r)
    show "case r of
       Inr undo \<Rightarrow> \<exists>node. nodes (cx_tree ctx) (cx_block_hash ctx) = Some node \<and>
         undo = undos_of H (node_height node) (transactions b) f \<and>
         utxo_reach cc H s' (block_effect H (node_height node) (transactions b) f # fs)
     | Inl e \<Rightarrow> if e = InternalError OVERWROTE
         then \<not> (distinct (map (txid H) (transactions b)) \<and>
           (\<forall>node. nodes (cx_tree ctx) (cx_block_hash ctx) = Some node \<longrightarrow>
             enforce_bip30 H (node_height node) (cx_block_hash ctx) ctx = Some True))
         else utxo_reach cc H s' (f # fs)"
    proof (cases r)
      case (Inr undo)
      with r have "connect_block cc H S vc b ctx s = Some (Inr undo, s')" by simp
      from connect_succeeded [OF assms(1-3) fit this] obtain env acc where
        "connected H S vc b ctx f env acc" "undo = undos_of H (ce_height env) (transactions b) f"
        "utxo_reach cc H s' (block_effect H (ce_height env) (transactions b) f # fs)" .
      then show ?thesis using Inr by (auto simp: connected_def prepared_def)
    next
      case (Inl e)
      with r have failed: "connect_block cc H S vc b ctx s = Some (Inl e, s')" by simp
      show ?thesis
      proof (cases "e = InternalError OVERWROTE")
        case True
        from connect_failed(2) [OF assms(1-3) fit failed True] obtain env where e: "prepared H b ctx f env" "block_overwrites H b env f" by blast
        have "\<not> (distinct (map (txid H) (transactions b)) \<and>
           (\<forall>node. nodes (cx_tree ctx) (cx_block_hash ctx) = Some node \<longrightarrow>
             enforce_bip30 H (node_height node) (cx_block_hash ctx) ctx = Some True))"
          using e scanned_no_overwrite [where b = b and H = H and f = f and env = env] by (auto simp: prepared_def)
        then show ?thesis using Inl True by simp
      qed (use Inl connect_failed(1) [OF assms(1-3) fit failed] in simp)
    qed
  qed
qed

text \<open>Witness of C7: the sample block connects, with the records its map gives.\<close>

theorem connect_is_transaction_witness:
  "\<exists>undo s'. connect_block False toy_hashes toy_secp verified_empty spend_block sample_context (UtxoSet sample_layer None) =
     Some (Inr undo, s') \<and> undo = undos_of toy_hashes 1 (transactions spend_block) [sample_op 1 \<mapsto> sample_coin] \<and>
   utxo_reach False toy_hashes s' [block_effect toy_hashes 1 (transactions spend_block) [sample_op 1 \<mapsto> sample_coin]]"
  using connect_is_transaction [OF coin_sample_reach sample_shape sample_pool sample_block_fits(1), of False toy_secp verified_empty]
    sample_spend_connects by (auto simp: sample_context_fields sample_tree_nodes)

text \<open>C8: Disconnecting undoes connecting. After a block connected, and after anything that leaves the coins as
  they then are (reads, flushes to disk), disconnecting it with the undo record it returned succeeds and
  leaves exactly the coins there were before it.\<close>

theorem disconnect_undoes_connect:
  assumes "utxo_reach cc H s (f # fs)" "tree_shape H (cx_tree ctx)" "pool_ok ctx"
    and "\<forall>tx \<in> set (transactions b). length (outputs tx) \<le> 2 ^ 32"
    and "connect_block cc H S vc b ctx s = Some (Inr undo, s1)"
  shows "\<exists>g. utxo_reach cc H s1 (g # fs) \<and>
    (\<forall>s2. utxo_reach cc H s2 (g # fs) \<longrightarrow>
      (\<exists>s3. disconnect_block cc H b undo s2 = Some (Inr (), s3) \<and> utxo_reach cc H s3 (f # fs)))"
proof -
  have fit: "\<forall>tx \<in> set (transactions b). outputs_fit tx" using assms(4) by (simp add: outputs_fit_def)
  obtain env acc where c: "connected H S vc b ctx f env acc"
    "undo = undos_of H (ce_height env) (transactions b) f"
    "utxo_reach cc H s1 (block_effect H (ce_height env) (transactions b) f # fs)"
    by (rule connect_succeeded [OF assms(1-3) fit assms(5)])
  have "\<exists>s3. disconnect_block cc H b undo s2 = Some (Inr (), s3) \<and> utxo_reach cc H s3 (f # fs)"
    if "utxo_reach cc H s2 (block_effect H (ce_height env) (transactions b) f # fs)" for s2
    using returns_ex [OF disconnect_ok [OF that connected_spends [OF c(1)] fit]] c(2) by auto
  then show ?thesis using c(3) by blast
qed

text \<open>Witness of C8: the sample block is connected and disconnected.\<close>

theorem disconnect_undoes_connect_witness:
  "\<exists>undo s1 s3. connect_block False toy_hashes toy_secp verified_empty spend_block sample_context (UtxoSet sample_layer None) =
     Some (Inr undo, s1) \<and> disconnect_block False toy_hashes spend_block undo s1 = Some (Inr (), s3) \<and>
   utxo_reach False toy_hashes s3 [[sample_op 1 \<mapsto> sample_coin]]"
proof -
  from sample_spend_connects obtain undo s1 where
    c: "connect_block False toy_hashes toy_secp verified_empty spend_block sample_context (UtxoSet sample_layer None) = Some (Inr undo, s1)"
    by blast
  from disconnect_undoes_connect [OF coin_sample_reach sample_shape sample_pool sample_block_fits(1) c] c
  show ?thesis by blast
qed

text \<open>C6: A connected block spends soundly. Every transaction of it but the coinbase spends coins that were
  unspent at its turn, worth at least what it pays, none of them the output of a coinbase less than 100 blocks
  deep, with its relative lock times met once they are in force, and, where script checks are on, its scripts
  are in the cache of verified ones or verify against these coins under the flags of the block.\<close>

theorem connected_block_is_sound:
  assumes "utxo_reach cc H s (f # fs)" "tree_shape H (cx_tree ctx)" "pool_ok ctx"
    and "\<forall>tx \<in> set (transactions b). check_transaction tx = Inr ()"
    and "connect_block cc H S vc b ctx s = Some (Inr undo, s1)"
    and "i < length (transactions b)" "\<not> is_coinbase (transactions b ! i)"
  shows "\<exists>node parent_mtp spent. nodes (cx_tree ctx) (cx_block_hash ctx) = Some node \<and>
    tree_median_time_past (cx_tree ctx) (node_prev node) = Some parent_mtp \<and>
    tx_sound H S vc ctx (node_height node) parent_mtp
      (block_script_flags (cx_params ctx) (node_height node) (cx_block_hash ctx))
      (block_effect H (node_height node) (take i (transactions b)) f) (transactions b ! i) spent"
proof -
  have fit: "\<forall>tx \<in> set (transactions b). outputs_fit tx" using assms(4) checked_tx(4) by blast
  have vals: "\<forall>out \<in> set (outputs (transactions b ! i)). 0 \<le> out_value out"
    using assms(4,6) by (intro checked_tx(2)) simp
  obtain env acc where c: "connected H S vc b ctx f env acc" "run_jobs H S (ce_flags env) (ca_jobs acc) = Inr ()"
    by (rule connect_succeeded [OF assms(1-3) fit assms(5)])
  from connected_sound [OF c assms(6,7) vals] obtain spent where
    s: "tx_sound H S vc ctx (ce_height env) (ce_parent_mtp env) (ce_flags env)
      (block_effect H (ce_height env) (take i (transactions b)) f) (transactions b ! i) spent" by blast
  from c(1) obtain node where n: "nodes (cx_tree ctx) (cx_block_hash ctx) = Some node" "ce_height env = node_height node"
    "tree_median_time_past (cx_tree ctx) (node_prev node) = Some (ce_parent_mtp env)"
    "ce_flags env = block_script_flags (cx_params ctx) (node_height node) (cx_block_hash ctx)"
    by (auto simp: connected_def prepared_def)
  show ?thesis using n(1,3) s unfolding n(2,4) by blast
qed

text \<open>Witness of C6: the spend in the sample block.\<close>

theorem connected_block_is_sound_witness:
  "\<not> is_coinbase (transactions spend_block ! 1) \<and>
   (\<exists>parent_mtp flags spent. tx_sound toy_hashes toy_secp verified_empty sample_context 1 parent_mtp flags
      (block_effect toy_hashes 1 (take 1 (transactions spend_block)) [sample_op 1 \<mapsto> sample_coin])
      (transactions spend_block ! 1) spent)"
proof -
  from sample_spend_connects obtain undo s1 where
    c: "connect_block False toy_hashes toy_secp verified_empty spend_block sample_context (UtxoSet sample_layer None) = Some (Inr undo, s1)"
    by blast
  have i: "1 < length (transactions spend_block)" "\<not> is_coinbase (transactions spend_block ! 1)"
    by (simp_all add: spend_block_def spend_unchecked)
  from connected_block_is_sound [OF coin_sample_reach sample_shape sample_pool sample_block_fits(2) c i] i(2)
  show ?thesis by (auto simp: sample_context_fields sample_tree_nodes)
qed


section \<open>The chain of blocks\<close>

text \<open>The blocks a set has seen connected and not disconnected, latest first, with their undo records. A block is
  connected at the height after them when \<open>check_block\<close> accepts it; the latest one can be disconnected; a failed
  connect and anything that leaves the coins as they are keep the blocks.\<close>

definition connects_on :: "hash_fns \<Rightarrow> ('pk, 'sig, 'xpk, 'ssig) secp \<Rightarrow> params \<Rightarrow> connect_context \<Rightarrow> block \<Rightarrow> nat \<Rightarrow> bool" where
  "connects_on H S p ctx b n \<longleftrightarrow> cx_params ctx = p \<and> pool_ok ctx \<and> tree_shape H (cx_tree ctx) \<and>
     check_block H S b p = Inr () \<and>
     (\<exists>node. nodes (cx_tree ctx) (cx_block_hash ctx) = Some node \<and> node_height node = word_of_nat (Suc n))"

inductive chain_state :: "bool \<Rightarrow> hash_fns \<Rightarrow> ('pk, 'sig, 'xpk, 'ssig) secp \<Rightarrow> params \<Rightarrow> (block \<times> block_undo) list \<Rightarrow>
    utxo_set \<Rightarrow> bool" for cc H S p where
  start: "utxo_reach cc H s [Map.empty] \<Longrightarrow> chain_state cc H S p [] s"
| extend: "chain_state cc H S p hist s \<Longrightarrow> connects_on H S p ctx b (length hist) \<Longrightarrow>
    connect_block cc H S vc b ctx s = Some (Inr undo, s') \<Longrightarrow> chain_state cc H S p ((b, undo) # hist) s'"
| refuse: "chain_state cc H S p hist s \<Longrightarrow> connects_on H S p ctx b (length hist) \<Longrightarrow>
    connect_block cc H S vc b ctx s = Some (Inl e, s') \<Longrightarrow> e \<noteq> InternalError OVERWROTE \<Longrightarrow> chain_state cc H S p hist s'"
| retreat: "chain_state cc H S p ((b, undo) # hist) s \<Longrightarrow>
    disconnect_block cc H b undo s = Some (r, s') \<Longrightarrow> chain_state cc H S p hist s'"
| upkeep: "chain_state cc H S p hist s \<Longrightarrow> utxo_reach cc H s [f] \<Longrightarrow> utxo_reach cc H s' [f] \<Longrightarrow>
    chain_state cc H S p hist s'"

text \<open>The coins that follow from the blocks alone.\<close>

fun chain_coins :: "hash_fns \<Rightarrow> block list \<Rightarrow> coin_map" where
  "chain_coins H [] = Map.empty"
| "chain_coins H (b # bs) = block_effect H (word_of_nat (Suc (length bs))) (transactions b) (chain_coins H bs)"

fun chain_ok :: "hash_fns \<Rightarrow> params \<Rightarrow> (block \<times> block_undo) list \<Rightarrow> bool" where
  "chain_ok H p [] = True"
| "chain_ok H p ((b, undo) # hist) \<longleftrightarrow> chain_ok H p hist \<and>
     (let f = chain_coins H (map fst hist); h = word_of_nat (Suc (length hist)) in
      undo = undos_of H h (transactions b) f \<and> spends_present H h (transactions b) f \<and>
      (\<forall>tx \<in> set (transactions b). outputs_fit tx) \<and>
      coins_ok (block_effect H h (transactions b) f) \<and>
      money_supply (block_effect H h (transactions b) f) \<le> money_supply f + block_subsidy h p)"

lemma chain_ok_coins: "chain_ok H p hist \<Longrightarrow> coins_ok (chain_coins H (map fst hist))"
  by (cases hist) (auto simp: coins_ok_def Let_def)

lemma chain_ok_supply:
  "chain_ok H p hist \<Longrightarrow>
   money_supply (chain_coins H (map fst hist)) \<le> (\<Sum>h = 1..length hist. block_subsidy (word_of_nat h) p)"
proof (induction hist)
  case (Cons x hist)
  then show ?case by (cases x) (auto simp: Let_def)
qed (simp add: money_supply_def)

lemma reach_same_map: "utxo_reach cc H s [f] \<Longrightarrow> utxo_reach cc H s [g] \<Longrightarrow> f = g"
  using reach_ok(2) by metis

lemma chain_state_ok:
  "chain_state cc H S p hist s \<Longrightarrow> utxo_reach cc H s [chain_coins H (map fst hist)] \<and> chain_ok H p hist"
proof (induction rule: chain_state.induct)
  case (start s)
  then show ?case by simp
next
  case (extend hist s ctx b vc undo s')
  let ?f = "chain_coins H (map fst hist)" and ?h = "word_of_nat (Suc (length hist)) :: u32"
  from extend.IH have s: "utxo_reach cc H s [?f]" and ok: "chain_ok H p hist" by simp_all
  from extend.hyps(2) have ctx: "cx_params ctx = p" "pool_ok ctx" "tree_shape H (cx_tree ctx)" "check_block H S b p = Inr ()"
    and node: "\<exists>node. nodes (cx_tree ctx) (cx_block_hash ctx) = Some node \<and> node_height node = ?h"
    by (simp_all add: connects_on_def)
  note fit = checked_block_fit [OF ctx(4)]
  obtain env acc where c: "connected H S vc b ctx ?f env acc" "undo = undos_of H (ce_height env) (transactions b) ?f"
    "utxo_reach cc H s' [block_effect H (ce_height env) (transactions b) ?f]"
    by (rule connect_succeeded [OF s ctx(3,2) fit extend.hyps(3)])
  have h: "ce_height env = ?h" using c(1) node by (auto simp: connected_def prepared_def)
  note sup = connected_supply [OF c(1) ctx(4) chain_ok_coins [OF ok]]
  show ?case
    using c sup connected_spends [OF c(1)] fit ok ctx(1) unfolding h by (simp add: Let_def)
next
  case (refuse hist s ctx b vc e s')
  then show ?case
    using connect_failed(1) [OF _ _ _ _ refuse.hyps(3) refuse.hyps(4)] checked_block_fit
    by (metis connects_on_def)
next
  case (retreat b undo hist s r s')
  let ?f = "chain_coins H (map fst hist)" and ?h = "word_of_nat (Suc (length hist)) :: u32"
  from retreat.IH have s: "utxo_reach cc H s [block_effect H ?h (transactions b) ?f]"
    and ok: "chain_ok H p hist" "undo = undos_of H ?h (transactions b) ?f" "spends_present H ?h (transactions b) ?f"
      "\<forall>tx \<in> set (transactions b). outputs_fit tx"
    by (simp_all add: Let_def)
  from returns_eqD [OF disconnect_ok [OF s ok(3,4)], folded ok(2), OF retreat.hyps(2)] ok(1) show ?case by simp
next
  case (upkeep hist s f s')
  then show ?case using reach_same_map by metis
qed

lemma sample_chain:
  "\<exists>undo s. chain_state cc toy_hashes toy_secp sample_params [(coinbase_block 0x51 0, undo)] s"
proof -
  obtain undo s where c: "connect_block cc toy_hashes toy_secp verified_empty (coinbase_block 0x51 0) sample_context utxo_new =
      Some (Inr undo, s)" using sample_coinbase_connects by blast
  have "connects_on toy_hashes toy_secp sample_params sample_context (coinbase_block 0x51 0) (length ([] :: (block \<times> block_undo) list))"
    using sample_shape sample_pool coinbase_block_checks(2) [of 0 1 "0x51"]
    by (simp add: connects_on_def sample_context_fields sample_tree_nodes MAX_MONEY_def)
  from chain_state.extend [OF chain_state.start [OF utxo_reach.new] this c] show ?thesis by blast
qed

section \<open>Claims on the chain\<close>

text \<open>C4: The set is a function of the blocks. Whatever was connected, refused, disconnected, read and flushed on
  the way, the set holds exactly the coins that applying the blocks now connected, in order, to no coins
  gives; and the latest block can always be disconnected, giving those of the blocks below it.\<close>

theorem set_follows_blocks:
  assumes "chain_state cc H S p hist s"
  shows "utxo_reach cc H s [chain_coins H (map fst hist)] \<and>
    (case hist of [] \<Rightarrow> True
     | (b, undo) # older \<Rightarrow> \<exists>s'. disconnect_block cc H b undo s = Some (Inr (), s') \<and>
         chain_state cc H S p older s' \<and> utxo_reach cc H s' [chain_coins H (map fst older)])"
proof (cases hist)
  case Nil
  then show ?thesis using chain_state_ok [OF assms] by simp
next
  case (Cons x hist')
  obtain b undo where x: "x = (b, undo)" by (cases x)
  let ?f = "chain_coins H (map fst hist')" and ?h = "word_of_nat (Suc (length hist')) :: u32"
  from chain_state_ok [OF assms] Cons x have s: "utxo_reach cc H s [block_effect H ?h (transactions b) ?f]"
    and ok: "undo = undos_of H ?h (transactions b) ?f" "spends_present H ?h (transactions b) ?f"
      "\<forall>tx \<in> set (transactions b). outputs_fit tx"
    by (simp_all add: Let_def)
  from returns_ex [OF disconnect_ok [OF s ok(2,3)], folded ok(1)] obtain s' where
    d: "disconnect_block cc H b undo s = Some (Inr (), s')" "utxo_reach cc H s' [?f]" by auto
  have "chain_state cc H S p hist' s'" using chain_state.retreat d(1) assms Cons x by metis
  then show ?thesis using d s Cons x by auto
qed

text \<open>Witness of C4: one block connected to no coins.\<close>

theorem set_follows_blocks_witness:
  "\<exists>undo s s'. chain_state True toy_hashes toy_secp sample_params [(coinbase_block 0x51 0, undo)] s \<and>
   utxo_reach True toy_hashes s [chain_coins toy_hashes [coinbase_block 0x51 0]] \<and>
   disconnect_block True toy_hashes (coinbase_block 0x51 0) undo s = Some (Inr (), s') \<and>
   utxo_reach True toy_hashes s' [Map.empty]"
proof -
  obtain undo s where c: "chain_state True toy_hashes toy_secp sample_params [(coinbase_block 0x51 0, undo)] s"
    using sample_chain by blast
  from set_follows_blocks [OF c] c show ?thesis by auto
qed

text \<open>C5: No inflation. On a chain whose subsidy halves every 210,000 blocks, the coins of the set are never
  worth more than the subsidies of the blocks connected, nor more than 21 million bitcoins, whatever the blocks
  pay in fees.\<close>

theorem no_inflation:
  assumes "chain_state cc H S p hist s" "utxo_reach cc H s [f]"
    and "subsidy_halving_interval p = 210000" "length hist < 2 ^ 32"
  shows "money_supply f \<le> (\<Sum>h = 1..length hist. block_subsidy (word_of_nat h) p) \<and>
    (\<Sum>h = 1..length hist. block_subsidy (word_of_nat h) p) \<le> MAX_MONEY"
proof -
  note ok = chain_state_ok [OF assms(1)]
  have "f = chain_coins H (map fst hist)" using reach_same_map ok assms(2) by blast
  then show ?thesis using chain_ok_supply ok subsidies_bounded [OF assms(3,4)] by simp
qed

text \<open>Witness of C5: one block connected to no coins.\<close>

theorem no_inflation_witness:
  "\<exists>undo s. chain_state True toy_hashes toy_secp sample_params [(coinbase_block 0x51 0, undo)] s \<and>
   money_supply (view s) \<le> (\<Sum>h = 1..1. block_subsidy (word_of_nat h) sample_params)"
proof -
  obtain undo s where c: "chain_state True toy_hashes toy_secp sample_params [(coinbase_block 0x51 0, undo)] s"
    using sample_chain by blast
  have "utxo_reach True toy_hashes s [view s]" using chain_state_ok [OF c] reach_ok(2) by metis
  moreover have "subsidy_halving_interval sample_params = 210000" by (simp add: sample_params_def mainnet_params_def)
  ultimately show ?thesis using no_inflation [OF c] c by fastforce
qed

end
