(* ===== verification/Spec2Isabelle.thy ===== *)
theory Spec2Isabelle
  imports Block Arith Sig_Encoding Find_Delete Softfork Interp_Bounds Multisig Spend Chain_Props Sighash_Props Check_Props Utxo_Props Connect_Props
begin

text \<open>
  A model of the consensus core of Avila Node, a Bitcoin full node written in Rust. All paths below
  are relative to \<open>src/crates/avila-consensus/src\<close>, the crate that decides which blocks and
  transactions are valid; the other crates (mempool, peer-to-peer protocol, RPC server, user
  interface) call it and are not modelled.

  \<^bold>\<open>How the parts interact.\<close> Bytes from the network are decoded into headers, transactions and
  blocks. A header goes into the header tree once its proof of work, its required difficulty bits,
  its timestamp and its version pass; the tree remembers which blocks failed and keeps the header of
  most accumulated work that has not failed as its tip. The scripts of a transaction's inputs are run
  against the outputs they spend by the interpreter, under the flags that the block's height and hash
  select. A block whose header is in the tree is connected: its transactions are applied to the UTXO set,
  each after its inputs, amounts, relative lock times and signature operations are checked, and its
  scripts are queued for a pool of workers or run inline. The undo records connecting returns let the
  block be disconnected again when another chain has more work.

  \<^bold>\<open>Data types and their translation.\<close> \<open>u8\<close>, \<open>u16\<close>, \<open>u32\<close>, \<open>u64\<close> and
  \<open>i32\<close> are words of that width, so that \<open>wrapping_\<close> operations are the word operations and
  \<open>checked_\<close> and \<open>saturating_\<close> ones test the overflow; \<open>i64\<close> is \<open>int\<close> with the
  range tests written out, \<open>usize\<close> is \<open>nat\<close>. A hash is its list of 32 bytes. A Rust
  \<open>Result\<close> is a sum with the error on the left, and \<open>res_bind\<close> of theory Prelude is the question
  mark operator. SHA-256, RIPEMD-160 and SHA-1 are third-party crates: the record \<open>hash_fns\<close> of
  theory Hashing holds them as parameters, and claims about commitments name the two different
  strings that collide. Signature verification is the record \<open>checker\<close> of theory Interp_Base, one field per method of the trait \<open>SignatureChecker\<close>. The iteration order of a
  \<open>HashMap\<close> is an explicit list argument. Loops whose end depends on the data they walk are
  \<open>partial_function (option)\<close>, where \<open>None\<close> stands for a loop that never ends, and the
  claims show they return; no fuel is used anywhere.

  \<^bold>\<open>Theories.\<close>
  \<^item> Prelude: word types, results, the error monad and the lemma collections the others share.
  \<^item> Encode (\<open>encode.rs\<close>): the decoder's cursor and every read, CompactSize, length-prefixed
    bytes. A locale of exact readers (a read accepts exactly the encodings of the values in its range)
    carries the round trips of all types built on it.
  \<^item> Hashing (\<open>hash.rs\<close>, \<open>hex.rs\<close>): double and tagged hashes, the incremental hasher,
    hexadecimal text.
  \<^item> Transaction, Block (\<open>transaction.rs\<close>, \<open>header.rs\<close>, \<open>block.rs\<close>): both
    serializations, sizes and weights, ids, the witness commitment. Decoding inverts encoding exactly.
  \<^item> Merkle (\<open>merkle.rs\<close>): the root with its mutation flag, the SIMD batching, BIP37 partial
    trees. Roots and proofs bind their leaves up to an explicit collision.
  \<^item> Arith (\<open>arith.rs\<close>): 256-bit numbers on four limbs, compact targets, work. Every
    operation is shown to compute its mathematical counterpart.
  \<^item> Script (\<open>script.rs\<close>): the instruction iterator, signature operation counts, templates,
    number and push encodings, verification flags.
  \<^item> Interp_Base, Script_Num, Sig_Encoding, Find_Delete, Condition_Stack, Interp_Eval, Interp_Run,
    Interp_Verify (\<open>interpreter.rs\<close>): the machine, one definition per opcode group, the loop of
    \<open>eval_script\<close>, taproot hashing, witness programs, \<open>verify_script\<close>. Softfork shows that
    clearing flags never refuses a spend, Interp_Bounds the resource limits, Multisig that
    OP_CHECKMULTISIG refines order-preserving matching, Spend what spends the standard outputs.
  \<^item> Params (\<open>params.rs\<close>): the four networks and the commitment to their parameters.
  \<^item> Pow (\<open>pow.rs\<close>, \<open>rules.rs\<close>): proof of work, required bits, timestamps.
  \<^item> Chain (\<open>chain.rs\<close>): the header tree's operations. Chain_Links has the facts on parent and
    skip links, Chain_Marks those on descendants and failure marks, Chain_Invariant the invariant and
    that every operation keeps it, Chain_Props the properties of every reachable tree (an inductive
    relation over the operations).
  \<^item> Sighash, Sighash_Props (\<open>sigchecker.rs\<close>, \<open>secp_fast.rs\<close>): the digests that signatures
    commit to, their caches, the signature checker of a transaction input and \<open>check_input_scripts\<close>.
    The digests bind what they should, and the caches are transparent. libsecp256k1 is the record
    \<open>secp\<close>.
  \<^item> Signet (\<open>signet.rs\<close>): the block challenge of the signet network.
  \<^item> Check, Check_Props (\<open>check.rs\<close>): the block and transaction checks that need no UTXO set.
    A block hash determines the block, and coinbases are distinct across heights (BIP34).
  \<^item> Coin_Cache, Swiftsync (\<open>connect.rs\<close>, \<open>swiftsync.rs\<close>): the cache of clean coins with
    its eviction loop, coin tags and their wrapping sum, the hints file.
  \<^item> Utxo, Utxo_View, Utxo_Ops, Utxo_Reach, Coin_View, Utxo_Props (\<open>connect.rs\<close>): \<open>UtxoSet\<close>,
    a map of pending coins over a flush in flight, epoch files, a flat mirror, a backend behind the clean
    cache and a snapshot, or over the set an overlay was opened on. Utxo has the operations, Utxo_View the
    one map of coins such a set stands for and its invariant, Utxo_Ops that every operation keeps the
    invariant and acts on the map, Utxo_Reach an inductive relation over all operations (with the worker's
    steps in between) that pairs a set with the maps of it and of the sets below it. Coin_View is the
    interface connecting relies on, a locale interpreted on the set.
  \<^item> Connect, Connect_View, Connect_Block, Connect_Supply, Connect_Sample, Connect_Props
    (\<open>connect.rs\<close>): \<open>connect_block\<close> and \<open>disconnect_block\<close>. Connect_View and Connect_Block
    show what they do to the map of coins, Connect_Supply adds up what its coins are worth, Connect_Props
    states the properties of one block and of every history of connected and disconnected blocks.

  \<^bold>\<open>Not modelled.\<close> The databases and files behind the UTXO set (\<open>store.rs\<close>, \<open>coinsdb.rs\<close>, \<open>runs.rs\<close>,
  \<open>sortedrun.rs\<close>, \<open>flatmap.rs\<close>, \<open>hashstore.rs\<close>, \<open>utxo_snapshot.rs\<close>)
  are maps of what was written to them; a worker thread is a step that may fail. The activation of chains
  over them (\<open>chainstate.rs\<close>) is input and output for the most part; the header tree and block connection
  it composes are modelled. The batching of signatures and the advice it takes
  (\<open>sigbatch.rs\<close>, \<open>advice.rs\<close>, the deferred and capturing checkers of \<open>sigchecker.rs\<close> and
  what \<open>connect_block\<close> does when advice is given) wrap libsecp256k1, which is not in the repository.
  The experiments that synchronise without a UTXO set, the wallet formats (descriptors, miniscript, PSBT, signing,
  silent payments) and the other crates lie outside the validation rules. The floating-point difficulty,
  the hexadecimal text of 256-bit numbers and the timers serve the RPC only.
  The \<open>debug_assert\<close>s and the step counters of the tests change nothing a caller sees.
\<close>

end
